(* ===== verification/Prelude.thy ===== *)
theory Prelude
  imports Main "HOL-Library.Word"
begin

text \<open>
  What every component theory shares: the collections of rewrite rules, the model of the
  JavaScript strings the sources manipulate, the decimal reader behind \<open>Number(...)\<close> on a digit
  string, JavaScript's remainder, and generic lemmas on lists and options.

  \<^bold>\<open>Strings.\<close> A JavaScript string is a sequence of UTF-16 code units; it is modelled by
  Isabelle's \<open>string\<close>, a list of code units below 256. All the delimiters, keywords and character
  classes of the modelled sources lie in that range, \<open>length\<close> counts code units as
  \<open>String.length\<close> does, and white space, digits, word characters and case folding are
  defined as ECMAScript defines them on that range (so the no-break space \<open>0xA0\<close> is white space and
  \<open>0xC0\<close>..\<open>0xDE\<close> fold to lower case).

  \<^bold>\<open>Numbers.\<close> The sources use JavaScript numbers only as integers (times in milliseconds, counts,
  lengths) in the modelled code; they are \<open>int\<close> or \<open>nat\<close>, which is exact below \<open>2^53\<close>.
\<close>

named_theorems js_simps \<open>rewrite rules for JavaScript string primitives\<close>
named_theorems cal_simps \<open>rewrite rules of the civil calendar\<close>
named_theorems outbox_simps \<open>rewrite rules of the delivery store\<close>
named_theorems sched_simps \<open>rewrite rules of the scheduler\<close>

section \<open>Character classes\<close>

abbreviation char_code :: "char \<Rightarrow> nat" where
  "char_code c \<equiv> of_char c"

definition is_digit :: "char \<Rightarrow> bool" where
  "is_digit c \<longleftrightarrow> 48 \<le> char_code c \<and> char_code c \<le> 57"

definition is_upper :: "char \<Rightarrow> bool" where
  "is_upper c \<longleftrightarrow> 65 \<le> char_code c \<and> char_code c \<le> 90"

definition is_lower :: "char \<Rightarrow> bool" where
  "is_lower c \<longleftrightarrow> 97 \<le> char_code c \<and> char_code c \<le> 122"

definition is_alpha :: "char \<Rightarrow> bool" where
  "is_alpha c \<longleftrightarrow> is_upper c \<or> is_lower c"

text \<open>\<open>\w\<close> of a regular expression.\<close>

definition is_word :: "char \<Rightarrow> bool" where
  "is_word c \<longleftrightarrow> is_alpha c \<or> is_digit c \<or> c = CHR ''_''"

text \<open>\<open>\s\<close> of a regular expression, and what \<open>trim\<close> removes.\<close>

definition is_space :: "char \<Rightarrow> bool" where
  "is_space c \<longleftrightarrow> (9 \<le> char_code c \<and> char_code c \<le> 13) \<or> char_code c = 32 \<or> char_code c = 160"

definition lower_char :: "char \<Rightarrow> char" where
  "lower_char c =
     (if is_upper c \<or> (192 \<le> char_code c \<and> char_code c \<le> 222 \<and> char_code c \<noteq> 215)
      then char_of (char_code c + 32) else c)"

section \<open>String primitives\<close>

definition to_lower :: "string \<Rightarrow> string" where
  "to_lower s = map lower_char s"

definition trim_start :: "string \<Rightarrow> string" where
  "trim_start s = dropWhile is_space s"

definition trim_end :: "string \<Rightarrow> string" where
  "trim_end s = rev (dropWhile is_space (rev s))"

definition trim :: "string \<Rightarrow> string" where
  "trim s = trim_end (trim_start s)"

fun starts_with :: "'a list \<Rightarrow> 'a list \<Rightarrow> bool" where
  "starts_with [] s = True"
| "starts_with (p # ps) [] = False"
| "starts_with (p # ps) (c # s) = (p = c \<and> starts_with ps s)"

definition ends_with :: "'a list \<Rightarrow> 'a list \<Rightarrow> bool" where
  "ends_with p s = starts_with (rev p) (rev s)"

fun includes_str :: "'a list \<Rightarrow> 'a list \<Rightarrow> bool" where
  "includes_str p [] = (p = [])"
| "includes_str p (c # s) = (starts_with p (c # s) \<or> includes_str p s)"

text \<open>\<open>s.split(sep)\<close> for a one-character separator: always at least one piece.\<close>

fun split_on :: "'a \<Rightarrow> 'a list \<Rightarrow> 'a list list" where
  "split_on c [] = [[]]"
| "split_on c (x # xs) =
     (if x = c then [] # split_on c xs
      else (case split_on c xs of [] \<Rightarrow> [[x]] | w # ws \<Rightarrow> (x # w) # ws))"

text \<open>\<open>s.split(/\s+/).filter(part => part !== "")\<close>: the maximal runs of non-space characters.\<close>

fun words_acc :: "string \<Rightarrow> string \<Rightarrow> string list" where
  "words_acc [] [] = []"
| "words_acc (a # acc) [] = [rev (a # acc)]"
| "words_acc acc (c # s) =
     (if is_space c then (if acc = [] then words_acc [] s else rev acc # words_acc [] s)
      else words_acc (c # acc) s)"

definition split_ws :: "string \<Rightarrow> string list" where
  "split_ws s = words_acc [] s"

text \<open>\<open>parts.join(sep)\<close>.\<close>

fun join_with :: "'a list \<Rightarrow> 'a list list \<Rightarrow> 'a list" where
  "join_with sep [] = []"
| "join_with sep [w] = w"
| "join_with sep (w # ws) = w @ sep @ join_with sep ws"

text \<open>\<open>/^\d+$/\<close> and \<open>Number\<close> of a digit string.\<close>

definition all_digits :: "string \<Rightarrow> bool" where
  "all_digits s \<longleftrightarrow> s \<noteq> [] \<and> list_all is_digit s"

definition digit_val :: "char \<Rightarrow> nat" where
  "digit_val c = char_code c - 48"

fun num_acc :: "nat \<Rightarrow> string \<Rightarrow> nat" where
  "num_acc n [] = n"
| "num_acc n (c # s) = num_acc (10 * n + digit_val c) s"

definition to_number :: "string \<Rightarrow> nat" where
  "to_number s = num_acc 0 s"

text \<open>\<open>String(n)\<close> of a natural number.\<close>

function nat_str :: "nat \<Rightarrow> string" where
  "nat_str n = (if n < 10 then [char_of (48 + n)] else nat_str (n div 10) @ [char_of (48 + n mod 10)])"
  by pat_completeness auto
termination
  by (relation "measure (\<lambda>n. n)") auto

declare nat_str.simps [simp del]

text \<open>The index of the first occurrence of an element (\<open>indexOf\<close>), \<open>None\<close> for -1.\<close>

fun index_of :: "'a \<Rightarrow> 'a list \<Rightarrow> nat option" where
  "index_of a [] = None"
| "index_of a (x # xs) = (if x = a then Some 0 else map_option Suc (index_of a xs))"

text \<open>JavaScript's \<open>%\<close>: the sign of the dividend.\<close>

definition js_rem :: "int \<Rightarrow> int \<Rightarrow> int" where
  "js_rem a b = sgn a * (\<bar>a\<bar> mod \<bar>b\<bar>)"

section \<open>Results\<close>

text \<open>A thrown \<open>ConfigError\<close> is \<open>Inl code\<close>, a returned value \<open>Inr v\<close>.\<close>

type_synonym error_code = string
type_synonym 'a result = "error_code + 'a"

definition bind_result :: "'a result \<Rightarrow> ('a \<Rightarrow> 'b result) \<Rightarrow> 'b result" where
  "bind_result r f = (case r of Inl e \<Rightarrow> Inl e | Inr x \<Rightarrow> f x)"

lemma bind_result_simps [simp]:
  "bind_result (Inl e) f = Inl e"
  "bind_result (Inr x) f = f x"
  by (simp_all add: bind_result_def)

lemma bind_result_eq_Inr:
  "bind_result r f = Inr y \<longleftrightarrow> (\<exists>x. r = Inr x \<and> f x = Inr y)"
  by (cases r) auto

section \<open>Lemmas on the string primitives\<close>

lemma starts_with_iff: "starts_with p s \<longleftrightarrow> (\<exists>r. s = p @ r)"
  by (induction p s rule: starts_with.induct) auto

lemma starts_with_append [simp]: "starts_with p (p @ r)"
  by (auto simp: starts_with_iff)

lemma includes_iff: "includes_str p s \<longleftrightarrow> (\<exists>l r. s = l @ p @ r)"
proof (induction p s rule: includes_str.induct)
  case (1 p)
  then show ?case by auto
next
  case (2 p c s)
  have "(\<exists>l r. c # s = l @ p @ r) \<longleftrightarrow> (\<exists>r. c # s = p @ r) \<or> (\<exists>l r. s = l @ p @ r)"
    by (metis append_Cons append_Nil neq_Nil_conv list.inject)
  with 2 show ?case by (auto simp: starts_with_iff)
qed

lemma dropWhile_idem: "dropWhile P (dropWhile P xs) = dropWhile P xs"
  by (induction xs) auto

lemma dropWhile_all: "dropWhile P xs = [] \<longleftrightarrow> (\<forall>x \<in> set xs. P x)"
  by (induction xs) auto

lemma trim_end_Nil [simp]: "trim_end [] = []"
  by (simp add: trim_end_def)

lemma trim_end_snoc:
  "trim_end (s @ [c]) = (if is_space c then trim_end s else s @ [c])"
  by (simp add: trim_end_def)

lemma trim_end_Cons_not_space: "\<not> is_space c \<Longrightarrow> trim_end (c # s) = c # trim_end s"
  by (induction s rule: rev_induct)
     (simp_all add: trim_end_snoc append_Cons [symmetric] del: append_Cons,
      simp add: trim_end_def)

lemma trim_end_idem: "trim_end (trim_end s) = trim_end s"
  by (simp add: trim_end_def dropWhile_idem)

lemma trim_start_trim_end:
  "trim_start (trim_end (trim_start s)) = trim_end (trim_start s)"
proof (cases "trim_start s")
  case Nil
  then show ?thesis by (simp only: Nil) (simp add: trim_start_def)
next
  case (Cons c t)
  then have "\<not> is_space c"
    by (metis hd_dropWhile list.distinct(1) list.sel(1) trim_start_def)
  with Cons show ?thesis
    by (simp add: trim_end_Cons_not_space trim_start_def)
qed

lemma trim_idem [js_simps]: "trim (trim s) = trim s"
  by (simp add: trim_def trim_start_trim_end trim_end_idem)

lemma trim_no_space [js_simps]:
  assumes "\<forall>c \<in> set s. \<not> is_space c"
  shows "trim s = s"
proof -
  have "dropWhile is_space s = s"
    using assms by (cases s) auto
  moreover have "dropWhile is_space (rev s) = rev s"
    using assms by (cases "rev s") (auto simp: rev_eq_Cons_iff)
  ultimately show ?thesis
    by (simp add: trim_def trim_start_def trim_end_def)
qed

lemma split_on_not_Nil [simp]: "split_on c xs \<noteq> []"
  by (cases xs) (auto split: list.splits)

lemma join_split_on: "join_with [c] (split_on c xs) = xs"
proof (induction xs)
  case Nil
  then show ?case by simp
next
  case (Cons x xs)
  obtain w ws where ws: "split_on c xs = w # ws"
    by (meson neq_Nil_conv split_on_not_Nil)
  show ?case
  proof (cases "x = c")
    case True
    with Cons ws show ?thesis by simp
  next
    case False
    with Cons ws show ?thesis by (cases ws) auto
  qed
qed

lemma split_on_no_sep: "c \<notin> set xs \<Longrightarrow> split_on c xs = [xs]"
  by (induction xs) auto

lemma split_on_append:
  "c \<notin> set xs \<Longrightarrow> split_on c (xs @ c # ys) = xs # split_on c ys"
  by (induction xs) auto

lemma split_on_pieces: "w \<in> set (split_on c xs) \<Longrightarrow> c \<notin> set w"
proof (induction xs arbitrary: w)
  case Nil
  then show ?case by simp
next
  case (Cons x xs)
  obtain v vs where vs: "split_on c xs = v # vs"
    by (meson neq_Nil_conv split_on_not_Nil)
  with Cons show ?case by (auto split: if_splits)
qed

lemma join_with_Cons: "ws \<noteq> [] \<Longrightarrow> join_with sep (w # ws) = w @ sep @ join_with sep ws"
  by (cases ws) auto

lemma split_on_join_with:
  assumes "ws \<noteq> []" and "\<forall>w \<in> set ws. c \<notin> set w"
  shows "split_on c (join_with [c] ws) = ws"
  using assms
proof (induction ws)
  case Nil
  then show ?case by simp
next
  case (Cons w ws)
  show ?case
  proof (cases "ws = []")
    case True
    with Cons show ?thesis by (simp add: split_on_no_sep)
  next
    case False
    with Cons show ?thesis
      by (simp add: join_with_Cons split_on_append)
  qed
qed

lemma index_of_Some:
  "index_of a xs = Some i \<Longrightarrow> i < length xs \<and> xs ! i = a \<and> a \<notin> set (take i xs)"
  by (induction xs arbitrary: i) (auto split: if_splits)

lemma index_of_None: "index_of a xs = None \<longleftrightarrow> a \<notin> set xs"
  by (induction xs) auto

lemma to_number_Nil [simp]: "to_number [] = 0"
  by (simp add: to_number_def)

lemma num_acc_eq: "num_acc n s = n * 10 ^ length s + num_acc 0 s"
proof (induction s arbitrary: n)
  case Nil
  then show ?case by simp
next
  case (Cons c s)
  show ?case
    by (simp only: num_acc.simps Cons [of "10 * n + digit_val c"] Cons [of "10 * 0 + digit_val c"])
       (simp add: algebra_simps)
qed

lemma num_acc_append: "num_acc n (s @ t) = num_acc (num_acc n s) t"
  by (induction s arbitrary: n) auto

lemma digit_char: "n < 10 \<Longrightarrow> char_code (char_of (48 + n)) = 48 + n"
  by (simp add: of_char_of)

lemma nat_str_number: "to_number (nat_str n) = n"
proof (induction n rule: nat_str.induct)
  case (1 n)
  show ?case
  proof (cases "n < 10")
    case True
    then show ?thesis by (simp add: nat_str.simps to_number_def digit_val_def digit_char)
  next
    case False
    with 1 show ?thesis
      by (subst nat_str.simps) (simp add: to_number_def num_acc_append digit_val_def digit_char)
  qed
qed

lemma nat_str_digits: "c \<in> set (nat_str n) \<Longrightarrow> is_digit c"
proof (induction n rule: nat_str.induct)
  case (1 n)
  then show ?case
    by (subst (asm) (2) nat_str.simps) (auto simp: is_digit_def digit_char split: if_splits)
qed

lemma is_digit_not_space: "is_digit c \<Longrightarrow> \<not> is_space c"
  by (auto simp: is_digit_def is_space_def)

lemma words_acc_no_space:
  assumes "\<forall>c \<in> set acc. \<not> is_space c" and "w \<in> set (words_acc acc s)"
  shows "w \<noteq> [] \<and> (\<forall>c \<in> set w. \<not> is_space c)"
  using assms
proof (induction s arbitrary: acc)
  case Nil
  then show ?case by (cases acc) auto
next
  case (Cons c s)
  have "w = rev acc \<and> acc \<noteq> [] \<or> w \<in> set (words_acc [] s)" if "is_space c"
    using Cons.prems(2) that by (cases acc) auto
  moreover have "w \<in> set (words_acc (c # acc) s)" if "\<not> is_space c"
    using Cons.prems(2) that by (cases acc) auto
  ultimately show ?case
    using Cons.IH [of "[]"] Cons.IH [of "c # acc"] Cons.prems(1)
    by (cases "is_space c") (auto simp: Cons.prems)
qed

lemma split_ws_word: "w \<in> set (split_ws s) \<Longrightarrow> w \<noteq> [] \<and> (\<forall>c \<in> set w. \<not> is_space c)"
  unfolding split_ws_def by (rule words_acc_no_space [of "[]"]) simp_all

lemma js_rem_nonneg [simp]: "0 \<le> a \<Longrightarrow> 0 < b \<Longrightarrow> js_rem a b = a mod b"
  by (cases "a = 0") (auto simp: js_rem_def)

end
