(* ===== verification/Calendar.thy ===== *)
theory Calendar
  imports Prelude
begin

text \<open>
  Civil time. The first part models what the sources use of the language's \<open>Date\<close>: the proleptic
  Gregorian day number of ECMAScript's \<open>MakeDay\<close>, \<open>Date.UTC\<close> with its normalisation of out-of-range
  month and day arguments and its reading of the years 0..99, and the \<open>getUTC\<close> accessors. The second
  part models \<open>packages/core/src/schedule/zone.ts\<close>: \<open>partsOf\<close>/\<open>fieldsAt\<close>, \<open>offsetAt\<close> and \<open>instantFrom\<close>.

  A time zone is data the runtime ships (the IANA database behind \<open>Intl.DateTimeFormat\<close>), so it is a
  parameter: the function from an instant to the zone's UTC offset in milliseconds.
  \<open>formatToParts\<close> then shows the civil fields of \<open>instant + offset\<close>, cut to the second.
\<close>

section \<open>The proleptic Gregorian calendar\<close>

definition leap :: "int \<Rightarrow> bool" where
  "leap y \<longleftrightarrow> y mod 4 = 0 \<and> (y mod 100 \<noteq> 0 \<or> y mod 400 = 0)"

text \<open>The day number of 1 January (1 January 1970 is day 0).\<close>

definition day_from_year :: "int \<Rightarrow> int" where
  "day_from_year y =
     365 * (y - 1970) + (y - 1969) div 4 - (y - 1901) div 100 + (y - 1601) div 400"

text \<open>Days of the year before month \<open>m\<close> (0-based).\<close>

definition cum_days :: "bool \<Rightarrow> int \<Rightarrow> int" where
  "cum_days lp m =
     (if m \<le> 0 then 0 else if m = 1 then 31
      else (if lp then 1 else 0) +
        (if m = 2 then 59 else if m = 3 then 90 else if m = 4 then 120 else if m = 5 then 151
         else if m = 6 then 181 else if m = 7 then 212 else if m = 8 then 243
         else if m = 9 then 273 else if m = 10 then 304 else if m = 11 then 334 else 365))"

text \<open>Month of a day of the year (both 0-based).\<close>

definition month_of_yday :: "bool \<Rightarrow> int \<Rightarrow> int" where
  "month_of_yday lp n =
     (if n < cum_days lp 1 then 0 else if n < cum_days lp 2 then 1
      else if n < cum_days lp 3 then 2 else if n < cum_days lp 4 then 3
      else if n < cum_days lp 5 then 4 else if n < cum_days lp 6 then 5
      else if n < cum_days lp 7 then 6 else if n < cum_days lp 8 then 7
      else if n < cum_days lp 9 then 8 else if n < cum_days lp 10 then 9
      else if n < cum_days lp 11 then 10 else 11)"

definition make_day :: "int \<Rightarrow> int \<Rightarrow> int \<Rightarrow> int" where
  "make_day y m d =
     (let ym = y + m div 12; mn = m mod 12
      in day_from_year ym + cum_days (leap ym) mn + d - 1)"

text \<open>The largest year whose 1 January is not after the day: an estimate, corrected by one.\<close>

definition year_of_day :: "int \<Rightarrow> int" where
  "year_of_day n =
     (let y = 1970 + (n * 400) div 146097
      in if n < day_from_year y then y - 1
         else if day_from_year (y + 1) \<le> n then y + 1 else y)"

text \<open>Year, month (0-based) and day of the month of a day number.\<close>

definition civil_of_day :: "int \<Rightarrow> int \<times> int \<times> int" where
  "civil_of_day n =
     (let y = year_of_day n; yd = n - day_from_year y; m = month_of_yday (leap y) yd
      in (y, m, yd - cum_days (leap y) m + 1))"

definition month_len :: "int \<Rightarrow> int \<Rightarrow> int" where
  "month_len y m = cum_days (leap y) m - cum_days (leap y) (m - 1)"

definition valid_date :: "int \<Rightarrow> int \<Rightarrow> int \<Rightarrow> bool" where
  "valid_date y m d \<longleftrightarrow> 1 \<le> m \<and> m \<le> 12 \<and> 1 \<le> d \<and> d \<le> month_len y m"

definition weekday_of_day :: "int \<Rightarrow> int" where
  "weekday_of_day n = (n + 4) mod 7"

abbreviation ms_per_day :: int where
  "ms_per_day \<equiv> 86400000"

text \<open>\<open>Date.UTC\<close>: the years 0..99 mean 1900..1999.\<close>

definition full_year :: "int \<Rightarrow> int" where
  "full_year y = (if 0 \<le> y \<and> y \<le> 99 then 1900 + y else y)"

definition date_utc :: "int \<Rightarrow> int \<Rightarrow> int \<Rightarrow> int \<Rightarrow> int \<Rightarrow> int \<Rightarrow> int" where
  "date_utc y m d h mi s =
     make_day (full_year y) m d * ms_per_day + h * 3600000 + mi * 60000 + s * 1000"

subsection \<open>The day number is a bijection with the valid dates\<close>

lemma int_div_Suc:
  assumes "0 < (k::int)"
  shows "(x + 1) div k = x div k + (if (x + 1) mod k = 0 then 1 else 0)"
proof -
  define q r where "q = x div k" and "r = x mod k"
  have x: "x = k * q + r" and r: "0 \<le> r" "r < k"
    using assms by (simp_all add: q_def r_def)
  show ?thesis
  proof (cases "r + 1 = k")
    case True
    then have "x + 1 = k * (q + 1)" by (simp add: x algebra_simps)
    then show ?thesis using assms by (simp add: q_def)
  next
    case False
    then have "x + 1 = k * q + (r + 1)" "0 \<le> r + 1" "r + 1 < k" using x r by auto
    from int_div_pos_eq [OF this] int_mod_pos_eq [OF this] r show ?thesis
      by (simp add: q_def)
  qed
qed

lemma leap_mods:
  "(y::int) mod 400 = 0 \<Longrightarrow> y mod 100 = 0" "(y::int) mod 100 = 0 \<Longrightarrow> y mod 4 = 0"
  using dvd_trans [of 100 400 y] dvd_trans [of 4 100 y]
  by (auto simp: mod_eq_0_iff_dvd)

lemma leap_count:
  "(C \<Longrightarrow> B) \<Longrightarrow> (B \<Longrightarrow> A) \<Longrightarrow>
   (n::int) + 365 + (if A then 1 else 0) - (if B then 1 else 0) + (if C then 1 else 0) =
   n + (if A \<and> (\<not> B \<or> C) then 366 else 365)"
  by (cases A; cases B; cases C) simp_all

lemma day_from_year_Suc: "day_from_year (y + 1) = day_from_year y + (if leap y then 366 else 365)"
proof -
  have m: "(y - 1969 + 1) mod 4 = y mod 4" "(y - 1901 + 1) mod 100 = y mod 100"
    "(y - 1601 + 1) mod 400 = y mod 400"
    using mod_mult_self1 [of y "- 492" 4] mod_mult_self1 [of y "- 19" 100]
      mod_mult_self1 [of y "- 4" 400] by simp_all
  have "day_from_year (y + 1) = 365 * (y - 1970) + 365 + (y - 1969 + 1) div 4
      - (y - 1901 + 1) div 100 + (y - 1601 + 1) div 400"
    by (simp add: day_from_year_def)
  also have "\<dots> = day_from_year y + 365 + (if y mod 4 = 0 then 1 else 0)
      - (if y mod 100 = 0 then 1 else 0) + (if y mod 400 = 0 then 1 else 0)"
    by (simp only: int_div_Suc [of 4 "y - 1969", simplified m, OF zero_less_numeral]
        int_div_Suc [of 100 "y - 1901", simplified m, OF zero_less_numeral]
        int_div_Suc [of 400 "y - 1601", simplified m, OF zero_less_numeral])
       (simp add: day_from_year_def)
  also have "\<dots> = day_from_year y + (if leap y then 366 else 365)"
    unfolding leap_def by (rule leap_count) (rule leap_mods, assumption)+
  finally show ?thesis .
qed

lemma day_from_year_less: "y < z \<Longrightarrow> day_from_year y < day_from_year z"
proof (induction z rule: int_gr_induct [where k = y])
  case base
  show ?case using day_from_year_Suc [of y] by (simp split: if_splits)
next
  case (step z)
  then show ?case using day_from_year_Suc [of z] by (simp split: if_splits)
qed

lemma day_from_year_unique:
  assumes "day_from_year y \<le> n" "n < day_from_year (y + 1)"
    and "day_from_year z \<le> n" "n < day_from_year (z + 1)"
  shows "y = z"
proof (rule ccontr)
  assume "y \<noteq> z"
  then have "y + 1 \<le> z \<or> z + 1 \<le> y" by auto
  then show False
    using assms day_from_year_less [of "y + 1" z] day_from_year_less [of "z + 1" y]
    by (cases "y + 1 = z \<or> z + 1 = y") auto
qed

lemma int_div_bounds: "0 < (k::int) \<Longrightarrow> k * (x div k) \<le> x \<and> x < k * (x div k) + k"
  using mult_div_mod_eq [of k x] pos_mod_bound [of k x] pos_mod_sign [of k x] by linarith

lemma year_of_day_bounds:
  "day_from_year (year_of_day n) \<le> n \<and> n < day_from_year (year_of_day n + 1)"
proof -
  define q where "q = (n * 400) div 146097"
  have q: "146097 * q \<le> n * 400" "n * 400 < 146097 * q + 146097"
    unfolding q_def using int_div_bounds [of 146097 "n * 400"] by simp_all
  have "day_from_year (1970 + q - 1) = 365 * q - 365 + q div 4 - (q + 68) div 100 + (q + 368) div 400"
    by (simp add: day_from_year_def algebra_simps)
  then have lo: "day_from_year (1970 + q - 1) \<le> n"
    using q int_div_bounds [of 4 q] int_div_bounds [of 100 "q + 68"]
      int_div_bounds [of 400 "q + 368"] by linarith
  have "day_from_year (1970 + q + 2) =
      365 * q + 730 + (q + 3) div 4 - (q + 71) div 100 + (q + 371) div 400"
    by (simp add: day_from_year_def algebra_simps)
  then have hi: "n < day_from_year (1970 + q + 2)"
    using q int_div_bounds [of 4 "q + 3"] int_div_bounds [of 100 "q + 71"]
      int_div_bounds [of 400 "q + 371"] by linarith
  show ?thesis
    unfolding year_of_day_def Let_def q_def [symmetric]
    using lo hi by (auto simp: add.commute)
qed

lemma year_of_day_eq:
  "day_from_year y \<le> n \<Longrightarrow> n < day_from_year (y + 1) \<Longrightarrow> year_of_day n = y"
  using day_from_year_unique year_of_day_bounds by blast

lemma cum_days_12 [simp]: "cum_days lp 12 = (if lp then 366 else 365)"
  by (simp add: cum_days_def)

lemma int_1_12: "1 \<le> (m::int) \<Longrightarrow> m \<le> 12 \<Longrightarrow>
    m = 1 \<or> m = 2 \<or> m = 3 \<or> m = 4 \<or> m = 5 \<or> m = 6 \<or>
    m = 7 \<or> m = 8 \<or> m = 9 \<or> m = 10 \<or> m = 11 \<or> m = 12"
  by presburger

lemma month_of_yday_bounds:
  assumes "0 \<le> n" "n < (if lp then 366 else 365)"
  defines "m \<equiv> month_of_yday lp n"
  shows "0 \<le> m \<and> m \<le> 11 \<and> cum_days lp m \<le> n \<and> n < cum_days lp (m + 1)"
  using assms(1,2) unfolding m_def month_of_yday_def cum_days_def
  by (auto split: if_splits)

lemma month_of_yday_eq:
  assumes "1 \<le> m" "m \<le> 12" "cum_days lp (m - 1) \<le> n" "n < cum_days lp m"
  shows "month_of_yday lp n = m - 1"
  using int_1_12 [OF assms(1,2)] assms(3,4) unfolding month_of_yday_def cum_days_def
  by (auto split: if_splits)

lemma cum_days_mono:
  assumes "1 \<le> m" "m \<le> 12"
  shows "0 \<le> cum_days lp (m - 1)" and "cum_days lp m \<le> (if lp then 366 else 365)"
  using int_1_12 [OF assms] unfolding cum_days_def by auto

lemma make_day_valid:
  assumes "1 \<le> m" "m \<le> 12"
  shows "make_day y (m - 1) d = day_from_year y + cum_days (leap y) (m - 1) + d - 1"
proof -
  have "(m - 1) div 12 = 0" "(m - 1) mod 12 = m - 1" using assms by auto
  then show ?thesis by (simp add: make_day_def)
qed

lemma civil_make_day [cal_simps]:
  assumes "valid_date y m d"
  shows "civil_of_day (make_day y (m - 1) d) = (y, m - 1, d)"
proof -
  let ?n = "make_day y (m - 1) d"
  from assms have m: "1 \<le> m" "m \<le> 12" and d: "1 \<le> d" "d \<le> month_len y m"
    by (auto simp: valid_date_def)
  note n = make_day_valid [OF m, of y d]
  have yd: "cum_days (leap y) (m - 1) \<le> ?n - day_from_year y"
    "?n - day_from_year y < cum_days (leap y) m"
    using d n by (auto simp: month_len_def)
  have "year_of_day ?n = y"
    using yd cum_days_mono [OF m, of "leap y"] day_from_year_Suc [of y]
    by (intro year_of_day_eq) auto
  moreover have "month_of_yday (leap y) (?n - day_from_year y) = m - 1"
    using yd by (rule month_of_yday_eq [OF m])
  ultimately show ?thesis
    unfolding civil_of_day_def Let_def by (simp add: n)
qed

lemma civil_of_day_valid:
  assumes "civil_of_day n = (y, m, d)"
  shows "valid_date y (m + 1) d \<and> make_day y m d = n"
proof -
  have y: "y = year_of_day n" and
    m: "m = month_of_yday (leap y) (n - day_from_year y)" and
    d: "d = n - day_from_year y - cum_days (leap y) m + 1"
    using assms by (auto simp: civil_of_day_def Let_def)
  have "0 \<le> n - day_from_year y" "n - day_from_year y < (if leap y then 366 else 365)"
    using year_of_day_bounds [of n] day_from_year_Suc [of y] unfolding y [symmetric] by auto
  note b = month_of_yday_bounds [OF this, folded m]
  have "make_day y (m + 1 - 1) d = n"
    using b d by (subst make_day_valid) auto
  then show ?thesis
    using b d by (simp add: valid_date_def month_len_def)
qed

lemma make_day_next_month:
  assumes "valid_date y m d"
  shows "make_day y (m - 1) d < make_day y m 1"
    and "m = 12 \<Longrightarrow> make_day y m 1 = make_day (y + 1) 0 1"
    and "make_day y m 1 = make_day y (m - 1) 1 + month_len y m"
proof -
  from assms have m: "1 \<le> m" "m \<le> 12" and d: "d \<le> month_len y m"
    by (auto simp: valid_date_def)
  show step: "make_day y m 1 = make_day y (m - 1) 1 + month_len y m"
  proof (cases "m = 12")
    case True
    then show ?thesis
      using day_from_year_Suc [of y]
      by (simp add: make_day_def Let_def month_len_def cum_days_def)
  next
    case False
    then have "m div 12 = 0" "m mod 12 = m" using m by auto
    then show ?thesis
      using make_day_valid [OF m, of y 1]
      by (simp add: make_day_def Let_def month_len_def)
  qed
  show "make_day y (m - 1) d < make_day y m 1"
    using step d make_day_valid [OF m, of y 1] make_day_valid [OF m, of y d] by simp
  show "make_day y m 1 = make_day (y + 1) 0 1" if "m = 12"
    using that by (simp add: make_day_def)
qed

lemma valid_date_first: "1 \<le> m \<Longrightarrow> m \<le> 12 \<Longrightarrow> valid_date y m 1"
  by (drule (1) int_1_12) (elim disjE; simp add: valid_date_def month_len_def cum_days_def)

lemma valid_date_unique:
  assumes "valid_date y m d" "valid_date y' m' d'"
    and "make_day y (m - 1) d = make_day y' (m' - 1) d'"
  shows "y = y' \<and> m = m' \<and> d = d'"
proof -
  have "(y, m - 1, d) = (y', m' - 1, d')"
    using civil_make_day [OF assms(1)] civil_make_day [OF assms(2)] unfolding assms(3) by (rule trans [OF sym])
  then show ?thesis by simp
qed

end
