(* ===== verification/Zone.thy ===== *)
theory Zone
  imports Calendar
begin

text \<open>
  \<open>packages/core/src/schedule/zone.ts\<close>: reading a zone's wall clock at an instant, and finding the
  instant at which it shows given fields. A zone is the function from an instant to its UTC offset
  (see \<open>Calendar\<close>); \<open>formatterFor\<close>'s cache has no observable effect and an unknown zone name is
  refused by the caller (\<open>parseSchedule\<close> in \<open>Schedule\<close>), so the definitions here start from the
  offset function.
\<close>

type_synonym zone = "int \<Rightarrow> int"

record zoned_fields =
  fyear :: int
  fmonth :: int
  fday :: int
  fhour :: int
  fminute :: int
  fsecond :: int
  fweekday :: int

text \<open>\<open>formatToParts(new Date(t))\<close> in UTC, and \<open>new Date(t).getUTCDay()\<close> on the date shown.\<close>

definition civil_fields :: "int \<Rightarrow> zoned_fields" where
  "civil_fields t =
     (let n = t div ms_per_day; r = t mod ms_per_day; (y, m, d) = civil_of_day n
      in \<lparr>fyear = y, fmonth = m + 1, fday = d, fhour = r div 3600000,
          fminute = (r div 60000) mod 60, fsecond = (r div 1000) mod 60,
          fweekday = weekday_of_day (make_day (full_year y) m d)\<rparr>)"

definition partsOf :: "zone \<Rightarrow> int \<Rightarrow> zoned_fields" where
  "partsOf off t = civil_fields (t + off t)"

definition fieldsAt :: "zone \<Rightarrow> int \<Rightarrow> zoned_fields" where
  "fieldsAt off t = partsOf off t"

definition offsetAt :: "zone \<Rightarrow> int \<Rightarrow> int" where
  "offsetAt off t =
     (let f = partsOf off t
      in date_utc (fyear f) (fmonth f - 1) (fday f) (fhour f) (fminute f) (fsecond f)
         - (t - js_rem t 1000))"

text \<open>The comparison of six fields \<open>instantFrom\<close> makes twice.\<close>

definition reads_as :: "zoned_fields \<Rightarrow> int \<Rightarrow> int \<Rightarrow> int \<Rightarrow> int \<Rightarrow> int \<Rightarrow> int \<Rightarrow> bool" where
  "reads_as f y m d h mi s \<longleftrightarrow>
     fyear f = y \<and> fmonth f = m \<and> fday f = d \<and> fhour f = h \<and> fminute f = mi \<and> fsecond f = s"

definition instantFrom :: "zone \<Rightarrow> int \<Rightarrow> int \<Rightarrow> int \<Rightarrow> int \<Rightarrow> int \<Rightarrow> int \<Rightarrow> int option" where
  "instantFrom off y m d h mi s =
     (let asIfUtc = date_utc y (m - 1) d h mi s;
          guess = asIfUtc - offsetAt off asIfUtc;
          candidate = asIfUtc - offsetAt off guess
      in if \<not> reads_as (partsOf off candidate) y m d h mi s then None
         else
           let earlier = candidate - 3600000
           in if reads_as (partsOf off earlier) y m d h mi s then Some earlier else Some candidate)"

section \<open>What the reading promises\<close>

definition valid_time :: "int \<Rightarrow> int \<Rightarrow> int \<Rightarrow> bool" where
  "valid_time h mi s \<longleftrightarrow> 0 \<le> h \<and> h \<le> 23 \<and> 0 \<le> mi \<and> mi \<le> 59 \<and> 0 \<le> s \<and> s \<le> 59"

lemma full_year_id [simp]: "100 \<le> y \<Longrightarrow> full_year y = y"
  by (simp add: full_year_def)

lemma civil_fields_reads:
  "reads_as (civil_fields t) y m d h mi s \<longleftrightarrow>
     civil_of_day (t div ms_per_day) = (y, m - 1, d) \<and>
     h = t mod ms_per_day div 3600000 \<and> mi = t mod ms_per_day div 60000 mod 60 \<and>
     s = t mod ms_per_day div 1000 mod 60"
  by (auto simp: civil_fields_def reads_as_def Let_def split: prod.splits)

lemma day_time_split:
  fixes n h mi s :: int
  assumes "valid_time h mi s"
  defines "t \<equiv> n * ms_per_day + h * 3600000 + mi * 60000 + s * 1000"
  shows "t div ms_per_day = n" and "t mod ms_per_day div 3600000 = h"
    and "t mod ms_per_day div 60000 mod 60 = mi" and "t mod ms_per_day div 1000 mod 60 = s"
proof -
  define r where "r = h * 3600000 + mi * 60000 + s * 1000"
  have v: "0 \<le> h" "h \<le> 23" "0 \<le> mi" "mi \<le> 59" "0 \<le> s" "s \<le> 59"
    using assms(1) by (auto simp: valid_time_def)
  have t: "t = ms_per_day * n + r" by (simp add: t_def r_def)
  have r: "0 \<le> r" "r < ms_per_day" using v by (simp_all add: r_def)
  show "t div ms_per_day = n" using t r by (rule int_div_pos_eq)
  have m: "t mod ms_per_day = r" using t r by (rule int_mod_pos_eq)
  show "t mod ms_per_day div 3600000 = h"
    unfolding m by (rule int_div_pos_eq [of _ _ _ "mi * 60000 + s * 1000"]) (use v in \<open>simp_all add: r_def\<close>)
  have "r div 60000 = h * 60 + mi"
    by (rule int_div_pos_eq [of _ _ _ "s * 1000"]) (use v in \<open>simp_all add: r_def\<close>)
  then show "t mod ms_per_day div 60000 mod 60 = mi" using v m by simp
  have "r div 1000 = (h * 60 + mi) * 60 + s"
    by (rule int_div_pos_eq [of _ _ _ 0]) (use v in \<open>simp_all add: r_def\<close>)
  then show "t mod ms_per_day div 1000 mod 60 = s"
    using v m int_mod_pos_eq [of "(h * 60 + mi) * 60 + s" 60 "h * 60 + mi" s] by simp
qed

lemma civil_fields_date_utc:
  assumes "valid_date y m d" "valid_time h mi s" "100 \<le> y"
  shows "reads_as (civil_fields (date_utc y (m - 1) d h mi s)) y m d h mi s"
  unfolding civil_fields_reads date_utc_def full_year_id [OF assms(3)]
  by (simp add: day_time_split [OF assms(2)] civil_make_day [OF assms(1)] del: times_divide_eq_right)

text \<open>
  Every second is read back: the fields of an instant are valid, and \<open>Date.UTC\<close> of them is the
  instant cut to the second.
\<close>

lemma day_time_join:
  fixes t :: int
  defines "r \<equiv> t mod ms_per_day"
  shows "t div ms_per_day * ms_per_day + r div 3600000 * 3600000 + (r div 60000 mod 60) * 60000
     + (r div 1000 mod 60) * 1000 = t - t mod 1000"
    and "valid_time (r div 3600000) (r div 60000 mod 60) (r div 1000 mod 60)"
proof -
  have r: "0 \<le> r" "r < ms_per_day" by (simp_all add: r_def)
  have a: "r div 1000 div 60 = r div 60000" "r div 60000 div 60 = r div 3600000"
    using zdiv_zmult2_eq [of 60 r 1000] zdiv_zmult2_eq [of 60 r 60000] by simp_all
  have b: "r div 1000 = 60 * (r div 60000) + r div 1000 mod 60"
    "r div 60000 = 60 * (r div 3600000) + r div 60000 mod 60"
    using mult_div_mod_eq [of 60 "r div 1000"] mult_div_mod_eq [of 60 "r div 60000"]
    unfolding a by simp_all
  have c: "r = 1000 * (r div 1000) + r mod 1000" by simp
  have d: "r mod 1000 = t mod 1000" unfolding r_def by (rule mod_mod_cancel) simp
  have "t = ms_per_day * (t div ms_per_day) + r" unfolding r_def by simp
  with b c d show "t div ms_per_day * ms_per_day + r div 3600000 * 3600000
     + (r div 60000 mod 60) * 60000 + (r div 1000 mod 60) * 1000 = t - t mod 1000"
    by linarith
  have m60: "x mod 60 \<le> 59" for x :: int
    using pos_mod_bound [of 60 x] by linarith
  have "r div 3600000 \<le> 23" using r by linarith
  then show "valid_time (r div 3600000) (r div 60000 mod 60) (r div 1000 mod 60)"
    using r m60 by (simp add: valid_time_def pos_imp_zdiv_nonneg_iff)
qed

lemma reads_as_valid:
  assumes "reads_as (civil_fields t) y m d h mi s"
  shows "valid_date y m d \<and> valid_time h mi s \<and>
    make_day y (m - 1) d * ms_per_day + h * 3600000 + mi * 60000 + s * 1000 = t - t mod 1000"
proof -
  from assms have c: "civil_of_day (t div ms_per_day) = (y, m - 1, d)"
    and h: "h = t mod ms_per_day div 3600000" and mi: "mi = t mod ms_per_day div 60000 mod 60"
    and s: "s = t mod ms_per_day div 1000 mod 60"
    by (auto simp: civil_fields_reads)
  from civil_of_day_valid [OF c] have "valid_date y m d" "make_day y (m - 1) d = t div ms_per_day"
    by simp_all
  then show ?thesis
    using day_time_join [of t] by (simp add: h mi s)
qed

lemma reads_as_self:
  "reads_as f (fyear f) (fmonth f) (fday f) (fhour f) (fminute f) (fsecond f)"
  by (simp add: reads_as_def)

text \<open>Whatever the zone does, the instant \<open>instantFrom\<close> returns shows the fields asked for.\<close>

lemma instantFrom_reads:
  "instantFrom off y m d h mi s = Some t \<Longrightarrow> reads_as (partsOf off t) y m d h mi s"
  by (auto simp: instantFrom_def Let_def split: if_splits)

section \<open>Zones with a fixed offset\<close>

text \<open>In a zone without transitions (UTC, or any fixed offset of whole seconds) the two passes agree.\<close>

definition fixed_zone :: "int \<Rightarrow> zone" where
  "fixed_zone k = (\<lambda>t. k)"

definition valid_offset :: "int \<Rightarrow> bool" where
  "valid_offset k \<longleftrightarrow> k mod 1000 = 0 \<and> \<bar>k\<bar> \<le> ms_per_day"

lemma year_of_day_ge: "day_from_year y \<le> n \<Longrightarrow> y \<le> year_of_day n"
  using year_of_day_bounds [of n] day_from_year_less [of "year_of_day n + 1" y]
  by (cases "year_of_day n + 1 = y") fastforce+

lemma fyear_civil_fields: "fyear (civil_fields t) = year_of_day (t div ms_per_day)"
  by (simp add: civil_fields_def civil_of_day_def Let_def split: prod.splits)

lemma fyear_recent:
  "- (2 * ms_per_day) \<le> t \<Longrightarrow> 1969 \<le> fyear (civil_fields t)"
  "- (800 * ms_per_day) \<le> t \<Longrightarrow> 1967 \<le> fyear (civil_fields t)"
proof -
  assume "- (2 * ms_per_day) \<le> t"
  then have "- 2 \<le> t div ms_per_day" by linarith
  then have "day_from_year 1969 \<le> t div ms_per_day" by (simp add: day_from_year_def)
  then show "1969 \<le> fyear (civil_fields t)" unfolding fyear_civil_fields by (rule year_of_day_ge)
next
  assume "- (800 * ms_per_day) \<le> t"
  then have "- 800 \<le> t div ms_per_day" by linarith
  then have "day_from_year 1967 \<le> t div ms_per_day" by (simp add: day_from_year_def)
  then show "1967 \<le> fyear (civil_fields t)" unfolding fyear_civil_fields by (rule year_of_day_ge)
qed

lemma js_rem_multiple: "t mod 1000 = 0 \<Longrightarrow> js_rem t 1000 = 0"
  by (simp add: js_rem_def mod_eq_0_iff_dvd)

lemma mod_0_add_diff:
  "(a::int) mod k = 0 \<Longrightarrow> b mod k = 0 \<Longrightarrow> (a + b) mod k = 0 \<and> (a - b) mod k = 0"
  by (simp add: mod_eq_0_iff_dvd)

lemma offsetAt_fixed:
  assumes "k mod 1000 = 0" "t mod 1000 = 0" "- (800 * ms_per_day) \<le> t + k"
  shows "offsetAt (fixed_zone k) t = k"
proof -
  let ?f = "civil_fields (t + k)"
  have "make_day (fyear ?f) (fmonth ?f - 1) (fday ?f) * ms_per_day + fhour ?f * 3600000
     + fminute ?f * 60000 + fsecond ?f * 1000 = (t + k) - (t + k) mod 1000"
    using reads_as_valid [OF reads_as_self [of ?f]] by simp
  moreover have "(t + k) mod 1000 = 0"
    using mod_0_add_diff [OF assms(2,1)] by blast
  ultimately show ?thesis
    using fyear_recent(2) [OF assms(3)] js_rem_multiple [OF assms(2)]
    by (simp add: offsetAt_def Let_def date_utc_def partsOf_def fixed_zone_def)
qed

lemma date_utc_recent:
  assumes "valid_date y m d" "valid_time h mi s" "1969 \<le> y"
  shows "- (365 * ms_per_day) \<le> date_utc y (m - 1) d h mi s" and "date_utc y (m - 1) d h mi s mod 1000 = 0"
proof -
  from assms have m: "1 \<le> m" "m \<le> 12" "1 \<le> d" by (auto simp: valid_date_def)
  have "day_from_year 1969 \<le> day_from_year y"
    using day_from_year_less [of 1969 y] assms(3) by (cases "y = 1969") auto
  then have "- 365 \<le> make_day y (m - 1) d"
    using make_day_valid [OF m(1,2), of y d] cum_days_mono(1) [OF m(1,2), of "leap y"] m(3)
    by (simp add: day_from_year_def)
  then show "- (365 * ms_per_day) \<le> date_utc y (m - 1) d h mi s"
    using assms(2,3) by (simp add: date_utc_def valid_time_def)
  have "date_utc y (m - 1) d h mi s =
      1000 * (make_day (full_year y) (m - 1) d * 86400 + h * 3600 + mi * 60 + s)"
    by (simp add: date_utc_def)
  then show "date_utc y (m - 1) d h mi s mod 1000 = 0" by simp
qed

lemma instantFrom_fixed:
  assumes "valid_offset k" "valid_date y m d" "valid_time h mi s" "1969 \<le> y"
  shows "instantFrom (fixed_zone k) y m d h mi s = Some (date_utc y (m - 1) d h mi s - k)"
proof -
  let ?u = "date_utc y (m - 1) d h mi s"
  note u = date_utc_recent [OF assms(2-4)]
  have k: "k mod 1000 = 0" "- ms_per_day \<le> k" "k \<le> ms_per_day"
    using assms(1) by (auto simp: valid_offset_def)
  have o1: "offsetAt (fixed_zone k) ?u = k"
    using k u by (intro offsetAt_fixed) auto
  have "(?u - k) mod 1000 = 0" using mod_0_add_diff [OF u(2) k(1)] by blast
  then have o2: "offsetAt (fixed_zone k) (?u - k) = k"
    using k u by (intro offsetAt_fixed) auto
  have c: "partsOf (fixed_zone k) (?u - k) = civil_fields ?u"
    and e: "partsOf (fixed_zone k) (?u - k - 3600000) = civil_fields (?u - 3600000)"
    by (simp_all add: partsOf_def fixed_zone_def)
  have "reads_as (civil_fields ?u) y m d h mi s"
    using assms by (intro civil_fields_date_utc) auto
  moreover have "\<not> reads_as (civil_fields (?u - 3600000)) y m d h mi s"
  proof
    assume "reads_as (civil_fields (?u - 3600000)) y m d h mi s"
    from reads_as_valid [OF this] have "?u = ?u - 3600000 - (?u - 3600000) mod 1000"
      using assms(4) by (simp add: date_utc_def)
    moreover have "(?u - 3600000) mod 1000 = 0"
      using mod_0_add_diff [OF u(2), of 3600000] by simp
    ultimately show False by simp
  qed
  ultimately show ?thesis
    unfolding instantFrom_def Let_def o1 o2 c e by simp
qed

end
