(* ===== verification/Cron.thy ===== *)
theory Cron
  imports Zone
begin

text \<open>
  \<open>packages/core/src/schedule/cron.ts\<close>: the parser of 5- and 6-field cron expressions and the search
  for the next instant an expression names. A JavaScript \<open>Set\<close> of numbers is the list of its elements
  in insertion order (\<open>set_add\<close> keeps it distinct). Every \<open>fail(...)\<close> of the source is the error
  code \<open>schedule_cron_malformed\<close> it carries.

  The search loop of \<open>nextCron\<close> takes fuel, one unit per iteration, because it makes progress on real
  dates only; \<open>cron_loop_enough\<close> in \<open>Cron_Search\<close> shows that the fuel \<open>nextCron\<close> passes never
  runs out. This theory ends with the ranges of what the parser accepts; the correctness of the
  search is in \<open>Cron_Search\<close>.
\<close>

section \<open>The expression\<close>

definition MONTH_NAMES :: "string list" where
  "MONTH_NAMES = [''jan'', ''feb'', ''mar'', ''apr'', ''may'', ''jun'', ''jul'', ''aug'', ''sep'', ''oct'',
     ''nov'', ''dec'']"

definition DAY_NAMES :: "string list" where
  "DAY_NAMES = [''sun'', ''mon'', ''tue'', ''wed'', ''thu'', ''fri'', ''sat'']"

definition CRON_HORIZON_DAYS :: int where
  "CRON_HORIZON_DAYS = 1462"

record cron_spec =
  seconds :: "int list"
  minutes :: "int list"
  hours :: "int list"
  daysOfMonth :: "int list"
  months :: "int list"
  daysOfWeek :: "int list"
  domRestricted :: bool
  dowRestricted :: bool
  cron_source :: string

record field_range =
  range_min :: int
  range_max :: int
  range_names :: "string list option"
  range_label :: string

definition FIELD_second :: field_range where
  "FIELD_second = \<lparr>range_min = 0, range_max = 59, range_names = None, range_label = ''second''\<rparr>"

definition FIELD_minute :: field_range where
  "FIELD_minute = \<lparr>range_min = 0, range_max = 59, range_names = None, range_label = ''minute''\<rparr>"

definition FIELD_hour :: field_range where
  "FIELD_hour = \<lparr>range_min = 0, range_max = 23, range_names = None, range_label = ''hour''\<rparr>"

definition FIELD_dayOfMonth :: field_range where
  "FIELD_dayOfMonth =
     \<lparr>range_min = 1, range_max = 31, range_names = None, range_label = ''day of month''\<rparr>"

definition FIELD_month :: field_range where
  "FIELD_month =
     \<lparr>range_min = 1, range_max = 12, range_names = Some MONTH_NAMES, range_label = ''month''\<rparr>"

definition FIELD_dayOfWeek :: field_range where
  "FIELD_dayOfWeek =
     \<lparr>range_min = 0, range_max = 7, range_names = Some DAY_NAMES, range_label = ''day of week''\<rparr>"

definition cron_fail :: "'a result" where
  "cron_fail = Inl ''schedule_cron_malformed''"

text \<open>\<open>range.names?.indexOf(token.toLowerCase())\<close>, then the number.\<close>

definition fieldValue :: "string \<Rightarrow> field_range \<Rightarrow> int result" where
  "fieldValue token rng =
     (case Option.bind (range_names rng) (index_of (to_lower token)) of
        Some i \<Rightarrow> Inr (int i + (if range_names rng = Some MONTH_NAMES then 1 else 0))
      | None \<Rightarrow>
          if \<not> all_digits token then cron_fail
          else
            let v = int (to_number token)
            in if v < range_min rng \<or> v > range_max rng then cron_fail else Inr v)"

text \<open>\<open>values.add(value)\<close>, and the loop \<open>for (let value = from; value <= to; value += step)\<close>.\<close>

definition set_add :: "'a \<Rightarrow> 'a list \<Rightarrow> 'a list" where
  "set_add x xs = (if x \<in> set xs then xs else xs @ [x])"

function add_steps :: "int \<Rightarrow> int \<Rightarrow> int \<Rightarrow> int list \<Rightarrow> int list" where
  "add_steps v to step xs =
     (if v \<le> to \<and> 0 < step then add_steps (v + step) to step (set_add v xs) else xs)"
  by pat_completeness auto
termination
  by (relation "measure (\<lambda>(v, to, step, xs). nat (to + 1 - v))") auto

declare add_steps.simps [simp del]

text \<open>
  One entry of the comma list: \<open>token.split("/", 2)\<close> keeps the first two pieces only, as does
  \<open>spec.split("-", 2)\<close>.
\<close>

definition parsePart :: "field_range \<Rightarrow> string \<Rightarrow> (int list \<times> bool) \<Rightarrow> (int list \<times> bool) result" where
  "parsePart rng part acc =
     (let token = trim part; pieces = split_on CHR ''/'' token; spec = hd pieces;
          stepText = (case tl pieces of [] \<Rightarrow> None | x # _ \<Rightarrow> Some x);
          step = (case stepText of None \<Rightarrow> 1 | Some st \<Rightarrow> int (to_number st))
      in if token = [] then cron_fail
         else if (case stepText of None \<Rightarrow> False | Some st \<Rightarrow> \<not> all_digits st \<or> step < 1) then cron_fail
         else if spec = ''*'' then
           Inr (add_steps (range_min rng) (range_max rng) step (fst acc),
                if step = 1 then False else snd acc)
         else if CHR ''-'' \<in> set spec then
           (let bounds = split_on CHR ''-'' spec
            in bind_result (fieldValue (hd bounds) rng) (\<lambda>from.
               bind_result (fieldValue (hd (tl bounds)) rng) (\<lambda>to.
                 if from > to then cron_fail
                 else Inr (add_steps from to step (fst acc), snd acc))))
         else
           bind_result (fieldValue spec rng) (\<lambda>from.
             Inr (add_steps from (if stepText = None then from else range_max rng) step (fst acc),
                  snd acc)))"

fun parseParts :: "field_range \<Rightarrow> string list \<Rightarrow> (int list \<times> bool) \<Rightarrow> (int list \<times> bool) result" where
  "parseParts rng [] acc = Inr acc"
| "parseParts rng (p # ps) acc = bind_result (parsePart rng p acc) (parseParts rng ps)"

definition parseField :: "string \<Rightarrow> field_range \<Rightarrow> (int list \<times> bool) result" where
  "parseField text rng =
     bind_result (parseParts rng (split_on CHR '','' text) ([], True)) (\<lambda>(values, restricted).
       if values = [] then cron_fail else Inr (values, restricted))"

text \<open>\<open>folded.add(day === 7 ? 0 : day)\<close> over the day-of-week values.\<close>

fun fold_days :: "int list \<Rightarrow> int list \<Rightarrow> int list" where
  "fold_days [] acc = acc"
| "fold_days (d # ds) acc = fold_days ds (set_add (if d = 7 then 0 else d) acc)"

definition parseCron :: "string \<Rightarrow> cron_spec result" where
  "parseCron expr =
     (let src = trim expr
      in if starts_with ''@'' src then cron_fail
         else
           let parts = split_ws src
           in if length parts \<noteq> 5 \<and> length parts \<noteq> 6 then cron_fail
              else
                let fs = (if length parts = 6 then parts else ''0'' # parts)
                in bind_result (parseField (fs ! 0) FIELD_second) (\<lambda>sec.
                   bind_result (parseField (fs ! 1) FIELD_minute) (\<lambda>mins.
                   bind_result (parseField (fs ! 2) FIELD_hour) (\<lambda>hour.
                   bind_result (parseField (fs ! 3) FIELD_dayOfMonth) (\<lambda>dom.
                   bind_result (parseField (fs ! 4) FIELD_month) (\<lambda>mon.
                   bind_result (parseField (fs ! 5) FIELD_dayOfWeek) (\<lambda>dow.
                     Inr \<lparr>seconds = fst sec, minutes = fst mins, hours = fst hour,
                          daysOfMonth = fst dom, months = fst mon,
                          daysOfWeek = fold_days (fst dow) [],
                          domRestricted = snd dom, dowRestricted = snd dow,
                          cron_source = src\<rparr>)))))))"

section \<open>The search\<close>

definition dayMatches :: "cron_spec \<Rightarrow> int \<Rightarrow> int \<Rightarrow> bool" where
  "dayMatches spec day weekday =
     (let byDate = day \<in> set (daysOfMonth spec); byWeek = weekday \<in> set (daysOfWeek spec)
      in if domRestricted spec \<and> dowRestricted spec then byDate \<or> byWeek
         else if domRestricted spec then byDate
         else if dowRestricted spec then byWeek
         else True)"

definition addDays :: "int \<Rightarrow> int \<Rightarrow> int \<Rightarrow> int \<Rightarrow> int \<times> int \<times> int" where
  "addDays y m d count =
     (let (y', m', d') = civil_of_day (make_day (full_year y) (m - 1) (d + count))
      in (y', m' + 1, d'))"

definition weekdayOf :: "int \<Rightarrow> int \<Rightarrow> int \<Rightarrow> int" where
  "weekdayOf y m d = weekday_of_day (make_day (full_year y) (m - 1) d)"

text \<open>The first \<open>Some\<close> of a loop whose body returns or continues.\<close>

fun first_some :: "('a \<Rightarrow> 'b option) \<Rightarrow> 'a list \<Rightarrow> 'b option" where
  "first_some f [] = None"
| "first_some f (x # xs) = (case f x of Some y \<Rightarrow> Some y | None \<Rightarrow> first_some f xs)"

text \<open>The three nested loops over one day; \<open>None\<close> is falling through to the next day.\<close>

definition day_search :: "cron_spec \<Rightarrow> zone \<Rightarrow> zoned_fields \<Rightarrow> bool \<Rightarrow> int \<Rightarrow> int \<Rightarrow> int \<Rightarrow> int option" where
  "day_search spec off start isFirst y m d =
     first_some (\<lambda>hour.
       if isFirst \<and> hour < fhour start then None
       else first_some (\<lambda>minute.
         if isFirst \<and> hour = fhour start \<and> minute < fminute start then None
         else first_some (\<lambda>second.
           if isFirst \<and> hour = fhour start \<and> minute = fminute start \<and> second < fsecond start
           then None
           else instantFrom off y m d hour minute second)
         (sort (seconds spec)))
       (sort (minutes spec)))
     (sort (hours spec))"

text \<open>The \<open>while\<close> loop: \<open>Some r\<close> when it returned \<open>r\<close>, \<open>None\<close> when the fuel ran out.\<close>

fun cron_loop ::
  "nat \<Rightarrow> cron_spec \<Rightarrow> zone \<Rightarrow> zoned_fields \<Rightarrow> int \<Rightarrow> bool \<Rightarrow> int \<times> int \<times> int \<Rightarrow> int option option" where
  "cron_loop 0 spec off start deadline isFirst ymd = None"
| "cron_loop (Suc fuel) spec off start deadline isFirst (y, m, d) =
     (if date_utc y (m - 1) d 0 0 0 \<le> deadline then
        if m \<notin> set (months spec) then
          cron_loop fuel spec off start deadline False
            (if m = 12 then (y + 1, 1, 1) else (y, m + 1, 1))
        else if \<not> dayMatches spec d (weekdayOf y m d) then
          cron_loop fuel spec off start deadline False (addDays y m d 1)
        else (case day_search spec off start isFirst y m d of
            Some t \<Rightarrow> Some (Some t)
          | None \<Rightarrow> cron_loop fuel spec off start deadline False (addDays y m d 1))
      else Some None)"

definition cron_run :: "cron_spec \<Rightarrow> int \<Rightarrow> zone \<Rightarrow> int option option" where
  "cron_run spec after off =
     (let start = fieldsAt off (after + 1000);
          deadline = date_utc (fyear start) (fmonth start - 1) (fday start + CRON_HORIZON_DAYS) 0 0 0
      in cron_loop 1464 spec off start deadline True (fyear start, fmonth start, fday start))"

definition nextCron :: "cron_spec \<Rightarrow> int \<Rightarrow> zone \<Rightarrow> int option" where
  "nextCron spec after off = (case cron_run spec after off of Some r \<Rightarrow> r | None \<Rightarrow> None)"

definition cronSatisfiable :: "cron_spec \<Rightarrow> int \<Rightarrow> zone \<Rightarrow> bool" where
  "cronSatisfiable spec from off = (nextCron spec from off \<noteq> None)"

section \<open>Well-formed expressions\<close>

definition in_range :: "int \<Rightarrow> int \<Rightarrow> int list \<Rightarrow> bool" where
  "in_range lo hi xs \<longleftrightarrow> xs \<noteq> [] \<and> (\<forall>x \<in> set xs. lo \<le> x \<and> x \<le> hi)"

definition wf_spec :: "cron_spec \<Rightarrow> bool" where
  "wf_spec spec \<longleftrightarrow>
     in_range 0 59 (seconds spec) \<and> in_range 0 59 (minutes spec) \<and> in_range 0 23 (hours spec) \<and>
     in_range 1 31 (daysOfMonth spec) \<and> in_range 1 12 (months spec) \<and> in_range 0 6 (daysOfWeek spec)"

lemma set_set_add [simp]: "set (set_add x xs) = insert x (set xs)"
  by (auto simp: set_add_def)

lemma set_add_distinct: "distinct xs \<Longrightarrow> distinct (set_add x xs)"
  by (simp add: set_add_def)

lemma add_steps_range:
  "lo \<le> v \<Longrightarrow> to \<le> hi \<Longrightarrow> \<forall>x \<in> set xs. lo \<le> x \<and> x \<le> hi \<Longrightarrow>
   \<forall>x \<in> set (add_steps v to step xs). lo \<le> x \<and> x \<le> hi"
proof (induction v to step xs rule: add_steps.induct)
  case (1 v to step xs)
  show ?case
  proof (cases "v \<le> to \<and> 0 < step")
    case True
    with 1 show ?thesis by (subst add_steps.simps) simp
  next
    case False
    then have "add_steps v to step xs = xs" by (subst add_steps.simps) auto
    with 1 show ?thesis by simp
  qed
qed

lemma add_steps_mono: "set xs \<subseteq> set (add_steps v to step xs)"
proof (induction v to step xs rule: add_steps.induct)
  case (1 v to step xs)
  then show ?case by (subst add_steps.simps) auto
qed

lemma add_steps_first: "v \<le> to \<Longrightarrow> 0 < step \<Longrightarrow> v \<in> set (add_steps v to step xs)"
  using add_steps_mono [of "set_add v xs" "v + step" to step] by (subst add_steps.simps) auto

lemma fieldValue_range:
  assumes "fieldValue token rng = Inr v"
    and "rng \<in> {FIELD_second, FIELD_minute, FIELD_hour, FIELD_dayOfMonth, FIELD_month, FIELD_dayOfWeek}"
  shows "range_min rng \<le> v \<and> v \<le> range_max rng"
proof (cases "Option.bind (range_names rng) (index_of (to_lower token))")
  case None
  with assms(1) show ?thesis
    by (auto simp: fieldValue_def cron_fail_def Let_def split: if_splits)
next
  case (Some i)
  then obtain ns where ns: "range_names rng = Some ns" "index_of (to_lower token) ns = Some i"
    by (cases "range_names rng") auto
  from index_of_Some [OF ns(2)] have "i < length ns" by simp
  with assms Some ns show ?thesis
    by (auto simp: fieldValue_def FIELD_second_def FIELD_minute_def FIELD_hour_def
        FIELD_dayOfMonth_def FIELD_month_def FIELD_dayOfWeek_def MONTH_NAMES_def DAY_NAMES_def)
qed

abbreviation cron_fields :: "field_range set" where
  "cron_fields \<equiv> {FIELD_second, FIELD_minute, FIELD_hour, FIELD_dayOfMonth, FIELD_month, FIELD_dayOfWeek}"

lemma parsePart_shape:
  assumes "rng \<in> cron_fields" "parsePart rng p acc = Inr acc'"
  obtains v to step where "fst acc' = add_steps v to step (fst acc)"
    and "range_min rng \<le> v" and "to \<le> range_max rng"
proof -
  define token where "token = trim p"
  define pieces where "pieces = split_on CHR ''/'' token"
  define stepText where "stepText = (case tl pieces of [] \<Rightarrow> None | x # _ \<Rightarrow> Some x)"
  define step where "step = (case stepText of None \<Rightarrow> 1 | Some st \<Rightarrow> int (to_number st))"
  note fv = fieldValue_range [OF _ assms(1)]
  show ?thesis
    using assms(2)
    unfolding parsePart_def Let_def token_def [symmetric] pieces_def [symmetric]
      stepText_def [symmetric] step_def [symmetric]
    by (auto simp: cron_fail_def bind_result_eq_Inr split: if_splits dest!: fv intro: that)
qed

lemma parseParts_range:
  assumes "rng \<in> cron_fields" "parseParts rng ps acc = Inr acc'"
    and "\<forall>x \<in> set (fst acc). range_min rng \<le> x \<and> x \<le> range_max rng"
  shows "\<forall>x \<in> set (fst acc'). range_min rng \<le> x \<and> x \<le> range_max rng"
  using assms(2,3)
proof (induction ps arbitrary: acc)
  case Nil
  then show ?case by simp
next
  case (Cons p ps)
  then obtain acc1 where 1: "parsePart rng p acc = Inr acc1" "parseParts rng ps acc1 = Inr acc'"
    by (auto simp: bind_result_eq_Inr)
  from parsePart_shape [OF assms(1) 1(1)] obtain v to step
    where "fst acc1 = add_steps v to step (fst acc)" "range_min rng \<le> v" "to \<le> range_max rng"
    by blast
  with add_steps_range [of "range_min rng" v to "range_max rng" "fst acc" step] Cons.prems(2)
  have "\<forall>x \<in> set (fst acc1). range_min rng \<le> x \<and> x \<le> range_max rng" by simp
  with 1(2) show ?case by (rule Cons.IH)
qed

lemma parseField_range:
  assumes "rng \<in> cron_fields" "parseField text rng = Inr r"
  shows "in_range (range_min rng) (range_max rng) (fst r)"
proof -
  from assms(2) have "parseParts rng (split_on CHR '','' text) ([], True) = Inr r" "fst r \<noteq> []"
    by (auto simp: parseField_def bind_result_eq_Inr cron_fail_def split: if_splits)
  with parseParts_range [OF assms(1) this(1)] show ?thesis by (simp add: in_range_def)
qed

lemma set_fold_days: "set (fold_days ds acc) = set acc \<union> (\<lambda>d. if d = 7 then 0 else d) ` set ds"
  by (induction ds arbitrary: acc) auto

lemma fold_days_range: "in_range 0 7 ds \<Longrightarrow> in_range 0 6 (fold_days ds [])"
proof -
  assume a: "in_range 0 7 ds"
  then obtain x where "x \<in> set ds" by (cases ds) (auto simp: in_range_def)
  then have "set (fold_days ds []) \<noteq> {}" by (auto simp: set_fold_days)
  moreover have "0 \<le> x \<and> x \<le> 6" if "x \<in> set (fold_days ds [])" for x
    using that a by (fastforce simp: set_fold_days in_range_def)
  ultimately show ?thesis by (auto simp: in_range_def)
qed

lemma parseCron_wf:
  assumes "parseCron expr = Inr spec"
  shows "wf_spec spec"
proof -
  from assms obtain fs sec mins hour dom mon dow where
    "parseField (fs ! 0) FIELD_second = Inr sec" "parseField (fs ! 1) FIELD_minute = Inr mins"
    "parseField (fs ! 2) FIELD_hour = Inr hour" "parseField (fs ! 3) FIELD_dayOfMonth = Inr dom"
    "parseField (fs ! 4) FIELD_month = Inr mon" "parseField (fs ! 5) FIELD_dayOfWeek = Inr dow"
    and spec: "spec = \<lparr>seconds = fst sec, minutes = fst mins, hours = fst hour,
                 daysOfMonth = fst dom, months = fst mon, daysOfWeek = fold_days (fst dow) [],
                 domRestricted = snd dom, dowRestricted = snd dow, cron_source = trim expr\<rparr>"
    unfolding parseCron_def Let_def cron_fail_def
    by (auto simp: bind_result_eq_Inr simp del: nth_Cons_0 nth_Cons_numeral split: if_splits)
  note r = this(1-6) [THEN parseField_range [rotated]]
  show ?thesis
    using r fold_days_range [of "fst dow"] unfolding spec wf_spec_def
    by (simp add: FIELD_second_def FIELD_minute_def FIELD_hour_def FIELD_dayOfMonth_def
        FIELD_month_def FIELD_dayOfWeek_def)
qed

end
