(* ===== verification/Cron_Search.thy ===== *)
theory Cron_Search
  imports Cron
begin

text \<open>
  The correctness of \<open>nextCron\<close>: in a zone without transitions it is the first instant after its
  argument that the expression names (\<open>nextCron_correct\<close>); in any zone it terminates and returns only
  instants the expression names; and two of its documented promises fail (\<open>cron_horizon_too_short\<close>,
  \<open>nextCron_fallback_not_after\<close>).

  The proof follows the loops: one slot of the three inner loops (\<open>slot\<close>), one day
  (\<open>day_search_found\<close>, \<open>day_search_missed\<close>), one step of the outer loop (\<open>cron_loop_step\<close>), the whole
  loop (\<open>cron_loop_result\<close>), over local times \<open>instant + offset\<close>.
\<close>

section \<open>The search is correct in a zone without transitions\<close>

lemma first_some_None: "first_some f xs = None \<longleftrightarrow> (\<forall>x \<in> set xs. f x = None)"
  by (induction xs) (auto split: option.splits)

lemma first_some_cong: "(\<And>x. x \<in> set xs \<Longrightarrow> f x = g x) \<Longrightarrow> first_some f xs = first_some g xs"
  by (induction xs) (auto split: option.splits)

lemma first_some_sorted:
  fixes xs :: "int list"
  assumes "sorted xs" "first_some f xs = Some t"
  shows "\<exists>x \<in> set xs. f x = Some t \<and> (\<forall>x' \<in> set xs. x' < x \<longrightarrow> f x' = None)"
  using assms
  by (induction xs) (auto split: option.splits)

definition tod :: "int \<Rightarrow> int \<Rightarrow> int \<Rightarrow> int" where
  "tod h mi s = h * 3600000 + mi * 60000 + s * 1000"

lemma tod_less:
  assumes "valid_time h mi s" "valid_time h' mi' s'"
  shows "tod h mi s < tod h' mi' s' \<longleftrightarrow>
     h < h' \<or> h = h' \<and> (mi < mi' \<or> mi = mi' \<and> s < s')"
  using assms unfolding tod_def valid_time_def by (cases h h' rule: linorder_cases; cases mi mi' rule: linorder_cases; auto)

lemma tod_bounds: "valid_time h mi s \<Longrightarrow> 0 \<le> tod h mi s \<and> tod h mi s < ms_per_day"
  by (auto simp: valid_time_def tod_def)

text \<open>What a search is given: a parsed expression, a real offset and a real time of day to start from.\<close>

definition searchable :: "cron_spec \<Rightarrow> int \<Rightarrow> zoned_fields \<Rightarrow> bool" where
  "searchable spec k start \<longleftrightarrow> wf_spec spec \<and> valid_offset k \<and>
     valid_time (fhour start) (fminute start) (fsecond start)"

definition start_tod :: "bool \<Rightarrow> zoned_fields \<Rightarrow> int" where
  "start_tod isFirst start = (if isFirst then tod (fhour start) (fminute start) (fsecond start) else 0)"

lemma start_tod_bounds:
  "searchable spec k start \<Longrightarrow> 0 \<le> start_tod isFirst start \<and> start_tod isFirst start < ms_per_day"
  using tod_bounds [of "fhour start" "fminute start" "fsecond start"]
  by (auto simp: searchable_def start_tod_def)

lemma spec_tod_bounds:
  assumes "wf_spec spec" "h \<in> set (hours spec)" "mi \<in> set (minutes spec)" "s \<in> set (seconds spec)"
  shows "0 \<le> tod h mi s \<and> tod h mi s < ms_per_day"
  using assms by (intro tod_bounds) (auto simp: wf_spec_def in_range_def valid_time_def)

text \<open>One slot of the three loops in a fixed zone, with the guards of the first day as one comparison.\<close>

definition slot :: "int \<Rightarrow> int \<Rightarrow> int \<Rightarrow> int \<Rightarrow> int \<Rightarrow> int option" where
  "slot from base h mi s = (if tod h mi s < from then None else Some (base + tod h mi s))"

lemma first_some_skip:
  "(if c then None else first_some f xs) = first_some (\<lambda>x. if c then None else f x) xs"
  by (cases c; induction xs) auto

lemma day_search_slots:
  assumes "searchable spec k start" "valid_date y m d" "1969 \<le> y"
  shows "day_search spec (fixed_zone k) start isFirst y m d =
    first_some (\<lambda>h. first_some (\<lambda>mi. first_some
      (slot (start_tod isFirst start) (make_day y (m - 1) d * ms_per_day - k) h mi)
      (sort (seconds spec))) (sort (minutes spec))) (sort (hours spec))"
  unfolding day_search_def first_some_skip
proof (intro first_some_cong)
  fix h mi s
  assume "h \<in> set (sort (hours spec))" "mi \<in> set (sort (minutes spec))"
    "s \<in> set (sort (seconds spec))"
  with assms(1) have v: "valid_time h mi s" and k: "valid_offset k"
    and st: "valid_time (fhour start) (fminute start) (fsecond start)"
    by (auto simp: searchable_def wf_spec_def in_range_def valid_time_def)
  have "instantFrom (fixed_zone k) y m d h mi s =
      Some (make_day y (m - 1) d * ms_per_day - k + tod h mi s)"
    using instantFrom_fixed [OF k assms(2) v assms(3)] assms(3)
    by (simp add: date_utc_def tod_def)
  then show "(if isFirst \<and> h < fhour start then None
      else if isFirst \<and> h = fhour start \<and> mi < fminute start then None
      else if isFirst \<and> h = fhour start \<and> mi = fminute start \<and> s < fsecond start then None
      else instantFrom (fixed_zone k) y m d h mi s) =
      slot (start_tod isFirst start) (make_day y (m - 1) d * ms_per_day - k) h mi s"
    using tod_less [OF v st] tod_bounds [OF v] by (auto simp: slot_def start_tod_def)
qed

text \<open>The least slot of the day is the one the loops return.\<close>

lemma first_slot_least:
  assumes "wf_spec spec"
    and "first_some (\<lambda>h. first_some (\<lambda>mi. first_some (slot from base h mi) (sort (seconds spec)))
      (sort (minutes spec))) (sort (hours spec)) = Some t"
  obtains h mi s where "h \<in> set (hours spec)" "mi \<in> set (minutes spec)" "s \<in> set (seconds spec)"
    and "t = base + tod h mi s" "from \<le> tod h mi s"
    and "\<forall>h' \<in> set (hours spec). \<forall>mi' \<in> set (minutes spec). \<forall>s' \<in> set (seconds spec).
       tod h' mi' s' < tod h mi s \<longrightarrow> tod h' mi' s' < from"
proof -
  let ?g = "slot from base"
  from first_some_sorted [OF _ assms(2)] obtain h where h: "h \<in> set (hours spec)"
    and fh: "first_some (\<lambda>mi. first_some (?g h mi) (sort (seconds spec))) (sort (minutes spec)) = Some t"
    and lh: "\<And>h'. h' \<in> set (hours spec) \<Longrightarrow> h' < h \<Longrightarrow>
        first_some (\<lambda>mi. first_some (?g h' mi) (sort (seconds spec))) (sort (minutes spec)) = None"
    by auto
  from first_some_sorted [OF _ fh] obtain mi where mi: "mi \<in> set (minutes spec)"
    and fm: "first_some (?g h mi) (sort (seconds spec)) = Some t"
    and lm: "\<And>mi'. mi' \<in> set (minutes spec) \<Longrightarrow> mi' < mi \<Longrightarrow>
        first_some (?g h mi') (sort (seconds spec)) = None"
    by auto
  from first_some_sorted [OF _ fm] obtain s where s: "s \<in> set (seconds spec)"
    and fs: "?g h mi s = Some t"
    and ls: "\<And>s'. s' \<in> set (seconds spec) \<Longrightarrow> s' < s \<Longrightarrow> ?g h mi s' = None"
    by auto
  have "tod h' mi' s' < from"
    if "h' \<in> set (hours spec)" "mi' \<in> set (minutes spec)" "s' \<in> set (seconds spec)"
      "tod h' mi' s' < tod h mi s" for h' mi' s'
  proof -
    have "valid_time h mi s" "valid_time h' mi' s'"
      using assms(1) h mi s that by (auto simp: wf_spec_def in_range_def valid_time_def)
    with that(4) have "h' < h \<or> h' = h \<and> (mi' < mi \<or> mi' = mi \<and> s' < s)"
      by (simp add: tod_less)
    then have "?g h' mi' s' = None"
      using lh [of h'] lm [of mi'] ls [of s'] that by (auto simp: first_some_None)
    then show ?thesis by (auto simp: slot_def split: if_splits)
  qed
  with h mi s fs show ?thesis by (intro that) (auto simp: slot_def split: if_splits)
qed

definition day_ok :: "cron_spec \<Rightarrow> int \<Rightarrow> bool" where
  "day_ok spec n =
     (let (y, m, d) = civil_of_day n
      in m + 1 \<in> set (months spec) \<and> dayMatches spec d (weekday_of_day n))"

definition tod_ok :: "cron_spec \<Rightarrow> int \<Rightarrow> bool" where
  "tod_ok spec r \<longleftrightarrow>
     (\<exists>h \<in> set (hours spec). \<exists>mi \<in> set (minutes spec). \<exists>s \<in> set (seconds spec). r = tod h mi s)"

text \<open>Whether the expression names the local time \<open>l\<close> (milliseconds of the wall clock).\<close>

definition names_local :: "cron_spec \<Rightarrow> int \<Rightarrow> bool" where
  "names_local spec l \<longleftrightarrow> day_ok spec (l div ms_per_day) \<and> tod_ok spec (l mod ms_per_day)"

text \<open>
  What a search from local time \<open>lb\<close> that gives up after day \<open>hz\<close> owes: the first named time at or
  after \<open>lb\<close>, or the absence of one up to the end of that day.
\<close>

definition search_result :: "cron_spec \<Rightarrow> int \<Rightarrow> int \<Rightarrow> int \<Rightarrow> int option \<Rightarrow> bool" where
  "search_result spec k lb hz r =
     (case r of
        Some t \<Rightarrow> names_local spec (t + k) \<and> lb \<le> t + k \<and> (t + k) div ms_per_day \<le> hz \<and>
          (\<forall>l. lb \<le> l \<and> l < t + k \<longrightarrow> \<not> names_local spec l)
      | None \<Rightarrow> \<forall>l. lb \<le> l \<and> l div ms_per_day \<le> hz \<longrightarrow> \<not> names_local spec l)"

lemma search_result_skip:
  assumes "search_result spec k lb' hz r" "lb \<le> lb'"
    and "\<And>l. lb \<le> l \<Longrightarrow> l < lb' \<Longrightarrow> \<not> names_local spec l"
  shows "search_result spec k lb hz r"
  using assms unfolding search_result_def
  by (cases r) (auto, (metis linorder_not_less order_trans)+)

lemma day_ok_date:
  assumes "valid_date y m d" "1969 \<le> y"
  shows "day_ok spec (make_day y (m - 1) d) \<longleftrightarrow>
    m \<in> set (months spec) \<and> dayMatches spec d (weekdayOf y m d)"
  using assms(2) by (simp add: day_ok_def civil_make_day [OF assms(1)] weekdayOf_def)

lemma day_ok_month:
  assumes "valid_date y m d" "m \<notin> set (months spec)"
    and "make_day y (m - 1) d \<le> n" "n < make_day y m 1"
  shows "\<not> day_ok spec n"
proof -
  from assms(1) have m: "1 \<le> m" "m \<le> 12" "1 \<le> d" by (auto simp: valid_date_def)
  define d' where "d' = n - make_day y (m - 1) 1 + 1"
  have n: "n = make_day y (m - 1) d'"
    using make_day_valid [OF m(1,2), of y 1] make_day_valid [OF m(1,2), of y d']
    by (simp add: d'_def)
  have "valid_date y m d'"
    using assms(3,4) m make_day_next_month(3) [OF assms(1)] make_day_valid [OF m(1,2), of y 1]
      make_day_valid [OF m(1,2), of y d]
    by (auto simp: valid_date_def d'_def)
  then show ?thesis
    using assms(2) by (simp add: day_ok_def n civil_make_day)
qed

lemma addDays_next:
  assumes "valid_date y m d" "1969 \<le> y" "addDays y m d 1 = (y', m', d')"
  shows "valid_date y' m' d'" and "1969 \<le> y'"
    and "make_day y' (m' - 1) d' = make_day y (m - 1) d + 1"
proof -
  from assms(1) have m: "1 \<le> m" "m \<le> 12" "1 \<le> d" by (auto simp: valid_date_def)
  obtain c where c: "civil_of_day (make_day y (m - 1) (d + 1)) = (y', c, d')" "m' = c + 1"
    using assms(2,3) by (auto simp: addDays_def Let_def split: prod.splits)
  from civil_of_day_valid [OF c(1)] c(2)
  have v: "valid_date y' m' d'" "make_day y' (m' - 1) d' = make_day y (m - 1) (d + 1)" by simp_all
  show "valid_date y' m' d'" by (rule v)
  show e: "make_day y' (m' - 1) d' = make_day y (m - 1) d + 1"
    using v(2) make_day_valid [OF m(1,2), of y d] make_day_valid [OF m(1,2), of y "d + 1"] by simp
  have "day_from_year 1969 \<le> day_from_year y"
    using day_from_year_less [of 1969 y] assms(2) by (cases "y = 1969") auto
  then have "day_from_year 1969 \<le> make_day y (m - 1) (d + 1)"
    using make_day_valid [OF m(1,2), of y "d + 1"] cum_days_mono(1) [OF m(1,2), of "leap y"] m(3)
    by simp
  then show "1969 \<le> y'"
    using year_of_day_ge c(1) by (fastforce simp: civil_of_day_def Let_def)
qed

lemma div_mod_day:
  fixes n l :: int
  assumes "n * ms_per_day \<le> l" "l < (n + 1) * ms_per_day"
  shows "l div ms_per_day = n" and "l mod ms_per_day = l - n * ms_per_day"
  using assms int_div_pos_eq [of l ms_per_day n "l - n * ms_per_day"]
    int_mod_pos_eq [of l ms_per_day n "l - n * ms_per_day"] by simp_all

lemma names_local_on_day:
  assumes "n * ms_per_day \<le> l" "l < (n + 1) * ms_per_day"
  shows "names_local spec l \<longleftrightarrow> day_ok spec n \<and>
    (\<exists>h \<in> set (hours spec). \<exists>mi \<in> set (minutes spec). \<exists>s \<in> set (seconds spec).
      l = n * ms_per_day + tod h mi s)"
proof -
  have "l - n * ms_per_day = x \<longleftrightarrow> l = n * ms_per_day + x" for x by linarith
  then show ?thesis unfolding names_local_def tod_ok_def div_mod_day [OF assms] by simp
qed

lemma no_name_in_month:
  assumes "valid_date y m d" "m \<notin> set (months spec)"
    and "make_day y (m - 1) d * ms_per_day \<le> l" "l < make_day y m 1 * ms_per_day"
  shows "\<not> names_local spec l"
proof -
  have "make_day y (m - 1) d \<le> l div ms_per_day"
    using zdiv_mono1 [OF assms(3), of ms_per_day] by simp
  moreover have "l div ms_per_day < make_day y m 1"
    using assms(4) int_div_bounds [of ms_per_day l] by simp
  ultimately show ?thesis
    using day_ok_month [OF assms(1,2)] by (simp add: names_local_def)
qed

lemma day_search_found:
  assumes "searchable spec k start" "valid_date y m d" "1969 \<le> y"
    and "m \<in> set (months spec)" "dayMatches spec d (weekdayOf y m d)" "make_day y (m - 1) d \<le> hz"
    and "day_search spec (fixed_zone k) start isFirst y m d = Some t"
  shows "search_result spec k (make_day y (m - 1) d * ms_per_day + start_tod isFirst start) hz (Some t)"
proof -
  define n where "n = make_day y (m - 1) d"
  define lb where "lb = n * ms_per_day + start_tod isFirst start"
  have wf: "wf_spec spec" using assms(1) by (simp add: searchable_def)
  from assms(7) [unfolded day_search_slots [OF assms(1-3)], folded n_def]
  obtain h mi s where hms: "h \<in> set (hours spec)" "mi \<in> set (minutes spec)" "s \<in> set (seconds spec)"
    and t: "t = n * ms_per_day - k + tod h mi s" and lo: "start_tod isFirst start \<le> tod h mi s"
    and least: "\<forall>h' \<in> set (hours spec). \<forall>mi' \<in> set (minutes spec). \<forall>s' \<in> set (seconds spec).
        tod h' mi' s' < tod h mi s \<longrightarrow> tod h' mi' s' < start_tod isFirst start"
    by (rule first_slot_least [OF wf]) (rule that)
  note b = spec_tod_bounds [OF wf hms] and sb = start_tod_bounds [OF assms(1), of isFirst]
  have tk: "n * ms_per_day \<le> t + k" "t + k < (n + 1) * ms_per_day"
    using t b by simp_all
  have "names_local spec (t + k)"
    unfolding names_local_on_day [OF tk]
    using day_ok_date [OF assms(2,3)] assms(4,5) hms t n_def by auto
  moreover have "\<not> names_local spec l" if l: "lb \<le> l" "l < t + k" for l
  proof
    assume "names_local spec l"
    moreover have "n * ms_per_day \<le> l" "l < (n + 1) * ms_per_day"
      using l sb tk lb_def by auto
    ultimately obtain h' mi' s' where "h' \<in> set (hours spec)" "mi' \<in> set (minutes spec)"
      "s' \<in> set (seconds spec)" "l = n * ms_per_day + tod h' mi' s'"
      by (auto simp: names_local_on_day)
    with least l t show False by (fastforce simp: lb_def)
  qed
  moreover have "lb \<le> t + k" using lo t by (simp add: lb_def)
  ultimately show ?thesis
    using div_mod_day(1) [OF tk] assms(6) by (simp add: search_result_def lb_def n_def)
qed

lemma day_search_missed:
  assumes "searchable spec k start" "valid_date y m d" "1969 \<le> y"
    and "day_search spec (fixed_zone k) start isFirst y m d = None"
    and "make_day y (m - 1) d * ms_per_day + start_tod isFirst start \<le> l"
    and "l < (make_day y (m - 1) d + 1) * ms_per_day"
  shows "\<not> names_local spec l"
proof
  assume n: "names_local spec l"
  have "make_day y (m - 1) d * ms_per_day \<le> l"
    using assms(5) start_tod_bounds [OF assms(1), of isFirst] by simp
  with n assms(6) obtain h mi s where hms: "h \<in> set (hours spec)" "mi \<in> set (minutes spec)"
    "s \<in> set (seconds spec)" "l = make_day y (m - 1) d * ms_per_day + tod h mi s"
    by (auto simp: names_local_on_day)
  with assms(4) [unfolded day_search_slots [OF assms(1-3)]]
  have "tod h mi s < start_tod isFirst start"
    by (fastforce simp: first_some_None slot_def split: if_splits)
  with hms(4) assms(5) show False by simp
qed

text \<open>One step of the loop to a later date, when nothing is named in between.\<close>

lemma cron_loop_step:
  assumes IH: "hz + 2 - make_day y' (m' - 1) d' \<le> int fuel \<Longrightarrow> 0 < fuel \<Longrightarrow>
      \<exists>r. cron_loop fuel spec (fixed_zone k) start dl False (y', m', d') = Some r \<and>
        search_result spec k (make_day y' (m' - 1) d' * ms_per_day + start_tod False start) hz r"
    and "lb < (n + 1) * ms_per_day" "n < make_day y' (m' - 1) d'" "n \<le> hz"
    and "hz + 2 - n \<le> int (Suc fuel)"
    and "\<And>l. lb \<le> l \<Longrightarrow> l < make_day y' (m' - 1) d' * ms_per_day \<Longrightarrow> \<not> names_local spec l"
  shows "\<exists>r. cron_loop fuel spec (fixed_zone k) start dl False (y', m', d') = Some r \<and>
    search_result spec k lb hz r"
proof -
  from IH assms(3-5) obtain r where
    "cron_loop fuel spec (fixed_zone k) start dl False (y', m', d') = Some r"
    "search_result spec k (make_day y' (m' - 1) d' * ms_per_day) hz r"
    by (auto simp: start_tod_def)
  moreover have "(n + 1) * ms_per_day \<le> make_day y' (m' - 1) d' * ms_per_day"
    using assms(3) by (intro mult_right_mono) auto
  ultimately show ?thesis
    using search_result_skip assms(2,6) by (meson less_le_trans less_imp_le)
qed

lemma cron_loop_result:
  assumes "searchable spec k start" "valid_date y m d" "1969 \<le> y"
    and "hz + 2 - make_day y (m - 1) d \<le> int fuel" "0 < fuel"
  shows "\<exists>r. cron_loop fuel spec (fixed_zone k) start (hz * ms_per_day) isFirst (y, m, d) = Some r \<and>
    search_result spec k (make_day y (m - 1) d * ms_per_day + start_tod isFirst start) hz r"
  using assms(2-)
proof (induction fuel arbitrary: y m d isFirst)
  case 0
  then show ?case by simp
next
  case (Suc fuel)
  define n where "n = make_day y (m - 1) d"
  define lb where "lb = n * ms_per_day + start_tod isFirst start"
  have lb: "n * ms_per_day \<le> lb" "lb < (n + 1) * ms_per_day"
    using start_tod_bounds [OF assms(1), of isFirst] by (auto simp: lb_def)
  have guard: "date_utc y (m - 1) d 0 0 0 \<le> hz * ms_per_day \<longleftrightarrow> n \<le> hz"
    using Suc.prems(2) by (simp add: date_utc_def n_def)
  obtain ay am ad where a: "addDays y m d 1 = (ay, am, ad)" by (cases "addDays y m d 1")
  note an = addDays_next [OF Suc.prems(1,2) a, folded n_def]
  note step = cron_loop_step [OF Suc.IH lb(2) _ _ Suc.prems(3) [folded n_def]]
  have day_step: "\<exists>r. cron_loop fuel spec (fixed_zone k) start (hz * ms_per_day) False (ay, am, ad) = Some r
      \<and> search_result spec k lb hz r"
    if "n \<le> hz" "\<And>l. lb \<le> l \<Longrightarrow> l < (n + 1) * ms_per_day \<Longrightarrow> \<not> names_local spec l"
    using that an by (intro step) auto
  consider (over) "\<not> n \<le> hz" | (month) "n \<le> hz" "m \<notin> set (months spec)"
    | (day) "n \<le> hz" "m \<in> set (months spec)" "\<not> dayMatches spec d (weekdayOf y m d)"
    | (search) "n \<le> hz" "m \<in> set (months spec)" "dayMatches spec d (weekdayOf y m d)" by blast
  then show ?case
  proof cases
    case over
    have "n \<le> l div ms_per_day" if "lb \<le> l" for l
      using that lb(1) zdiv_mono1 [of "n * ms_per_day" l ms_per_day] by simp
    with over have "search_result spec k lb hz None" by (force simp: search_result_def)
    with over guard show ?thesis by (simp add: lb_def n_def)
  next
    case month
    define y' m' where "y' = (if m = 12 then y + 1 else y)" and "m' = (if m = 12 then 1 else m + 1)"
    note nm = make_day_next_month [OF Suc.prems(1)]
    have e: "make_day y' (m' - 1) 1 = make_day y m 1" using nm(2) by (simp add: y'_def m'_def)
    have "valid_date y' m' 1"
      using Suc.prems(1) by (intro valid_date_first) (auto simp: m'_def valid_date_def)
    moreover have "1969 \<le> y'" using Suc.prems(2) by (simp add: y'_def)
    ultimately have "\<exists>r. cron_loop fuel spec (fixed_zone k) start (hz * ms_per_day) False (y', m', 1) = Some r
        \<and> search_result spec k lb hz r"
      using month(1) nm(1) lb(1) no_name_in_month [OF Suc.prems(1) month(2)]
      by (intro step) (auto simp: e n_def)
    with month guard show ?thesis by (simp add: lb_def n_def y'_def m'_def split: if_splits)
  next
    case day
    then have "\<not> day_ok spec n" using Suc.prems by (simp add: n_def day_ok_date)
    then have "\<not> names_local spec l" if "lb \<le> l" "l < (n + 1) * ms_per_day" for l
      using that lb(1) names_local_on_day [of n l spec] by simp
    from day_step [OF day(1) this] day guard a show ?thesis by (simp add: lb_def n_def)
  next
    case search
    with Suc.prems day_search_found [OF assms(1) Suc.prems(1,2) search(2,3)]
      day_search_missed [OF assms(1) Suc.prems(1,2)] day_step guard a
    show ?thesis
      by (cases "day_search spec (fixed_zone k) start isFirst y m d") (simp_all add: lb_def n_def)
  qed
qed

section \<open>What \<open>nextCron\<close> promises\<close>

text \<open>The expression names the instant \<open>t\<close> in a zone: a whole second whose wall-clock fields match.\<close>

definition names_instant :: "cron_spec \<Rightarrow> zone \<Rightarrow> int \<Rightarrow> bool" where
  "names_instant spec off t \<longleftrightarrow> t mod 1000 = 0 \<and>
     (let f = partsOf off t
      in fmonth f \<in> set (months spec) \<and> dayMatches spec (fday f) (fweekday f) \<and>
         fhour f \<in> set (hours spec) \<and> fminute f \<in> set (minutes spec) \<and> fsecond f \<in> set (seconds spec))"

lemma tod_ok_iff:
  fixes l :: int
  assumes "wf_spec spec"
  defines "r \<equiv> l mod ms_per_day"
  shows "tod_ok spec r \<longleftrightarrow> l mod 1000 = 0 \<and> r div 3600000 \<in> set (hours spec) \<and>
    r div 60000 mod 60 \<in> set (minutes spec) \<and> r div 1000 mod 60 \<in> set (seconds spec)"
proof
  assume "tod_ok spec r"
  then obtain h mi s where hms: "h \<in> set (hours spec)" "mi \<in> set (minutes spec)" "s \<in> set (seconds spec)"
    "r = tod h mi s" by (auto simp: tod_ok_def)
  with assms(1) have "valid_time h mi s"
    by (auto simp: wf_spec_def in_range_def valid_time_def)
  note d = day_time_split [OF this, of "l div ms_per_day"]
  have l: "l div ms_per_day * ms_per_day + h * 3600000 + mi * 60000 + s * 1000 = l"
    using hms(4) r_def div_mult_mod_eq [of l ms_per_day] by (simp add: tod_def)
  have "r mod 1000 = 0" using hms(4) by (simp add: tod_def mod_eq_0_iff_dvd)
  moreover have "r mod 1000 = l mod 1000" unfolding r_def by (rule mod_mod_cancel) simp
  moreover have "r div 3600000 = h" "r div 60000 mod 60 = mi" "r div 1000 mod 60 = s"
    using d(2-4) unfolding l r_def .
  ultimately show "l mod 1000 = 0 \<and> r div 3600000 \<in> set (hours spec) \<and>
    r div 60000 mod 60 \<in> set (minutes spec) \<and> r div 1000 mod 60 \<in> set (seconds spec)"
    using hms(1-3) by simp
next
  assume a: "l mod 1000 = 0 \<and> r div 3600000 \<in> set (hours spec) \<and>
    r div 60000 mod 60 \<in> set (minutes spec) \<and> r div 1000 mod 60 \<in> set (seconds spec)"
  have "r = tod (r div 3600000) (r div 60000 mod 60) (r div 1000 mod 60)"
    using day_time_join(1) [of l, folded r_def] conjunct1 [OF a] div_mult_mod_eq [of l ms_per_day, folded r_def]
    unfolding tod_def by linarith
  with a show "tod_ok spec r" unfolding tod_ok_def by blast
qed

lemma names_instant_fixed:
  assumes "wf_spec spec" "valid_offset k" "- (2 * ms_per_day) \<le> t + k"
  shows "names_instant spec (fixed_zone k) t \<longleftrightarrow> names_local spec (t + k)"
proof -
  define l where "l = t + k"
  obtain y m d where c: "civil_of_day (l div ms_per_day) = (y, m, d)"
    by (cases "civil_of_day (l div ms_per_day)")
  have "1969 \<le> y"
    using fyear_recent(1) [OF assms(3)] c by (simp add: l_def civil_fields_def Let_def)
  then have w: "weekday_of_day (make_day (full_year y) m d) = weekday_of_day (l div ms_per_day)"
    using civil_of_day_valid [OF c] by simp
  have "(l - k) mod 1000 = 0 \<longleftrightarrow> l mod 1000 = 0"
    using assms(2) by (simp add: valid_offset_def mod_eq_0_iff_dvd dvd_diff_left_iff)
  then have "t mod 1000 = 0 \<longleftrightarrow> l mod 1000 = 0" by (simp add: l_def)
  then show ?thesis
    unfolding names_instant_def names_local_def l_def [symmetric] tod_ok_iff [OF assms(1)]
    using w by (auto simp: partsOf_def fixed_zone_def l_def [symmetric] civil_fields_def day_ok_def c Let_def)
qed

lemma start_fields:
  assumes "valid_offset k" "0 \<le> after"
  defines "start \<equiv> fieldsAt (fixed_zone k) (after + 1000)"
  shows "valid_date (fyear start) (fmonth start) (fday start)" and "1969 \<le> fyear start"
    and "valid_time (fhour start) (fminute start) (fsecond start)"
    and "make_day (fyear start) (fmonth start - 1) (fday start) * ms_per_day
       + tod (fhour start) (fminute start) (fsecond start) = after + k + 1000 - (after + k) mod 1000"
    and "make_day (fyear start) (fmonth start - 1) (fday start) = (after + 1000 + k) div ms_per_day"
proof -
  have s: "start = civil_fields (after + 1000 + k)"
    by (simp add: start_def fieldsAt_def partsOf_def fixed_zone_def)
  note v = reads_as_valid [OF reads_as_self [of start, unfolded s], folded s]
  show "valid_date (fyear start) (fmonth start) (fday start)"
    "valid_time (fhour start) (fminute start) (fsecond start)"
    using v by blast+
  have "(after + 1000 + k) mod 1000 = (after + k) mod 1000"
    using mod_add_self2 [of "after + k" 1000] by (simp add: ac_simps)
  then show "make_day (fyear start) (fmonth start - 1) (fday start) * ms_per_day
       + tod (fhour start) (fminute start) (fsecond start) = after + k + 1000 - (after + k) mod 1000"
    using v by (simp add: tod_def)
  show "1969 \<le> fyear start"
    unfolding s using assms by (intro fyear_recent(1)) (auto simp: valid_offset_def)
  show "make_day (fyear start) (fmonth start - 1) (fday start) = (after + 1000 + k) div ms_per_day"
    using civil_of_day_valid unfolding s civil_fields_def
    by (auto simp: Let_def split: prod.splits)
qed

lemma cron_run_result:
  assumes "wf_spec spec" "valid_offset k" "0 \<le> after"
  shows "\<exists>r. cron_run spec after (fixed_zone k) = Some r \<and>
    search_result spec k (after + k + 1000 - (after + k) mod 1000)
      ((after + 1000 + k) div ms_per_day + CRON_HORIZON_DAYS) r"
proof -
  define start where "start = fieldsAt (fixed_zone k) (after + 1000)"
  define n where "n = make_day (fyear start) (fmonth start - 1) (fday start)"
  note sf = start_fields [OF assms(2,3), folded start_def, folded n_def]
  have c: "searchable spec k start" using assms sf by (simp add: searchable_def)
  have "make_day (fyear start) (fmonth start - 1) (fday start + CRON_HORIZON_DAYS) = n + CRON_HORIZON_DAYS"
    by (simp add: n_def make_day_def Let_def)
  then have dl: "date_utc (fyear start) (fmonth start - 1) (fday start + CRON_HORIZON_DAYS) 0 0 0 =
      (n + CRON_HORIZON_DAYS) * ms_per_day"
    using sf(2) by (simp add: date_utc_def)
  have "n + CRON_HORIZON_DAYS + 2 - n \<le> int 1464" by (simp add: CRON_HORIZON_DAYS_def)
  from cron_loop_result [OF c sf(1,2) this [unfolded n_def], of True]
  show ?thesis
    unfolding cron_run_def start_def [symmetric] Let_def dl
    using sf(4,5) by (simp add: n_def [symmetric] start_tod_def)
qed

lemma next_second_le:
  fixes after k u :: int
  assumes "k mod 1000 = 0" "u mod 1000 = 0" "after < u"
  shows "after + k + 1000 - (after + k) mod 1000 \<le> u + k"
proof -
  have "(u + k) mod 1000 = 0" using mod_0_add_diff [OF assms(2,1)] by blast
  then obtain a where a: "u + k = 1000 * a" by (auto simp: mod_eq_0_iff_dvd)
  have "(after + k) - (after + k) mod 1000 = 1000 * ((after + k) div 1000)"
    by (simp add: minus_mod_eq_mult_div)
  moreover have "(after + k) div 1000 < a"
    using assms(3) a int_div_bounds [of 1000 "after + k"] by linarith
  ultimately show ?thesis using a by linarith
qed

lemma nextCron_first:
  assumes "wf_spec spec" "valid_offset k" "0 \<le> after"
  shows "case nextCron spec after (fixed_zone k) of
      Some t \<Rightarrow> after < t \<and> names_instant spec (fixed_zone k) t \<and>
        (\<forall>u. after < u \<and> u < t \<longrightarrow> \<not> names_instant spec (fixed_zone k) u)
    | None \<Rightarrow> \<forall>u. after < u \<and> u < after + CRON_HORIZON_DAYS * ms_per_day \<longrightarrow>
        \<not> names_instant spec (fixed_zone k) u"
proof -
  let ?lb = "after + k + 1000 - (after + k) mod 1000"
  from cron_run_result [OF assms] obtain r where r: "cron_run spec after (fixed_zone k) = Some r"
    and sr: "search_result spec k ?lb ((after + 1000 + k) div ms_per_day + CRON_HORIZON_DAYS) r"
    by blast
  have k: "k mod 1000 = 0" "- ms_per_day \<le> k" using assms(2) by (auto simp: valid_offset_def)
  have lb: "?lb \<le> u + k \<and> names_local spec (u + k)"
    if u: "after < u" "names_instant spec (fixed_zone k) u" for u
    using next_second_le [OF k(1) _ u(1)] u k assms names_instant_fixed [OF assms(1,2), of u]
    by (simp add: names_instant_def)
  show ?thesis
  proof (cases r)
    case None
    have "\<not> names_instant spec (fixed_zone k) u"
      if u: "after < u" "u < after + CRON_HORIZON_DAYS * ms_per_day" for u
    proof
      assume "names_instant spec (fixed_zone k) u"
      note l = lb [OF u(1) this]
      have "(u + k) div ms_per_day \<le> (after + 1000 + k + CRON_HORIZON_DAYS * ms_per_day) div ms_per_day"
        using u by (intro zdiv_mono1) auto
      with sr None l show False by (auto simp: search_result_def)
    qed
    with None r show ?thesis by (simp add: nextCron_def)
  next
    case (Some t)
    with sr have t: "names_local spec (t + k)" "?lb \<le> t + k"
      and least: "\<And>l. ?lb \<le> l \<Longrightarrow> l < t + k \<Longrightarrow> \<not> names_local spec l"
      by (auto simp: search_result_def)
    have "\<not> names_instant spec (fixed_zone k) u" if "after < u" "u < t" for u
      using lb [of u] least [of "u + k"] that by auto
    moreover have "after < t"
      using t(2) pos_mod_bound [of 1000 "after + k"] by linarith
    ultimately show ?thesis
      using Some r t names_instant_fixed [OF assms(1,2), of t] k assms(3) by (simp add: nextCron_def)
  qed
qed

section \<open>Any zone\<close>

lemma date_utc_mod: "date_utc y m d h mi s mod 1000 = 0"
proof -
  have "date_utc y m d h mi s = 1000 * (make_day (full_year y) m d * 86400 + h * 3600 + mi * 60 + s)"
    by (simp add: date_utc_def)
  then show ?thesis by simp
qed

lemma js_rem_whole: "(t - js_rem t 1000) mod 1000 = 0"
proof (cases "0 \<le> t")
  case True
  then show ?thesis by (simp add: minus_mod_eq_mult_div)
next
  case False
  then have "t - js_rem t 1000 = - (\<bar>t\<bar> - \<bar>t\<bar> mod 1000)" by (simp add: js_rem_def)
  also have "\<dots> = - (1000 * (\<bar>t\<bar> div 1000))" by (simp add: minus_mod_eq_mult_div)
  finally show ?thesis by (simp add: mod_eq_0_iff_dvd)
qed

lemma instantFrom_whole: "instantFrom off y m d h mi s = Some t \<Longrightarrow> t mod 1000 = 0"
proof -
  assume a: "instantFrom off y m d h mi s = Some t"
  have o: "offsetAt off u mod 1000 = 0" for u
    unfolding offsetAt_def Let_def using mod_0_add_diff [OF date_utc_mod js_rem_whole] by blast
  have "t = date_utc y (m - 1) d h mi s - offsetAt off (date_utc y (m - 1) d h mi s
        - offsetAt off (date_utc y (m - 1) d h mi s)) \<or>
      t = date_utc y (m - 1) d h mi s - offsetAt off (date_utc y (m - 1) d h mi s
        - offsetAt off (date_utc y (m - 1) d h mi s)) - 3600000"
    using a by (auto simp: instantFrom_def Let_def split: if_splits)
  moreover have "(date_utc y (m - 1) d h mi s - offsetAt off v) mod 1000 = 0" for v
    using mod_0_add_diff [OF date_utc_mod o] by blast
  moreover have "(x - 3600000) mod 1000 = 0" if "x mod 1000 = 0" for x :: int
    using mod_0_add_diff [OF that, of 3600000] by simp
  ultimately show ?thesis by metis
qed

lemma first_some_SomeD: "first_some f xs = Some t \<Longrightarrow> \<exists>x \<in> set xs. f x = Some t"
  by (induction xs) (auto split: option.splits)

lemma day_search_names:
  assumes "day_search spec off start isFirst y m d = Some t"
    and "m \<in> set (months spec)" "dayMatches spec d (weekdayOf y m d)"
  shows "names_instant spec off t"
proof -
  from assms(1) obtain h mi s where "h \<in> set (hours spec)" "mi \<in> set (minutes spec)"
    "s \<in> set (seconds spec)" and i: "instantFrom off y m d h mi s = Some t"
    unfolding day_search_def by (fastforce dest!: first_some_SomeD split: if_splits)
  moreover have "fweekday (partsOf off t) = weekdayOf y m d"
    using instantFrom_reads [OF i]
    by (auto simp: partsOf_def civil_fields_def reads_as_def weekdayOf_def Let_def split: prod.splits)
  ultimately show ?thesis
    using instantFrom_reads [OF i] instantFrom_whole [OF i] assms(2,3)
    by (simp add: names_instant_def reads_as_def)
qed

lemma cron_loop_names:
  "cron_loop fuel spec off start dl isFirst ymd = Some (Some t) \<Longrightarrow> names_instant spec off t"
  by (induction fuel spec off start dl isFirst ymd rule: cron_loop.induct)
     (auto split: if_splits option.splits intro: day_search_names)

lemma nextCron_names_any: "nextCron spec after off = Some t \<Longrightarrow> names_instant spec off t"
  by (auto simp: nextCron_def cron_run_def Let_def split: option.splits intro: cron_loop_names)

text \<open>The loop makes progress on real dates in any zone, so the fuel never runs out.\<close>

lemma cron_loop_enough:
  assumes "valid_date y m d" "1969 \<le> y" "hz + 2 - make_day y (m - 1) d \<le> int fuel" "0 < fuel"
  shows "cron_loop fuel spec off start (hz * ms_per_day) isFirst (y, m, d) \<noteq> None"
  using assms
proof (induction fuel arbitrary: y m d isFirst)
  case 0
  then show ?case by simp
next
  case (Suc fuel)
  have guard: "date_utc y (m - 1) d 0 0 0 \<le> hz * ms_per_day \<longleftrightarrow> make_day y (m - 1) d \<le> hz"
    using Suc.prems(2) by (simp add: date_utc_def)
  obtain ay am ad where a: "addDays y m d 1 = (ay, am, ad)" by (cases "addDays y m d 1")
  note an = addDays_next [OF Suc.prems(1,2) a]
  define y' m' where "y' = (if m = 12 then y + 1 else y)" and "m' = (if m = 12 then 1 else m + 1)"
  note nm = make_day_next_month [OF Suc.prems(1)]
  have e: "make_day y' (m' - 1) 1 = make_day y m 1" using nm(2) by (simp add: y'_def m'_def)
  have v: "valid_date y' m' 1"
    using Suc.prems(1) by (intro valid_date_first) (auto simp: m'_def valid_date_def)
  have "1969 \<le> y'" using Suc.prems(2) by (simp add: y'_def)
  with Suc.IH [OF v, of False] Suc.IH [OF an(1,2), of False] an(3) nm(1) e Suc.prems(3) guard a
  show ?case by (auto simp: y'_def m'_def split: if_splits option.splits)
qed

lemma cron_run_terminates:
  assumes "1969 \<le> fyear (fieldsAt off (after + 1000))"
  shows "\<exists>r. cron_run spec after off = Some r"
proof -
  define start where "start = fieldsAt off (after + 1000)"
  have s: "start = civil_fields (after + 1000 + off (after + 1000))"
    by (simp add: start_def fieldsAt_def partsOf_def)
  have v: "valid_date (fyear start) (fmonth start) (fday start)"
    using reads_as_valid [OF reads_as_self [of start, unfolded s], folded s] by blast
  define n where "n = make_day (fyear start) (fmonth start - 1) (fday start)"
  have "make_day (fyear start) (fmonth start - 1) (fday start + CRON_HORIZON_DAYS) = n + CRON_HORIZON_DAYS"
    by (simp add: n_def make_day_def Let_def)
  then have dl: "date_utc (fyear start) (fmonth start - 1) (fday start + CRON_HORIZON_DAYS) 0 0 0 =
      (n + CRON_HORIZON_DAYS) * ms_per_day"
    using assms by (simp add: date_utc_def start_def)
  have "n + CRON_HORIZON_DAYS + 2 - n \<le> int 1464" by (simp add: CRON_HORIZON_DAYS_def)
  from cron_loop_enough [OF v assms [folded start_def] this [unfolded n_def]]
  show ?thesis
    unfolding cron_run_def start_def [symmetric] Let_def dl by (simp add: n_def)
qed

text \<open>When the starting day itself has a slot left, the search ends there (used to evaluate examples).\<close>

lemma nextCron_today:
  assumes "fieldsAt off (after + 1000) = start"
    and "fmonth start \<in> set (months spec)"
    and "dayMatches spec (fday start) (weekdayOf (fyear start) (fmonth start) (fday start))"
    and "day_search spec off start True (fyear start) (fmonth start) (fday start) = Some t"
  shows "nextCron spec after off = Some t"
proof -
  have "cron_loop fuel spec off start dl True (fyear start, fmonth start, fday start) = Some (Some t)"
    if "date_utc (fyear start) (fmonth start - 1) (fday start) 0 0 0 \<le> dl" "0 < fuel" for dl fuel
    using that assms by (cases fuel) simp_all
  then show ?thesis
    unfolding nextCron_def cron_run_def Let_def assms(1)
    by (simp add: date_utc_def make_day_def Let_def CRON_HORIZON_DAYS_def)
qed

section \<open>Two places where the code does not do what it says\<close>

text \<open>
  A zone like Europe/London in 2026: one hour ahead of UTC until 25 October, 01:00 UTC
  (\<open>1792890000000\<close>), then on UTC, so the local hour from 01:00 to 02:00 happens twice.
\<close>

definition fallback_zone :: zone where
  "fallback_zone t = (if t < 1792890000000 then 3600000 else 0)"

definition half_past_one :: cron_spec where
  "half_past_one = \<lparr>seconds = [0], minutes = [30], hours = [1], daysOfMonth = [1..31], months = [1..12],
     daysOfWeek = [0..6], domRestricted = False, dowRestricted = False, cron_source = ''30 1 * * *''\<rparr>"

lemma fallback_fields: "fieldsAt fallback_zone 1792891201000 =
    \<lparr>fyear = 2026, fmonth = 10, fday = 25, fhour = 1, fminute = 20, fsecond = 1, fweekday = 0\<rparr>"
  by code_simp

lemma fallback_instant: "instantFrom fallback_zone 2026 10 25 1 30 0 = Some 1792888200000"
  by code_simp

lemma fallback_search: "nextCron half_past_one 1792891200000 fallback_zone = Some 1792888200000"
proof (rule nextCron_today)
  show "fieldsAt fallback_zone (1792891200000 + 1000) =
    \<lparr>fyear = 2026, fmonth = 10, fday = 25, fhour = 1, fminute = 20, fsecond = 1, fweekday = 0\<rparr>"
    using fallback_fields by simp
qed (simp_all add: half_past_one_def dayMatches_def day_search_def fallback_instant)

lemma half_past_one_parse: "parseCron ''30 1 * * *'' = Inr half_past_one"
  by code_simp

definition leap_day :: cron_spec where
  "leap_day = \<lparr>seconds = [0], minutes = [0], hours = [3], daysOfMonth = [29], months = [2],
     daysOfWeek = [0..6], domRestricted = True, dowRestricted = False, cron_source = ''0 3 29 2 *''\<rparr>"

lemma leap_day_parse: "parseCron ''0 3 29 2 *'' = Inr leap_day"
  by code_simp

lemma names_leap_day:
  assumes "names_local leap_day l"
  obtains y where "leap y" and "l = day_from_year y * ms_per_day + 59 * ms_per_day + 10800000"
proof -
  obtain y m d where c: "civil_of_day (l div ms_per_day) = (y, m, d)"
    by (cases "civil_of_day (l div ms_per_day)")
  with assms have md: "m = 1" "d = 29"
    by (auto simp: names_local_def day_ok_def leap_day_def dayMatches_def)
  note v = civil_of_day_valid [OF c, unfolded md]
  have y: "leap y" using v by (auto simp: valid_date_def month_len_def cum_days_def split: if_splits)
  have "l mod ms_per_day = 10800000"
    using assms by (auto simp: names_local_def tod_ok_def leap_day_def tod_def)
  moreover have "l div ms_per_day = day_from_year y + 59"
    using v by (simp add: make_day_def cum_days_def)
  ultimately show ?thesis
    using that [OF y] div_mult_mod_eq [of l ms_per_day] by simp
qed



lemma no_leap_2097_2103: "leap y \<Longrightarrow> 2097 \<le> y \<Longrightarrow> 2104 \<le> y"
proof (rule ccontr)
  assume a: "leap y" "2097 \<le> y" "\<not> 2104 \<le> y"
  then have "y = 2097 \<or> y = 2098 \<or> y = 2099 \<or> y = 2100 \<or> y = 2101 \<or> y = 2102 \<or> y = 2103"
    by presburger
  with a(1) show False by (elim disjE) (simp_all add: leap_def)
qed

lemma leap_day_2096: "nextCron leap_day (date_utc 2096 2 1 0 0 0) (fixed_zone 0) = None"
proof (cases "nextCron leap_day (date_utc 2096 2 1 0 0 0) (fixed_zone 0)")
  case (Some t)
  have u: "date_utc 2096 2 1 0 0 0 = 3981398400000" by code_simp
  have "wf_spec leap_day" using leap_day_parse by (rule parseCron_wf)
  from cron_run_result [OF this, of 0 "date_utc 2096 2 1 0 0 0"] Some
  have n: "names_local leap_day t" and b: "3981398401000 \<le> t" "t div ms_per_day \<le> 47543"
    by (auto simp: valid_offset_def nextCron_def search_result_def u CRON_HORIZON_DAYS_def)
  from names_leap_day [OF n] obtain y where y: "leap y"
    "t = day_from_year y * ms_per_day + 59 * ms_per_day + 10800000" .
  have d: "day_from_year 2097 = 46387" "day_from_year 2104 = 48942" by code_simp+
  have "2097 \<le> y"
  proof (rule ccontr)
    assume "\<not> 2097 \<le> y"
    then have "day_from_year y + 366 \<le> day_from_year 2097"
      using day_from_year_Suc [of y] y(1) day_from_year_less [of "y + 1" 2097] by (cases "y + 1 = 2097") auto
    with b(1) y(2) d show False by simp
  qed
  with no_leap_2097_2103 [OF y(1)] have "day_from_year 2104 \<le> day_from_year y"
    using day_from_year_less [of 2104 y] by (cases "y = 2104") auto
  with b(2) y(2) d show ?thesis by simp
qed

section \<open>Properties\<close>

text \<open>C1. In a zone without transitions, for an expression the parser accepts, \<open>nextCron\<close> returns
  the first instant strictly after \<open>after\<close> that the expression names: the instant is later than
  \<open>after\<close>, its wall-clock fields match, and no instant in between matches. When it returns
  \<open>undefined\<close>, no instant of the next 1462 days matches.\<close>

theorem nextCron_correct:
  assumes "parseCron expr = Inr spec" "valid_offset k" "0 \<le> after"
  shows "case nextCron spec after (fixed_zone k) of
      Some t \<Rightarrow> after < t \<and> names_instant spec (fixed_zone k) t \<and>
        (\<forall>u. after < u \<and> u < t \<longrightarrow> \<not> names_instant spec (fixed_zone k) u)
    | None \<Rightarrow> \<forall>u. after < u \<and> u < after + CRON_HORIZON_DAYS * ms_per_day \<longrightarrow>
        \<not> names_instant spec (fixed_zone k) u"
  using parseCron_wf [OF assms(1)] assms(2,3) by (rule nextCron_first)

theorem nextCron_correct_witness:
  "case nextCron half_past_one 1792891200000 (fixed_zone 21600000) of
      Some t \<Rightarrow> 1792891200000 < t \<and> names_instant half_past_one (fixed_zone 21600000) t \<and>
        (\<forall>u. 1792891200000 < u \<and> u < t \<longrightarrow> \<not> names_instant half_past_one (fixed_zone 21600000) u)
    | None \<Rightarrow> \<forall>u. 1792891200000 < u \<and> u < 1792891200000 + CRON_HORIZON_DAYS * ms_per_day \<longrightarrow>
        \<not> names_instant half_past_one (fixed_zone 21600000) u"
  using nextCron_correct [OF half_past_one_parse, of 21600000 1792891200000]
  by (simp add: valid_offset_def)

text \<open>Whatever the zone does, an instant \<open>nextCron\<close> returns is one the expression names: a whole
  second at which the zone's wall clock shows a month, day, hour, minute and second the expression
  admits. A local time skipped by a transition is therefore never returned.\<close>

theorem nextCron_names:
  assumes "nextCron spec after off = Some t"
  shows "names_instant spec off t"
  using assms by (rule nextCron_names_any)

theorem nextCron_names_witness: "names_instant half_past_one fallback_zone 1792888200000"
  by (rule nextCron_names [OF fallback_search])

text \<open>The search of \<open>nextCron\<close> terminates in every zone and for every expression, within the 1464
  iterations the model grants it, when the wall clock shows a year from 1969 on.\<close>

theorem nextCron_terminates:
  assumes "1969 \<le> fyear (fieldsAt off (after + 1000))"
  shows "\<exists>r. cron_run spec after off = Some r \<and> nextCron spec after off = r"
  using cron_run_terminates [OF assms, of spec] by (auto simp: nextCron_def)

theorem nextCron_terminates_witness:
  "\<exists>r. cron_run half_past_one 1792891200000 fallback_zone = Some r \<and>
     nextCron half_past_one 1792891200000 fallback_zone = r"
  by (rule nextCron_terminates) (simp add: fallback_fields)

text \<open>Every expression \<open>parseCron\<close> accepts denotes non-empty sets within the calendar's ranges:
  seconds and minutes 0..59, hours 0..23, days 1..31, months 1..12, and days of the week 0..6 (a
  written 7 is folded to Sunday).\<close>

theorem parseCron_ranges:
  assumes "parseCron expr = Inr spec"
  shows "wf_spec spec"
  using assms by (rule parseCron_wf)

theorem parseCron_ranges_witness: "wf_spec leap_day"
  by (rule parseCron_ranges [OF leap_day_parse])

text \<open>The search horizon is too short: \<open>0 3 29 2 *\<close> is accepted and names 29 February 2104, but from
  1 March 2096 the search of 1462 days finds nothing, because 2100 is not a leap year. The longest
  gap between two 29 Februaries is eight years, not four.\<close>

theorem cron_horizon_too_short:
  "\<exists>spec. parseCron ''0 3 29 2 *'' = Inr spec \<and>
     nextCron spec (date_utc 2096 2 1 0 0 0) (fixed_zone 0) = None \<and>
     names_instant spec (fixed_zone 0) (date_utc 2104 1 29 3 0 0)"
proof (intro exI conjI)
  show "parseCron ''0 3 29 2 *'' = Inr leap_day" by (rule leap_day_parse)
  show "nextCron leap_day (date_utc 2096 2 1 0 0 0) (fixed_zone 0) = None" by (rule leap_day_2096)
  show "names_instant leap_day (fixed_zone 0) (date_utc 2104 1 29 3 0 0)" by code_simp
qed

text \<open>In a repeated hour the returned instant can lie in the past: after 01:20 of the second
  01:00-02:00 of 25 October 2026 in a zone like Europe/London, \<open>30 1 * * *\<close> yields 01:30 of the first
  one, fifty minutes earlier, although \<open>nextCron\<close> is to return an instant strictly after its
  argument.\<close>

theorem nextCron_fallback_not_after:
  "\<exists>spec after t. parseCron ''30 1 * * *'' = Inr spec \<and> nextCron spec after fallback_zone = Some t \<and> t < after"
  using half_past_one_parse fallback_search by (intro exI conjI) (assumption+, simp)

end
