(* ===== verification/Schedule.thy ===== *)
theory Schedule
  imports Cron_Search
begin

unbundle bit_operations_syntax

text \<open>
  \<open>packages/core/src/schedule/duration.ts\<close> and \<open>kinds.ts\<close>: the durations of an \<open>every\<close> schedule, the
  three schedule kinds, the deterministic jitter and the decision when a schedule fires next.

  Three things the code reads from its host are parameters of \<open>parseSchedule\<close>: the zone database
  (a zone name it does not know is the error \<open>schedule_timezone_unknown\<close>), the host's own zone name,
  and \<open>Date.parse\<close>, whose accepted formats are the engine's. A parsed schedule carries the resolved
  zone. Only the \<open>code\<close> of an error is modelled, not its message and hint.
\<close>

section \<open>Durations\<close>

definition MIN_MS :: int where
  "MIN_MS = 1000"

definition MAX_MS :: int where
  "MAX_MS = 10 * 365 * 86400000"

record duration =
  dur_ms :: int
  dur_source :: string

text \<open>The unit table \<open>MS\<close>; \<open>None\<close> for a letter the pattern \<open>/^(\d+)(s|m|h|d)$/\<close> does not admit.\<close>

definition MS :: "char \<Rightarrow> int option" where
  "MS u = (if u = CHR ''s'' then Some 1000 else if u = CHR ''m'' then Some 60000
     else if u = CHR ''h'' then Some 3600000 else if u = CHR ''d'' then Some 86400000 else None)"

definition parseDuration :: "string \<Rightarrow> duration result" where
  "parseDuration text =
     (let t = trim text
      in if t = [] \<or> \<not> all_digits (butlast t) then Inl ''schedule_duration_malformed''
         else (case MS (last t) of
             None \<Rightarrow> Inl ''schedule_duration_malformed''
           | Some unit_ms \<Rightarrow>
               let ms = int (to_number (butlast t)) * unit_ms
               in if ms < MIN_MS then Inl ''schedule_duration_too_small''
                  else if ms > MAX_MS then Inl ''schedule_duration_too_large''
                  else Inr \<lparr>dur_ms = ms, dur_source = t\<rparr>))"

definition formatDuration :: "duration \<Rightarrow> string" where
  "formatDuration d = dur_source d"

section \<open>Schedule kinds\<close>

definition AT_HORIZON_MS :: int where
  "AT_HORIZON_MS = 10 * 365 * 86400000"

definition MAX_JITTER_MS :: int where
  "MAX_JITTER_MS = 15 * 60000"

definition MISSED_CAP :: nat where
  "MISSED_CAP = 1000"

datatype schedule_kind = Kind_cron | Kind_every | Kind_at

datatype parsed_schedule =
    Parsed_cron cron_spec zone string
  | Parsed_every duration zone string
  | Parsed_at int zone string

definition parseSchedule ::
  "(string \<Rightarrow> zone option) \<Rightarrow> string \<Rightarrow> (string \<Rightarrow> int option) \<Rightarrow>
   schedule_kind \<Rightarrow> string \<Rightarrow> string option \<Rightarrow> int \<Rightarrow> parsed_schedule result" where
  "parseSchedule zone_db host_zone date_parse kind expr timezone now =
     (let zone_name = (case timezone of Some z \<Rightarrow> z | None \<Rightarrow> host_zone)
      in case zone_db zone_name of
           None \<Rightarrow> Inl ''schedule_timezone_unknown''
         | Some off \<Rightarrow>
             let src = trim expr
             in case kind of
                  Kind_cron \<Rightarrow>
                    bind_result (parseCron src) (\<lambda>spec.
                      if nextCron spec now off = None then Inl ''schedule_cron_unsatisfiable''
                      else Inr (Parsed_cron spec off src))
                | Kind_every \<Rightarrow>
                    bind_result (parseDuration src) (\<lambda>d. Inr (Parsed_every d off src))
                | Kind_at \<Rightarrow>
                    (case date_parse src of
                       None \<Rightarrow> Inl ''schedule_at_malformed''
                     | Some at \<Rightarrow>
                         if at > now + AT_HORIZON_MS then Inl ''schedule_at_too_far''
                         else Inr (Parsed_at at off src)))"

text \<open>FNV-1a: \<open>value ^= charCode; value = Math.imul(value, 0x01000193) >>> 0\<close>, on 32 bits.\<close>

definition hash_step :: "32 word \<Rightarrow> char \<Rightarrow> 32 word" where
  "hash_step v c = (v XOR of_nat (char_code c)) * 0x01000193"

definition hash :: "string \<Rightarrow> 32 word" where
  "hash text = foldl hash_step 0x811c9dc5 text"

definition jitterFor :: "string \<Rightarrow> int option \<Rightarrow> int" where
  "jitterFor sid interval =
     (case interval of
        None \<Rightarrow> 0
      | Some ms \<Rightarrow>
          if ms \<le> 0 then 0
          else let span = min (ms div 10) MAX_JITTER_MS
               in if span \<le> 0 then 0 else uint (hash sid) mod span)"

definition intervalOf :: "parsed_schedule \<Rightarrow> int \<Rightarrow> int option" where
  "intervalOf parsed from =
     (case parsed of
        Parsed_every d _ _ \<Rightarrow> Some (dur_ms d)
      | Parsed_at _ _ _ \<Rightarrow> None
      | Parsed_cron spec off _ \<Rightarrow>
          (case nextCron spec from off of
             None \<Rightarrow> None
           | Some a \<Rightarrow> (case nextCron spec a off of None \<Rightarrow> None | Some b \<Rightarrow> Some (b - a))))"

section \<open>When a schedule fires next\<close>

record due_decision =
  runAt :: "int option"
  anchor :: "int option"
  missed :: nat
  missedCapped :: bool
  late :: bool

text \<open>The \<open>for (;;)\<close> loop over missed occurrences. It ends at the cap: \<open>missed\<close> grows every time.\<close>

function cron_due :: "cron_spec \<Rightarrow> zone \<Rightarrow> int \<Rightarrow> int \<Rightarrow> int \<Rightarrow> nat \<Rightarrow> due_decision" where
  "cron_due spec off jitter now cursor k =
     (case nextCron spec cursor off of
        None \<Rightarrow> \<lparr>runAt = None, anchor = None, missed = k, missedCapped = False, late = False\<rparr>
      | Some occurrence \<Rightarrow>
          if occurrence + jitter > now then
            \<lparr>runAt = Some (occurrence + jitter), anchor = Some occurrence, missed = k,
             missedCapped = False, late = False\<rparr>
          else if k + 1 \<ge> MISSED_CAP then
            (let resume = nextCron spec now off
             in \<lparr>runAt = map_option (\<lambda>r. r + jitter) resume, anchor = resume, missed = k + 1,
                 missedCapped = True, late = False\<rparr>)
          else cron_due spec off jitter now occurrence (k + 1))"
  by pat_completeness auto
termination
  by (relation "measure (\<lambda>(spec, off, jitter, now, cursor, k). MISSED_CAP - k)") auto

declare cron_due.simps [simp del]

definition decideDue :: "parsed_schedule \<Rightarrow> string \<Rightarrow> int \<Rightarrow> int \<Rightarrow> bool \<Rightarrow> due_decision" where
  "decideDue parsed sid from now consumed =
     (case parsed of
        Parsed_at at _ _ \<Rightarrow>
          if consumed then
            \<lparr>runAt = None, anchor = None, missed = 0, missedCapped = False, late = False\<rparr>
          else if at \<le> now then
            \<lparr>runAt = Some now, anchor = Some at, missed = 0, missedCapped = False, late = True\<rparr>
          else
            \<lparr>runAt = Some at, anchor = Some at, missed = 0, missedCapped = False, late = False\<rparr>
      | Parsed_every d _ _ \<Rightarrow>
          let jitter = jitterFor sid (intervalOf parsed from);
              elapsed = now - from;
              missedExact = (if elapsed \<le> 0 then 0 else nat (elapsed div dur_ms d));
              a = from + int (missedExact + 1) * dur_ms d
          in \<lparr>runAt = Some (a + jitter), anchor = Some a, missed = min missedExact MISSED_CAP,
              missedCapped = missedExact > MISSED_CAP, late = False\<rparr>
      | Parsed_cron spec off _ \<Rightarrow>
          cron_due spec off (jitterFor sid (intervalOf parsed from)) now from 0)"

text \<open>The anchors of a schedule over a sequence of decisions, each made from the previous anchor at an
  arbitrary time, as the scheduler feeds them back.\<close>

definition next_anchor :: "parsed_schedule \<Rightarrow> string \<Rightarrow> int \<Rightarrow> int \<Rightarrow> int" where
  "next_anchor parsed sid from now =
     (case anchor (decideDue parsed sid from now True) of Some a \<Rightarrow> a | None \<Rightarrow> from)"

section \<open>Lemmas\<close>

lemma jitterFor_bounds:
  "0 \<le> jitterFor sid i"
  "jitterFor sid i < MAX_JITTER_MS"
  "i = Some ms \<Longrightarrow> 0 < ms \<Longrightarrow> 10 * jitterFor sid i \<le> ms"
proof -
  have *: "0 \<le> uint (hash sid) mod s \<and> uint (hash sid) mod s < s" if "0 < s" for s
    using that by simp
  have nn: "0 \<le> uint (hash sid) mod s" if "\<not> s \<le> 0" for s
    using that by (intro pos_mod_sign) simp
  show "0 \<le> jitterFor sid i"
    by (simp add: jitterFor_def Let_def nn split: option.splits)
  show "jitterFor sid i < MAX_JITTER_MS"
    using * [of "min (the i div 10) MAX_JITTER_MS"]
    by (auto simp: jitterFor_def Let_def MAX_JITTER_MS_def split: option.splits)
  show "10 * jitterFor sid i \<le> ms" if "i = Some ms" "0 < ms"
  proof (cases "min (ms div 10) MAX_JITTER_MS \<le> 0")
    case False
    then have "uint (hash sid) mod min (ms div 10) MAX_JITTER_MS < ms div 10"
      using * [of "min (ms div 10) MAX_JITTER_MS"] by (simp add: not_le)
    with False that int_div_bounds [of 10 ms] show ?thesis by (simp add: jitterFor_def Let_def)
  qed (use that in \<open>simp add: jitterFor_def Let_def\<close>)
qed

lemma parseDuration_Inr:
  assumes "parseDuration text = Inr d"
  shows "MIN_MS \<le> dur_ms d" "dur_ms d \<le> MAX_MS" "dur_source d = trim text"
  using assms by (auto simp: parseDuration_def Let_def split: if_splits option.splits)

lemma parseDuration_trim: "parseDuration (trim text) = parseDuration text"
  by (simp add: parseDuration_def trim_idem)

lemma parseSchedule_every:
  assumes "parseSchedule db hz dp Kind_every expr tz now = Inr p"
  obtains d off where "p = Parsed_every d off (trim expr)" "parseDuration expr = Inr d"
  using assms
  by (auto simp: parseSchedule_def Let_def bind_result_eq_Inr parseDuration_trim split: option.splits)

lemma parseSchedule_cron:
  assumes "parseSchedule db hz dp Kind_cron expr tz now = Inr p"
  obtains spec off where "p = Parsed_cron spec off (trim expr)" "wf_spec spec"
    "nextCron spec now off \<noteq> None" "db (case tz of Some z \<Rightarrow> z | None \<Rightarrow> hz) = Some off"
  using assms parseCron_wf
  by (auto simp: parseSchedule_def Let_def bind_result_eq_Inr split: option.splits if_splits)

text \<open>The interval decision in closed form.\<close>

lemma decideDue_every:
  assumes "0 < dur_ms d" "dd = decideDue (Parsed_every d off src) sid from now c"
  obtains n where "anchor dd = Some (from + int (n + 1) * dur_ms d)"
    "n = (if now \<le> from then 0 else nat ((now - from) div dur_ms d))"
    "missed dd = min n MISSED_CAP" "missedCapped dd = (MISSED_CAP < n)" "\<not> late dd"
    "runAt dd = Some (from + int (n + 1) * dur_ms d + jitterFor sid (Some (dur_ms d)))"
  using assms(2) by (auto simp: decideDue_def Let_def intervalOf_def)

lemma whole_intervals:
  fixes now start ms :: int
  assumes "0 < ms" "start \<le> now"
  shows "start + int (nat ((now - start) div ms)) * ms \<le> now"
    "now < start + int (nat ((now - start) div ms) + 1) * ms"
proof -
  have "0 \<le> (now - start) div ms" using assms by (simp add: pos_imp_zdiv_nonneg_iff)
  then have "int (nat ((now - start) div ms)) = (now - start) div ms" by simp
  with int_div_bounds [OF assms(1), of "now - start"] show
    "start + int (nat ((now - start) div ms)) * ms \<le> now"
    "now < start + int (nat ((now - start) div ms) + 1) * ms"
    by (simp_all add: algebra_simps)
qed

lemma next_anchor_every:
  "\<exists>n. next_anchor (Parsed_every d off src) sid from now = from + int n * dur_ms d"
  unfolding next_anchor_def decideDue_def Let_def
  by (simp del: of_nat_add of_nat_Suc of_nat_1)

text \<open>Every decision of the loop, by its own recursion.\<close>

lemma cron_due_sound:
  assumes "anchor (cron_due spec off jitter now cursor k) = Some a"
  shows "names_instant spec off a \<and> runAt (cron_due spec off jitter now cursor k) = Some (a + jitter) \<and>
    (missedCapped (cron_due spec off jitter now cursor k) = False \<longrightarrow> now < a + jitter) \<and>
    (missedCapped (cron_due spec off jitter now cursor k) \<longrightarrow> nextCron spec now off = Some a)"
  using assms
proof (induction spec off jitter now cursor k rule: cron_due.induct)
  case (1 spec off jitter now cursor k)
  show ?case
    using 1 cron_due.simps [of spec off jitter now cursor k]
    by (auto simp: Let_def split: option.splits if_splits intro: nextCron_names_any)
qed

lemma cron_due_missed: "k < MISSED_CAP \<Longrightarrow> missed (cron_due spec off jitter now cursor k) \<le> MISSED_CAP"
proof (induction spec off jitter now cursor k rule: cron_due.induct)
  case (1 spec off jitter now cursor k)
  then show ?case
    by (subst cron_due.simps) (auto simp: Let_def MISSED_CAP_def split: option.splits)
qed

text \<open>The occurrences a decision counts as missed: those after \<open>from\<close> whose displaced time has come.\<close>

definition missed_set :: "cron_spec \<Rightarrow> int \<Rightarrow> int \<Rightarrow> int \<Rightarrow> int \<Rightarrow> int set" where
  "missed_set spec k jitter now from =
     {u. from < u \<and> u + jitter \<le> now \<and> names_instant spec (fixed_zone k) u}"

lemma missed_set_finite: "finite (missed_set spec k jitter now from)"
  by (rule finite_subset [of _ "{from..now - jitter}"]) (auto simp: missed_set_def)

lemma missed_set_step:
  assumes "wf_spec spec" "valid_offset k" "0 \<le> from" "nextCron spec from (fixed_zone k) = Some t"
  shows "t + jitter \<le> now \<Longrightarrow>
      missed_set spec k jitter now from = insert t (missed_set spec k jitter now t)"
    "now < t + jitter \<Longrightarrow> missed_set spec k jitter now from = {}"
proof -
  from nextCron_first [OF assms(1-3)] assms(4) have
    t: "from < t" "names_instant spec (fixed_zone k) t"
      "\<And>u. from < u \<Longrightarrow> u < t \<Longrightarrow> \<not> names_instant spec (fixed_zone k) u" by auto
  have "u = t \<or> t < u" if "from < u" "names_instant spec (fixed_zone k) u" for u
    using t(3) [of u] that by linarith
  with t show "t + jitter \<le> now \<Longrightarrow>
      missed_set spec k jitter now from = insert t (missed_set spec k jitter now t)"
    "now < t + jitter \<Longrightarrow> missed_set spec k jitter now from = {}"
    by (force simp: missed_set_def)+
qed

lemma card_missed_step:
  assumes "wf_spec spec" "valid_offset k" "0 \<le> from" "nextCron spec from (fixed_zone k) = Some t"
    "t + jitter \<le> now"
  shows "card (missed_set spec k jitter now from) = Suc (card (missed_set spec k jitter now t))"
  using missed_set_step(1) [OF assms] missed_set_finite [of spec k jitter now t]
  by (simp add: missed_set_def)

lemma cron_due_counts:
  assumes "wf_spec spec" "valid_offset z" "0 \<le> cursor" "k < MISSED_CAP"
    "dd = cron_due spec (fixed_zone z) jitter now cursor k" "anchor dd \<noteq> None"
  shows "(\<not> missedCapped dd \<longrightarrow> missed dd = k + card (missed_set spec z jitter now cursor)) \<and>
    (missedCapped dd \<longrightarrow> missed dd = MISSED_CAP \<and> MISSED_CAP \<le> k + card (missed_set spec z jitter now cursor))"
  using assms
proof (induction "MISSED_CAP - k" arbitrary: cursor k rule: less_induct)
  case (less k cursor)
  show ?case
  proof (cases "nextCron spec cursor (fixed_zone z)")
    case None
    with less.prems show ?thesis by (simp add: cron_due.simps)
  next
    case (Some t)
    note first = nextCron_first [OF less.prems(1-3), unfolded Some option.case]
    note card = card_missed_step [OF less.prems(1-3) Some]
    consider "now < t + jitter" | "t + jitter \<le> now" "k + 1 \<ge> MISSED_CAP" | "t + jitter \<le> now" "k + 1 < MISSED_CAP"
      by linarith
    then show ?thesis
    proof cases
      case 1
      with Some less.prems show ?thesis
        by (simp add: cron_due.simps missed_set_step(2) [OF less.prems(1-3) Some])
    next
      case 2
      with Some less.prems(4,5) card show ?thesis by (simp add: cron_due.simps Let_def)
    next
      case 3
      then have "cron_due spec (fixed_zone z) jitter now cursor k =
          cron_due spec (fixed_zone z) jitter now t (k + 1)"
        using Some by (subst cron_due.simps) simp
      with less.hyps [of "k + 1" t] less.prems first 3 card show ?thesis by simp
    qed
  qed
qed

text \<open>The anchor of an uncapped decision is the first occurrence not counted as missed.\<close>

lemma cron_due_first_pending:
  assumes "wf_spec spec" "valid_offset z" "0 \<le> cursor" "k < MISSED_CAP"
    "dd = cron_due spec (fixed_zone z) jitter now cursor k" "anchor dd = Some a" "\<not> missedCapped dd"
    "cursor < u" "u < a" "names_instant spec (fixed_zone z) u"
  shows "u + jitter \<le> now"
  using assms
proof (induction "MISSED_CAP - k" arbitrary: cursor k rule: less_induct)
  case (less k cursor)
  show ?case
  proof (cases "nextCron spec cursor (fixed_zone z)")
    case None
    with less.prems show ?thesis by (simp add: cron_due.simps)
  next
    case (Some t)
    note first = nextCron_first [OF less.prems(1-3), unfolded Some option.case]
    with less.prems have ut: "t \<le> u" by (meson not_le)
    have now: "t + jitter \<le> now"
      using Some less.prems ut by (rule_tac ccontr) (simp add: cron_due.simps)
    have k: "k + 1 < MISSED_CAP"
      using Some less.prems now by (rule_tac ccontr) (simp add: cron_due.simps Let_def)
    have "dd = cron_due spec (fixed_zone z) jitter now t (k + 1)"
      using Some now k less.prems(5) by (subst (asm) cron_due.simps) simp
    with less.hyps [of "k + 1" t] less.prems first k now ut show ?thesis
      by (cases "u = t") auto
  qed
qed

section \<open>Properties\<close>

text \<open>An interval schedule never drifts: for an \<open>every\<close> expression the parser accepts, the next
  anchor lies on the lattice \<open>from + n * ms\<close>, strictly after \<open>now\<close> and at most one interval ahead of
  it when \<open>from\<close> has passed, the fire is displaced from it by at most a tenth of the interval and by less
  than fifteen minutes, and the count of skipped fires is exact up to its cap.\<close>

theorem every_next_fire:
  assumes "parseSchedule db hz dp Kind_every expr tz t0 = Inr p" "parseDuration expr = Inr d"
    "start \<le> now" "dd = decideDue p sid start now c"
  shows "\<exists>n j. anchor dd = Some (start + int (n + 1) * dur_ms d) \<and>
    runAt dd = Some (start + int (n + 1) * dur_ms d + j) \<and>
    start + int n * dur_ms d \<le> now \<and> now < start + int (n + 1) * dur_ms d \<and>
    0 \<le> j \<and> 10 * j \<le> dur_ms d \<and> j < MAX_JITTER_MS \<and>
    missed dd = min n MISSED_CAP \<and> (missedCapped dd \<longleftrightarrow> MISSED_CAP < n)"
proof -
  from assms(1,2) obtain off where p: "p = Parsed_every d off (trim expr)"
    by (elim parseSchedule_every) auto
  have pos: "0 < dur_ms d" using parseDuration_Inr(1) [OF assms(2)] by (simp add: MIN_MS_def)
  from decideDue_every [OF pos assms(4) [unfolded p]] obtain n where
    n: "n = (if now \<le> start then 0 else nat ((now - start) div dur_ms d))" and
    dd: "anchor dd = Some (start + int (n + 1) * dur_ms d)"
      "runAt dd = Some (start + int (n + 1) * dur_ms d + jitterFor sid (Some (dur_ms d)))"
      "missed dd = min n MISSED_CAP" "missedCapped dd = (MISSED_CAP < n)" by metis
  have "n = nat ((now - start) div dur_ms d)" using n assms(3) by auto
  then show ?thesis
    using dd whole_intervals [OF pos assms(3)] jitterFor_bounds(1,2) [of sid "Some (dur_ms d)"]
      jitterFor_bounds(3) [OF refl pos, of sid] by blast
qed

definition hourly :: duration where
  "hourly = \<lparr>dur_ms = 3600000, dur_source = ''1h''\<rparr>"

lemma hourly_parse: "parseDuration ''1h'' = Inr hourly"
  by code_simp

lemma hourly_schedule:
  "parseSchedule [''UTC'' \<mapsto> fixed_zone 0] ''UTC'' (\<lambda>_. None) Kind_every ''1h'' None 0 =
     Inr (Parsed_every hourly (fixed_zone 0) ''1h'')"
proof -
  have "trim ''1h'' = ''1h''" by code_simp
  then show ?thesis by (simp add: parseSchedule_def Let_def hourly_parse)
qed

theorem every_next_fire_witness:
  "\<exists>n j. anchor (decideDue (Parsed_every hourly (fixed_zone 0) ''1h'') ''brief'' 0 9000000 True) =
      Some (0 + int (n + 1) * dur_ms hourly) \<and>
    runAt (decideDue (Parsed_every hourly (fixed_zone 0) ''1h'') ''brief'' 0 9000000 True) =
      Some (0 + int (n + 1) * dur_ms hourly + j) \<and>
    0 + int n * dur_ms hourly \<le> 9000000 \<and> 9000000 < 0 + int (n + 1) * dur_ms hourly \<and>
    0 \<le> j \<and> 10 * j \<le> dur_ms hourly \<and> j < MAX_JITTER_MS \<and>
    missed (decideDue (Parsed_every hourly (fixed_zone 0) ''1h'') ''brief'' 0 9000000 True) =
      min n MISSED_CAP \<and>
    (missedCapped (decideDue (Parsed_every hourly (fixed_zone 0) ''1h'') ''brief'' 0 9000000 True)
      \<longleftrightarrow> MISSED_CAP < n)"
  by (rule every_next_fire [OF hourly_schedule hourly_parse _ refl]) simp

text \<open>Over any sequence of decision times, however late each is made, the anchors of an interval
  schedule stay whole intervals away from where they started: the jitter never accumulates.\<close>

theorem every_never_drifts:
  "\<exists>n. foldl (next_anchor (Parsed_every d off src) sid) start nows = start + int n * dur_ms d"
proof (induction nows arbitrary: start)
  case Nil
  have "start = start + int 0 * dur_ms d" by simp
  then show ?case unfolding foldl_Nil by blast
next
  case (Cons now nows)
  obtain m where m: "next_anchor (Parsed_every d off src) sid start now = start + int m * dur_ms d"
    using next_anchor_every by blast
  obtain n where "foldl (next_anchor (Parsed_every d off src) sid) (start + int m * dur_ms d) nows =
      start + int m * dur_ms d + int n * dur_ms d"
    using Cons.IH by blast
  with m have "foldl (next_anchor (Parsed_every d off src) sid) start (now # nows) =
      start + int (m + n) * dur_ms d" by (simp add: algebra_simps)
  then show ?case by blast
qed

text \<open>In a zone without transitions, a cron schedule skips its backlog and says how large it was:
  below the cap the next anchor is the first occurrence after \<open>from\<close> whose displaced fire is still
  ahead, and \<open>missed\<close> is exactly the number of occurrences whose displaced fire has passed; at the cap
  there were at least a thousand of them and the anchor is the first occurrence after \<open>now\<close>.\<close>

theorem cron_catch_up:
  assumes "parseCron expr = Inr spec" "valid_offset z" "0 \<le> start"
    "dd = decideDue (Parsed_cron spec (fixed_zone z) src) sid start now c" "anchor dd = Some a"
    "j = jitterFor sid (intervalOf (Parsed_cron spec (fixed_zone z) src) start)"
  shows "names_instant spec (fixed_zone z) a \<and> runAt dd = Some (a + j) \<and>
    (\<not> missedCapped dd \<longrightarrow> now < a + j \<and>
      (\<forall>u. start < u \<and> u < a \<and> names_instant spec (fixed_zone z) u \<longrightarrow> u + j \<le> now) \<and>
      missed dd = card (missed_set spec z j now start)) \<and>
    (missedCapped dd \<longrightarrow> nextCron spec now (fixed_zone z) = Some a \<and> missed dd = MISSED_CAP \<and>
      MISSED_CAP \<le> card (missed_set spec z j now start))"
proof -
  have dd: "dd = cron_due spec (fixed_zone z) j now start 0"
    using assms(4,6) by (simp add: decideDue_def Let_def)
  have cap: "0 < MISSED_CAP" by (simp add: MISSED_CAP_def)
  note wf = parseCron_wf [OF assms(1)]
  show ?thesis
    using cron_due_sound [of spec "fixed_zone z" j now start 0 a] assms(5)
      cron_due_counts [OF wf assms(2,3) cap dd]
      cron_due_first_pending [OF wf assms(2,3) cap dd assms(5)]
    unfolding dd by auto
qed

lemma epoch_search: "nextCron half_past_one 0 (fixed_zone 0) = Some 5400000"
proof (rule nextCron_today)
  show "fieldsAt (fixed_zone 0) (0 + 1000) =
    \<lparr>fyear = 1970, fmonth = 1, fday = 1, fhour = 0, fminute = 0, fsecond = 1, fweekday = 4\<rparr>"
    by code_simp
  have "instantFrom (fixed_zone 0) 1970 1 1 1 30 0 = Some 5400000" by code_simp
  then show "day_search half_past_one (fixed_zone 0)
      \<lparr>fyear = 1970, fmonth = 1, fday = 1, fhour = 0, fminute = 0, fsecond = 1, fweekday = 4\<rparr> True
      (fyear \<lparr>fyear = 1970, fmonth = 1, fday = 1, fhour = 0, fminute = 0, fsecond = 1, fweekday = 4\<rparr>)
      (fmonth \<lparr>fyear = 1970, fmonth = 1, fday = 1, fhour = 0, fminute = 0, fsecond = 1, fweekday = 4\<rparr>)
      (fday \<lparr>fyear = 1970, fmonth = 1, fday = 1, fhour = 0, fminute = 0, fsecond = 1, fweekday = 4\<rparr>)
      = Some 5400000"
    by (simp add: half_past_one_def day_search_def)
qed (simp_all add: half_past_one_def dayMatches_def)

definition epoch_decision :: due_decision where
  "epoch_decision = decideDue (Parsed_cron half_past_one (fixed_zone 0) ''30 1 * * *'') ''brief'' 0 0 True"

lemma epoch_decision_anchor: "anchor epoch_decision = Some 5400000"
  using jitterFor_bounds(1)
    [of "''brief''" "intervalOf (Parsed_cron half_past_one (fixed_zone 0) ''30 1 * * *'') 0"]
  by (simp add: epoch_decision_def decideDue_def Let_def cron_due.simps epoch_search)

theorem cron_catch_up_witness:
  "names_instant half_past_one (fixed_zone 0) 5400000 \<and> (\<exists>j. runAt epoch_decision = Some (5400000 + j))"
  using cron_catch_up [OF half_past_one_parse _ _ epoch_decision_def epoch_decision_anchor refl]
  by (auto simp: valid_offset_def)

text \<open>A one-shot fires exactly once: until its occurrence is consumed it is due at its instant,
  or at once and flagged late when that instant has passed; once consumed it is never due again.\<close>

theorem at_fires_once:
  assumes "parseSchedule db hz dp Kind_at expr tz t0 = Inr p"
  shows "\<exists>at. dp (trim expr) = Some at \<and> at \<le> t0 + AT_HORIZON_MS \<and>
    runAt (decideDue p sid start now False) = Some (max at now) \<and>
    anchor (decideDue p sid start now False) = Some at \<and>
    (late (decideDue p sid start now False) \<longleftrightarrow> at \<le> now) \<and>
    runAt (decideDue p sid start now True) = None"
  using assms
  by (auto simp: parseSchedule_def Let_def decideDue_def split: option.splits if_splits)

lemma christmas_schedule:
  "parseSchedule [''UTC'' \<mapsto> fixed_zone 0] ''UTC'' [''christmas'' \<mapsto> 1798167600000] Kind_at
     ''christmas'' None 1792891200000 = Inr (Parsed_at 1798167600000 (fixed_zone 0) ''christmas'')"
proof -
  have "trim ''christmas'' = ''christmas''" by code_simp
  then show ?thesis by (simp add: parseSchedule_def Let_def AT_HORIZON_MS_def)
qed

theorem at_fires_once_witness:
  "runAt (decideDue (Parsed_at 1798167600000 (fixed_zone 0) ''christmas'') ''gift'' 0 1798167600001 False)
     = Some 1798167600001 \<and>
   runAt (decideDue (Parsed_at 1798167600000 (fixed_zone 0) ''christmas'') ''gift'' 0 1798167600001 True) = None"
proof -
  have "trim ''christmas'' = ''christmas''" by code_simp
  then show ?thesis
    using at_fires_once [OF christmas_schedule, of "''gift''" 0 1798167600001] by auto
qed

text \<open>The bounds of a duration: what \<open>parseDuration\<close> accepts is between one second and ten years,
  formats back to the text without its surrounding blanks, and that text parses to the same duration.\<close>

theorem duration_round_trip:
  assumes "parseDuration text = Inr d"
  shows "MIN_MS \<le> dur_ms d \<and> dur_ms d \<le> MAX_MS \<and> formatDuration d = trim text \<and>
    parseDuration (formatDuration d) = Inr d"
  using parseDuration_Inr [OF assms] assms by (simp add: formatDuration_def parseDuration_trim)

theorem duration_round_trip_witness:
  "MIN_MS \<le> dur_ms hourly \<and> dur_ms hourly \<le> MAX_MS \<and> formatDuration hourly = trim ''1h'' \<and>
    parseDuration (formatDuration hourly) = Inr hourly"
  by (rule duration_round_trip [OF hourly_parse])

text \<open>Formatting does not return every accepted text unchanged: \<open>parseDuration\<close> accepts a text with
  surrounding blanks and \<open>formatDuration\<close> returns it without them.\<close>

theorem duration_not_verbatim:
  "\<exists>text d. parseDuration text = Inr d \<and> formatDuration d \<noteq> text"
proof (intro exI conjI)
  show "parseDuration '' 1h'' = Inr hourly" by code_simp
  show "formatDuration hourly \<noteq> '' 1h''" by (simp add: formatDuration_def hourly_def)
qed

end
