(* ===== verification/Schedule_Store.thy ===== *)
theory Schedule_Store
  imports Schedule "HOL-Library.List_Lexorder" "HOL-Library.Char_ord"
begin

text \<open>
  The durable schedules: the records of \<open>packages/core/src/store/store.ts\<close> (\<open>ScheduleRecord\<close>,
  \<open>UpsertSchedule\<close>, \<open>ScheduleFired\<close>) and the methods of \<open>schedules\<close> in
  \<open>packages/core/src/store/sqlite/store.ts\<close>.

  The table is a list of rows with at most one row per agent and id (its primary key). A timestamp
  column holds an ISO 8601 text of a fixed width, whose text order is the order of the instants: it is
  modelled by the instant in milliseconds. Rows that SQL leaves in an unspecified order (equal
  \<open>next_run_at\<close>) keep their table order.
\<close>

section \<open>Rows\<close>

datatype schedule_origin = Origin_manifest | Origin_api

datatype run_status = Run_ok | Run_error | Run_skipped

record schedule_record =
  agentId :: string
  schedId :: string
  schedKind :: schedule_kind
  expr :: string
  timezone :: "string option"
  task :: string
  deliverChannel :: "string option"
  deliverTo :: "string option"
  sessionMode :: string
  role :: "string option"
  toolsAllow :: "string list option"
  timeoutMs :: "int option"
  maxSteps :: "int option"
  enabled :: bool
  origin :: schedule_origin
  anchorAt :: int
  nextRunAt :: "int option"
  lastFiredAt :: "int option"
  lastStatus :: "run_status option"
  lastError :: "string option"
  lastRunId :: "string option"
  runs :: nat
  sourcePath :: string
  createdAt :: int
  updatedAt :: int

type_synonym table = "schedule_record list"
type_synonym row_key = "string \<times> string"

definition row_key :: "schedule_record \<Rightarrow> row_key" where
  "row_key r = (agentId r, schedId r)"

text \<open>What a caller supplies to \<open>upsert\<close> is a record whose run columns are ignored; \<open>createdAt\<close> stands for
  its \<open>now\<close>.\<close>

definition sched_get :: "table \<Rightarrow> string \<Rightarrow> string \<Rightarrow> schedule_record option" where
  "sched_get t a i = find (\<lambda>r. row_key r = (a, i)) t"

text \<open>\<open>UPDATE ... WHERE agent_id = ? AND id = ?\<close>.\<close>

definition update_row :: "table \<Rightarrow> string \<Rightarrow> string \<Rightarrow> (schedule_record \<Rightarrow> schedule_record) \<Rightarrow> table" where
  "update_row t a i f = map (\<lambda>r. if row_key r = (a, i) then f r else r) t"

text \<open>On conflict every column but \<open>created_at\<close> and the run columns is replaced.\<close>

definition sched_upsert :: "table \<Rightarrow> schedule_record \<Rightarrow> table" where
  "sched_upsert t u =
     (case sched_get t (agentId u) (schedId u) of
        None \<Rightarrow> t @ [u\<lparr>lastFiredAt := None, lastStatus := None, lastError := None, lastRunId := None,
                    runs := 0, updatedAt := createdAt u\<rparr>]
      | Some _ \<Rightarrow> update_row t (agentId u) (schedId u) (\<lambda>r.
          u\<lparr>lastFiredAt := lastFiredAt r, lastStatus := lastStatus r, lastError := lastError r,
            lastRunId := lastRunId r, runs := runs r, createdAt := createdAt r,
            updatedAt := createdAt u\<rparr>))"

definition sched_list :: "table \<Rightarrow> string \<Rightarrow> bool option \<Rightarrow> schedule_origin option \<Rightarrow> schedule_record list" where
  "sched_list t a en orig =
     (let rows = sort_key schedId (filter (\<lambda>r. agentId r = a) t);
          rows' = (case en of None \<Rightarrow> rows | Some b \<Rightarrow> filter (\<lambda>r. enabled r = b) rows)
      in case orig of None \<Rightarrow> rows' | Some g \<Rightarrow> filter (\<lambda>r. origin r = g) rows')"

definition is_due :: "string list \<Rightarrow> int \<Rightarrow> schedule_record \<Rightarrow> bool" where
  "is_due agents now r \<longleftrightarrow>
     enabled r \<and> (case nextRunAt r of None \<Rightarrow> False | Some t \<Rightarrow> t \<le> now) \<and> agentId r \<in> set agents"

definition sched_due :: "table \<Rightarrow> string list \<Rightarrow> int \<Rightarrow> nat \<Rightarrow> schedule_record list" where
  "sched_due t agents now limit =
     (if agents = [] then []
      else take limit (sort_key (\<lambda>r. the (nextRunAt r)) (filter (is_due agents now) t)))"

definition sched_nextDue :: "table \<Rightarrow> string list \<Rightarrow> int option" where
  "sched_nextDue t agents =
     (if agents = [] then None
      else (let times = map (\<lambda>r. the (nextRunAt r))
              (filter (\<lambda>r. enabled r \<and> nextRunAt r \<noteq> None \<and> agentId r \<in> set agents) t)
            in if times = [] then None else Some (Min (set times))))"

definition sched_markFired ::
  "table \<Rightarrow> string \<Rightarrow> string \<Rightarrow> int \<Rightarrow> int \<Rightarrow> int option \<Rightarrow> run_status \<Rightarrow> string option \<Rightarrow> string option \<Rightarrow> table" where
  "sched_markFired t a i firedAt anc nxt st err rid =
     update_row t a i (\<lambda>r. r\<lparr>lastFiredAt := Some firedAt, anchorAt := anc, nextRunAt := nxt,
       lastStatus := Some st, lastError := err, lastRunId := rid, runs := runs r + 1,
       updatedAt := firedAt\<rparr>)"

definition sched_markDeliveryFailed ::
  "table \<Rightarrow> string \<Rightarrow> string \<Rightarrow> string \<Rightarrow> string \<Rightarrow> int \<Rightarrow> bool \<times> table" where
  "sched_markDeliveryFailed t a i rid err now =
     (\<exists>r \<in> set t. row_key r = (a, i) \<and> lastRunId r = Some rid,
      update_row t a i (\<lambda>r. if lastRunId r = Some rid
        then r\<lparr>lastStatus := Some Run_error, lastError := Some err, updatedAt := now\<rparr> else r))"

definition sched_reschedule :: "table \<Rightarrow> string \<Rightarrow> string \<Rightarrow> int \<Rightarrow> int option \<Rightarrow> int \<Rightarrow> table" where
  "sched_reschedule t a i anc nxt now =
     update_row t a i (\<lambda>r. r\<lparr>anchorAt := anc, nextRunAt := nxt, updatedAt := now\<rparr>)"

definition sched_setEnabled :: "table \<Rightarrow> string \<Rightarrow> string \<Rightarrow> bool \<Rightarrow> int \<Rightarrow> table" where
  "sched_setEnabled t a i b now = update_row t a i (\<lambda>r. r\<lparr>enabled := b, updatedAt := now\<rparr>)"

definition delete_row :: "table \<Rightarrow> string \<Rightarrow> string \<Rightarrow> table" where
  "delete_row t a i = filter (\<lambda>r. row_key r \<noteq> (a, i)) t"

definition sched_remove :: "table \<Rightarrow> string \<Rightarrow> string \<Rightarrow> bool \<times> table" where
  "sched_remove t a i =
     (case sched_get t a i of None \<Rightarrow> (False, t) | Some _ \<Rightarrow> (True, delete_row t a i))"

definition manifestIds :: "table \<Rightarrow> string \<Rightarrow> string \<Rightarrow> string list" where
  "manifestIds t a path =
     map schedId (filter (\<lambda>r. agentId r = a \<and> origin r = Origin_manifest \<and>
       (sourcePath r = path \<or> sourcePath r = [])) t)"

definition sched_removeManifestExcept ::
  "table \<Rightarrow> string \<Rightarrow> string list \<Rightarrow> string \<Rightarrow> string list \<times> table" where
  "sched_removeManifestExcept t a keep path =
     (let stale = filter (\<lambda>i. i \<notin> set keep) (manifestIds t a path)
      in (stale, foldl (\<lambda>u i. delete_row u a i) t stale))"

section \<open>The table invariant\<close>

definition wf_table :: "table \<Rightarrow> bool" where
  "wf_table t \<longleftrightarrow> distinct (map row_key t)"

lemma sched_get_Some:
  "wf_table t \<Longrightarrow> sched_get t a i = Some r \<longleftrightarrow> r \<in> set t \<and> row_key r = (a, i)"
  unfolding wf_table_def sched_get_def
  by (induction t) (auto simp: find_Some_iff rev_image_eqI)

lemma sched_get_None: "sched_get t a i = None \<longleftrightarrow> (\<forall>r \<in> set t. row_key r \<noteq> (a, i))"
  by (auto simp: sched_get_def find_None_iff)

lemma update_row_keys:
  "(\<And>r. row_key r = (a, i) \<Longrightarrow> row_key (f r) = (a, i)) \<Longrightarrow> map row_key (update_row t a i f) = map row_key t"
  by (simp add: update_row_def)

lemma update_row_get:
  assumes "\<And>r. row_key r = (a, i) \<Longrightarrow> row_key (f r) = (a, i)"
  shows "sched_get (update_row t a i f) b j =
    (if (b, j) = (a, i) then map_option f (sched_get t a i) else sched_get t b j)"
  using assms by (induction t) (auto simp: sched_get_def update_row_def)

lemma delete_row_get:
  "sched_get (delete_row t a i) b j = (if (b, j) = (a, i) then None else sched_get t b j)"
  by (induction t) (auto simp: sched_get_def delete_row_def)

lemma wf_update_row:
  "wf_table t \<Longrightarrow> (\<And>r. row_key r = (a, i) \<Longrightarrow> row_key (f r) = (a, i)) \<Longrightarrow> wf_table (update_row t a i f)"
  by (simp add: wf_table_def update_row_keys)

lemma wf_delete_row: "wf_table t \<Longrightarrow> wf_table (delete_row t a i)"
  by (auto simp: wf_table_def delete_row_def distinct_map intro: inj_on_subset)

lemma wf_sched_ops:
  assumes "wf_table t"
  shows "wf_table (sched_reschedule t a i anc nxt now)"
    "wf_table (sched_markFired t a i f anc nxt st err rid)"
    "wf_table (sched_setEnabled t a i b now)"
    "wf_table (snd (sched_markDeliveryFailed t a i r e now))"
    "wf_table (snd (sched_remove t a i))"
  using assms
  by (auto simp: sched_reschedule_def sched_markFired_def sched_setEnabled_def
      sched_markDeliveryFailed_def sched_remove_def row_key_def intro!: wf_update_row wf_delete_row
      split: option.splits)

lemma wf_sched_upsert:
  assumes "wf_table t"
  shows "wf_table (sched_upsert t u)"
proof (cases "sched_get t (agentId u) (schedId u)")
  case None
  then have "row_key u \<notin> row_key ` set t" by (auto simp: sched_get_None row_key_def)
  with None assms show ?thesis by (simp add: sched_upsert_def wf_table_def row_key_def)
next
  case (Some r)
  with assms show ?thesis
    by (auto simp: sched_upsert_def row_key_def intro!: wf_update_row)
qed

lemma sched_due_set:
  "r \<in> set (sched_due t agents now limit) \<Longrightarrow> r \<in> set t \<and> is_due agents now r"
  by (auto simp: sched_due_def dest!: in_set_takeD split: if_splits)

lemma sched_due_distinct: "wf_table t \<Longrightarrow> distinct (map row_key (sched_due t agents now limit))"
proof -
  assume "wf_table t"
  then have "inj_on row_key (set t)" "distinct t" by (auto simp: wf_table_def distinct_map)
  then show ?thesis
    unfolding sched_due_def distinct_map
    by (auto simp: distinct_take dest!: in_set_takeD intro: inj_on_subset)
qed

lemma sched_list_set: "r \<in> set (sched_list t a None None) \<longleftrightarrow> r \<in> set t \<and> agentId r = a"
  by (simp add: sched_list_def)

lemma sched_list_distinct: "wf_table t \<Longrightarrow> distinct (map row_key (sched_list t a None None))"
proof -
  assume "wf_table t"
  then have "inj_on row_key (set t)" "distinct t" by (auto simp: wf_table_def distinct_map)
  then show ?thesis by (auto simp: sched_list_def distinct_map intro: inj_on_subset)
qed

lemma sched_get_reschedule:
  "sched_get (sched_reschedule t a i anc nxt now) b j =
    (if (b, j) = (a, i) then map_option (\<lambda>r. r\<lparr>anchorAt := anc, nextRunAt := nxt, updatedAt := now\<rparr>) (sched_get t a i)
     else sched_get t b j)"
  unfolding sched_reschedule_def by (rule update_row_get) (simp add: row_key_def)

lemma sched_get_markFired:
  "sched_get (sched_markFired t a i f anc nxt st err rid) b j =
    (if (b, j) = (a, i) then map_option (\<lambda>r. r\<lparr>lastFiredAt := Some f, anchorAt := anc, nextRunAt := nxt,
       lastStatus := Some st, lastError := err, lastRunId := rid, runs := runs r + 1,
       updatedAt := f\<rparr>) (sched_get t a i)
     else sched_get t b j)"
  unfolding sched_markFired_def by (rule update_row_get) (simp add: row_key_def)

section \<open>The contract of a schedule store\<close>

text \<open>What the scheduler relies on: rows are read and written by key, \<open>due\<close> selects exactly the enabled
  rows of the given agents whose time has come (up to its limit), and moving a row leaves the others
  alone.\<close>

locale schedule_store =
  fixes valid :: "'t \<Rightarrow> bool"
    and get :: "'t \<Rightarrow> string \<Rightarrow> string \<Rightarrow> schedule_record option"
    and due :: "'t \<Rightarrow> string list \<Rightarrow> int \<Rightarrow> nat \<Rightarrow> schedule_record list"
    and reschedule :: "'t \<Rightarrow> string \<Rightarrow> string \<Rightarrow> int \<Rightarrow> int option \<Rightarrow> int \<Rightarrow> 't"
    and markFired :: "'t \<Rightarrow> string \<Rightarrow> string \<Rightarrow> int \<Rightarrow> int \<Rightarrow> int option \<Rightarrow> run_status \<Rightarrow> string option \<Rightarrow>
      string option \<Rightarrow> 't"
  assumes reschedule_valid: "valid t \<Longrightarrow> valid (reschedule t a i anc nxt now)"
    and markFired_valid: "valid t \<Longrightarrow> valid (markFired t a i f anc nxt st err rid)"
    and get_key: "get t a i = Some r \<Longrightarrow> row_key r = (a, i)"
    and due_get: "valid t \<Longrightarrow> r \<in> set (due t agents now n) \<Longrightarrow>
      get t (agentId r) (schedId r) = Some r \<and> is_due agents now r"
    and due_distinct: "valid t \<Longrightarrow> distinct (map row_key (due t agents now n))"
    and get_reschedule: "get (reschedule t a i anc nxt now) b j =
      (if (b, j) = (a, i) then map_option (\<lambda>r. r\<lparr>anchorAt := anc, nextRunAt := nxt, updatedAt := now\<rparr>) (get t a i)
       else get t b j)"
    and get_markFired: "get (markFired t a i f anc nxt st err rid) b j =
      (if (b, j) = (a, i) then map_option (\<lambda>r. r\<lparr>lastFiredAt := Some f, anchorAt := anc, nextRunAt := nxt,
         lastStatus := Some st, lastError := err, lastRunId := rid, runs := runs r + 1,
         updatedAt := f\<rparr>) (get t a i)
       else get t b j)"
begin

text \<open>A row moved to a later time, or to none, is not due any more; every other row is as due as it was.\<close>

lemma rescheduled_not_due:
  assumes "valid t" "case nxt of None \<Rightarrow> True | Some u \<Rightarrow> now < u"
    "r \<in> set (due (reschedule t a i anc nxt stamp) agents now n)"
  shows "row_key r \<noteq> (a, i) \<and> get t (agentId r) (schedId r) = Some r"
proof -
  from due_get [OF reschedule_valid [OF assms(1)] assms(3)]
  have r: "get (reschedule t a i anc nxt stamp) (agentId r) (schedId r) = Some r" "is_due agents now r"
    by auto
  then show ?thesis
    using assms(2) by (auto simp: get_reschedule row_key_def is_due_def split: if_splits option.splits)
qed

text \<open>A deferral moves a row without counting a run; a finished run counts one.\<close>

lemma runs_counted:
  assumes "get t a i = Some r"
  shows "map_option runs (get (reschedule t a i anc nxt now) a i) = Some (runs r)"
    "map_option runs (get (markFired t a i f anc nxt st err rid) a i) = Some (runs r + 1)"
  using assms by (simp_all add: get_reschedule get_markFired)

end

interpretation sqlite_schedules: schedule_store wf_table sched_get sched_due sched_reschedule sched_markFired
proof
  show "sched_get t a i = Some r \<Longrightarrow> row_key r = (a, i)" for t a i r
    by (auto simp: sched_get_def find_Some_iff)
  show "wf_table t \<Longrightarrow> r \<in> set (sched_due t agents now n) \<Longrightarrow>
      sched_get t (agentId r) (schedId r) = Some r \<and> is_due agents now r" for t r agents now n
    by (drule sched_due_set) (simp add: sched_get_Some row_key_def)
qed (auto simp: wf_sched_ops sched_due_distinct sched_get_reschedule sched_get_markFired)

lemma foldl_delete_row:
  "set (foldl (\<lambda>u i. delete_row u a i) t is) = {r \<in> set t. \<not> (agentId r = a \<and> schedId r \<in> set is)}"
  by (induction "is" arbitrary: t) (auto simp: delete_row_def row_key_def)

section \<open>Properties\<close>

text \<open>Reconciling a manifest removes exactly the rows it owns and no longer declares: a row survives
  iff it belongs to another agent, was created through the API, carries another manifest's path, or is
  still declared.\<close>

theorem removeManifestExcept_exact:
  assumes "wf_table t"
  shows "set (snd (sched_removeManifestExcept t a keep path)) =
    {r \<in> set t. \<not> (agentId r = a \<and> origin r = Origin_manifest \<and> (sourcePath r = path \<or> sourcePath r = []) \<and>
      schedId r \<notin> set keep)}"
proof -
  have uniq: "r = s" if "r \<in> set t" "s \<in> set t" "agentId r = agentId s" "schedId r = schedId s" for r s
    using assms that by (auto simp: wf_table_def distinct_map inj_on_def row_key_def)
  show ?thesis
    unfolding sched_removeManifestExcept_def Let_def snd_conv foldl_delete_row manifestIds_def
    by (auto dest: uniq)
qed

definition sample_row :: schedule_record where
  "sample_row = \<lparr>agentId = ''a'', schedId = ''s'', schedKind = Kind_every, expr = ''1h'', timezone = None,
     task = ''report'', deliverChannel = None, deliverTo = None, sessionMode = ''isolated'', role = None,
     toolsAllow = None, timeoutMs = None, maxSteps = None, enabled = True, origin = Origin_manifest,
     anchorAt = 0, nextRunAt = Some 5000, lastFiredAt = None, lastStatus = None, lastError = None,
     lastRunId = None, runs = 0, sourcePath = ''/m'', createdAt = 0, updatedAt = 0\<rparr>"

lemma sample_row_fields [simp]:
  "agentId sample_row = ''a''" "schedId sample_row = ''s''" "schedKind sample_row = Kind_every"
  "expr sample_row = ''1h''" "timezone sample_row = None" "enabled sample_row"
  "origin sample_row = Origin_manifest" "anchorAt sample_row = 0" "nextRunAt sample_row = Some 5000"
  "lastRunId sample_row = None" "sourcePath sample_row = ''/m''"
  by (simp_all add: sample_row_def)

theorem removeManifestExcept_exact_witness:
  "set (snd (sched_removeManifestExcept [sample_row, sample_row\<lparr>schedId := ''k'', origin := Origin_api\<rparr>] ''a'' [] ''/m''))
     = {sample_row\<lparr>schedId := ''k'', origin := Origin_api\<rparr>}"
proof -
  have pick: "{r \<in> set [x, y]. \<not> P r} = {y}" if "P x" "\<not> P y" for P and x y :: schedule_record
    using that by auto
  have "wf_table [sample_row, sample_row\<lparr>schedId := ''k'', origin := Origin_api\<rparr>]" by code_simp
  from removeManifestExcept_exact [OF this, of "''a''" "[]" "''/m''"] show ?thesis
    by (subst (asm) pick) simp_all
qed

text \<open>A late delivery report lands only on the run it belongs to: it changes the row iff the row still
  describes that run, and then only its status, error and stamp.\<close>

theorem markDeliveryFailed_scoped:
  assumes "wf_table t" "sched_get t a i = Some r"
  shows "(fst (sched_markDeliveryFailed t a i rid err now) \<longleftrightarrow> lastRunId r = Some rid) \<and>
    sched_get (snd (sched_markDeliveryFailed t a i rid err now)) b j =
      (if (b, j) \<noteq> (a, i) then sched_get t b j
       else if lastRunId r = Some rid
         then Some (r\<lparr>lastStatus := Some Run_error, lastError := Some err, updatedAt := now\<rparr>)
       else Some r)"
proof
  have "s = r" if "s \<in> set t" "row_key s = (a, i)" for s
    using sched_get_Some [OF assms(1), of a i s] assms(2) that by simp
  moreover have "r \<in> set t" "row_key r = (a, i)"
    using sched_get_Some [OF assms(1), of a i r] assms(2) by simp_all
  ultimately show "fst (sched_markDeliveryFailed t a i rid err now) \<longleftrightarrow> lastRunId r = Some rid"
    unfolding sched_markDeliveryFailed_def fst_conv by blast
  have "sched_get (snd (sched_markDeliveryFailed t a i rid err now)) b j =
      (if (b, j) = (a, i) then map_option (\<lambda>r. if lastRunId r = Some rid
        then r\<lparr>lastStatus := Some Run_error, lastError := Some err, updatedAt := now\<rparr> else r) (sched_get t a i)
       else sched_get t b j)"
    unfolding sched_markDeliveryFailed_def snd_conv by (rule update_row_get) (simp add: row_key_def)
  then show "sched_get (snd (sched_markDeliveryFailed t a i rid err now)) b j =
      (if (b, j) \<noteq> (a, i) then sched_get t b j
       else if lastRunId r = Some rid
         then Some (r\<lparr>lastStatus := Some Run_error, lastError := Some err, updatedAt := now\<rparr>)
       else Some r)"
    using assms(2) by simp
qed

theorem markDeliveryFailed_scoped_witness:
  "\<not> fst (sched_markDeliveryFailed [sample_row] ''a'' ''s'' ''run_1'' ''lost'' 9)"
proof -
  have "wf_table [sample_row]" "sched_get [sample_row] ''a'' ''s'' = Some sample_row" by code_simp+
  from markDeliveryFailed_scoped [OF this, of "''run_1''" "''lost''" 9 "''a''" "''s''"] show ?thesis by simp
qed

end
