(* ===== verification/Scheduler.thy ===== *)
theory Scheduler
  imports Schedule_Store
begin

text \<open>
  \<open>packages/core/src/schedule/scheduler.ts\<close>: one timer for every agent, the due rows of a wake, the
  overlap policy (at most one run of a schedule at a time, at most one fire held), the bookkeeping of a
  finished run, and the recomputation at boot.

  The state has the store's table, the in-flight map, the runs that have started and not finished, the
  live timers, the timer the scheduler can still cancel, and the events it emitted. An \<open>await\<close> on the
  store resolves without leaving the current task, because the SQLite driver is synchronous; so a
  handler (a wake, a finished run, a boot) is one step, and \<open>#arm\<close>, whose \<open>.then\<close> callback runs after
  its caller has gone on, is two: it first forgets its timer and later sets a new one. A run itself, the
  \<open>run\<close> callback, is whatever happens between the step that starts it and the step that finishes it.
  Clock readings, run ids and outcomes are arguments of the steps, unconstrained.
\<close>

section \<open>State\<close>

record host_env =
  zoneDb :: "string \<Rightarrow> zone option"
  hostZone :: string
  dateParse :: "string \<Rightarrow> int option"

datatype sched_event =
    Ev_skipped string string nat bool
  | Ev_fired string string int bool
  | Ev_deferred string string
  | Ev_error string string string

record scheduler =
  rows :: table
  agentIds :: "string list"
  inFlight :: "string \<rightharpoonup> bool"
  running :: "(string \<times> schedule_record \<times> string) list"
  pendingArms :: nat
  timers :: "(nat \<times> int) list"
  timerCount :: nat
  cancelTimer :: "nat option"
  started :: bool
  stopped :: bool
  events :: "sched_event list"

definition SCHEDULER_HORIZON_MS :: int where
  "SCHEDULER_HORIZON_MS = 30000"

text \<open>Agent ids are slugs: no \<open>/\<close> in them.\<close>

definition slug :: "string \<Rightarrow> bool" where
  "slug a \<longleftrightarrow> CHR ''/'' \<notin> set a"

definition run_key :: "schedule_record \<Rightarrow> string" where
  "run_key r = agentId r @ ''/'' @ schedId r"

definition emit :: "sched_event \<Rightarrow> scheduler \<Rightarrow> scheduler" where
  "emit e s = s\<lparr>events := events s @ [e]\<rparr>"

section \<open>Operations\<close>

text \<open>\<open>#decide\<close>: the decision and the event of an unreadable row.\<close>

definition decide :: "host_env \<Rightarrow> schedule_record \<Rightarrow> int \<Rightarrow> bool \<Rightarrow> due_decision option" where
  "decide env r now consumed =
     (case parseSchedule (zoneDb env) (hostZone env) (dateParse env) (schedKind r) (expr r) (timezone r) now of
        Inl _ \<Rightarrow> None
      | Inr parsed \<Rightarrow> Some (decideDue parsed (schedId r) (anchorAt r) now consumed))"

definition emit_unreadable :: "host_env \<Rightarrow> schedule_record \<Rightarrow> int \<Rightarrow> scheduler \<Rightarrow> scheduler" where
  "emit_unreadable env r now s =
     (if decide env r now True = None then emit (Ev_error (agentId r) (schedId r) ''schedule_unreadable'') s
      else s)"

definition reschedule_row :: "schedule_record \<Rightarrow> due_decision option \<Rightarrow> int \<Rightarrow> scheduler \<Rightarrow> scheduler" where
  "reschedule_row r d now s =
     s\<lparr>rows := sched_reschedule (rows s) (agentId r) (schedId r)
        (case Option.bind d anchor of None \<Rightarrow> anchorAt r | Some a \<Rightarrow> a)
        (Option.bind d runAt) now\<rparr>"

definition recompute_row :: "host_env \<Rightarrow> int \<Rightarrow> schedule_record \<Rightarrow> scheduler \<Rightarrow> scheduler" where
  "recompute_row env now r s =
     (case nextRunAt r of
        None \<Rightarrow> s
      | Some t \<Rightarrow>
          if t > now then s
          else (case decide env r now False of
                  None \<Rightarrow> emit_unreadable env r now s
                | Some d \<Rightarrow>
                    reschedule_row r (Some d) now
                      (if enabled r
                       then emit (Ev_skipped (agentId r) (schedId r) (missed d + 1) (missedCapped d)) s
                       else s)))"

fun recompute_rows :: "host_env \<Rightarrow> int \<Rightarrow> schedule_record list \<Rightarrow> scheduler \<Rightarrow> scheduler" where
  "recompute_rows env now [] s = s"
| "recompute_rows env now (r # rs) s = recompute_rows env now rs (recompute_row env now r s)"

fun recompute :: "host_env \<Rightarrow> int \<Rightarrow> string list \<Rightarrow> scheduler \<Rightarrow> scheduler" where
  "recompute env now [] s = s"
| "recompute env now (a # as) s =
     recompute env now as (recompute_rows env now (sched_list (rows s) a None None) s)"

text \<open>\<open>#arm\<close> up to its \<open>.then\<close>, and the callback: cancelling is dropping the timer from the live ones.\<close>

definition cancel :: "scheduler \<Rightarrow> scheduler" where
  "cancel s = s\<lparr>timers := (case cancelTimer s of None \<Rightarrow> timers s
       | Some i \<Rightarrow> filter (\<lambda>(j, _). j \<noteq> i) (timers s)), cancelTimer := None\<rparr>"

definition arm :: "scheduler \<Rightarrow> scheduler" where
  "arm s = (if stopped s then s else (cancel s)\<lparr>pendingArms := pendingArms s + 1\<rparr>)"

definition arm_delay :: "int \<Rightarrow> int option \<Rightarrow> int \<Rightarrow> int" where
  "arm_delay horizon soonest now =
     max 0 (min (case soonest of None \<Rightarrow> horizon | Some t \<Rightarrow> t - now) horizon)"

definition armed :: "int \<Rightarrow> int \<Rightarrow> scheduler \<Rightarrow> scheduler" where
  "armed horizon now s =
     (let s' = s\<lparr>pendingArms := pendingArms s - 1\<rparr>
      in if stopped s then s'
         else s'\<lparr>timers := timers s @ [(timerCount s, arm_delay horizon (sched_nextDue (rows s) (agentIds s)) now)],
                 cancelTimer := Some (timerCount s), timerCount := timerCount s + 1\<rparr>)"

definition start :: "host_env \<Rightarrow> int \<Rightarrow> scheduler \<Rightarrow> scheduler" where
  "start env now s =
     (if started s \<or> stopped s then s
      else arm (recompute env now (agentIds s) (s\<lparr>started := True\<rparr>)))"

definition stop :: "scheduler \<Rightarrow> scheduler" where
  "stop s = (if stopped s then s else cancel (s\<lparr>stopped := True\<rparr>))"

definition changed :: "scheduler \<Rightarrow> scheduler" where
  "changed s = (if \<not> started s \<or> stopped s then s else arm s)"

definition moveOn :: "host_env \<Rightarrow> schedule_record \<Rightarrow> int \<Rightarrow> scheduler \<Rightarrow> scheduler" where
  "moveOn env r now s =
     reschedule_row r (decide env r now True) now (emit_unreadable env r now s)"

text \<open>\<open>#fire\<close> up to its \<open>run\<close> callback; \<open>at_ms\<close> is its clock reading, \<open>rid\<close> the new run id.\<close>

definition fire :: "schedule_record \<Rightarrow> int \<Rightarrow> int \<Rightarrow> string \<Rightarrow> scheduler \<Rightarrow> scheduler" where
  "fire r dueAt at_ms rid s =
     emit (Ev_fired (agentId r) (schedId r)
         (at_ms - (case nextRunAt r of Some t \<Rightarrow> t | None \<Rightarrow> dueAt))
         (schedKind r = Kind_at \<and> anchorAt r < at_ms))
       (s\<lparr>running := running s @ [(run_key r, r, rid)]\<rparr>)"

definition track :: "schedule_record \<Rightarrow> int \<Rightarrow> int \<Rightarrow> string \<Rightarrow> scheduler \<Rightarrow> scheduler" where
  "track r dueAt at_ms rid s = fire r dueAt at_ms rid (s\<lparr>inFlight := (inFlight s)(run_key r \<mapsto> False)\<rparr>)"

text \<open>One due row of a wake; \<open>clock\<close> and \<open>fresh\<close> give the reading and the run id of a run it starts.\<close>

definition wake_row ::
  "host_env \<Rightarrow> int \<Rightarrow> (string \<Rightarrow> int) \<Rightarrow> (string \<Rightarrow> string) \<Rightarrow> schedule_record \<Rightarrow> scheduler \<Rightarrow> scheduler" where
  "wake_row env now clock fresh r s =
     (case inFlight s (run_key r) of
        Some deferred \<Rightarrow>
          moveOn env r now
            (if deferred then s
             else emit (Ev_deferred (agentId r) (schedId r)) (s\<lparr>inFlight := (inFlight s)(run_key r \<mapsto> True)\<rparr>))
      | None \<Rightarrow> track r now (clock (run_key r)) (fresh (run_key r)) (moveOn env r now s))"

fun wake_rows ::
  "host_env \<Rightarrow> int \<Rightarrow> (string \<Rightarrow> int) \<Rightarrow> (string \<Rightarrow> string) \<Rightarrow> schedule_record list \<Rightarrow> scheduler \<Rightarrow> scheduler" where
  "wake_rows env now clock fresh [] s = s"
| "wake_rows env now clock fresh (r # rs) s = wake_rows env now clock fresh rs (wake_row env now clock fresh r s)"

definition due_limit :: nat where
  "due_limit = 100"

definition wake ::
  "host_env \<Rightarrow> int \<Rightarrow> (string \<Rightarrow> int) \<Rightarrow> (string \<Rightarrow> string) \<Rightarrow> scheduler \<Rightarrow> scheduler" where
  "wake env now clock fresh s =
     (if stopped s then s
      else arm (wake_rows env now clock fresh (sched_due (rows s) (agentIds s) now due_limit) s))"

definition record_run :: "schedule_record \<Rightarrow> int \<Rightarrow> run_status \<Rightarrow> string option \<Rightarrow> string \<Rightarrow> scheduler \<Rightarrow> scheduler" where
  "record_run r now st err rid s =
     (case sched_get (rows s) (agentId r) (schedId r) of
        None \<Rightarrow> s
      | Some cur \<Rightarrow> s\<lparr>rows := sched_markFired (rows s) (agentId r) (schedId r) now (anchorAt cur) (nextRunAt cur)
          st err (Some rid)\<rparr>)"

text \<open>The rest of \<open>#fire\<close>: the outcome of the run (\<open>None\<close> when it resolved, the code and message of what it
  threw otherwise), the record, and the held fire.\<close>

definition finish ::
  "schedule_record \<Rightarrow> string \<Rightarrow> (string \<times> string) option \<Rightarrow> int \<Rightarrow> int \<Rightarrow> string \<Rightarrow> scheduler \<Rightarrow> scheduler" where
  "finish r rid failure now at_ms rid2 s =
     (let s1 = (case failure of None \<Rightarrow> s | Some (c, _) \<Rightarrow> emit (Ev_error (agentId r) (schedId r) c) s);
          s2 = record_run r now (if failure = None then Run_ok else Run_error) (map_option snd failure) rid s1;
          entry = inFlight s2 (run_key r);
          s3 = s2\<lparr>inFlight := (inFlight s2)(run_key r := None)\<rparr>
      in if entry = Some True \<and> \<not> stopped s3 then
           (case sched_get (rows s3) (agentId r) (schedId r) of
              None \<Rightarrow> s3
            | Some cur \<Rightarrow> if enabled cur then track cur at_ms at_ms rid2 s3 else s3)
         else s3)"

section \<open>Steps\<close>

text \<open>A new process over the same table.\<close>

definition boot :: "table \<Rightarrow> string list \<Rightarrow> scheduler" where
  "boot t as = \<lparr>rows = t, agentIds = as, inFlight = Map.empty, running = [], pendingArms = 0, timers = [],
     timerCount = 0, cancelTimer = None, started = False, stopped = False, events = []\<rparr>"

text \<open>What can happen to a running scheduler: its methods, its callbacks, an agent being added, and the
  writes others make to the store.\<close>

inductive sched_step :: "host_env \<Rightarrow> int \<Rightarrow> row_key option \<Rightarrow> scheduler \<Rightarrow> scheduler \<Rightarrow> bool" for env horizon where
  Start: "sched_step env horizon None s (start env now s)"
| Stop: "sched_step env horizon None s (stop s)"
| Changed: "sched_step env horizon None s (changed s)"
| Armed: "0 < pendingArms s \<Longrightarrow> sched_step env horizon None s (armed horizon now s)"
| Wake: "(i, d) \<in> set (timers s) \<Longrightarrow>
    sched_step env horizon None s
      (wake env now clock fresh (s\<lparr>timers := filter (\<lambda>(j, _). j \<noteq> i) (timers s)\<rparr>))"
| Finish: "(run_key r, r, rid) \<in> set (running s) \<Longrightarrow>
    sched_step env horizon None s
      (finish r rid failure now at_ms rid2 (s\<lparr>running := remove1 (run_key r, r, rid) (running s)\<rparr>))"
| Host: "sched_step env horizon None s (s\<lparr>agentIds := as\<rparr>)"
| Upsert: "slug (agentId u) \<Longrightarrow>
    sched_step env horizon (Some (row_key u)) s (s\<lparr>rows := sched_upsert (rows s) u\<rparr>)"
| SetEnabled: "sched_step env horizon None s (s\<lparr>rows := sched_setEnabled (rows s) a i b now\<rparr>)"
| Remove: "sched_step env horizon None s (s\<lparr>rows := snd (sched_remove (rows s) a i)\<rparr>)"
| Crash: "sched_step env horizon None s ((boot (rows s) as)\<lparr>events := events s\<rparr>)"

inductive_cases sched_stepE: "sched_step env horizon u s s'"

text \<open>The states reached from a first boot over a table, with the keys others wrote on the way.\<close>

inductive sched_reach ::
  "host_env \<Rightarrow> int \<Rightarrow> table \<Rightarrow> string list \<Rightarrow> row_key list \<Rightarrow> scheduler \<Rightarrow> bool" for env horizon t as where
  Boot: "sched_reach env horizon t as [] (boot t as)"
| Step: "sched_reach env horizon t as us s \<Longrightarrow> sched_step env horizon u s s' \<Longrightarrow>
    sched_reach env horizon t as (case u of None \<Rightarrow> us | Some k \<Rightarrow> k # us) s'"

section \<open>Field lemmas\<close>

lemma scheduler_simps [simp]:
  "rows (emit e s) = rows s" "inFlight (emit e s) = inFlight s" "running (emit e s) = running s"
  "timers (emit e s) = timers s" "cancelTimer (emit e s) = cancelTimer s"
  "timerCount (emit e s) = timerCount s" "stopped (emit e s) = stopped s"
  "agentIds (emit e s) = agentIds s" "events (emit e s) = events s @ [e]"
  "rows (emit_unreadable env r now s) = rows s" "inFlight (emit_unreadable env r now s) = inFlight s"
  "running (emit_unreadable env r now s) = running s" "timers (emit_unreadable env r now s) = timers s"
  "cancelTimer (emit_unreadable env r now s) = cancelTimer s"
  "timerCount (emit_unreadable env r now s) = timerCount s"
  "stopped (emit_unreadable env r now s) = stopped s"
  "agentIds (emit_unreadable env r now s) = agentIds s"
  "inFlight (reschedule_row r d now s) = inFlight s" "running (reschedule_row r d now s) = running s"
  "timers (reschedule_row r d now s) = timers s" "cancelTimer (reschedule_row r d now s) = cancelTimer s"
  "timerCount (reschedule_row r d now s) = timerCount s" "stopped (reschedule_row r d now s) = stopped s"
  "agentIds (reschedule_row r d now s) = agentIds s" "events (reschedule_row r d now s) = events s"
  "rows (cancel s) = rows s" "inFlight (cancel s) = inFlight s" "running (cancel s) = running s"
  "cancelTimer (cancel s) = None" "timerCount (cancel s) = timerCount s" "stopped (cancel s) = stopped s"
  "agentIds (cancel s) = agentIds s" "events (cancel s) = events s"
  "rows (arm s) = rows s" "inFlight (arm s) = inFlight s" "running (arm s) = running s"
  "timerCount (arm s) = timerCount s" "stopped (arm s) = stopped s" "agentIds (arm s) = agentIds s"
  "events (arm s) = events s"
  by (simp_all add: emit_def emit_unreadable_def reschedule_row_def cancel_def arm_def)

lemma moveOn_simps [simp]:
  "inFlight (moveOn env r now s) = inFlight s" "running (moveOn env r now s) = running s"
  "timers (moveOn env r now s) = timers s" "cancelTimer (moveOn env r now s) = cancelTimer s"
  "timerCount (moveOn env r now s) = timerCount s" "stopped (moveOn env r now s) = stopped s"
  "agentIds (moveOn env r now s) = agentIds s"
  by (simp_all add: moveOn_def)

lemma track_simps [simp]:
  "rows (track r d m rid s) = rows s" "inFlight (track r d m rid s) = (inFlight s)(run_key r \<mapsto> False)"
  "running (track r d m rid s) = running s @ [(run_key r, r, rid)]"
  "timers (track r d m rid s) = timers s" "cancelTimer (track r d m rid s) = cancelTimer s"
  "timerCount (track r d m rid s) = timerCount s" "stopped (track r d m rid s) = stopped s"
  "agentIds (track r d m rid s) = agentIds s"
  by (simp_all add: track_def fire_def)

lemma record_run_simps [simp]:
  "inFlight (record_run r now st err rid s) = inFlight s" "running (record_run r now st err rid s) = running s"
  "timers (record_run r now st err rid s) = timers s"
  "cancelTimer (record_run r now st err rid s) = cancelTimer s"
  "timerCount (record_run r now st err rid s) = timerCount s"
  "stopped (record_run r now st err rid s) = stopped s" "events (record_run r now st err rid s) = events s"
  "agentIds (record_run r now st err rid s) = agentIds s"
  by (simp_all add: record_run_def split: option.splits)

lemma recompute_row_simps [simp]:
  "inFlight (recompute_row env now r s) = inFlight s" "running (recompute_row env now r s) = running s"
  "timers (recompute_row env now r s) = timers s" "cancelTimer (recompute_row env now r s) = cancelTimer s"
  "timerCount (recompute_row env now r s) = timerCount s" "stopped (recompute_row env now r s) = stopped s"
  "agentIds (recompute_row env now r s) = agentIds s"
  by (simp_all add: recompute_row_def split: option.splits)

lemma recompute_rows_simps [simp]:
  "inFlight (recompute_rows env now rs s) = inFlight s \<and> running (recompute_rows env now rs s) = running s \<and>
   timers (recompute_rows env now rs s) = timers s \<and> cancelTimer (recompute_rows env now rs s) = cancelTimer s \<and>
   timerCount (recompute_rows env now rs s) = timerCount s \<and> stopped (recompute_rows env now rs s) = stopped s \<and>
   agentIds (recompute_rows env now rs s) = agentIds s"
  by (induction rs arbitrary: s) simp_all

lemma recompute_simps [simp]:
  "inFlight (recompute env now as s) = inFlight s \<and> running (recompute env now as s) = running s \<and>
   timers (recompute env now as s) = timers s \<and> cancelTimer (recompute env now as s) = cancelTimer s \<and>
   timerCount (recompute env now as s) = timerCount s \<and> stopped (recompute env now as s) = stopped s \<and>
   agentIds (recompute env now as s) = agentIds s"
  by (induction as arbitrary: s) simp_all

section \<open>The table through the handlers\<close>

definition wf_rows :: "table \<Rightarrow> bool" where
  "wf_rows t \<longleftrightarrow> wf_table t \<and> (\<forall>r \<in> set t. slug (agentId r))"

lemma wf_rows_update:
  assumes "wf_rows t" "\<And>r. row_key r = (a, i) \<Longrightarrow> row_key (f r) = (a, i)"
  shows "wf_rows (update_row t a i f)"
proof -
  have keys: "(\<forall>r \<in> set u. slug (agentId r)) \<longleftrightarrow> (\<forall>k \<in> set (map row_key u). slug (fst k))" for u
    by (simp add: row_key_def)
  show ?thesis
    using assms wf_update_row [OF _ assms(2), of t]
    unfolding wf_rows_def keys by (simp only: update_row_keys [OF assms(2)]) blast
qed

lemma wf_rows_ops:
  assumes "wf_rows t"
  shows "wf_rows (sched_reschedule t a i anc nxt now)" "wf_rows (sched_markFired t a i f anc nxt st err rid)"
    "wf_rows (sched_setEnabled t a i b now)" "wf_rows (snd (sched_remove t a i))"
    "slug (agentId u) \<Longrightarrow> wf_rows (sched_upsert t u)"
proof -
  show "wf_rows (sched_reschedule t a i anc nxt now)" "wf_rows (sched_markFired t a i f anc nxt st err rid)"
    "wf_rows (sched_setEnabled t a i b now)"
    unfolding sched_reschedule_def sched_markFired_def sched_setEnabled_def
    using assms by (auto intro!: wf_rows_update simp: row_key_def)
  show "wf_rows (snd (sched_remove t a i))"
    using assms wf_delete_row [of t a i]
    by (auto simp: wf_rows_def sched_remove_def delete_row_def split: option.splits)
  show "wf_rows (sched_upsert t u)" if "slug (agentId u)"
    using that assms wf_sched_upsert [of t u]
    by (auto simp: wf_rows_def sched_upsert_def update_row_def split: option.splits)
qed

lemma wf_rows_handlers:
  assumes "wf_rows (rows s)"
  shows "wf_rows (rows (reschedule_row r d now s))" "wf_rows (rows (moveOn env r now s))"
    "wf_rows (rows (recompute_row env now r s))" "wf_rows (rows (record_run r now st err rid s))"
  using assms
  by (auto simp: reschedule_row_def moveOn_def recompute_row_def record_run_def emit_def emit_unreadable_def
      wf_rows_ops split: option.splits)

lemma wf_rows_recompute:
  "wf_rows (rows s) \<Longrightarrow> wf_rows (rows (recompute_rows env now rs s))"
  "wf_rows (rows s) \<Longrightarrow> wf_rows (rows (recompute env now as s))"
proof -
  have *: "wf_rows (rows s) \<Longrightarrow> wf_rows (rows (recompute_rows env now rs s))" for rs s
    by (induction rs arbitrary: s) (simp_all add: wf_rows_handlers)
  then show "wf_rows (rows s) \<Longrightarrow> wf_rows (rows (recompute_rows env now rs s))" .
  show "wf_rows (rows s) \<Longrightarrow> wf_rows (rows (recompute env now as s))"
    by (induction as arbitrary: s) (simp_all add: *)
qed

section \<open>The invariant\<close>

definition sched_inv :: "int \<Rightarrow> scheduler \<Rightarrow> bool" where
  "sched_inv horizon s \<longleftrightarrow>
     wf_rows (rows s) \<and>
     distinct (map fst (running s)) \<and> fst ` set (running s) = dom (inFlight s) \<and>
     (\<forall>(k, r, _) \<in> set (running s). k = run_key r \<and> slug (agentId r)) \<and>
     (\<forall>(i, d) \<in> set (timers s). 0 \<le> d \<and> d \<le> horizon) \<and>
     (stopped s \<longrightarrow> cancelTimer s = None)"

lemma cancel_timers: "set (timers (cancel s)) \<subseteq> set (timers s)"
  by (auto simp: cancel_def split: option.splits)

lemma arm_delay_bounds: "0 \<le> horizon \<Longrightarrow> 0 \<le> arm_delay horizon soonest now \<and> arm_delay horizon soonest now \<le> horizon"
  by (simp add: arm_delay_def)

lemma inv_cancel: "sched_inv h s \<Longrightarrow> sched_inv h (cancel s)"
  using cancel_timers [of s] by (auto simp: sched_inv_def)

lemma inv_arm: "sched_inv h s \<Longrightarrow> sched_inv h (arm s)"
  using inv_cancel [of h s] by (auto simp: sched_inv_def arm_def)

lemma inv_armed: "0 \<le> h \<Longrightarrow> sched_inv h s \<Longrightarrow> sched_inv h (armed h now s)"
  using arm_delay_bounds [of h] by (auto simp: sched_inv_def armed_def Let_def)

lemma inv_stop: "sched_inv h s \<Longrightarrow> sched_inv h (stop s)"
  using cancel_timers [of "s\<lparr>stopped := True\<rparr>"] by (fastforce simp: sched_inv_def stop_def)

lemma inv_changed: "sched_inv h s \<Longrightarrow> sched_inv h (changed s)"
  by (simp add: changed_def inv_arm)

lemma inv_start:
  assumes "sched_inv h s"
  shows "sched_inv h (start env now s)"
proof -
  have "sched_inv h (recompute env now (agentIds s) (s\<lparr>started := True\<rparr>))"
    using assms by (simp add: sched_inv_def wf_rows_recompute)
  then show ?thesis using assms by (simp add: start_def inv_arm)
qed

lemma inv_moveOn: "sched_inv h s \<Longrightarrow> sched_inv h (moveOn env r now s)"
  by (simp add: sched_inv_def wf_rows_handlers)

lemma inv_defer: "sched_inv h s \<Longrightarrow> inFlight s k \<noteq> None \<Longrightarrow> sched_inv h (s\<lparr>inFlight := (inFlight s)(k \<mapsto> b)\<rparr>)"
  by (auto simp: sched_inv_def)

lemma inv_track:
  assumes "sched_inv h s" "inFlight s (run_key r) = None" "slug (agentId r)"
  shows "sched_inv h (track r d m rid s)"
proof -
  have "run_key r \<notin> fst ` set (running s)" using assms by (auto simp: sched_inv_def)
  with assms show ?thesis by (auto simp: sched_inv_def)
qed

lemma inv_emit: "sched_inv h (emit e s) = sched_inv h s"
  by (simp add: sched_inv_def)

lemma inv_wake_row:
  assumes "sched_inv h s" "slug (agentId r)"
  shows "sched_inv h (wake_row env now clock fresh r s)"
  using assms
  by (auto simp: wake_row_def inv_emit intro!: inv_moveOn inv_track inv_defer split: option.splits)

lemma inv_wake_rows:
  "sched_inv h s \<Longrightarrow> \<forall>r \<in> set rs. slug (agentId r) \<Longrightarrow> sched_inv h (wake_rows env now clock fresh rs s)"
  by (induction rs arbitrary: s) (simp_all add: inv_wake_row)

lemma inv_wake:
  assumes "sched_inv h s"
  shows "sched_inv h (wake env now clock fresh s)"
proof -
  have "\<forall>r \<in> set (sched_due (rows s) (agentIds s) now due_limit). slug (agentId r)"
    using assms by (auto simp: sched_inv_def wf_rows_def dest: sched_due_set)
  with assms show ?thesis by (auto simp: wake_def intro!: inv_arm inv_wake_rows)
qed

text \<open>Taking a finished run out of the running ones and out of the in-flight map.\<close>

lemma inv_untrack:
  assumes "sched_inv h s" "(run_key r, r, rid) \<in> set (running s)"
  shows "sched_inv h (s\<lparr>running := remove1 (run_key r, r, rid) (running s),
    inFlight := (inFlight s)(run_key r := None)\<rparr>)"
proof -
  have d: "distinct (map fst (running s))" "distinct (running s)"
    using assms by (auto simp: sched_inv_def distinct_map)
  have "fst ` (set (running s) - {(run_key r, r, rid)}) = fst ` set (running s) - {run_key r}"
    using d(1) assms(2) by (force simp: distinct_map inj_on_def)
  with assms d show ?thesis
    by (auto simp: sched_inv_def distinct_map set_remove1_eq intro: inj_on_subset)
qed

lemma record_run_commute:
  "record_run r now st err rid (s\<lparr>running := x\<rparr>) = (record_run r now st err rid s)\<lparr>running := x\<rparr>"
  by (simp add: record_run_def split: option.splits)

lemma inv_record: "sched_inv h s \<Longrightarrow> sched_inv h (record_run r now st err rid s)"
  by (simp add: sched_inv_def wf_rows_handlers)

lemma inv_finish:
  assumes "sched_inv h s" "(run_key r, r, rid) \<in> set (running s)"
  shows "sched_inv h (finish r rid failure now at_ms rid2
    (s\<lparr>running := remove1 (run_key r, r, rid) (running s)\<rparr>))"
proof -
  define s1 where "s1 = (case failure of None \<Rightarrow> s | Some (c, _) \<Rightarrow> emit (Ev_error (agentId r) (schedId r) c) s)"
  define s2 where "s2 = record_run r now (if failure = None then Run_ok else Run_error) (map_option snd failure) rid s1"
  define s3 where "s3 = s2\<lparr>running := remove1 (run_key r, r, rid) (running s2),
    inFlight := (inFlight s2)(run_key r := None)\<rparr>"
  have f: "running s2 = running s" "inFlight s2 = inFlight s"
    by (simp_all add: s2_def s1_def split: option.splits prod.splits)
  have "sched_inv h s1" using assms(1) by (auto simp: s1_def inv_emit split: option.splits)
  then have "sched_inv h s2" by (simp add: s2_def inv_record)
  from inv_untrack [OF this, of r rid] have s3: "sched_inv h s3" using assms(2) f by (simp add: s3_def)
  have a1: "(case failure of None \<Rightarrow> s\<lparr>running := x\<rparr>
      | Some (c, _) \<Rightarrow> emit (Ev_error (agentId r) (schedId r) c) (s\<lparr>running := x\<rparr>)) = s1\<lparr>running := x\<rparr>" for x
    by (simp add: s1_def emit_def split: option.splits prod.splits)
  have a3: "s2\<lparr>running := remove1 (run_key r, r, rid) (running s),
      inFlight := (inFlight (s2\<lparr>running := remove1 (run_key r, r, rid) (running s)\<rparr>))(run_key r := None)\<rparr> = s3"
    by (simp add: s3_def f)
  have e: "finish r rid failure now at_ms rid2 (s\<lparr>running := remove1 (run_key r, r, rid) (running s)\<rparr>) =
      (if inFlight s2 (run_key r) = Some True \<and> \<not> stopped s3 then
         (case sched_get (rows s3) (agentId r) (schedId r) of None \<Rightarrow> s3
          | Some cur \<Rightarrow> if enabled cur then track cur at_ms at_ms rid2 s3 else s3) else s3)"
    unfolding finish_def Let_def a1 record_run_commute s2_def [symmetric] a3 by simp
  show ?thesis
  proof (cases "sched_get (rows s3) (agentId r) (schedId r)")
    case (Some cur)
    then have k: "row_key cur = row_key r" using sqlite_schedules.get_key by (simp add: row_key_def)
    then have "run_key cur = run_key r" "slug (agentId cur)"
      using assms by (auto simp: row_key_def run_key_def sched_inv_def)
    with s3 have "sched_inv h (track cur at_ms at_ms rid2 s3)"
      by (intro inv_track) (simp_all add: s3_def)
    with s3 Some show ?thesis unfolding e by simp
  qed (use s3 e in simp)
qed

lemma inv_boot: "wf_rows t \<Longrightarrow> sched_inv h ((boot t as)\<lparr>events := ev\<rparr>)"
  by (simp add: sched_inv_def boot_def)

lemma inv_wf: "sched_inv h s \<Longrightarrow> wf_rows (rows s)"
  by (simp add: sched_inv_def)

lemma inv_rows: "sched_inv h s \<Longrightarrow> wf_rows t \<Longrightarrow> sched_inv h (s\<lparr>rows := t\<rparr>)" "sched_inv h s \<Longrightarrow> sched_inv h (s\<lparr>agentIds := as\<rparr>)"
  by (simp_all add: sched_inv_def)

lemma inv_step:
  assumes "sched_step env h u s s'" "sched_inv h s" "0 \<le> h"
  shows "sched_inv h s'"
  using assms(1)
proof cases
  case (Wake i d now clock fresh)
  have "sched_inv h (s\<lparr>timers := filter (\<lambda>(j, _). j \<noteq> i) (timers s)\<rparr>)"
    using assms(2) by (auto simp: sched_inv_def)
  then show ?thesis using Wake by (simp add: inv_wake)
qed (use assms in \<open>simp_all add: inv_start inv_stop inv_changed inv_armed inv_finish inv_rows inv_boot
  wf_rows_ops inv_wf\<close>)

lemma inv_reach:
  assumes "sched_reach env h t as us s" "wf_rows t" "0 \<le> h"
  shows "sched_inv h s"
  using assms
proof induction
  case Boot
  have "boot t as = (boot t as)\<lparr>events := []\<rparr>" by (simp add: boot_def)
  with inv_boot [OF Boot(1), of h "[]" as] show ?case by simp
qed (use inv_step in blast)

end
