(* ===== verification/Scheduler_Runs.thy ===== *)
theory Scheduler_Runs
  imports Scheduler
begin

text \<open>
  What the scheduler of \<open>schedule/scheduler.ts\<close> guarantees: a wake leaves none of the rows it took due, a
  boot fires nothing and leaves pending occurrences alone, a stopped scheduler starts nothing, and a
  one-shot fires at most once, across wakes, boots and crashes.
\<close>

section \<open>A wake moves every row it takes\<close>

lemma cron_due_anchor: "anchor (cron_due spec off j now cursor k) = None \<longleftrightarrow> runAt (cron_due spec off j now cursor k) = None"
proof (induction spec off j now cursor k rule: cron_due.induct)
  case (1 spec off j now cursor k)
  then show ?case by (subst (1 2) cron_due.simps) (auto simp: Let_def split: option.splits)
qed

definition fixed_zones :: "host_env \<Rightarrow> bool" where
  "fixed_zones env \<longleftrightarrow> (\<forall>z off. zoneDb env z = Some off \<longrightarrow> (\<exists>k. valid_offset k \<and> off = fixed_zone k))"

lemma decide_later:
  assumes "fixed_zones env" "0 \<le> now" "decide env r now True = Some d" "runAt d = Some t"
  shows "now < t"
proof -
  from assms(3) obtain p where
    p: "parseSchedule (zoneDb env) (hostZone env) (dateParse env) (schedKind r) (expr r) (timezone r) now = Inr p"
    and d: "d = decideDue p (schedId r) (anchorAt r) now True"
    by (auto simp: decide_def split: sum.splits)
  show ?thesis
  proof (cases "schedKind r")
    case Kind_cron
    with p obtain spec off where q: "p = Parsed_cron spec off (trim (expr r))" "wf_spec spec"
      "zoneDb env (case timezone r of Some z \<Rightarrow> z | None \<Rightarrow> hostZone env) = Some off"
      by (metis parseSchedule_cron)
    with assms(1) obtain k where k: "valid_offset k" "off = fixed_zone k"
      by (auto simp: fixed_zones_def)
    define j where "j = jitterFor (schedId r) (intervalOf p (anchorAt r))"
    have d': "d = cron_due spec off j now (anchorAt r) 0" by (simp add: d q decideDue_def j_def Let_def)
    obtain a where a: "anchor d = Some a"
      using assms(4) d' cron_due_anchor [of spec off j now "anchorAt r" 0] by auto
    from cron_due_sound [of spec off j now "anchorAt r" 0 a] a d'
    have *: "runAt d = Some (a + j)" "\<not> missedCapped d \<longrightarrow> now < a + j"
      "missedCapped d \<longrightarrow> nextCron spec now off = Some a" by auto
    have "now < a" if "nextCron spec now off = Some a"
      using nextCron_first [OF q(2) k(1) assms(2)] that k(2) by simp
    with * assms(4) jitterFor_bounds(1) [of "schedId r" "intervalOf p (anchorAt r)"] show ?thesis
      by (cases "missedCapped d") (auto simp: j_def)
  next
    case Kind_every
    with p obtain du off where q: "p = Parsed_every du off (trim (expr r))" "parseDuration (expr r) = Inr du"
      by (metis parseSchedule_every)
    have pos: "0 < dur_ms du" using parseDuration_Inr(1) [OF q(2)] by (simp add: MIN_MS_def)
    from decideDue_every [OF pos d [unfolded q]] obtain n where
      n: "n = (if now \<le> anchorAt r then 0 else nat ((now - anchorAt r) div dur_ms du))"
        "runAt d = Some (anchorAt r + int (n + 1) * dur_ms du + jitterFor (schedId r) (Some (dur_ms du)))"
      by metis
    have "now < anchorAt r + int (n + 1) * dur_ms du"
      using n(1) pos whole_intervals(2) [OF pos, of "anchorAt r" now] by (cases "now \<le> anchorAt r") auto
    with n(2) assms(4) jitterFor_bounds(1) [of "schedId r" "Some (dur_ms du)"] show ?thesis by simp
  next
    case Kind_at
    with p d assms(4) show ?thesis
      by (auto simp: parseSchedule_def Let_def decideDue_def split: option.splits if_splits)
  qed
qed

lemma moveOn_rows:
  "rows (moveOn env r now s) = sched_reschedule (rows s) (agentId r) (schedId r)
    (case Option.bind (decide env r now True) anchor of None \<Rightarrow> anchorAt r | Some a \<Rightarrow> a)
    (Option.bind (decide env r now True) runAt) now"
  by (simp add: moveOn_def reschedule_row_def)

lemma wake_row_rows: "rows (wake_row env now clock fresh r s) = rows (moveOn env r now s)"
  by (simp add: wake_row_def moveOn_rows split: option.splits)

definition moved :: "host_env \<Rightarrow> int \<Rightarrow> schedule_record \<Rightarrow> schedule_record" where
  "moved env now r = r\<lparr>anchorAt := (case Option.bind (decide env r now True) anchor of None \<Rightarrow> anchorAt r | Some x \<Rightarrow> x),
     nextRunAt := Option.bind (decide env r now True) runAt, updatedAt := now\<rparr>"

lemma moved_fields [simp]:
  "nextRunAt (moved env now r) = Option.bind (decide env r now True) runAt"
  "agentId (moved env now r) = agentId r" "schedId (moved env now r) = schedId r"
  "schedKind (moved env now r) = schedKind r" "row_key (moved env now r) = row_key r"
  by (simp_all add: moved_def row_key_def)

lemma moveOn_get:
  assumes "sched_get (rows s) (agentId r) (schedId r) = Some r"
  shows "sched_get (rows (moveOn env r now s)) a i =
    (if row_key r = (a, i) then Some (moved env now r) else sched_get (rows s) a i)"
  using assms unfolding moveOn_rows sqlite_schedules.get_reschedule row_key_def
  by (cases "(agentId r, schedId r) = (a, i)") (simp_all add: moved_def, auto)

text \<open>The rows of a wake, each moved from what it was when the wake read it.\<close>

lemma wake_rows_get:
  assumes "distinct (map row_key rs)" "\<forall>r \<in> set rs. sched_get (rows s) (agentId r) (schedId r) = Some r"
  shows "sched_get (rows (wake_rows env now clock fresh rs s)) a i =
    (case find (\<lambda>r. row_key r = (a, i)) rs of
       None \<Rightarrow> sched_get (rows s) a i | Some r \<Rightarrow> Some (moved env now r))"
  using assms
proof (induction rs arbitrary: s)
  case (Cons r rs)
  have get: "sched_get (rows (wake_row env now clock fresh r s)) b j =
      (if row_key r = (b, j) then Some (moved env now r) else sched_get (rows s) b j)" for b j
    unfolding wake_row_rows using Cons.prems(2) by (intro moveOn_get) simp
  have "row_key r \<noteq> (agentId q, schedId q)" if "q \<in> set rs" for q
    using Cons.prems(1) that by (auto simp: row_key_def rev_image_eqI)
  then have "\<forall>q \<in> set rs. sched_get (rows (wake_row env now clock fresh r s)) (agentId q) (schedId q) = Some q"
    using Cons.prems(2) by (simp add: get)
  with Cons.IH [of "wake_row env now clock fresh r s"] Cons.prems(1)
  have "sched_get (rows (wake_rows env now clock fresh (r # rs) s)) a i =
    (case find (\<lambda>r. row_key r = (a, i)) rs of
       None \<Rightarrow> sched_get (rows (wake_row env now clock fresh r s)) a i | Some r \<Rightarrow> Some (moved env now r))" by simp
  moreover have "find (\<lambda>r. row_key r = (a, i)) rs = None" if "row_key r = (a, i)"
    using Cons.prems(1) that by (auto simp: find_None_iff rev_image_eqI)
  ultimately show ?case by (auto simp: get split: option.splits)
qed simp

lemma due_snapshot:
  assumes "wf_table (rows s)"
  shows "\<forall>r \<in> set (sched_due (rows s) as now n). sched_get (rows s) (agentId r) (schedId r) = Some r"
  using sqlite_schedules.due_get [OF assms] by blast


section \<open>Schedules a step does not touch\<close>

text \<open>What the scheduler knows of one schedule: its row, whether it is in flight, how often it fired.\<close>

definition is_fired :: "string \<Rightarrow> string \<Rightarrow> sched_event \<Rightarrow> bool" where
  "is_fired a i e = (case e of Ev_fired b j _ _ \<Rightarrow> b = a \<and> j = i | _ \<Rightarrow> False)"

definition fired_count :: "string \<Rightarrow> string \<Rightarrow> scheduler \<Rightarrow> nat" where
  "fired_count a i s = length (filter (is_fired a i) (events s))"

definition view :: "string \<Rightarrow> string \<Rightarrow> scheduler \<Rightarrow> schedule_record option \<times> bool option \<times> nat" where
  "view a i s = (sched_get (rows s) a i, inFlight s (a @ ''/'' @ i), fired_count a i s)"

lemma run_key_inj:
  assumes "slug a" "slug b"
  shows "a @ ''/'' @ i = b @ ''/'' @ j \<longleftrightarrow> a = b \<and> i = j"
  using assms
proof (induction a arbitrary: b)
  case Nil
  then show ?case by (cases b) (auto simp: slug_def)
next
  case (Cons c a)
  then show ?case by (cases b) (auto simp: slug_def)
qed

lemma fired_count_simps [simp]:
  "fired_count a i (emit e s) = fired_count a i s + (if is_fired a i e then 1 else 0)"
  "fired_count a i (emit_unreadable env r now s) = fired_count a i s"
  "fired_count a i (reschedule_row r d now s) = fired_count a i s"
  "fired_count a i (record_run r now st err rid s) = fired_count a i s"
  "fired_count a i (arm s) = fired_count a i s" "fired_count a i (cancel s) = fired_count a i s"
  "fired_count a i (s\<lparr>inFlight := f\<rparr>) = fired_count a i s"
  "fired_count a i (s\<lparr>running := x\<rparr>) = fired_count a i s"
  "fired_count a i (s\<lparr>timers := tt\<rparr>) = fired_count a i s"
  "fired_count a i (s\<lparr>rows := t\<rparr>) = fired_count a i s"
  "fired_count a i (s\<lparr>started := b\<rparr>) = fired_count a i s"
  "fired_count a i (s\<lparr>stopped := b\<rparr>) = fired_count a i s"
  "fired_count a i (s\<lparr>agentIds := as\<rparr>) = fired_count a i s"
  by (simp_all add: fired_count_def emit_unreadable_def is_fired_def)

lemma fired_count_ops [simp]:
  "fired_count a i (moveOn env r now s) = fired_count a i s"
  "fired_count a i (track r d m rid s) = fired_count a i s + (if row_key r = (a, i) then 1 else 0)"
  "fired_count a i (recompute_row env now r s) = fired_count a i s"
  "fired_count a i (armed h now s) = fired_count a i s"
  by (auto simp: moveOn_def track_def fire_def recompute_row_def armed_def is_fired_def row_key_def
      Let_def fired_count_def [of a i "armed h now s"] fired_count_def [of a i "s\<lparr>pendingArms := x\<rparr>" for x]
      split: option.splits)
    (simp_all add: fired_count_def)

lemma run_key_iff: "slug a \<Longrightarrow> slug (agentId r) \<Longrightarrow> run_key r = a @ ''/'' @ i \<longleftrightarrow> row_key r = (a, i)"
  using run_key_inj [of "agentId r" a "schedId r" i] by (simp add: run_key_def row_key_def)

lemma moveOn_get_other:
  "row_key r \<noteq> (a, i) \<Longrightarrow> sched_get (rows (moveOn env r now s)) a i = sched_get (rows s) a i"
  by (auto simp: moveOn_rows sqlite_schedules.get_reschedule row_key_def)

lemma view_wake_row_other:
  assumes "slug a" "slug (agentId r)" "row_key r \<noteq> (a, i)"
  shows "view a i (wake_row env now clock fresh r s) = view a i s"
proof -
  have k: "a @ ''/'' @ i \<noteq> run_key r" using assms run_key_iff [of a r i] by metis
  have "fired_count a i (wake_row env now clock fresh r s) = fired_count a i s"
    using assms(3) by (auto simp: wake_row_def is_fired_def row_key_def split: option.splits)
  moreover have "inFlight (wake_row env now clock fresh r s) (a @ ''/'' @ i) = inFlight s (a @ ''/'' @ i)"
    using k by (simp add: wake_row_def split: option.splits)
  ultimately show ?thesis
    using assms(3) by (simp add: view_def wake_row_rows moveOn_get_other)
qed

lemma view_recompute_row_other:
  "row_key r \<noteq> (a, i) \<Longrightarrow> view a i (recompute_row env now r s) = view a i s"
  unfolding view_def recompute_row_def reschedule_row_def
  by (auto simp: sqlite_schedules.get_reschedule row_key_def is_fired_def split: option.splits)

section \<open>A one-shot fires at most once\<close>

text \<open>A one-shot that has fired, or is in flight, has no due time left; and no fire of it is ever held.\<close>

fun one_shot :: "schedule_record option \<times> bool option \<times> nat \<Rightarrow> bool" where
  "one_shot (row, fl, n) \<longleftrightarrow>
     (case row of None \<Rightarrow> True | Some r \<Rightarrow> schedKind r = Kind_at \<and> (nextRunAt r \<noteq> None \<longrightarrow> n = 0)) \<and>
     n \<le> 1 \<and> fl \<noteq> Some True \<and> (fl \<noteq> None \<longrightarrow> 0 < n)"

lemma decide_at_consumed:
  "schedKind r = Kind_at \<Longrightarrow> Option.bind (decide env r now True) runAt = None"
  by (auto simp: decide_def parseSchedule_def decideDue_def Let_def split: sum.splits option.splits if_splits)

lemma one_shot_wake_row:
  assumes "one_shot (view a i s)" "sched_get (rows s) (agentId r) (schedId r) = Some r" "slug a"
    "slug (agentId r)" "nextRunAt r \<noteq> None"
  shows "one_shot (view a i (wake_row env now clock fresh r s))"
proof (cases "row_key r = (a, i)")
  case True
  then have k: "agentId r = a" "schedId r = i" "run_key r = a @ ''/'' @ i"
    by (auto simp: row_key_def run_key_def)
  with assms have v: "schedKind r = Kind_at" "fired_count a i s = 0" "inFlight s (run_key r) = None"
    by (auto simp: view_def)
  have "sched_get (rows (moveOn env r now s)) a i = Some (moved env now r)"
    using moveOn_get [OF assms(2), of env now a i] True by simp
  then show ?thesis
    using v True k(3)
    by (simp add: view_def wake_row_def decide_at_consumed)
next
  case False
  then show ?thesis using assms view_wake_row_other by simp
qed

lemma one_shot_wake_rows:
  assumes "one_shot (view a i s)" "\<forall>r \<in> set rs. sched_get (rows s) (agentId r) (schedId r) = Some r" "slug a"
    "\<forall>r \<in> set rs. slug (agentId r) \<and> nextRunAt r \<noteq> None" "distinct (map row_key rs)"
  shows "one_shot (view a i (wake_rows env now clock fresh rs s))"
  using assms
proof (induction rs arbitrary: s)
  case (Cons r rs)
  have "\<forall>q \<in> set rs. sched_get (rows (wake_row env now clock fresh r s)) (agentId q) (schedId q) = Some q"
  proof
    fix q assume q: "q \<in> set rs"
    then have "row_key r \<noteq> (agentId q, schedId q)"
      using Cons.prems(5) by (auto simp: row_key_def rev_image_eqI)
    then show "sched_get (rows (wake_row env now clock fresh r s)) (agentId q) (schedId q) = Some q"
      using Cons.prems(2) q by (simp add: wake_row_rows moveOn_get_other)
  qed
  moreover have "one_shot (view a i (wake_row env now clock fresh r s))"
    using Cons.prems by (intro one_shot_wake_row) auto
  ultimately show ?case using Cons by simp
qed simp

lemma one_shot_recompute_row:
  assumes "one_shot (view a i s)" "sched_get (rows s) (agentId r) (schedId r) = Some r"
  shows "one_shot (view a i (recompute_row env now r s))"
proof (cases "row_key r = (a, i) \<and> nextRunAt r \<noteq> None")
  case True
  then have k: "agentId r = a" "schedId r = i" by (auto simp: row_key_def)
  with assms True have v: "sched_get (rows s) a i = Some r" "schedKind r = Kind_at" "fired_count a i s = 0"
    "inFlight s (a @ ''/'' @ i) = None" by (auto simp: view_def)
  have "\<exists>q. sched_get (rows (recompute_row env now r s)) a i = Some q \<and> schedKind q = Kind_at"
    using v k by (auto simp: recompute_row_def reschedule_row_def sqlite_schedules.get_reschedule split: option.splits)
  with v show ?thesis by (auto simp: view_def)
next
  case False
  show ?thesis
  proof (cases "nextRunAt r")
    case None
    then show ?thesis using assms by (simp add: recompute_row_def)
  next
    case (Some t)
    then show ?thesis using False assms view_recompute_row_other by simp
  qed
qed

lemma one_shot_recompute_rows:
  assumes "one_shot (view a i s)" "\<forall>r \<in> set rs. sched_get (rows s) (agentId r) (schedId r) = Some r"
    "distinct (map row_key rs)"
  shows "one_shot (view a i (recompute_rows env now rs s))"
  using assms
proof (induction rs arbitrary: s)
  case (Cons r rs)
  have "\<forall>q \<in> set rs. sched_get (rows (recompute_row env now r s)) (agentId q) (schedId q) = Some q"
  proof
    fix q assume q: "q \<in> set rs"
    then have "row_key r \<noteq> (agentId q, schedId q)"
      using Cons.prems(3) by (auto simp: row_key_def rev_image_eqI)
    from view_recompute_row_other [OF this] q Cons.prems(2)
    show "sched_get (rows (recompute_row env now r s)) (agentId q) (schedId q) = Some q"
      by (auto simp: view_def)
  qed
  then show ?case using Cons one_shot_recompute_row [of a i s r] by simp
qed simp

lemma one_shot_recompute:
  assumes "one_shot (view a i s)" "wf_rows (rows s)"
  shows "one_shot (view a i (recompute env now as s))"
  using assms
proof (induction as arbitrary: s)
  case (Cons b as)
  have "\<forall>r \<in> set (sched_list (rows s) b None None). sched_get (rows s) (agentId r) (schedId r) = Some r"
    using Cons.prems(2) by (auto simp: sched_list_set sched_get_Some wf_rows_def row_key_def)
  then have "one_shot (view a i (recompute_rows env now (sched_list (rows s) b None None) s))"
    using Cons.prems by (intro one_shot_recompute_rows) (auto simp: sched_list_distinct wf_rows_def)
  then show ?case using Cons by (simp add: wf_rows_recompute)
qed simp

lemma one_shot_finish:
  assumes "one_shot (view a i s)" "slug a" "slug (agentId r)"
  shows "one_shot (view a i (finish r rid failure now at_ms rid2 s))"
proof (cases "row_key r = (a, i)")
  case True
  then have k: "agentId r = a" "schedId r = i" "run_key r = a @ ''/'' @ i"
    by (auto simp: row_key_def run_key_def)
  have "inFlight s (run_key r) \<noteq> Some True" using assms(1) k by (simp add: view_def)
  then show ?thesis
    using assms(1) k unfolding finish_def Let_def
    by (auto simp: view_def record_run_def sqlite_schedules.get_markFired is_fired_def split: option.splits)
next
  case False
  then have k: "a @ ''/'' @ i \<noteq> run_key r" using run_key_iff [OF assms(2,3), of i] by metis
  have c: "view a i (track cur d m rid2 u) = view a i u"
    if "sched_get t (agentId r) (schedId r) = Some cur" for t cur u d m
  proof -
    have "row_key cur \<noteq> (a, i)" "a @ ''/'' @ i \<noteq> run_key cur"
      using sqlite_schedules.get_key [OF that] False k by (auto simp: row_key_def run_key_def)
    then show ?thesis by (simp add: view_def)
  qed
  have v: "inFlight u = g \<Longrightarrow> view a i (u\<lparr>inFlight := g(run_key r := None)\<rparr>) = view a i u"
    "view a i (emit (Ev_error b j e) u) = view a i u" for u g b j e
    using k by (auto simp: view_def is_fired_def)
  have r: "view a i (record_run r now st err rid u) = view a i u" for st err u
    using False by (auto simp: view_def record_run_def sqlite_schedules.get_markFired row_key_def split: option.splits)
  have "view a i (finish r rid failure now at_ms rid2 s) = view a i s"
    unfolding finish_def Let_def by (simp add: r v c split: option.splits prod.splits)
  then show ?thesis using assms(1) by simp
qed

lemma one_shot_arm:
  "view a i (arm s) = view a i s" "view a i (stop s) = view a i s" "view a i (changed s) = view a i s"
  "view a i (armed h now s) = view a i s" "view a i (s\<lparr>timers := tt\<rparr>) = view a i s"
  "view a i (s\<lparr>running := x\<rparr>) = view a i s" "view a i (s\<lparr>agentIds := as\<rparr>) = view a i s"
  "view a i (s\<lparr>started := b\<rparr>) = view a i s"
  by (simp_all add: view_def stop_def changed_def) (simp_all add: armed_def Let_def)

lemma one_shot_table:
  assumes "one_shot (view a i s)"
  shows "one_shot (view a i (s\<lparr>rows := sched_setEnabled (rows s) b j e now\<rparr>))"
    "one_shot (view a i (s\<lparr>rows := snd (sched_remove (rows s) b j)\<rparr>))"
    "row_key u \<noteq> (a, i) \<Longrightarrow> one_shot (view a i (s\<lparr>rows := sched_upsert (rows s) u\<rparr>))"
proof -
  have e: "sched_get (sched_setEnabled (rows s) b j e now) a i =
      (if (a, i) = (b, j) then map_option (\<lambda>r. r\<lparr>enabled := e, updatedAt := now\<rparr>) (sched_get (rows s) b j)
       else sched_get (rows s) a i)"
    unfolding sched_setEnabled_def by (rule update_row_get) (simp add: row_key_def)
  show "one_shot (view a i (s\<lparr>rows := sched_setEnabled (rows s) b j e now\<rparr>))"
    using assms by (auto simp: view_def e split: option.splits)
  show "one_shot (view a i (s\<lparr>rows := snd (sched_remove (rows s) b j)\<rparr>))"
    using assms by (auto simp: view_def sched_remove_def delete_row_get split: option.splits)
  assume u: "row_key u \<noteq> (a, i)"
  have "sched_get (t @ [q]) a i = (case sched_get t a i of None \<Rightarrow> if row_key q = (a, i) then Some q else None | Some x \<Rightarrow> Some x)"
    for t q by (induction t) (auto simp: sched_get_def)
  then have "sched_get (sched_upsert (rows s) u) a i = sched_get (rows s) a i"
    using u by (auto simp: sched_upsert_def update_row_get row_key_def split: option.splits)
  with assms show "one_shot (view a i (s\<lparr>rows := sched_upsert (rows s) u\<rparr>))" by (simp add: view_def)
qed

lemma one_shot_step:
  assumes "sched_step env h u s s'" "sched_inv h s" "one_shot (view a i s)" "slug a" "u \<noteq> Some (a, i)"
  shows "one_shot (view a i s')"
  using assms(1)
proof cases
  case (Start now)
  then show ?thesis
    using assms by (auto simp: start_def one_shot_arm sched_inv_def intro!: one_shot_recompute)
next
  case (Wake j d now clock fresh)
  let ?s = "s\<lparr>timers := filter (\<lambda>(k, _). k \<noteq> j) (timers s)\<rparr>"
  let ?due = "sched_due (rows ?s) (agentIds ?s) now due_limit"
  have wf: "wf_table (rows ?s)" "\<forall>r \<in> set (rows s). slug (agentId r)"
    using assms(2) by (auto simp: sched_inv_def wf_rows_def)
  have "one_shot (view a i (wake_rows env now clock fresh ?due ?s))"
  proof (rule one_shot_wake_rows)
    show "\<forall>r \<in> set ?due. slug (agentId r) \<and> nextRunAt r \<noteq> None"
      using wf(2) by (auto simp: is_due_def dest!: sched_due_set split: option.splits)
    show "one_shot (view a i ?s)" using assms(3) by (simp only: one_shot_arm)
  qed (use assms due_snapshot [OF wf(1)] sched_due_distinct [OF wf(1)] in auto)
  moreover have "one_shot (view a i ?s)" using assms(3) by (simp only: one_shot_arm)
  ultimately show ?thesis unfolding Wake(2) wake_def by (auto simp: one_shot_arm)
next
  case (Finish r rid failure now at_ms rid2)
  then have "slug (agentId r)" using assms(2) by (auto simp: sched_inv_def)
  then show ?thesis using Finish assms by (auto simp: one_shot_arm intro: one_shot_finish)
next
  case (Crash as)
  then show ?thesis using assms(3) by (auto simp: view_def boot_def fired_count_def)
qed (use assms in \<open>auto simp: one_shot_arm one_shot_table simp del: one_shot.simps\<close>)

lemma one_shot_reach:
  assumes "sched_reach env h t as us s" "wf_rows t" "0 \<le> h" "slug a" "(a, i) \<notin> set us"
    "\<forall>r \<in> set t. row_key r = (a, i) \<longrightarrow> schedKind r = Kind_at"
  shows "one_shot (view a i s)"
  using assms
proof induction
  case Boot
  then show ?case
    by (auto simp: view_def boot_def fired_count_def wf_rows_def sched_get_Some split: option.splits)
next
  case (Step us s u s')
  then show ?case
    using one_shot_step [OF Step.hyps(2) inv_reach [OF Step.hyps(1)]]
    by (auto simp del: one_shot.simps split: option.splits)
qed

lemma wake_row_due:
  assumes "wf_rows (rows s)" "\<not> stopped s" "fixed_zones env" "0 \<le> now"
    "r \<in> set (sched_due (rows (wake env now clock fresh s)) (agentIds s) now n)"
  shows "r \<in> set (rows s) \<and> is_due (agentIds s) now r \<and>
    r \<notin> set (sched_due (rows s) (agentIds s) now due_limit)"
proof -
  let ?due = "sched_due (rows s) (agentIds s) now due_limit"
  let ?t = "rows (wake_rows env now clock fresh ?due s)"
  have wf: "wf_table (rows s)" using assms(1) by (simp add: wf_rows_def)
  have t: "rows (wake env now clock fresh s) = ?t" using assms(2) by (simp add: wake_def)
  have wft: "wf_table ?t"
  proof -
    have "wf_rows (rows (wake_rows env now clock fresh rs s'))" if "wf_rows (rows s')" for rs s'
      using that by (induction rs arbitrary: s') (simp_all add: wake_row_rows wf_rows_handlers)
    with assms(1) show ?thesis by (simp add: wf_rows_def)
  qed
  from sqlite_schedules.due_get [OF wft, of r] assms(5) t
  have r: "sched_get ?t (agentId r) (schedId r) = Some r" "is_due (agentIds s) now r" by auto
  note get = wake_rows_get [OF sched_due_distinct [OF wf] due_snapshot [OF wf], of env now clock fresh
      "agentIds s" now due_limit "agentId r" "schedId r", unfolded r(1)]
  show ?thesis
  proof (cases "find (\<lambda>q. row_key q = (agentId r, schedId r)) ?due")
    case None
    with get have "sched_get (rows s) (agentId r) (schedId r) = Some r" by simp
    with wf None r(2) show ?thesis by (auto simp: sched_get_Some find_None_iff row_key_def)
  next
    case (Some q)
    with get have "r = moved env now q" by simp
    with r(2) decide_later [OF assms(3,4), of q] show ?thesis
      by (fastforce simp: is_due_def bind_eq_Some_conv split: option.splits)
  qed
qed

section \<open>A boot\<close>

lemma start_fired: "fired_count a i (recompute env now as s) = fired_count a i s"
proof -
  have "fired_count a i (recompute_rows env now rs s) = fired_count a i s" for rs s
    by (induction rs arbitrary: s) simp_all
  then show ?thesis by (induction as arbitrary: s) simp_all
qed

lemma recompute_rows_pending:
  assumes "sched_get (rows s) a i = Some r" "case nextRunAt r of None \<Rightarrow> True | Some t \<Rightarrow> now < t"
    "\<forall>q \<in> set rs. row_key q = (a, i) \<longrightarrow> q = r"
  shows "sched_get (rows (recompute_rows env now rs s)) a i = Some r"
  using assms
proof (induction rs arbitrary: s)
  case (Cons q rs)
  have "sched_get (rows (recompute_row env now q s)) a i = Some r"
  proof (cases "row_key q = (a, i)")
    case True
    with Cons.prems have "recompute_row env now q s = s"
      by (auto simp: recompute_row_def split: option.splits)
    with Cons.prems show ?thesis by simp
  next
    case False
    from view_recompute_row_other [OF this] Cons.prems(1) show ?thesis by (simp add: view_def)
  qed
  with Cons show ?case by simp
qed simp

lemma recompute_pending:
  assumes "sched_get (rows s) a i = Some r" "case nextRunAt r of None \<Rightarrow> True | Some t \<Rightarrow> now < t" "wf_rows (rows s)"
  shows "sched_get (rows (recompute env now as s)) a i = Some r"
  using assms
proof (induction as arbitrary: s)
  case (Cons b as)
  have "\<forall>q \<in> set (sched_list (rows s) b None None). row_key q = (a, i) \<longrightarrow> q = r"
  proof (intro ballI impI)
    fix q assume q: "q \<in> set (sched_list (rows s) b None None)" "row_key q = (a, i)"
    then have "sched_get (rows s) a i = Some q"
      using Cons.prems(3) by (simp add: sched_list_set sched_get_Some wf_rows_def)
    with Cons.prems(1) show "q = r" by simp
  qed
  then have "sched_get (rows (recompute_rows env now (sched_list (rows s) b None None) s)) a i = Some r"
    using Cons.prems by (intro recompute_rows_pending) auto
  with Cons show ?case by (simp add: wf_rows_recompute)
qed simp

lemma start_view:
  assumes "sched_get (rows s) a i = Some r" "case nextRunAt r of None \<Rightarrow> True | Some t \<Rightarrow> now < t" "wf_rows (rows s)"
  shows "sched_get (rows (start env now s)) a i = Some r"
  using assms recompute_pending [of "s\<lparr>started := True\<rparr>" a i r now env] by (auto simp: start_def)

section \<open>Properties\<close>

text \<open>C2. In every state the scheduler reaches, through any interleaving of wakes, finished runs, boots,
  crashes and store writes, no schedule has two runs at once: the runs under way have different keys and
  they are exactly the entries of the in-flight map. Every armed timer's delay is between zero and
  the horizon, so no delay overflows the 32 bits of \<open>setTimeout\<close>.\<close>

theorem no_overlapping_runs:
  assumes "sched_reach env SCHEDULER_HORIZON_MS t as us s" "wf_rows t"
  shows "distinct (map fst (running s)) \<and> fst ` set (running s) = dom (inFlight s) \<and>
    (\<forall>(i, d) \<in> set (timers s). 0 \<le> d \<and> d \<le> SCHEDULER_HORIZON_MS \<and> d < 2 ^ 31)"
  using inv_reach [OF assms] by (auto simp: sched_inv_def SCHEDULER_HORIZON_MS_def)

definition utc_host :: host_env where
  "utc_host = \<lparr>zoneDb = (\<lambda>z. if z = ''UTC'' then Some (fixed_zone 0) else None), hostZone = ''UTC'',
     dateParse = (\<lambda>_. Some 5000)\<rparr>"

definition gift_row :: schedule_record where
  "gift_row = sample_row\<lparr>schedKind := Kind_at, expr := ''1970-01-01T00:00:05Z'', anchorAt := 5000\<rparr>"

lemma gift_wf: "wf_rows [gift_row]"
  by code_simp

lemma gift_start: "sched_reach utc_host SCHEDULER_HORIZON_MS [gift_row] [''a''] []
    (start utc_host 6000 (boot [gift_row] [''a'']))"
  using Step [OF Boot Start] by simp

theorem no_overlapping_runs_witness:
  "distinct (map fst (running (start utc_host 6000 (boot [gift_row] [''a'']))))"
  using no_overlapping_runs [OF gift_start gift_wf] by simp

text \<open>C3. A one-shot fires at most once: whatever the interleaving of wakes, slow runs, boots and crashes
  over the same table, the scheduler emits at most one \<open>schedule.fired\<close> for an \<open>at\<close> schedule that nobody
  writes again, and once it has fired no due time is left in its row.\<close>

theorem at_most_one_fire:
  assumes "sched_reach env SCHEDULER_HORIZON_MS t as us s" "wf_rows t" "slug a" "(a, i) \<notin> set us"
    "\<forall>r \<in> set t. row_key r = (a, i) \<longrightarrow> schedKind r = Kind_at"
  shows "fired_count a i s \<le> 1 \<and>
    (\<forall>r. sched_get (rows s) a i = Some r \<and> nextRunAt r \<noteq> None \<longrightarrow> fired_count a i s = 0)"
proof -
  have "0 \<le> SCHEDULER_HORIZON_MS" by (simp add: SCHEDULER_HORIZON_MS_def)
  from one_shot_reach [OF assms(1,2) this assms(3-5)] show ?thesis by (auto simp: view_def)
qed

theorem at_most_one_fire_witness:
  "fired_count ''a'' ''s'' (start utc_host 6000 (boot [gift_row] [''a''])) \<le> 1"
  using at_most_one_fire [OF gift_start gift_wf, of "''a''" "''s''"]
  by (simp add: slug_def gift_row_def row_key_def)

text \<open>A wake takes every due row it reads off the due list before it ends: in zones without
  transitions, a row due after the wake was due before it and lies beyond the hundred rows one wake
  reads. So neither the running turn nor the next wake sees the same occurrence again.\<close>

theorem wake_leaves_nothing_due:
  assumes "wf_rows (rows s)" "\<not> stopped s" "fixed_zones env" "0 \<le> now"
  shows "set (sched_due (rows (wake env now clock fresh s)) (agentIds s) now n) \<subseteq>
    {r \<in> set (rows s). is_due (agentIds s) now r} - set (sched_due (rows s) (agentIds s) now due_limit)"
  using wake_row_due [OF assms] by blast

lemma utc_fixed: "fixed_zones utc_host"
  by (auto simp: fixed_zones_def utc_host_def valid_offset_def split: if_splits intro!: exI [of _ 0])

theorem wake_leaves_nothing_due_witness:
  "sched_due (rows (wake utc_host 6000 (\<lambda>_. 6001) (\<lambda>_. ''run_1'') (boot [gift_row] [''a'']))) [''a''] 6000 100 = []"
proof -
  have only: "{r \<in> {g}. P r} - {g} = {}" for g :: schedule_record and P
    by auto
  have b: "rows (boot [gift_row] [''a'']) = [gift_row]" "agentIds (boot [gift_row] [''a'']) = [''a'']"
    "\<not> stopped (boot [gift_row] [''a''])" by (simp_all add: boot_def)
  have "set (sched_due [gift_row] [''a''] 6000 due_limit) = {gift_row}"
    by (simp add: sched_due_def is_due_def gift_row_def due_limit_def)
  with wake_leaves_nothing_due [OF _ b(3) utc_fixed, of 6000 "\<lambda>_. 6001" "\<lambda>_. ''run_1''" 100] gift_wf
  have "set (sched_due (rows (wake utc_host 6000 (\<lambda>_. 6001) (\<lambda>_. ''run_1'') (boot [gift_row] [''a'']))) [''a''] 6000 100) \<subseteq>
      {r \<in> {gift_row}. is_due [''a''] 6000 r} - {gift_row}" by (simp add: b)
  then have "set (sched_due (rows (wake utc_host 6000 (\<lambda>_. 6001) (\<lambda>_. ''run_1'') (boot [gift_row] [''a'']))) [''a''] 6000 100) = {}"
    unfolding only subset_empty .
  then show ?thesis by (simp only: set_empty)
qed

text \<open>A boot fires nothing and loses nothing pending: \<open>start\<close> starts no run, emits no
  \<open>schedule.fired\<close>, and leaves every row whose time is still ahead, or which is spent, as it was.\<close>

theorem start_is_quiet:
  "running (start env now s) = running s \<and> fired_count a i (start env now s) = fired_count a i s \<and>
   (wf_rows (rows s) \<and> sched_get (rows s) a i = Some r \<and> (case nextRunAt r of None \<Rightarrow> True | Some t \<Rightarrow> now < t) \<longrightarrow>
     sched_get (rows (start env now s)) a i = Some r)"
  using start_view [of s a i r now env] by (simp add: start_def start_fired)

theorem start_is_quiet_witness:
  "sched_get (rows (start utc_host 4000 (boot [gift_row] [''a'']))) ''a'' ''s'' = Some gift_row"
proof -
  have "sched_get [gift_row] ''a'' ''s'' = Some gift_row" "nextRunAt gift_row = Some 5000"
    by (simp_all add: sched_get_def gift_row_def row_key_def)
  then show ?thesis
    using start_is_quiet [of utc_host 4000 "boot [gift_row] [''a'']" "''a''" "''s''" gift_row] gift_wf
    by (simp add: boot_def)
qed

text \<open>A stopped scheduler starts no more runs: from then on, short of a new process, no step emits
  a \<open>schedule.fired\<close> and the runs under way only become fewer.\<close>

theorem stopped_starts_nothing:
  assumes "sched_step env h u s s'" "stopped s" "stopped s'"
  shows "set (running s') \<subseteq> set (running s) \<and> fired_count a i s' = fired_count a i s"
  using assms
proof cases
  case (Finish r rid failure now at_ms rid2)
  then show ?thesis
    using assms(2) set_remove1_subset [of "(run_key r, r, rid)" "running s"]
    by (auto simp: finish_def Let_def is_fired_def split: option.splits)
next
  case (Crash as)
  then show ?thesis using assms by (simp add: boot_def)
qed (auto simp: start_def stop_def changed_def armed_def wake_def Let_def fired_count_def)

theorem stopped_starts_nothing_witness:
  "fired_count ''a'' ''s'' (wake utc_host 6000 (\<lambda>_. 6001) (\<lambda>_. ''run_1'')
     (stop (boot [gift_row] [''a'']))) = 0"
proof -
  have "sched_step utc_host 30000 None (stop (boot [gift_row] [''a''])) (stop (stop (boot [gift_row] [''a''])))"
    by (rule Stop)
  from stopped_starts_nothing [OF this, of "''a''" "''s''"] show ?thesis
    by (simp add: stop_def boot_def wake_def cancel_def fired_count_def)
qed

definition slow_row :: schedule_record where
  "slow_row = sample_row\<lparr>anchorAt := 7200000, nextRunAt := Some 7200000\<rparr>"

definition held :: scheduler where
  "held = (boot [slow_row] [''a''])\<lparr>started := True, inFlight := [''a/s'' \<mapsto> True]\<rparr>"

text \<open>A held fire reports its drift against the wrong occurrence: the row was moved on when the fire
  was held, so the fire taken at the turn boundary measures against the next due time and reports a
  negative drift, where the fire was in fact late.\<close>

theorem held_fire_negative_drift:
  "last (events (finish slow_row ''run_1'' None 3700000 3700000 ''run_2'' held)) = Ev_fired ''a'' ''s'' (- 3500000) False"
  unfolding held_def slow_row_def boot_def
  by (simp add: finish_def Let_def record_run_def sched_get_def sched_markFired_def update_row_def
      row_key_def run_key_def track_def fire_def)

text \<open>Stopping does not clear every timer: when \<open>changed\<close> is called twice before the store answers,
  two timers are set and only the later one is remembered, so \<open>stop\<close> leaves the earlier one alive and
  the process with it, for up to the horizon.\<close>

theorem stop_leaks_timer:
  "\<exists>s. sched_reach utc_host SCHEDULER_HORIZON_MS [] [] [] s \<and> stopped s \<and> timers s \<noteq> []"
proof (intro exI conjI)
  let ?s1 = "start utc_host 0 (boot [] [])"
  let ?s2 = "changed ?s1"
  let ?s3 = "armed SCHEDULER_HORIZON_MS 0 ?s2"
  let ?s4 = "armed SCHEDULER_HORIZON_MS 0 ?s3"
  have p: "pendingArms ?s2 = 2" "pendingArms ?s3 = 1"
    by (simp_all add: start_def changed_def arm_def boot_def cancel_def armed_def Let_def)
  have "sched_reach utc_host SCHEDULER_HORIZON_MS [] [] [] ?s2"
    using Step [OF Step [OF Boot Start] Changed] by simp
  from Step [OF this Armed] p have "sched_reach utc_host SCHEDULER_HORIZON_MS [] [] [] ?s3" by simp
  from Step [OF this Armed] p have "sched_reach utc_host SCHEDULER_HORIZON_MS [] [] [] ?s4" by simp
  from Step [OF this Stop] show "sched_reach utc_host SCHEDULER_HORIZON_MS [] [] [] (stop ?s4)" by simp
  show "stopped (stop ?s4)" "timers (stop ?s4) \<noteq> []"
    by (simp_all add: stop_def start_def changed_def arm_def boot_def cancel_def armed_def Let_def)
qed

end
