(* ===== verification/Outbox_Store.thy ===== *)
theory Outbox_Store
  imports Prelude
begin

text \<open>
  The outbox table: \<open>DeliveryRecord\<close> of \<open>packages/core/src/store/store.ts\<close> and the methods of \<open>outbox\<close> in
  \<open>packages/core/src/store/sqlite/store.ts\<close>.

  Rows are kept in the order of their \<open>AUTOINCREMENT\<close> ids, which are never reused; \<open>(agent_id,
  dedupe_key)\<close> is unique. Timestamps are milliseconds, as in the schedule store. \<open>ts\<close> is the reading
  \<open>nowIso()\<close> takes for \<open>updated_at\<close>.
\<close>

section \<open>Rows\<close>

datatype delivery_status = Pending | Inflight | Sent | Failed

record delivery =
  d_id :: nat
  d_agent :: string
  d_dedupe :: string
  d_group :: string
  d_session :: string
  d_turn :: "string option"
  d_channel :: string
  d_recipient :: string
  d_thread :: "string option"
  d_chunk :: nat
  d_total :: nat
  d_body :: string
  d_attachment :: "(string \<times> string) option"
  d_status :: delivery_status
  d_attempts :: nat
  d_next :: int
  d_uncertain :: bool
  d_provider :: "string option"
  d_errcode :: "string option"
  d_errmsg :: "string option"
  d_created :: int
  d_updated :: int

record otable =
  orows :: "delivery list"
  lastId :: nat

text \<open>What a caller supplies to \<open>enqueue\<close>.\<close>

record enqueue_delivery =
  e_agent :: string
  e_dedupe :: string
  e_group :: string
  e_session :: string
  e_turn :: "string option"
  e_channel :: string
  e_recipient :: string
  e_thread :: "string option"
  e_chunk :: nat
  e_total :: nat
  e_body :: string
  e_attachment :: "(string \<times> string) option"
  e_next :: "int option"

definition dedupe_key :: "delivery \<Rightarrow> string \<times> string" where
  "dedupe_key r = (d_agent r, d_dedupe r)"

section \<open>Operations\<close>

definition ob_get :: "otable \<Rightarrow> nat \<Rightarrow> delivery option" where
  "ob_get t i = find (\<lambda>r. d_id r = i) (orows t)"

definition ob_byDedupeKey :: "otable \<Rightarrow> string \<Rightarrow> string \<Rightarrow> delivery option" where
  "ob_byDedupeKey t a k = find (\<lambda>r. dedupe_key r = (a, k)) (orows t)"

definition fresh_row :: "enqueue_delivery \<Rightarrow> nat \<Rightarrow> int \<Rightarrow> delivery" where
  "fresh_row e i ts = \<lparr>d_id = i, d_agent = e_agent e, d_dedupe = e_dedupe e, d_group = e_group e,
     d_session = e_session e, d_turn = e_turn e, d_channel = e_channel e, d_recipient = e_recipient e,
     d_thread = e_thread e, d_chunk = e_chunk e, d_total = e_total e, d_body = e_body e,
     d_attachment = e_attachment e, d_status = Pending, d_attempts = 0,
     d_next = (case e_next e of Some n \<Rightarrow> n | None \<Rightarrow> ts), d_uncertain = False, d_provider = None,
     d_errcode = None, d_errmsg = None, d_created = ts, d_updated = ts\<rparr>"

text \<open>\<open>INSERT ... ON CONFLICT (agent_id, dedupe_key) DO NOTHING\<close>, then read back by key.\<close>

definition enqueue_one :: "otable \<Rightarrow> enqueue_delivery \<Rightarrow> int \<Rightarrow> (delivery \<times> bool) \<times> otable" where
  "enqueue_one t e ts =
     (case ob_byDedupeKey t (e_agent e) (e_dedupe e) of
        Some r \<Rightarrow> ((r, False), t)
      | None \<Rightarrow> let r = fresh_row e (lastId t + 1) ts
                in ((r, True), \<lparr>orows = orows t @ [r], lastId = lastId t + 1\<rparr>))"

fun ob_enqueue :: "otable \<Rightarrow> enqueue_delivery list \<Rightarrow> int \<Rightarrow> (delivery \<times> bool) list \<times> otable" where
  "ob_enqueue t [] ts = ([], t)"
| "ob_enqueue t (e # es) ts =
     (let (r, t1) = enqueue_one t e ts; (rs, t2) = ob_enqueue t1 es ts in (r # rs, t2))"

text \<open>The \<open>NOT EXISTS\<close> of the due query: an earlier chunk of the group that is not sent.\<close>

definition blocked :: "otable \<Rightarrow> delivery \<Rightarrow> bool" where
  "blocked t r \<longleftrightarrow> list_ex (\<lambda>e. d_agent e = d_agent r \<and> d_group e = d_group r \<and> d_chunk e < d_chunk r \<and>
     d_status e \<noteq> Sent) (orows t)"

definition ob_due :: "otable \<Rightarrow> string \<Rightarrow> int \<Rightarrow> nat \<Rightarrow> delivery list" where
  "ob_due t a now limit =
     take limit (filter (\<lambda>r. d_agent r = a \<and> d_status r = Pending \<and> d_next r \<le> now \<and> \<not> blocked t r) (orows t))"

definition update_id :: "otable \<Rightarrow> nat \<Rightarrow> (delivery \<Rightarrow> delivery) \<Rightarrow> otable" where
  "update_id t i f = t\<lparr>orows := map (\<lambda>r. if d_id r = i then f r else r) (orows t)\<rparr>"

definition ob_claim :: "otable \<Rightarrow> nat \<Rightarrow> int \<Rightarrow> delivery option \<times> otable" where
  "ob_claim t i ts =
     (if list_ex (\<lambda>r. d_id r = i \<and> d_status r = Pending) (orows t)
      then (let t' = update_id t i (\<lambda>r. if d_status r = Pending then r\<lparr>d_status := Inflight, d_updated := ts\<rparr> else r)
            in (ob_get t' i, t'))
      else (None, t))"

definition ob_markSent :: "otable \<Rightarrow> nat \<Rightarrow> string option \<Rightarrow> int \<Rightarrow> otable" where
  "ob_markSent t i pid ts =
     update_id t i (\<lambda>r. r\<lparr>d_status := Sent, d_provider := pid, d_attempts := d_attempts r + 1,
       d_errcode := None, d_errmsg := None, d_updated := ts\<rparr>)"

definition ob_markRetry :: "otable \<Rightarrow> nat \<Rightarrow> int \<Rightarrow> string \<Rightarrow> string \<Rightarrow> int \<Rightarrow> otable" where
  "ob_markRetry t i nxt c msg ts =
     update_id t i (\<lambda>r. r\<lparr>d_status := Pending, d_attempts := d_attempts r + 1, d_next := nxt,
       d_errcode := Some c, d_errmsg := Some msg, d_updated := ts\<rparr>)"

definition ob_markFailed :: "otable \<Rightarrow> nat \<Rightarrow> string \<Rightarrow> string \<Rightarrow> int \<Rightarrow> otable" where
  "ob_markFailed t i c msg ts =
     update_id t i (\<lambda>r. r\<lparr>d_status := Failed, d_attempts := d_attempts r + 1,
       d_errcode := Some c, d_errmsg := Some msg, d_updated := ts\<rparr>)"

definition abandonable :: "string \<Rightarrow> string \<Rightarrow> nat \<Rightarrow> delivery \<Rightarrow> bool" where
  "abandonable a g n r \<longleftrightarrow> d_agent r = a \<and> d_group r = g \<and> n < d_chunk r \<and> d_status r \<in> {Pending, Inflight}"

definition ob_abandonGroupAfter ::
  "otable \<Rightarrow> string \<Rightarrow> string \<Rightarrow> nat \<Rightarrow> string \<Rightarrow> string \<Rightarrow> int \<Rightarrow> nat list \<times> otable" where
  "ob_abandonGroupAfter t a g n c msg ts =
     (map d_id (sort_key d_chunk (filter (abandonable a g n) (orows t))),
      t\<lparr>orows := map (\<lambda>r. if abandonable a g n r
        then r\<lparr>d_status := Failed, d_errcode := Some c, d_errmsg := Some msg, d_updated := ts\<rparr> else r) (orows t)\<rparr>)"

definition recover_row :: "int \<Rightarrow> int \<Rightarrow> delivery \<Rightarrow> delivery" where
  "recover_row nxt ts r = r\<lparr>d_status := Pending, d_uncertain := True, d_next := nxt, d_updated := ts\<rparr>"

fun ob_recoverInflight :: "otable \<Rightarrow> string list \<Rightarrow> int \<Rightarrow> int \<Rightarrow> delivery list \<times> otable" where
  "ob_recoverInflight t [] nxt ts = ([], t)"
| "ob_recoverInflight t (a # as) nxt ts =
     (let hit = (\<lambda>r. d_status r = Inflight \<and> d_agent r = a);
          found = map (\<lambda>r. r\<lparr>d_status := Pending, d_uncertain := True, d_next := nxt\<rparr>) (filter hit (orows t));
          (rs, t') = ob_recoverInflight
            (t\<lparr>orows := map (\<lambda>r. if hit r then recover_row nxt ts r else r) (orows t)\<rparr>) as nxt ts
      in (found @ rs, t'))"

definition ob_list ::
  "otable \<Rightarrow> string \<Rightarrow> string option \<Rightarrow> delivery_status option \<Rightarrow> nat \<Rightarrow> delivery list" where
  "ob_list t a sess st limit =
     take limit (rev (filter (\<lambda>r. d_agent r = a \<and> (sess = None \<or> sess = Some (d_session r)) \<and>
       (st = None \<or> st = Some (d_status r))) (orows t)))"

definition ob_prune :: "otable \<Rightarrow> int \<Rightarrow> nat \<times> otable" where
  "ob_prune t before =
     (let dead = (\<lambda>r. d_status r \<in> {Sent, Failed} \<and> d_updated r < before)
      in (length (filter dead (orows t)), t\<lparr>orows := filter (\<lambda>r. \<not> dead r) (orows t)\<rparr>))"

section \<open>The table invariant\<close>

definition wf_otable :: "otable \<Rightarrow> bool" where
  "wf_otable t \<longleftrightarrow> distinct (map d_id (orows t)) \<and> distinct (map dedupe_key (orows t)) \<and>
     (\<forall>r \<in> set (orows t). d_id r \<le> lastId t)"

lemma wf_id: "wf_otable t \<Longrightarrow> r \<in> set (orows t) \<Longrightarrow> q \<in> set (orows t) \<Longrightarrow> d_id r = d_id q \<Longrightarrow> r = q"
  by (auto simp: wf_otable_def distinct_map inj_on_def)

lemma wf_key: "wf_otable t \<Longrightarrow> r \<in> set (orows t) \<Longrightarrow> q \<in> set (orows t) \<Longrightarrow> dedupe_key r = dedupe_key q \<Longrightarrow> r = q"
  by (auto simp: wf_otable_def distinct_map inj_on_def)

lemma byKey_Some: "ob_byDedupeKey t a k = Some r \<Longrightarrow> r \<in> set (orows t) \<and> dedupe_key r = (a, k)"
  by (auto simp: ob_byDedupeKey_def find_Some_iff)

lemma byKey_None: "ob_byDedupeKey t a k = None \<longleftrightarrow> (\<forall>r \<in> set (orows t). dedupe_key r \<noteq> (a, k))"
  by (auto simp: ob_byDedupeKey_def find_None_iff)

lemma fresh_row_fields [simp]:
  "d_id (fresh_row e i ts) = i" "d_agent (fresh_row e i ts) = e_agent e" "d_dedupe (fresh_row e i ts) = e_dedupe e"
  "d_group (fresh_row e i ts) = e_group e" "d_chunk (fresh_row e i ts) = e_chunk e"
  "d_channel (fresh_row e i ts) = e_channel e" "d_status (fresh_row e i ts) = Pending"
  "d_attempts (fresh_row e i ts) = 0" "d_uncertain (fresh_row e i ts) = False"
  "dedupe_key (fresh_row e i ts) = (e_agent e, e_dedupe e)" "d_body (fresh_row e i ts) = e_body e"
  by (simp_all add: fresh_row_def dedupe_key_def)

lemma wf_enqueue_one: "wf_otable t \<Longrightarrow> wf_otable (snd (enqueue_one t e ts))"
  using byKey_None [of t "e_agent e" "e_dedupe e"]
  by (fastforce simp: enqueue_one_def wf_otable_def Let_def split: option.splits)

lemma orows_update [simp]: "orows (update_id t i f) = map (\<lambda>r. if d_id r = i then f r else r) (orows t)"
  "lastId (update_id t i f) = lastId t"
  by (simp_all add: update_id_def)

text \<open>Updating rows in place, with their identity kept.\<close>

definition keeps_identity :: "(delivery \<Rightarrow> delivery) \<Rightarrow> bool" where
  "keeps_identity f \<longleftrightarrow> (\<forall>r. d_id (f r) = d_id r \<and> dedupe_key (f r) = dedupe_key r)"

lemma wf_map:
  assumes "wf_otable t" "keeps_identity f" "orows t' = map f (orows t)" "lastId t' = lastId t"
  shows "wf_otable t'"
proof -
  have "map d_id (orows t') = map d_id (orows t)" "map dedupe_key (orows t') = map dedupe_key (orows t)"
    using assms(2,3) by (simp_all add: keeps_identity_def)
  moreover have "\<forall>r \<in> set (orows t'). d_id r \<le> lastId t'"
    using assms by (auto simp: wf_otable_def keeps_identity_def)
  ultimately show ?thesis using assms(1) by (simp only: wf_otable_def)
qed

lemma ob_get_update:
  assumes "\<And>r. d_id (f r) = d_id r"
  shows "ob_get (update_id t i f) j = (if j = i then map_option f (ob_get t i) else ob_get t j)"
proof -
  have "find (\<lambda>r. d_id r = j) (map (\<lambda>r. if d_id r = i then f r else r) rs) =
      (if j = i then map_option f (find (\<lambda>r. d_id r = i) rs) else find (\<lambda>r. d_id r = j) rs)" for rs
    using assms by (induction rs) auto
  then show ?thesis by (simp add: ob_get_def)
qed

lemma ob_get_Some: "wf_otable t \<Longrightarrow> ob_get t i = Some r \<longleftrightarrow> r \<in> set (orows t) \<and> d_id r = i"
proof -
  assume wf: "wf_otable t"
  show ?thesis
  proof
    assume "ob_get t i = Some r"
    then show "r \<in> set (orows t) \<and> d_id r = i" by (auto simp: ob_get_def find_Some_iff)
  next
    assume r: "r \<in> set (orows t) \<and> d_id r = i"
    then obtain q where q: "ob_get t i = Some q"
      by (cases "ob_get t i") (auto simp: ob_get_def find_None_iff)
    then have "q \<in> set (orows t) \<and> d_id q = i" by (auto simp: ob_get_def find_Some_iff)
    with wf r have "q = r" by (intro wf_id) auto
    with q show "ob_get t i = Some r" by simp
  qed
qed

section \<open>The contract of an outbox store\<close>

text \<open>What the engine relies on: a key already present makes \<open>enqueue\<close> a no-op, a new key becomes one
  pending row, and \<open>claim\<close> hands a row to one claimant only.\<close>

locale outbox_store =
  fixes valid :: "'t \<Rightarrow> bool"
    and get :: "'t \<Rightarrow> nat \<Rightarrow> delivery option"
    and byKey :: "'t \<Rightarrow> string \<Rightarrow> string \<Rightarrow> delivery option"
    and enq :: "'t \<Rightarrow> enqueue_delivery \<Rightarrow> int \<Rightarrow> (delivery \<times> bool) \<times> 't"
    and claim :: "'t \<Rightarrow> nat \<Rightarrow> int \<Rightarrow> delivery option \<times> 't"
  assumes enq_valid: "valid t \<Longrightarrow> valid (snd (enq t e ts))"
    and claim_valid: "valid t \<Longrightarrow> valid (snd (claim t i ts))"
    and enq_old: "byKey t (e_agent e) (e_dedupe e) = Some r \<Longrightarrow> enq t e ts = ((r, False), t)"
    and enq_new: "byKey t (e_agent e) (e_dedupe e) = None \<Longrightarrow>
      fst (enq t e ts) = (fresh_row e (d_id (fst (fst (enq t e ts)))) ts, True) \<and>
      byKey (snd (enq t e ts)) a k =
        (if (a, k) = (e_agent e, e_dedupe e) then Some (fst (fst (enq t e ts))) else byKey t a k)"
    and claim_iff: "valid t \<Longrightarrow> (\<exists>r. fst (claim t i ts) = Some r) \<longleftrightarrow> (\<exists>r. get t i = Some r \<and> d_status r = Pending)"
    and claim_get: "valid t \<Longrightarrow> fst (claim t i ts) = Some r \<Longrightarrow> get (snd (claim t i ts)) i = Some r \<and> d_status r = Inflight"
begin

definition enq_all :: "'t \<Rightarrow> enqueue_delivery list \<Rightarrow> int \<Rightarrow> 't" where
  "enq_all t es ts = foldl (\<lambda>u e. snd (enq u e ts)) t es"

lemma enq_keeps_key: "byKey t a k \<noteq> None \<Longrightarrow> byKey (snd (enq t e ts)) a k = byKey t a k"
  using enq_old [of t e] enq_new [of t e ts a k] by (cases "byKey t (e_agent e) (e_dedupe e)") auto

lemma enq_has_key: "byKey (snd (enq t e ts)) (e_agent e) (e_dedupe e) \<noteq> None"
  using enq_old [of t e] enq_new [of t e ts "e_agent e" "e_dedupe e"]
  by (cases "byKey t (e_agent e) (e_dedupe e)") auto

lemma enq_all_keeps_key: "byKey t a k \<noteq> None \<Longrightarrow> byKey (enq_all t es ts) a k = byKey t a k"
proof (induction es arbitrary: t)
  case (Cons e es)
  with enq_keeps_key [of t a k e ts] show ?case by (simp add: enq_all_def)
qed (simp add: enq_all_def)

lemma enq_all_has_key: "e \<in> set es \<Longrightarrow> byKey (enq_all t es ts) (e_agent e) (e_dedupe e) \<noteq> None"
proof (induction es arbitrary: t)
  case (Cons f es)
  show ?case
  proof (cases "e = f")
    case True
    have "enq_all t (f # es) ts = enq_all (snd (enq t f ts)) es ts" by (simp add: enq_all_def)
    with True enq_has_key [of t f ts] enq_all_keeps_key [of "snd (enq t f ts)" "e_agent f" "e_dedupe f" es ts]
    show ?thesis by simp
  next
    case False
    with Cons show ?thesis by (simp add: enq_all_def)
  qed
qed simp

text \<open>Enqueueing what is there already changes nothing.\<close>

lemma enq_all_present: "\<forall>e \<in> set es. byKey t (e_agent e) (e_dedupe e) \<noteq> None \<Longrightarrow> enq_all t es ts = t"
proof (induction es)
  case (Cons e es)
  then obtain r where "byKey t (e_agent e) (e_dedupe e) = Some r" by auto
  with enq_old [of t e r ts] Cons show ?case by (simp add: enq_all_def)
qed (simp add: enq_all_def)

text \<open>So a replay of a batch, by a caller that crashed in between, is a no-op.\<close>

lemma replay_noop: "enq_all (enq_all t es ts) es ts' = enq_all t es ts"
  using enq_all_has_key [of _ es t ts] by (intro enq_all_present) blast

lemma claim_once: "valid t \<Longrightarrow> fst (claim t i ts) = Some r \<Longrightarrow> fst (claim (snd (claim t i ts)) i ts') = None"
  using claim_iff [of "snd (claim t i ts)" i ts'] claim_get [of t i ts r] claim_valid [of t i ts]
  by (cases "fst (claim (snd (claim t i ts)) i ts')") auto

end

lemma wf_claim: "wf_otable t \<Longrightarrow> wf_otable (snd (ob_claim t i ts))"
  unfolding ob_claim_def Let_def
  by (auto intro!: wf_map [of t "\<lambda>r. if d_id r = i then if d_status r = Pending then r\<lparr>d_status := Inflight, d_updated := ts\<rparr> else r else r"]
      simp: keeps_identity_def dedupe_key_def)

lemma claim_result:
  assumes "wf_otable t"
  shows "fst (ob_claim t i ts) = (case ob_get t i of None \<Rightarrow> None
      | Some r \<Rightarrow> if d_status r = Pending then Some (r\<lparr>d_status := Inflight, d_updated := ts\<rparr>) else None)"
    "ob_get (snd (ob_claim t i ts)) j = (case ob_get t j of None \<Rightarrow> None
      | Some r \<Rightarrow> Some (if j = i \<and> d_status r = Pending then r\<lparr>d_status := Inflight, d_updated := ts\<rparr> else r))"
proof -
  let ?f = "\<lambda>r. if d_status r = Pending then r\<lparr>d_status := Inflight, d_updated := ts\<rparr> else r"
  have ex: "list_ex (\<lambda>r. d_id r = i \<and> d_status r = Pending) (orows t) \<longleftrightarrow> (\<exists>r. ob_get t i = Some r \<and> d_status r = Pending)"
    using ob_get_Some [OF assms] by (auto simp: list_ex_iff)
  have upd: "ob_get (update_id t i ?f) k = (if k = i then map_option ?f (ob_get t i) else ob_get t k)" for k
    by (rule ob_get_update) simp
  show "fst (ob_claim t i ts) = (case ob_get t i of None \<Rightarrow> None
      | Some r \<Rightarrow> if d_status r = Pending then Some (r\<lparr>d_status := Inflight, d_updated := ts\<rparr>) else None)"
    using ex upd [of i] by (auto simp: ob_claim_def Let_def split: option.splits)
  show "ob_get (snd (ob_claim t i ts)) j = (case ob_get t j of None \<Rightarrow> None
      | Some r \<Rightarrow> Some (if j = i \<and> d_status r = Pending then r\<lparr>d_status := Inflight, d_updated := ts\<rparr> else r))"
    using ex upd [of j] by (auto simp: ob_claim_def Let_def split: option.splits)
qed

interpretation sqlite_outbox: outbox_store wf_otable ob_get ob_byDedupeKey enqueue_one ob_claim
proof
  show "wf_otable t \<Longrightarrow> wf_otable (snd (enqueue_one t e ts))" for t e ts by (rule wf_enqueue_one)
  show "wf_otable t \<Longrightarrow> wf_otable (snd (ob_claim t i ts))" for t i ts by (rule wf_claim)
  show "ob_byDedupeKey t (e_agent e) (e_dedupe e) = Some r \<Longrightarrow> enqueue_one t e ts = ((r, False), t)" for t e r ts
    by (simp add: enqueue_one_def)
  show "ob_byDedupeKey t (e_agent e) (e_dedupe e) = None \<Longrightarrow>
      fst (enqueue_one t e ts) = (fresh_row e (d_id (fst (fst (enqueue_one t e ts)))) ts, True) \<and>
      ob_byDedupeKey (snd (enqueue_one t e ts)) a k =
        (if (a, k) = (e_agent e, e_dedupe e) then Some (fst (fst (enqueue_one t e ts))) else ob_byDedupeKey t a k)" for t e ts a k
  proof -
    assume n: "ob_byDedupeKey t (e_agent e) (e_dedupe e) = None"
    have "find P (xs @ [x]) = (case find P xs of Some y \<Rightarrow> Some y | None \<Rightarrow> if P x then Some x else None)" for P xs and x :: delivery
      by (induction xs) auto
    with n show ?thesis
      by (auto simp: enqueue_one_def Let_def ob_byDedupeKey_def split: option.splits)
  qed
  show "wf_otable t \<Longrightarrow> (\<exists>r. fst (ob_claim t i ts) = Some r) \<longleftrightarrow> (\<exists>r. ob_get t i = Some r \<and> d_status r = Pending)" for t i ts
    by (auto simp: claim_result split: option.splits)
  show "wf_otable t \<Longrightarrow> fst (ob_claim t i ts) = Some r \<Longrightarrow> ob_get (snd (ob_claim t i ts)) i = Some r \<and> d_status r = Inflight" for t i ts r
    by (auto simp: claim_result split: option.splits if_splits)
qed

end
