(* ===== verification/Split.thy ===== *)
theory Split
  imports Trust
begin

text \<open>
  \<open>packages/core/src/channels/split.ts\<close>: splitting a reply into chunks a provider accepts.

  Positions are integers, because the code computes with them before it compares them: the room left
  in a chunk can be negative. \<open>slice\<close>, \<open>lastIndexOf\<close> and \<open>charCodeAt\<close> are modelled with their JavaScript
  meaning outside the text. \<open>Math.floor(n * 0.6)\<close> is \<open>3 * n div 5\<close>: the rounding error of the
  product is below half a unit in the last place, so it never crosses an integer. The grapheme segmenter
  is an argument, the start positions of the segments of a text, or \<open>None\<close> where the host has no
  \<open>Intl.Segmenter\<close>. The \<open>while\<close> loop has fuel; \<open>None\<close> is running out of it.
\<close>

section \<open>The code\<close>

definition GRAPHEME_WINDOW :: int where
  "GRAPHEME_WINDOW = 32"

definition FENCE_RESERVE :: int where
  "FENCE_RESERVE = 8"

definition slice_pos :: "'a list \<Rightarrow> int \<Rightarrow> nat" where
  "slice_pos s i = nat (if i < 0 then max 0 (int (length s) + i) else min i (int (length s)))"

definition js_slice :: "int \<Rightarrow> int \<Rightarrow> 'a list \<Rightarrow> 'a list" where
  "js_slice a b s = take (slice_pos s b - slice_pos s a) (drop (slice_pos s a) s)"

definition code_at :: "string \<Rightarrow> int \<Rightarrow> nat option" where
  "code_at s i = (if 0 \<le> i \<and> i < int (length s) then Some (char_code (s ! nat i)) else None)"

fun last_idx :: "string \<Rightarrow> string \<Rightarrow> nat \<Rightarrow> int" where
  "last_idx p s 0 = (if starts_with p s then 0 else - 1)"
| "last_idx p s (Suc k) = (if starts_with p (drop (Suc k) s) then int (Suc k) else last_idx p s k)"

definition lastIndexOf :: "string \<Rightarrow> string \<Rightarrow> int \<Rightarrow> int" where
  "lastIndexOf p s i = last_idx p s (nat i)"

text \<open>\<open>NaN\<close> compares unequal to every code.\<close>

definition isBreakable :: "nat option \<Rightarrow> bool" where
  "isBreakable code = (case code of None \<Rightarrow> False | Some c \<Rightarrow> c = 32 \<or> c = 9 \<or> c = 10 \<or> c = 13 \<or> c = 160)"

definition breakable :: "char \<Rightarrow> bool" where
  "breakable c = isBreakable (Some (char_code c))"

text \<open>\<open>/^ {0,3}(?:`{3,}|~{3,})/\<close>.\<close>

definition fence_line :: "string \<Rightarrow> bool" where
  "fence_line line =
     (let k = length (takeWhile (\<lambda>c. c = CHR '' '') line); r = drop k line
      in k \<le> 3 \<and> (starts_with ''```'' r \<or> starts_with ''~~~'' r))"

definition togglesFence :: "string \<Rightarrow> bool \<Rightarrow> bool" where
  "togglesFence body wasOpen = foldl (\<lambda>open line. if fence_line line then \<not> open else open) wasOpen (split_on NL body)"

definition closeFence :: "string \<Rightarrow> string" where
  "closeFence piece = (if ends_with [NL] piece then piece @ ''```'' else piece @ [NL] @ ''```'')"

fun best_of :: "int \<Rightarrow> int \<Rightarrow> int \<Rightarrow> nat list \<Rightarrow> int" where
  "best_of windowStart limit best [] = best"
| "best_of windowStart limit best (x # xs) =
     (let position = windowStart + int x
      in if position > limit then best else best_of windowStart limit position xs)"

definition graphemeFloor :: "(string \<Rightarrow> nat list) option \<Rightarrow> string \<Rightarrow> int \<Rightarrow> int \<Rightarrow> int" where
  "graphemeFloor segmenter text start limit =
     (let windowStart = max start (limit - GRAPHEME_WINDOW)
      in case segmenter of
           None \<Rightarrow>
             (case (code_at text (limit - 1), code_at text limit) of
                (Some p, Some n) \<Rightarrow>
                  if 0xd800 \<le> p \<and> p \<le> 0xdbff \<and> 0xdc00 \<le> n \<and> n \<le> 0xdfff then limit - 1 else limit
              | _ \<Rightarrow> limit)
         | Some seg \<Rightarrow>
             let best = best_of windowStart limit windowStart (seg (js_slice windowStart (limit + GRAPHEME_WINDOW) text))
             in if best \<le> windowStart then limit else best)"

fun scan_back :: "string \<Rightarrow> int \<Rightarrow> nat \<Rightarrow> int option" where
  "scan_back text i 0 = None"
| "scan_back text i (Suc n) = (if isBreakable (code_at text i) then Some i else scan_back text (i - 1) n)"

definition breakPoint :: "(string \<Rightarrow> nat list) option \<Rightarrow> string \<Rightarrow> int \<Rightarrow> int \<Rightarrow> int" where
  "breakPoint segmenter text start limit =
     (let flo = start + 3 * (limit - start) div 5;
          paragraph = lastIndexOf [NL, NL] text (limit - 1);
          line = lastIndexOf [NL] text (limit - 1)
      in if paragraph \<ge> flo then paragraph
         else if line \<ge> flo then line
         else case scan_back text (limit - 1) (nat (limit - flo)) of
                Some i \<Rightarrow> i
              | None \<Rightarrow> graphemeFloor segmenter text start limit)"

definition skip_ws :: "string \<Rightarrow> int \<Rightarrow> int" where
  "skip_ws text cursor =
     (if cursor < 0 then cursor else cursor + int (length (takeWhile breakable (drop (nat cursor) text))))"

fun split_loop ::
  "nat \<Rightarrow> (string \<Rightarrow> nat list) option \<Rightarrow> string \<Rightarrow> int \<Rightarrow> bool \<Rightarrow> int \<Rightarrow> bool \<Rightarrow> string list option" where
  "split_loop 0 segmenter text budget fenceAware cursor openFence = None"
| "split_loop (Suc fuel) segmenter text budget fenceAware cursor openFence =
     (if \<not> cursor < int (length text) then Some []
      else let prefix = (if openFence then ''```'' @ [NL] else []);
               room = budget - int (length prefix);
               remaining = int (length text) - cursor
           in if remaining \<le> room then
                (let rest = js_slice cursor (int (length text)) text;
                     stillOpen = (fenceAware \<and> togglesFence rest openFence);
                     tail = prefix @ rest
                 in Some [if stillOpen then closeFence tail else tail])
              else
                (let cut = breakPoint segmenter text cursor (cursor + room);
                     body = js_slice cursor cut text;
                     nowOpen = (fenceAware \<and> togglesFence body openFence);
                     piece = prefix @ body;
                     chunk = (if nowOpen then closeFence piece else piece)
                 in map_option (\<lambda>cs. chunk # cs)
                      (split_loop fuel segmenter text budget fenceAware (skip_ws text cut) nowOpen)))"

definition split_budget :: "int \<Rightarrow> bool \<Rightarrow> int" where
  "split_budget maxChars fenceAware =
     (let mx = max 1 maxChars in if fenceAware then max 1 (mx - FENCE_RESERVE) else mx)"

definition splitMessage ::
  "nat \<Rightarrow> (string \<Rightarrow> nat list) option \<Rightarrow> string \<Rightarrow> int \<Rightarrow> bool \<Rightarrow> string list option" where
  "splitMessage fuel segmenter text maxChars fenceAware =
     (if int (length text) \<le> max 1 maxChars then Some [text]
      else split_loop fuel segmenter text (split_budget maxChars fenceAware) fenceAware 0 False)"

section \<open>Where a chunk is cut\<close>

lemma last_idx_le: "last_idx p s k \<le> int k"
  by (induction k) auto

lemma best_of_le: "best \<le> limit \<Longrightarrow> best_of ws limit best xs \<le> limit"
  by (induction xs arbitrary: best) (auto simp: Let_def)

lemma scan_back_bounds: "scan_back text i n = Some j \<Longrightarrow> j \<le> i \<and> i < j + int n"
proof (induction n arbitrary: i)
  case (Suc n)
  show ?case
  proof (cases "isBreakable (code_at text i)")
    case False
    with Suc.prems have "scan_back text (i - 1) n = Some j" by simp
    from Suc.IH [OF this] show ?thesis by linarith
  qed (use Suc.prems in simp)
qed simp

lemma graphemeFloor_bounds:
  assumes "start < limit"
  shows "start < graphemeFloor segmenter text start limit \<and> graphemeFloor segmenter text start limit \<le> limit"
proof (cases segmenter)
  case None
  have "\<not> 55296 \<le> c" if "code_at text i = Some c" for i c
    using that nat_of_char_less_256 [of "text ! nat i"]
    by (auto simp: code_at_def simp del: nat_of_char_less_256 split: if_splits)
  then show ?thesis
    using None assms by (auto simp: graphemeFloor_def Let_def split: option.splits)
next
  case (Some seg)
  let ?ws = "max start (limit - GRAPHEME_WINDOW)"
  have "?ws \<le> limit" using assms by (simp add: GRAPHEME_WINDOW_def)
  from best_of_le [OF this] Some assms show ?thesis
    by (auto simp: graphemeFloor_def Let_def)
qed

lemma breakPoint_bounds:
  assumes "start < limit" "0 \<le> start" "int (length text) > limit"
  shows "start + 3 * (limit - start) div 5 \<le> breakPoint segmenter text start limit \<or>
      start < breakPoint segmenter text start limit"
    "breakPoint segmenter text start limit \<le> limit"
proof -
  have l: "lastIndexOf p text (limit - 1) \<le> limit - 1" for p
    using last_idx_le [of p "text" "nat (limit - 1)"] assms by (simp add: lastIndexOf_def)
  note g = graphemeFloor_bounds [OF assms(1), of segmenter "text"]
  let ?flo = "start + 3 * (limit - start) div 5"
  have sb: "?flo \<le> j \<and> j \<le> limit" if "scan_back text (limit - 1) (nat (limit - ?flo)) = Some j" for j
  proof (cases "limit \<le> ?flo")
    case True
    with that show ?thesis by simp
  next
    case False
    then show ?thesis using scan_back_bounds [OF that] by linarith
  qed
  define b where "b = breakPoint segmenter text start limit"
  have pick: "(F \<le> c \<and> (c = P \<or> c = L)) \<or> (\<exists>j. S = Some j \<and> c = j) \<or> c = G"
    if "c = (if P \<ge> F then P else if L \<ge> F then L else case S of Some i \<Rightarrow> i | None \<Rightarrow> G)"
    for F P L G c :: int and S
    using that by (cases S) (auto split: if_splits)
  consider "?flo \<le> b" "b = lastIndexOf [NL, NL] text (limit - 1) \<or> b = lastIndexOf [NL] text (limit - 1)"
    | j where "scan_back text (limit - 1) (nat (limit - ?flo)) = Some j" "b = j"
    | "b = graphemeFloor segmenter text start limit"
    using pick [OF b_def [unfolded breakPoint_def Let_def]] by blast
  then have "(?flo \<le> b \<or> start < b) \<and> b \<le> limit"
  proof cases
    case 1
    with l [of "[NL]"] l [of "[NL, NL]"] show ?thesis by linarith
  next
    case (2 j)
    with sb show ?thesis by blast
  next
    case 3
    with g show ?thesis by simp
  qed
  then show "?flo \<le> breakPoint segmenter text start limit \<or> start < breakPoint segmenter text start limit"
    "breakPoint segmenter text start limit \<le> limit" by (simp_all only: b_def)
qed

section \<open>Progress\<close>

lemma last_idx_found: "0 \<le> last_idx p s k \<Longrightarrow> starts_with p (drop (nat (last_idx p s k)) s)"
  by (induction k) (auto simp del: of_nat_Suc split: if_splits)

lemma breakable_at:
  assumes "starts_with (NL # p) (drop (nat i) s)" "0 \<le> i" "i < int (length s)"
  shows "isBreakable (code_at s i)"
proof -
  have "s ! nat i = NL"
    using assms by (cases "drop (nat i) s") (auto simp: nth_via_drop)
  then show ?thesis using assms by (simp add: code_at_def isBreakable_def char_facts)
qed

lemma scan_back_found: "scan_back text i n = Some j \<Longrightarrow> isBreakable (code_at text j)"
  by (induction n arbitrary: i) (auto split: if_splits)

lemma breakPoint_stays:
  assumes "0 \<le> start" "start < limit" "limit < int (length text)" "breakPoint segmenter text start limit = start"
  shows "isBreakable (code_at text start)"
proof -
  let ?flo = "start + 3 * (limit - start) div 5"
  note g = graphemeFloor_bounds [OF assms(2), of segmenter "text"]
  have pick: "c = P \<or> c = L \<or> S = Some c \<or> c = G"
    if "c = (if P \<ge> F then P else if L \<ge> F then L else case S of Some i \<Rightarrow> i | None \<Rightarrow> G)"
    for F P L G c :: int and S
    using that by (cases S) (auto split: if_splits)
  have line: "isBreakable (code_at text start)" if "start = lastIndexOf (NL # p) text i" for p i
    using that assms(1) last_idx_found [of "NL # p" "text" "nat i"] breakable_at [of p start "text"] assms(2,3)
    by (auto simp: lastIndexOf_def)
  from pick [OF assms(4) [symmetric, unfolded breakPoint_def Let_def]] g line scan_back_found
  show ?thesis by (metis order_less_irrefl)
qed

lemma code_at_breakable: "0 \<le> i \<Longrightarrow> i < int (length s) \<Longrightarrow> isBreakable (code_at s i) = breakable (s ! nat i)"
  by (simp add: code_at_def breakable_def)

lemma skip_ws_bounds:
  assumes "0 \<le> c" "c \<le> int (length s)"
  shows "c \<le> skip_ws s c" "skip_ws s c \<le> int (length s)" "c < int (length s) \<Longrightarrow> breakable (s ! nat c) \<Longrightarrow> c < skip_ws s c"
proof -
  have "length (takeWhile breakable (drop (nat c) s)) \<le> length s - nat c"
    using length_takeWhile_le [of breakable "drop (nat c) s"] by simp
  with assms show "c \<le> skip_ws s c" "skip_ws s c \<le> int (length s)" by (auto simp: skip_ws_def)
  assume "c < int (length s)" "breakable (s ! nat c)"
  then have "drop (nat c) s = s ! nat c # drop (Suc (nat c)) s" using assms by (simp add: Cons_nth_drop_Suc)
  with assms \<open>breakable (s ! nat c)\<close> show "c < skip_ws s c" by (simp add: skip_ws_def)
qed

lemma iteration_progress:
  assumes "0 \<le> start" "start < limit" "limit < int (length text)"
  shows "start \<le> breakPoint segmenter text start limit" "breakPoint segmenter text start limit \<le> limit"
    "start < skip_ws text (breakPoint segmenter text start limit)"
    "skip_ws text (breakPoint segmenter text start limit) \<le> int (length text)"
proof -
  let ?b = "breakPoint segmenter text start limit"
  have "0 \<le> 3 * (limit - start) div 5" using assms(2) by simp
  with breakPoint_bounds [OF assms(2,1,3), of segmenter] show b: "start \<le> ?b" "?b \<le> limit" by linarith+
  then have c: "0 \<le> ?b" "?b \<le> int (length text)" using assms by linarith+
  note w = skip_ws_bounds [OF c]
  show "skip_ws text ?b \<le> int (length text)" using w(2) .
  show "start < skip_ws text ?b"
  proof (cases "?b = start")
    case True
    from breakPoint_stays [OF assms True] have "breakable (text ! nat start)"
      using assms by (simp add: code_at_breakable)
    with True w(3) assms show ?thesis by simp
  next
    case False
    with b w(1) show ?thesis by linarith
  qed
qed

text \<open>Room for at least one character after a reopened fence.\<close>

definition roomy :: "int \<Rightarrow> bool \<Rightarrow> bool" where
  "roomy budget fenceAware \<longleftrightarrow> 1 \<le> budget \<and> (fenceAware \<longrightarrow> 5 \<le> budget)"

lemma split_loop_terminates:
  assumes "roomy budget fa" "op \<longrightarrow> fa" "0 \<le> cursor" "cursor \<le> int (length text)"
    "int (length text) - cursor < int fuel"
  shows "split_loop fuel seg text budget fa cursor op \<noteq> None"
  using assms
proof (induction fuel arbitrary: cursor op)
  case (Suc fuel)
  define room where "room = budget - int (length (if op then ''```'' @ [NL] else []))"
  show ?case
  proof (cases "int (length text) - cursor \<le> room")
    case False
    have r: "0 < room" using Suc.prems(1,2) by (auto simp: room_def roomy_def)
    define cut where "cut = breakPoint seg text cursor (cursor + room)"
    define open2 where "open2 = (fa \<and> togglesFence (js_slice cursor cut text) op)"
    note it = iteration_progress [OF Suc.prems(3), of "cursor + room" "text" seg, folded cut_def]
    have "split_loop fuel seg text budget fa (skip_ws text cut) open2 \<noteq> None"
      by (rule Suc.IH) (use Suc.prems it r False in \<open>auto simp: open2_def\<close>)
    then show ?thesis
      using False unfolding split_loop.simps Let_def room_def [symmetric] cut_def [symmetric] open2_def [symmetric]
      by auto
  qed (auto simp: Let_def room_def)
qed simp

section \<open>What a chunk holds\<close>

definition chunk_of :: "bool \<Rightarrow> bool \<Rightarrow> string \<Rightarrow> string" where
  "chunk_of fa op body =
     (let piece = (if op then ''```'' @ [NL] else []) @ body
      in if fa \<and> togglesFence body op then closeFence piece else piece)"

text \<open>The chunks that carry the pieces \<open>bs\<close> of a text, from a point where a fence is open or not.\<close>

fun decorate :: "bool \<Rightarrow> bool \<Rightarrow> string list \<Rightarrow> string list" where
  "decorate fa op [] = []"
| "decorate fa op (b # bs) = chunk_of fa op b # decorate fa (fa \<and> togglesFence b op) bs"

lemma decorate_plain: "decorate False False bs = bs"
  by (induction bs) (simp_all add: chunk_of_def)

text \<open>\<open>pgs\<close> cuts a text into pieces, each followed by blanks that are dropped.\<close>

definition cuts :: "string \<Rightarrow> (string \<times> string) list \<Rightarrow> bool" where
  "cuts text pgs \<longleftrightarrow> text = concat (map (\<lambda>(p, g). p @ g) pgs) \<and> list_all (\<lambda>(p, g). list_all breakable g) pgs"

lemma cuts_Cons: "list_all breakable g \<Longrightarrow> cuts text pgs \<Longrightarrow> cuts (p @ g @ text) ((p, g) # pgs)"
  by (simp add: cuts_def)

lemma chunk_length:
  "op \<longrightarrow> fa \<Longrightarrow> length (chunk_of fa op body) \<le> length (if op then ''```'' @ [NL] else []) + length body + (if fa then 4 else 0)"
  by (auto simp: chunk_of_def Let_def closeFence_def)

lemma fence_line_simps: "fence_line ''```''" "\<not> fence_line []"
  by code_simp+

lemma NL_not_tick: "NL \<notin> set ''```''"
  by (simp add: NL_def char_of_def)

lemma toggles_open: "togglesFence ((if op then ''```'' @ [NL] else []) @ body) False = togglesFence body op"
proof (cases op)
  case True
  have "split_on NL (''```'' @ [NL] @ body) = ''```'' # split_on NL body"
    by (rule split_on_append_seps [OF NL_not_tick])
  with True fence_line_simps show ?thesis by (simp add: togglesFence_def)
qed (simp add: togglesFence_def)

lemma toggles_close: "togglesFence (closeFence piece) b = (\<not> togglesFence piece b)"
proof (cases "ends_with [NL] piece")
  case True
  then obtain q where q: "piece = q @ [NL]"
    by (auto simp: ends_with_def starts_with_iff)
  have "split_on NL (q @ [NL] @ ''```'') = split_on NL q @ [''```'']"
    by (rule split_on_snoc [OF NL_not_tick])
  moreover have "split_on NL (q @ [NL] @ []) = split_on NL q @ [[]]" by (rule split_on_snoc) simp
  ultimately show ?thesis using True q fence_line_simps by (simp add: closeFence_def togglesFence_def)
next
  case False
  have "split_on NL (piece @ [NL] @ ''```'') = split_on NL piece @ [''```'']"
    by (rule split_on_snoc [OF NL_not_tick])
  with False fence_line_simps show ?thesis by (simp add: closeFence_def togglesFence_def)
qed

lemma chunk_balanced: "fa \<Longrightarrow> \<not> togglesFence (chunk_of fa op body) False"
  unfolding chunk_of_def Let_def by (auto simp: toggles_close toggles_open simp del: append_assoc)

lemma js_slice_inside:
  assumes "0 \<le> a" "a \<le> b" "b \<le> int (length s)"
  shows "js_slice a b s = take (nat b - nat a) (drop (nat a) s)" "length (js_slice a b s) = nat b - nat a"
  using assms by (simp_all add: js_slice_def slice_pos_def)

lemma skip_splits:
  assumes "0 \<le> a" "a \<le> b" "b \<le> int (length s)"
  obtains g where "drop (nat a) s = js_slice a b s @ g @ drop (nat (skip_ws s b)) s" "list_all breakable g"
proof -
  let ?w = "takeWhile breakable (drop (nat b) s)"
  have "nat (skip_ws s b) = nat b + length ?w" using assms by (simp add: skip_ws_def nat_add_distrib)
  moreover have "drop (nat b) s = ?w @ drop (length ?w) (drop (nat b) s)"
    by (metis append_eq_conv_conj takeWhile_dropWhile_id)
  ultimately have w: "drop (nat b) s = ?w @ drop (nat (skip_ws s b)) s" by (metis add.commute drop_drop)
  have "drop (nat a) s = take (nat b - nat a) (drop (nat a) s) @ drop (nat b) s"
    using assms append_take_drop_id [of "nat b - nat a" "drop (nat a) s"] by (simp add: nat_le_eq_zle)
  also have "\<dots> = js_slice a b s @ ?w @ drop (nat (skip_ws s b)) s"
    using js_slice_inside(1) [OF assms] w by metis
  finally have "drop (nat a) s = js_slice a b s @ ?w @ drop (nat (skip_ws s b)) s" .
  moreover have "list_all breakable ?w" by (auto simp: list_all_iff dest: set_takeWhileD)
  ultimately show thesis by (rule that)
qed

lemma split_loop_step:
  assumes "int (length text) - cursor > room" "cursor < int (length text)"
    "room = budget - int (length (if op then ''```'' @ [NL] else []))"
    "ct = breakPoint seg text cursor (cursor + room)"
  shows "split_loop (Suc fuel) seg text budget fa cursor op =
    map_option (\<lambda>cs. chunk_of fa op (js_slice cursor ct text) # cs)
      (split_loop fuel seg text budget fa (skip_ws text ct) (fa \<and> togglesFence (js_slice cursor ct text) op))"
  using assms(1,2) unfolding split_loop.simps Let_def assms(3) [symmetric] assms(4) [symmetric] chunk_of_def by simp

lemma split_loop_last:
  assumes "int (length text) - cursor \<le> room" "cursor < int (length text)"
    "room = budget - int (length (if op then ''```'' @ [NL] else []))"
  shows "split_loop (Suc fuel) seg text budget fa cursor op = Some [chunk_of fa op (js_slice cursor (int (length text)) text)]"
  using assms(1,2) unfolding split_loop.simps Let_def assms(3) [symmetric] chunk_of_def by simp

lemma split_loop_ok:
  assumes "roomy budget fa" "op \<longrightarrow> fa" "0 \<le> cursor" "cursor \<le> int (length text)"
    "split_loop fuel seg text budget fa cursor op = Some cs"
  shows "(\<forall>c \<in> set cs. int (length c) \<le> budget + (if fa then 4 else 0)) \<and>
    (\<exists>pgs. cuts (drop (nat cursor) text) pgs \<and> cs = decorate fa op (map fst pgs)) \<and>
    (fa \<longrightarrow> (\<forall>c \<in> set cs. \<not> togglesFence c False))"
  using assms
proof (induction fuel arbitrary: cursor op cs)
  case (Suc fuel)
  define room where "room = budget - int (length (if op then ''```'' @ [NL] else []))"
  have r: "0 < room" using Suc.prems(1,2) by (auto simp: room_def roomy_def)
  have len: "int (length (chunk_of fa op body)) \<le> budget + (if fa then 4 else 0)" if "int (length body) \<le> room" for body
    using chunk_length [OF Suc.prems(2), of body] that by (cases fa; cases op) (auto simp: room_def)
  consider "cursor = int (length text)" | "cursor < int (length text)" "int (length text) - cursor \<le> room"
    | "cursor < int (length text)" "int (length text) - cursor > room" using Suc.prems(4) by linarith
  then show ?case
  proof cases
    case 1
    with Suc.prems(5) show ?thesis by (auto simp: cuts_def intro: exI [of _ "[]"])
  next
    case 2
    let ?body = "js_slice cursor (int (length text)) text"
    have cs: "cs = [chunk_of fa op ?body]"
      using split_loop_last [OF 2(2,1) room_def] Suc.prems(5) by simp
    have b: "?body = drop (nat cursor) text" "int (length ?body) \<le> room"
      using js_slice_inside [of cursor "int (length text)" "text"] Suc.prems(3) 2 by simp_all
    have "cuts (drop (nat cursor) text) [(?body, [])] \<and> cs = decorate fa op (map fst [(?body, [])])"
      using b(1) cs by (simp add: cuts_def)
    then show ?thesis
      using len [OF b(2)] chunk_balanced [of fa op ?body] cs by auto
  next
    case 3
    define cut where "cut = breakPoint seg text cursor (cursor + room)"
    define body where "body = js_slice cursor cut text"
    have lim: "cursor < cursor + room" "cursor + room < int (length text)" using r 3 by simp_all
    note it = iteration_progress [OF Suc.prems(3) lim, of seg, folded cut_def]
    from split_loop_step [OF 3(2,1) room_def cut_def, of fuel fa, folded body_def] Suc.prems(5)
    obtain ds where ds: "cs = chunk_of fa op body # ds"
      "split_loop fuel seg text budget fa (skip_ws text cut) (fa \<and> togglesFence body op) = Some ds" by auto
    have cut: "cursor \<le> cut" "cut \<le> int (length text)" "0 \<le> skip_ws text cut"
      using it Suc.prems(3) lim by linarith+
    note IH = Suc.IH [OF Suc.prems(1) _ cut(3) it(4) ds(2)]
    have "int (length body) \<le> room"
      using js_slice_inside(2) [OF Suc.prems(3) cut(1,2)] it cut Suc.prems(3) by (simp add: body_def)
    note fits = len [OF this]
    obtain g where g: "drop (nat cursor) text = body @ g @ drop (nat (skip_ws text cut)) text" "list_all breakable g"
      by (rule skip_splits [OF Suc.prems(3) cut(1,2), folded body_def])
    from IH obtain pgs where pgs: "cuts (drop (nat (skip_ws text cut)) text) pgs"
      "ds = decorate fa (fa \<and> togglesFence body op) (map fst pgs)" by auto
    have "cuts (drop (nat cursor) text) ((body, g) # pgs) \<and> cs = decorate fa op (map fst ((body, g) # pgs))"
      using cuts_Cons [OF g(2) pgs(1), of body] g(1) pgs(2) ds(1) by simp
    with fits IH ds(1) chunk_balanced [of fa op body] show ?thesis by auto
  qed
qed simp

section \<open>Properties\<close>

text \<open>C23. Where fences are not balanced, or a message may have 13 code units, splitting a reply returns, and every chunk fits: the
  loop ends within one iteration per code unit, and no chunk is longer than the
  provider's maximum, reopened and closed fences included.\<close>

theorem split_fits:
  assumes "fenceAware \<longrightarrow> 13 \<le> maxChars"
  shows "\<exists>cs. splitMessage (length text + 1) segmenter text maxChars fenceAware = Some cs \<and>
    (\<forall>c \<in> set cs. int (length c) \<le> max 1 maxChars)"
proof (cases "int (length text) \<le> max 1 maxChars")
  case False
  let ?b = "split_budget maxChars fenceAware"
  have b: "roomy ?b fenceAware" "?b + (if fenceAware then 4 else 0) \<le> max 1 maxChars"
    using assms by (auto simp: roomy_def split_budget_def FENCE_RESERVE_def Let_def)
  obtain cs where cs: "split_loop (length text + 1) segmenter text ?b fenceAware 0 False = Some cs"
    using split_loop_terminates [OF b(1), of False 0 "text" "length text + 1" segmenter] by auto
  from split_loop_ok [OF b(1) _ _ _ cs] have "\<forall>c \<in> set cs. int (length c) \<le> ?b + (if fenceAware then 4 else 0)"
    by simp
  with False cs b(2) show ?thesis by (auto simp: splitMessage_def)
qed (simp add: splitMessage_def)

theorem split_fits_witness:
  "\<exists>cs. splitMessage (length ''one two three four five six'' + 1) None ''one two three four five six'' 13 True = Some cs \<and>
    (\<forall>c \<in> set cs. int (length c) \<le> max 1 13)"
  by (rule split_fits) simp

text \<open>C24. A reply that fits is one chunk, itself. One that does not is cut into pieces, and what lies between two
  pieces or after the last is nothing but blanks: put back, they give the reply. The chunks are the pieces,
  in order, and with fences on each is opened and closed as the fences of the pieces before it ask. As for
  the bound, either fences are off or a message may have 13 code units.\<close>

theorem split_preserves_text:
  assumes "splitMessage fuel segmenter text maxChars fenceAware = Some cs" "fenceAware \<longrightarrow> 13 \<le> maxChars"
  shows "if int (length text) \<le> max 1 maxChars then cs = [text]
    else \<exists>pgs. cuts text pgs \<and> cs = decorate fenceAware False (map fst pgs) \<and> (\<not> fenceAware \<longrightarrow> cs = map fst pgs)"
proof (cases "int (length text) \<le> max 1 maxChars")
  case False
  have "roomy (split_budget maxChars fenceAware) fenceAware"
    using assms by (auto simp: roomy_def split_budget_def FENCE_RESERVE_def Let_def)
  from split_loop_ok [OF this, of False 0 "text" fuel segmenter cs] assms False
  obtain pgs where "cuts text pgs" "cs = decorate fenceAware False (map fst pgs)"
    by (auto simp: splitMessage_def)
  with False decorate_plain show ?thesis by (cases fenceAware) auto
qed (use assms in \<open>auto simp: splitMessage_def\<close>)

theorem split_preserves_text_witness:
  "splitMessage 30 None ''one two three four five six'' 10 False = Some [''one two'', ''three four'', ''five six''] \<and>
   (\<exists>pgs. cuts ''one two three four five six'' pgs \<and> [''one two'', ''three four'', ''five six''] = map fst pgs)"
proof -
  have s: "splitMessage 30 None ''one two three four five six'' 10 False = Some [''one two'', ''three four'', ''five six'']"
    by code_simp
  from split_preserves_text [OF s] s show ?thesis by auto
qed

text \<open>No chunk of a split reply leaves a code fence open: read on its own, every chunk has an even
  number of fence lines.\<close>

theorem split_fences_balanced:
  assumes "splitMessage fuel segmenter text maxChars True = Some cs" "13 \<le> maxChars"
    "maxChars < int (length text)" "c \<in> set cs"
  shows "\<not> togglesFence c False"
proof -
  have "roomy (split_budget maxChars True) True"
    using assms by (auto simp: roomy_def split_budget_def FENCE_RESERVE_def Let_def)
  from split_loop_ok [OF this, of False 0 "text" fuel segmenter cs] assms show ?thesis
    by (simp add: splitMessage_def)
qed

definition long_code :: string where
  "long_code = ''```'' @ [NL] @ ''let x = 1 let y = 2'' @ [NL] @ ''```''"

theorem split_fences_balanced_witness:
  "\<exists>cs. splitMessage 30 None long_code 16 True = Some cs \<and> (\<forall>c \<in> set cs. \<not> togglesFence c False)"
proof -
  have "length long_code = 27" by (simp add: long_code_def)
  then obtain cs where "splitMessage 30 None long_code 16 True = Some cs"
    using split_loop_terminates [of "split_budget 16 True" True False 0 long_code 30 None]
    by (auto simp: splitMessage_def roomy_def split_budget_def FENCE_RESERVE_def)
  with split_fences_balanced [OF this] \<open>length long_code = 27\<close> show ?thesis by auto
qed

text \<open>At twelve code units per message the splitter never returns on a long fenced reply: reopening the
  fence takes the whole budget, so no iteration advances, whatever the fuel.\<close>

theorem split_hangs: "splitMessage fuel None long_code 12 True = None"
proof -
  have len: "length long_code = 27" by (simp add: long_code_def)
  have slice: "js_slice 4 4 long_code = []" "js_slice 0 3 long_code = ''```''" by code_simp+
  have li: "lastIndexOf [NL, NL] long_code 3 = - 1" "lastIndexOf [NL] long_code 3 = 3" by code_simp+
  have gf: "graphemeFloor None long_code 4 4 = 4"
    by (simp add: graphemeFloor_def code_at_def long_code_def)
  have bp: "breakPoint None long_code 4 4 = 4" "breakPoint None long_code 0 4 = 3"
    using li gf by (simp_all add: breakPoint_def)
  have sk: "skip_ws long_code 4 = 4" "skip_ws long_code 3 = 4" by code_simp+
  have tg: "togglesFence [] True" "togglesFence ''```'' False" by code_simp+
  have stuck: "split_loop n None long_code 4 True 4 True = None" for n
  proof (induction n)
    case (Suc n)
    have "split_loop (Suc n) None long_code 4 True 4 True =
        map_option (\<lambda>cs. chunk_of True True [] # cs) (split_loop n None long_code 4 True 4 True)"
      using split_loop_step [of 0 long_code 4 4 True 4 None n True] bp slice sk tg by (simp add: len)
    with Suc show ?case by simp
  qed simp
  have "split_loop n None long_code 4 True 0 False = None" for n
  proof (cases n)
    case (Suc m)
    have "split_loop (Suc m) None long_code 4 True 0 False =
        map_option (\<lambda>cs. chunk_of True False ''```'' # cs) (split_loop m None long_code 4 True 4 True)"
      using split_loop_step [of 4 long_code 0 4 False 3 None m True] bp slice sk tg by (simp add: len)
    with Suc stuck show ?thesis by simp
  qed simp
  then show ?thesis by (simp add: splitMessage_def split_budget_def FENCE_RESERVE_def len)
qed

end
