(* ===== verification/Address.thy ===== *)
theory Address
  imports Prelude
begin

text \<open>
  \<open>packages/core/src/net/address.ts\<close>: reading IP literals and deciding which of them are off the public
  internet. Octets and bytes are natural numbers; the parsers are shown to deliver values below 256.
\<close>

section \<open>Verdicts\<close>

datatype address_kind =
  Public | Loopback | Link_local | Private | Cgnat | Unspecified | Multicast | Reserved

record verdict =
  kind :: address_kind
  net_range :: "string option"

definition PUBLIC :: verdict where
  "PUBLIC = \<lparr>kind = Public, net_range = None\<rparr>"

definition off :: "address_kind \<Rightarrow> string \<Rightarrow> verdict" where
  "off k r = \<lparr>kind = k, net_range = Some r\<rparr>"

section \<open>Reading literals\<close>

definition parse_octet :: "string \<Rightarrow> nat option" where
  "parse_octet part =
     (if part = [] \<or> length part > 3 \<or> \<not> list_all is_digit part then None
      else if length part > 1 \<and> hd part = CHR ''0'' then None
      else if to_number part > 255 then None
      else Some (to_number part))"

fun all_some :: "('a \<Rightarrow> 'b option) \<Rightarrow> 'a list \<Rightarrow> 'b list option" where
  "all_some f [] = Some []"
| "all_some f (x # xs) =
     (case f x of None \<Rightarrow> None | Some y \<Rightarrow> map_option (Cons y) (all_some f xs))"

definition parseIPv4 :: "string \<Rightarrow> nat list option" where
  "parseIPv4 value =
     (let parts = split_on (CHR ''.'') value in
      if length parts \<noteq> 4 then None else all_some parse_octet parts)"

definition is_hex :: "char \<Rightarrow> bool" where
  "is_hex c \<longleftrightarrow> is_digit c \<or> c \<in> set ''abcdef'' \<or> c \<in> set ''ABCDEF''"

definition hex_val :: "char \<Rightarrow> nat" where
  "hex_val c = (if is_digit c then char_code c - 48
     else if c \<in> set ''abcdef'' then char_code c - 87 else char_code c - 55)"

text \<open>\<open>Number.parseInt(group, 16)\<close> on a string of hexadecimal digits.\<close>

definition parse_hex :: "string \<Rightarrow> nat" where
  "parse_hex s = foldl (\<lambda>n c. 16 * n + hex_val c) 0 s"

text \<open>\<open>s.split("::")\<close>.\<close>

fun split_colons :: "string \<Rightarrow> string list" where
  "split_colons [] = [[]]"
| "split_colons [c] = [[c]]"
| "split_colons (c # d # s) =
     (if c = CHR '':'' \<and> d = CHR '':'' then [] # split_colons s
      else (case split_colons (d # s) of [] \<Rightarrow> [[c]] | w # ws \<Rightarrow> (c # w) # ws))"

text \<open>The groups of one half; a dotted quad may only be its last group.\<close>

fun expand_groups :: "string list \<Rightarrow> nat list option" where
  "expand_groups [] = Some []"
| "expand_groups (g # gs) =
     (if CHR ''.'' \<in> set g then
        (if gs \<noteq> [] then None else parseIPv4 g)
      else if g = [] \<or> length g > 4 then None
      else map_option (\<lambda>bs. [parse_hex g div 256 mod 256, parse_hex g mod 256] @ bs) (expand_groups gs))"

definition expand :: "string \<Rightarrow> nat list option" where
  "expand part = (if part = [] then Some [] else expand_groups (split_on (CHR '':'') part))"

definition parseIPv6 :: "string \<Rightarrow> nat list option" where
  "parseIPv6 value =
     (let address = takeWhile (\<lambda>c. c \<noteq> CHR ''%'') value in
      if address = [] then None
      else if \<not> list_all (\<lambda>c. is_hex c \<or> c = CHR '':'' \<or> c = CHR ''.'') address then None
      else (case split_colons address of
              [_] \<Rightarrow> (case expand address of
                        None \<Rightarrow> None
                      | Some bytes \<Rightarrow> if length bytes = 16 then Some bytes else None)
            | [h, t] \<Rightarrow>
                (case (expand h, expand t) of
                   (Some head, Some tail) \<Rightarrow>
                     if length head + length tail > 16 then None
                     else Some (head @ replicate (16 - length head - length tail) 0 @ tail)
                 | _ \<Rightarrow> None)
            | _ \<Rightarrow> None))"

section \<open>Classifying\<close>

text \<open>A missing octet reads as 0.\<close>

definition nth0 :: "nat list \<Rightarrow> nat \<Rightarrow> nat" where
  "nth0 xs i = (if i < length xs then xs ! i else 0)"

definition classifyIPv4 :: "nat list \<Rightarrow> verdict" where
  "classifyIPv4 octets =
     (let a = nth0 octets 0; b = nth0 octets 1; c = nth0 octets 2; d = nth0 octets 3 in
      if a = 0 then off Unspecified ''0.0.0.0/8''
      else if a = 127 then off Loopback ''127.0.0.0/8''
      else if a = 10 then off Private ''10.0.0.0/8''
      else if a = 172 \<and> b \<ge> 16 \<and> b \<le> 31 then off Private ''172.16.0.0/12''
      else if a = 192 \<and> b = 168 then off Private ''192.168.0.0/16''
      else if a = 100 \<and> b \<ge> 64 \<and> b \<le> 127 then off Cgnat ''100.64.0.0/10''
      else if a = 169 \<and> b = 254 then off Link_local ''169.254.0.0/16''
      else if a = 192 \<and> b = 0 \<and> c = 0 then off Reserved ''192.0.0.0/24''
      else if a = 192 \<and> b = 0 \<and> c = 2 then off Reserved ''192.0.2.0/24 (TEST-NET-1)''
      else if a = 198 \<and> (b = 18 \<or> b = 19) then off Reserved ''198.18.0.0/15''
      else if a = 198 \<and> b = 51 \<and> c = 100 then off Reserved ''198.51.100.0/24 (TEST-NET-2)''
      else if a = 203 \<and> b = 0 \<and> c = 113 then off Reserved ''203.0.113.0/24 (TEST-NET-3)''
      else if a \<ge> 224 \<and> a \<le> 239 then off Multicast ''224.0.0.0/4''
      else if a = 255 \<and> b = 255 \<and> c = 255 \<and> d = 255 then off Reserved ''255.255.255.255''
      else if a \<ge> 240 then off Reserved ''240.0.0.0/4''
      else PUBLIC)"

definition all_zero :: "nat list \<Rightarrow> bool" where
  "all_zero bs \<longleftrightarrow> list_all (\<lambda>b. b = 0) bs"

definition is_mapped :: "nat list \<Rightarrow> bool" where
  "is_mapped bytes \<longleftrightarrow> all_zero (take 10 bytes) \<and> nth0 bytes 10 = 255 \<and> nth0 bytes 11 = 255"

definition is_nat64 :: "nat list \<Rightarrow> bool" where
  "is_nat64 bytes \<longleftrightarrow> nth0 bytes 0 = 0 \<and> nth0 bytes 1 = 100 \<and> nth0 bytes 2 = 255 \<and> nth0 bytes 3 = 155 \<and>
     all_zero (drop 4 (take 12 bytes))"

unbundle bit_operations_syntax

definition classifyIPv6 :: "nat list \<Rightarrow> verdict" where
  "classifyIPv6 bytes =
     (if length bytes \<noteq> 16 then off Reserved ''unparseable''
      else if is_mapped bytes then classifyIPv4 (drop 12 bytes)
      else if is_nat64 bytes then classifyIPv4 (drop 12 bytes)
      else if all_zero bytes then off Unspecified ''::''
      else if all_zero (take 15 bytes) \<and> nth0 bytes 15 = 1 then off Loopback ''::1''
      else (let first = nth0 bytes 0; second = nth0 bytes 1 in
        if first AND 254 = 252 then off Private ''fc00::/7''
        else if first = 254 \<and> second AND 192 = 128 then off Link_local ''fe80::/10''
        else if first = 255 then off Multicast ''ff00::/8''
        else if first = 32 \<and> second = 1 \<and> nth0 bytes 2 = 13 \<and> nth0 bytes 3 = 184 then off Reserved ''2001:db8::/32''
        else PUBLIC))"

definition strip_brackets :: "string \<Rightarrow> string" where
  "strip_brackets value =
     (if starts_with ''['' value \<and> ends_with '']'' value then butlast (tl value) else value)"

definition classifyAddress :: "string \<Rightarrow> verdict option" where
  "classifyAddress value =
     (let bare = strip_brackets value in
      case parseIPv4 bare of
        Some quad \<Rightarrow> Some (classifyIPv4 quad)
      | None \<Rightarrow> map_option classifyIPv6 (parseIPv6 bare))"

section \<open>Lemmas on reading\<close>

lemma all_some_iff: "all_some f xs = Some ys \<longleftrightarrow> length xs = length ys \<and> (\<forall>i < length xs. f (xs ! i) = Some (ys ! i))"
proof (induction xs arbitrary: ys)
  case Nil
  then show ?case by auto
next
  case (Cons x xs)
  show ?case
  proof (cases ys)
    case Nil
    then show ?thesis by (auto split: option.splits)
  next
    case (Cons z zs)
    have "(\<forall>i < length (x # xs). f ((x # xs) ! i) = Some ((z # zs) ! i)) \<longleftrightarrow>
        f x = Some z \<and> (\<forall>i < length xs. f (xs ! i) = Some (zs ! i))"
      by (auto simp: less_Suc_eq_0_disj)
    with Cons Cons.IH [of zs] show ?thesis by (auto split: option.splits)
  qed
qed

lemma all_some_map: "(\<And>y. y \<in> set ys \<Longrightarrow> f (g y) = Some y) \<Longrightarrow> all_some f (map g ys) = Some ys"
  by (induction ys) auto

lemma parse_octet_less: "parse_octet p = Some n \<Longrightarrow> n < 256"
  by (auto simp: parse_octet_def split: if_splits)

lemma parseIPv4_bytes:
  assumes "parseIPv4 s = Some os"
  shows "length os = 4 \<and> (\<forall>b \<in> set os. b < 256)"
proof -
  from assms have a: "all_some parse_octet (split_on (CHR ''.'') s) = Some os" "length (split_on (CHR ''.'') s) = 4"
    by (auto simp: parseIPv4_def Let_def split: if_splits)
  then have "length os = 4" by (simp add: all_some_iff)
  moreover have "b < 256" if "b \<in> set os" for b
  proof -
    from that obtain i where "i < length os" "b = os ! i" by (auto simp: in_set_conv_nth)
    with a show ?thesis by (auto simp: all_some_iff intro: parse_octet_less)
  qed
  ultimately show ?thesis by blast
qed

lemma expand_groups_bytes: "expand_groups gs = Some bs \<Longrightarrow> b \<in> set bs \<Longrightarrow> b < 256"
  by (induction gs arbitrary: bs) (auto dest: parseIPv4_bytes split: if_splits)

lemma expand_bytes: "expand p = Some bs \<Longrightarrow> b \<in> set bs \<Longrightarrow> b < 256"
  by (auto simp: expand_def dest: expand_groups_bytes split: if_splits)

lemma snoc_digit: "x < 10 \<Longrightarrow> (10 * m + x) div 10 = m" "x < 10 \<Longrightarrow> (10 * m + x) mod 10 = (x :: nat)"
  by simp_all

text \<open>A decimal octet of up to three digits without a leading zero is the numeral it denotes.\<close>

lemma octet_canonical:
  assumes "parse_octet p = Some n"
  shows "p = nat_str n"
proof -
  from assms have p: "p \<noteq> []" "length p \<le> 3" "list_all is_digit p" "length p > 1 \<longrightarrow> hd p \<noteq> CHR ''0''" "n = to_number p"
    by (auto simp: parse_octet_def split: if_splits)
  have dv: "\<exists>v < 10. c = char_of (48 + v) \<and> digit_val c = v" if "is_digit c" for c
    using that by (intro exI [of _ "digit_val c"]) (auto simp: is_digit_def digit_val_def)
  have z: "v \<noteq> 0" if "char_of (48 + v) \<noteq> CHR ''0''" for v :: nat
  proof
    assume "v = 0"
    moreover have "char_of (48 :: nat) = CHR ''0''" by code_simp
    ultimately show False using that by simp
  qed
  from p(1,2) consider (1) a where "p = [a]" | (2) a b where "p = [a, b]" | (3) a b c where "p = [a, b, c]"
    by (cases p; cases "tl p"; cases "tl (tl p)"; cases "tl (tl (tl p))") auto
  then show ?thesis
  proof cases
    case 1
    with p obtain v where "v < 10" "a = char_of (48 + v)" "digit_val a = v" using dv [of a] by auto
    with 1 p(5) show ?thesis by (simp add: to_number_def nat_str.simps [of v])
  next
    case 2
    with p obtain v w where v: "v < 10" "a = char_of (48 + v)" "digit_val a = v"
      and w: "w < 10" "b = char_of (48 + w)" "digit_val b = w" using dv [of a] dv [of b] by auto
    have "v \<noteq> 0" using p(4) 2 v(2) z by simp
    with 2 v w p(5) show ?thesis
      by (simp add: to_number_def nat_str.simps [of "10 * v + w"] nat_str.simps [of v])
  next
    case 3
    with p obtain v w x where v: "v < 10" "a = char_of (48 + v)" "digit_val a = v"
      and w: "w < 10" "b = char_of (48 + w)" "digit_val b = w" and x: "x < 10" "c = char_of (48 + x)" "digit_val c = x"
      using dv [of a] dv [of b] dv [of c] by auto
    have "v \<noteq> 0" using p(4) 3 v(2) z by simp
    moreover have "(10 * (10 * v + w) + x) div 10 = 10 * v + w" "(10 * v + w) div 10 = v" "(10 * v + w) mod 10 = w"
      "(10 * (10 * v + w) + x) mod 10 = x" by (rule snoc_digit, use w(1) x(1) in simp)+
    ultimately show ?thesis using 3 v w x p(5)
      by (simp add: to_number_def nat_str.simps [of "100 * v + 10 * w + x"] nat_str.simps [of "10 * v + w"] nat_str.simps [of v])
  qed
qed

lemma digit_char_not_zero: "0 < (v :: nat) \<Longrightarrow> v < 10 \<Longrightarrow> char_of (48 + v) \<noteq> CHR ''0''"
proof
  assume v: "0 < v" "v < 10" "char_of (48 + v) = CHR ''0''"
  have "char_code (CHR ''0'') = (48 :: nat)" by code_simp
  with v digit_char [of v] show False by simp
qed

lemma nat_str_octet:
  assumes "n < 256"
  shows "parse_octet (nat_str n) = Some n"
proof -
  have d: "list_all is_digit (nat_str n)" using nat_str_digits by (auto simp: list_all_iff)
  consider "n < 10" | "10 \<le> n" "n < 100" | "100 \<le> n" by linarith
  then have "nat_str n \<noteq> [] \<and> length (nat_str n) \<le> 3 \<and> (length (nat_str n) > 1 \<longrightarrow> hd (nat_str n) \<noteq> CHR ''0'')"
  proof cases
    case 1
    then show ?thesis by (simp add: nat_str.simps [of n])
  next
    case 2
    moreover from 2 have "0 < n div 10" "n div 10 < 10" by auto
    ultimately show ?thesis
      using digit_char_not_zero [of "n div 10"] by (simp add: nat_str.simps [of n] nat_str.simps [of "n div 10"])
  next
    case 3
    moreover from 3 assms have "10 \<le> n div 10" "0 < n div 10 div 10" "n div 10 div 10 < 10" by auto
    ultimately show ?thesis
      using digit_char_not_zero [of "n div 10 div 10"]
      by (simp add: nat_str.simps [of n] nat_str.simps [of "n div 10"] nat_str.simps [of "n div 10 div 10"])
  qed
  with d assms show ?thesis by (auto simp: parse_octet_def nat_str_number)
qed

section \<open>The special ranges as networks\<close>

text \<open>The reference: an address is a 32-bit number and a network is a base and a prefix length. The first
  network that holds the address names its kind.\<close>

definition v4_value :: "nat \<Rightarrow> nat \<Rightarrow> nat \<Rightarrow> nat \<Rightarrow> nat" where
  "v4_value a b c d = ((a * 256 + b) * 256 + c) * 256 + d"

definition in_cidr :: "nat \<Rightarrow> nat \<times> nat \<Rightarrow> bool" where
  "in_cidr v n = (case n of (base, len) \<Rightarrow> v div 2 ^ (32 - len) = base div 2 ^ (32 - len))"

definition special_networks :: "((nat \<times> nat) \<times> address_kind) list" where
  "special_networks =
     [((v4_value 0 0 0 0, 8), Unspecified), ((v4_value 127 0 0 0, 8), Loopback), ((v4_value 10 0 0 0, 8), Private),
      ((v4_value 172 16 0 0, 12), Private), ((v4_value 192 168 0 0, 16), Private), ((v4_value 100 64 0 0, 10), Cgnat),
      ((v4_value 169 254 0 0, 16), Link_local), ((v4_value 192 0 0 0, 24), Reserved), ((v4_value 192 0 2 0, 24), Reserved),
      ((v4_value 198 18 0 0, 15), Reserved), ((v4_value 198 51 100 0, 24), Reserved), ((v4_value 203 0 113 0, 24), Reserved),
      ((v4_value 224 0 0 0, 4), Multicast), ((v4_value 240 0 0 0, 4), Reserved)]"

definition network_kind :: "nat \<Rightarrow> address_kind" where
  "network_kind v = (case find (\<lambda>(n, _). in_cidr v n) special_networks of Some (_, k) \<Rightarrow> k | None \<Rightarrow> Public)"

lemma v4_div:
  assumes "b < 256" "c < 256" "d < 256"
  shows "v4_value a b c d div 16777216 = a" "v4_value a b c d div 65536 = a * 256 + b"
    "v4_value a b c d div 256 = (a * 256 + b) * 256 + c"
proof -
  show 8: "v4_value a b c d div 256 = (a * 256 + b) * 256 + c" using assms by (simp add: v4_value_def)
  have "v4_value a b c d div 65536 = v4_value a b c d div 256 div 256" by (simp add: div_mult2_eq [symmetric])
  then show 16: "v4_value a b c d div 65536 = a * 256 + b" unfolding 8 using assms by simp
  have "v4_value a b c d div 16777216 = v4_value a b c d div 65536 div 256" by (simp add: div_mult2_eq [symmetric])
  then show "v4_value a b c d div 16777216 = a" unfolding 16 using assms by simp
qed

lemma digit_eq: "x < k \<Longrightarrow> y < k \<Longrightarrow> a * k + x = n * k + y \<longleftrightarrow> a = n \<and> x = (y :: nat)"
proof
  assume k: "x < k" "y < k" and e: "a * k + x = n * k + y"
  then have "(a * k + x) div k = (n * k + y) div k" by simp
  with k have "a = n" by simp
  with e show "a = n \<and> x = y" by simp
qed simp

text \<open>A network of prefix \<open>len\<close> inside one octet.\<close>

lemma in_cidr_8: "b < 256 \<Longrightarrow> c < 256 \<Longrightarrow> d < 256 \<Longrightarrow> in_cidr (v4_value a b c d) (v4_value n 0 0 0, 8) \<longleftrightarrow> a = n"
  by (simp add: in_cidr_def v4_div)

lemma in_cidr_16: "b < 256 \<Longrightarrow> c < 256 \<Longrightarrow> d < 256 \<Longrightarrow> m < 256 \<Longrightarrow>
    in_cidr (v4_value a b c d) (v4_value n m 0 0, 16) \<longleftrightarrow> a = n \<and> b = m"
  by (simp add: in_cidr_def v4_div digit_eq)

lemma in_cidr_24:
  assumes "b < 256" "c < 256" "d < 256" "m < 256" "k < 256"
  shows "in_cidr (v4_value a b c d) (v4_value n m k 0, 24) \<longleftrightarrow> a = n \<and> b = m \<and> c = k"
proof -
  have "(a * 256 + b) * 256 + c = (n * 256 + m) * 256 + k \<longleftrightarrow> a = n \<and> b = m \<and> c = k"
    unfolding digit_eq [OF assms(2,5)] digit_eq [OF assms(1,4)] by simp
  moreover have "in_cidr (v4_value a b c d) (v4_value n m k 0, 24) \<longleftrightarrow>
      v4_value a b c d div 256 = v4_value n m k 0 div 256" by (simp add: in_cidr_def)
  ultimately show ?thesis using v4_div(3) [OF assms(1-3)] v4_div(3) [OF assms(4,5), of 0 n] by simp
qed

lemma in_cidr_part:
  assumes "b < 256" "c < 256" "d < 256" "m < 256" "8 \<le> len" "len \<le> 16"
  shows "in_cidr (v4_value a b c d) (v4_value n m 0 0, len) \<longleftrightarrow> a = n \<and> b div 2 ^ (16 - len) = m div 2 ^ (16 - len)"
proof -
  have "32 - len = 16 + (16 - len)" "8 = (16 - len) + (len - 8)" using assms(5,6) by simp_all
  then have "(2 :: nat) ^ (32 - len) = 2 ^ 16 * 2 ^ (16 - len)" "(2 :: nat) ^ 8 = 2 ^ (16 - len) * 2 ^ (len - 8)"
    by (metis power_add)+
  then have e: "(2 :: nat) ^ (32 - len) = 65536 * 2 ^ (16 - len)" and p: "256 = (2 :: nat) ^ (16 - len) * 2 ^ (len - 8)"
    by simp_all
  have v: "v div 2 ^ (32 - len) = v div 65536 div 2 ^ (16 - len)" for v :: nat by (simp only: e div_mult2_eq)
  have q: "(a * 256 + b) div 2 ^ (16 - len) = a * 2 ^ (len - 8) + b div 2 ^ (16 - len)" for a b :: nat
  proof -
    have "a * 256 + b = b + 2 ^ (16 - len) * (a * 2 ^ (len - 8))" by (subst p) simp
    then show ?thesis by (simp only: div_mult_self2 power_not_zero) simp
  qed
  have "x div 2 ^ (16 - len) < 2 ^ (len - 8)" if "x < 256" for x :: nat
    using that unfolding p by (simp add: less_mult_imp_div_less mult.commute)
  with assms(1-4) show ?thesis by (simp add: in_cidr_def v v4_div q digit_eq)
qed

lemma in_cidr_4:
  assumes "b < 256" "c < 256" "d < 256"
  shows "in_cidr (v4_value a b c d) (v4_value n 0 0 0, 4) \<longleftrightarrow> a div 16 = n div 16"
proof -
  have "v div 268435456 = v div 16777216 div 16" for v :: nat by (simp add: div_mult2_eq [symmetric])
  with assms show ?thesis by (simp add: in_cidr_def v4_div)
qed

lemma network_ranges:
  assumes "a < 256" "b < 256" "c < 256" "d < 256"
  shows "in_cidr (v4_value a b c d) (v4_value 172 16 0 0, 12) \<longleftrightarrow> a = 172 \<and> 16 \<le> b \<and> b \<le> 31"
    "in_cidr (v4_value a b c d) (v4_value 100 64 0 0, 10) \<longleftrightarrow> a = 100 \<and> 64 \<le> b \<and> b \<le> 127"
    "in_cidr (v4_value a b c d) (v4_value 198 18 0 0, 15) \<longleftrightarrow> a = 198 \<and> (b = 18 \<or> b = 19)"
    "in_cidr (v4_value a b c d) (v4_value 224 0 0 0, 4) \<longleftrightarrow> 224 \<le> a \<and> a \<le> 239"
    "in_cidr (v4_value a b c d) (v4_value 240 0 0 0, 4) \<longleftrightarrow> 240 \<le> a"
proof -
  have b: "b div 16 = 1 \<longleftrightarrow> 16 \<le> b \<and> b \<le> 31" "b div 64 = 1 \<longleftrightarrow> 64 \<le> b \<and> b \<le> 127" "b div 2 = 9 \<longleftrightarrow> b = 18 \<or> b = 19"
    "b div 16 = 14 \<longleftrightarrow> 224 \<le> b \<and> b \<le> 239" for b :: nat
    by linarith+
  have "a div 16 = 15 \<longleftrightarrow> 240 \<le> a" using assms(1) by linarith
  with assms b show "in_cidr (v4_value a b c d) (v4_value 172 16 0 0, 12) \<longleftrightarrow> a = 172 \<and> 16 \<le> b \<and> b \<le> 31"
    "in_cidr (v4_value a b c d) (v4_value 100 64 0 0, 10) \<longleftrightarrow> a = 100 \<and> 64 \<le> b \<and> b \<le> 127"
    "in_cidr (v4_value a b c d) (v4_value 198 18 0 0, 15) \<longleftrightarrow> a = 198 \<and> (b = 18 \<or> b = 19)"
    "in_cidr (v4_value a b c d) (v4_value 224 0 0 0, 4) \<longleftrightarrow> 224 \<le> a \<and> a \<le> 239"
    "in_cidr (v4_value a b c d) (v4_value 240 0 0 0, 4) \<longleftrightarrow> 240 \<le> a"
    by (simp_all add: in_cidr_part in_cidr_4)
qed

section \<open>Properties\<close>

text \<open>The chain of octet tests is the first-match lookup in the table of special-purpose networks.\<close>

theorem classifyIPv4_networks:
  assumes "a < 256" "b < 256" "c < 256" "d < 256"
  shows "kind (classifyIPv4 [a, b, c, d]) = network_kind (v4_value a b c d)"
  unfolding network_kind_def special_networks_def find.simps
  using assms
  by (simp add: network_ranges in_cidr_8 in_cidr_16 in_cidr_24 classifyIPv4_def Let_def nth0_def off_def PUBLIC_def)

theorem classifyIPv4_networks_witness:
  "kind (classifyIPv4 [169, 254, 169, 254]) = network_kind (v4_value 169 254 169 254) \<and>
   kind (classifyIPv4 [169, 254, 169, 254]) = Link_local"
  using classifyIPv4_networks [of 169 254 169 254] by (simp add: classifyIPv4_def Let_def nth0_def off_def)

text \<open>The dotted-quad reader accepts exactly the canonical decimal form of four octets: no octal, no
  shorthand, no second spelling of an address.\<close>

theorem parseIPv4_canonical:
  "parseIPv4 s = Some os \<longleftrightarrow> length os = 4 \<and> (\<forall>b \<in> set os. b < 256) \<and> s = join_with ''.'' (map nat_str os)"
proof
  assume p: "parseIPv4 s = Some os"
  then have a: "all_some parse_octet (split_on (CHR ''.'') s) = Some os"
    by (auto simp: parseIPv4_def Let_def split: if_splits)
  have "split_on (CHR ''.'') s = map nat_str os"
    by (rule nth_equalityI) (use a in \<open>simp_all add: all_some_iff octet_canonical\<close>)
  with parseIPv4_bytes [OF p] join_split_on [of "CHR ''.''" s]
  show "length os = 4 \<and> (\<forall>b \<in> set os. b < 256) \<and> s = join_with ''.'' (map nat_str os)" by simp
next
  assume r: "length os = 4 \<and> (\<forall>b \<in> set os. b < 256) \<and> s = join_with ''.'' (map nat_str os)"
  have "CHR ''.'' \<notin> set (nat_str n)" for n using nat_str_digits [of "CHR ''.''" n] by (auto simp: is_digit_def)
  with r have "split_on (CHR ''.'') s = map nat_str os" by (auto intro!: split_on_join_with)
  moreover have "all_some parse_octet (map nat_str os) = Some os"
    by (rule all_some_map) (use r nat_str_octet in blast)
  ultimately show "parseIPv4 s = Some os" using r by (simp add: parseIPv4_def Let_def)
qed

theorem parseIPv4_canonical_witness: "parseIPv4 ''127.0.0.1'' = Some [127, 0, 0, 1] \<and> parseIPv4 ''0127.0.0.1'' = None"
proof -
  have "parseIPv4 ''127.0.0.1'' = Some [127, 0, 0, 1]" unfolding parseIPv4_canonical by code_simp
  moreover have "parseIPv4 ''0127.0.0.1'' = None" by code_simp
  ultimately show ?thesis by blast
qed

text \<open>An IPv6 literal reads as sixteen bytes.\<close>

theorem parseIPv6_bytes:
  assumes "parseIPv6 s = Some bs"
  shows "length bs = 16 \<and> (\<forall>b \<in> set bs. b < 256)"
  using assms expand_bytes
  by (auto simp: parseIPv6_def Let_def split: if_splits list.splits option.splits)

theorem parseIPv6_bytes_witness: "parseIPv6 ''::1%eth0'' = Some (replicate 15 0 @ [1]) \<and>
    length (replicate 15 0 @ [1 :: nat]) = 16"
proof -
  have "parseIPv6 ''::1%eth0'' = Some (replicate 15 0 @ [1])" by code_simp
  with parseIPv6_bytes [OF this] show ?thesis by blast
qed

text \<open>Both encodings of an IPv4 address inside IPv6 get the verdict of the address they carry, so
  neither spelling of a private address is public.\<close>

theorem embedded_v4_verdict:
  assumes "length q = 4"
  shows "classifyIPv6 (replicate 10 0 @ [255, 255] @ q) = classifyIPv4 q \<and>
    classifyIPv6 ([0, 100, 255, 155] @ replicate 8 0 @ q) = classifyIPv4 q"
proof (intro conjI)
  have n10: "replicate 10 (0 :: nat) = [0,0,0,0,0,0,0,0,0,0]" "replicate 8 (0 :: nat) = [0,0,0,0,0,0,0,0]"
    by (simp_all add: numeral_eq_Suc)
  show "classifyIPv6 (replicate 10 0 @ [255, 255] @ q) = classifyIPv4 q"
    using assms by (simp add: n10 classifyIPv6_def is_mapped_def all_zero_def nth0_def)
  show "classifyIPv6 ([0, 100, 255, 155] @ replicate 8 0 @ q) = classifyIPv4 q"
    using assms by (simp add: n10 classifyIPv6_def is_mapped_def is_nat64_def all_zero_def nth0_def)
qed

theorem embedded_v4_verdict_witness: "kind (classifyIPv6 (replicate 10 0 @ [255, 255] @ [127, 0, 0, 1])) = Loopback"
  using embedded_v4_verdict [of "[127, 0, 0, 1]"] by (simp add: classifyIPv4_def nth0_def off_def Let_def)

text \<open>Two more spellings carry an IPv4 address and are public: the IPv4-compatible form and 6to4. And a
  dotted quad is accepted in front of the \<open>::\<close>, where no address has one.\<close>

theorem loopback_read_as_public:
  "map_option kind (classifyAddress ''::127.0.0.1'') = Some Public \<and>
   kind (classifyIPv6 ([32, 2] @ [127, 0, 0, 1] @ replicate 10 0)) = Public \<and>
   parseIPv6 ''127.0.0.1::'' = Some ([127, 0, 0, 1] @ replicate 12 0)"
proof (intro conjI)
  have p: "strip_brackets ''::127.0.0.1'' = ''::127.0.0.1''" "parseIPv4 ''::127.0.0.1'' = None"
    "parseIPv6 ''::127.0.0.1'' = Some (replicate 12 0 @ [127, 0, 0, 1])" by code_simp+
  have n: "replicate 12 (0 :: nat) = [0,0,0,0,0,0,0,0,0,0,0,0]" "replicate 10 (0 :: nat) = [0,0,0,0,0,0,0,0,0,0]"
    by (simp_all add: numeral_eq_Suc)
  show "map_option kind (classifyAddress ''::127.0.0.1'') = Some Public"
    unfolding classifyAddress_def Let_def p
    by (simp add: n classifyIPv6_def is_mapped_def is_nat64_def all_zero_def nth0_def Let_def PUBLIC_def)
  show "kind (classifyIPv6 ([32, 2] @ [127, 0, 0, 1] @ replicate 10 0)) = Public"
    by (simp add: n classifyIPv6_def is_mapped_def is_nat64_def all_zero_def nth0_def Let_def PUBLIC_def)
  show "parseIPv6 ''127.0.0.1::'' = Some ([127, 0, 0, 1] @ replicate 12 0)" by code_simp
qed

end
