(* ===== verification/Percent.thy ===== *)
theory Percent
  imports Address
begin

text \<open>
  \<open>encodeURIComponent\<close> and \<open>decodeURIComponent\<close> as ECMAScript defines them: the keys of the outbox and the
  paths of the client are encoded, the parameters of a route decoded. A decoded text is a list of UTF-16
  code units.
\<close>

section \<open>Encoding\<close>

text \<open>\<open>encodeURIComponent\<close> on code units below 256: unreserved characters stand for themselves, the others
  for the percent-encoded bytes of their UTF-8 form.\<close>

definition unreserved :: "char \<Rightarrow> bool" where
  "unreserved c \<longleftrightarrow> is_alpha c \<or> is_digit c \<or> c \<in> set ''-_.!~*'' \<or> char_code c \<in> {39, 40, 41}"

definition hex_digit :: "nat \<Rightarrow> char" where
  "hex_digit n = ''0123456789ABCDEF'' ! n"

definition pct :: "nat \<Rightarrow> string" where
  "pct b = [CHR ''%'', hex_digit (b div 16), hex_digit (b mod 16)]"

definition enc_char :: "char \<Rightarrow> string" where
  "enc_char c =
     (if unreserved c then [c]
      else if char_code c < 128 then pct (char_code c)
      else pct (192 + char_code c div 64) @ pct (128 + char_code c mod 64))"

definition encodeURIComponent :: "string \<Rightarrow> string" where
  "encodeURIComponent s = concat (map enc_char s)"

section \<open>Percent decoding\<close>

datatype path_unit = Lit char | Byte nat

fun path_units :: "string \<Rightarrow> path_unit list option" where
  "path_units [] = Some []"
| "path_units (c # s) =
     (if c \<noteq> CHR ''%'' then map_option (\<lambda>us. Lit c # us) (path_units s)
      else (case s of
          a # b # r \<Rightarrow> if is_hex a \<and> is_hex b
                       then map_option (\<lambda>us. Byte (16 * hex_val a + hex_val b) # us) (path_units r) else None
        | _ \<Rightarrow> None))"

definition continues :: "nat \<Rightarrow> bool" where
  "continues b \<longleftrightarrow> 128 \<le> b \<and> b < 192"

fun utf8_units :: "path_unit list \<Rightarrow> nat list option" where
  "utf8_units [] = Some []"
| "utf8_units (Lit c # ts) = map_option (\<lambda>us. char_code c # us) (utf8_units ts)"
| "utf8_units (Byte b # ts) =
     (if b < 128 then map_option (\<lambda>us. b # us) (utf8_units ts)
      else if 194 \<le> b \<and> b < 224 then
        (case ts of Byte c # r \<Rightarrow>
           if continues c then map_option (\<lambda>us. ((b - 192) * 64 + (c - 128)) # us) (utf8_units r) else None
         | _ \<Rightarrow> None)
      else if 224 \<le> b \<and> b < 240 then
        (case ts of Byte c # Byte d # r \<Rightarrow>
           (let v = (b - 224) * 4096 + (c - 128) * 64 + (d - 128)
            in if continues c \<and> continues d \<and> 2048 \<le> v \<and> \<not> (55296 \<le> v \<and> v < 57344)
               then map_option (\<lambda>us. v # us) (utf8_units r) else None)
         | _ \<Rightarrow> None)
      else if 240 \<le> b \<and> b < 245 then
        (case ts of Byte c # Byte d # Byte e # r \<Rightarrow>
           (let v = (b - 240) * 262144 + (c - 128) * 4096 + (d - 128) * 64 + (e - 128)
            in if continues c \<and> continues d \<and> continues e \<and> 65536 \<le> v \<and> v < 1114112
               then map_option (\<lambda>us. (55296 + (v - 65536) div 1024) # (56320 + (v - 65536) mod 1024) # us) (utf8_units r)
               else None)
         | _ \<Rightarrow> None)
      else None)"

text \<open>\<open>None\<close> where \<open>decodeURIComponent\<close> throws.\<close>

definition decodeURIComponent :: "string \<Rightarrow> nat list option" where
  "decodeURIComponent s = (case path_units s of None \<Rightarrow> None | Some us \<Rightarrow> utf8_units us)"

section \<open>Encoding and decoding\<close>

lemma hex_digit_cases: "d < 16 \<Longrightarrow> is_hex (hex_digit d) \<and> hex_val (hex_digit d) = d \<and> hex_digit d \<noteq> CHR ''/''"
proof -
  assume "d < 16"
  then have "d \<in> set [0..<16]" by simp
  moreover have "list_all (\<lambda>d. is_hex (hex_digit d) \<and> hex_val (hex_digit d) = d \<and> hex_digit d \<noteq> CHR ''/'') [0..<16]"
    by code_simp
  ultimately show ?thesis by (auto simp: list_all_iff)
qed

lemma path_units_pct: "b < 256 \<Longrightarrow> path_units (pct b @ s) = map_option (\<lambda>us. Byte b # us) (path_units s)"
  using hex_digit_cases [of "b div 16"] hex_digit_cases [of "b mod 16"] less_mult_imp_div_less [of b 16 16]
  by (simp add: pct_def)

lemma path_units_lit: "c \<noteq> CHR ''%'' \<Longrightarrow> path_units (c # s) = map_option (\<lambda>us. Lit c # us) (path_units s)"
  by simp

lemma decode_Nil [simp]: "decodeURIComponent [] = Some []"
  by (simp add: decodeURIComponent_def)

lemma decode_encode_char:
  assumes "decodeURIComponent s = Some us"
  shows "decodeURIComponent (enc_char c @ s) = Some (char_code c # us)"
proof -
  have lt: "char_code c < 256" by (rule nat_of_char_less_256)
  obtain ts where ts: "path_units s = Some ts" "utf8_units ts = Some us"
    using assms by (auto simp: decodeURIComponent_def split: option.splits)
  show ?thesis
  proof (cases "unreserved c")
    case True
    then have "c \<noteq> CHR ''%''" by (auto simp: unreserved_def is_alpha_def is_upper_def is_lower_def is_digit_def)
    with True ts show ?thesis by (simp add: decodeURIComponent_def enc_char_def)
  next
    case False
    show ?thesis
    proof (cases "char_code c < 128")
      case True
      with False lt ts show ?thesis by (simp add: decodeURIComponent_def enc_char_def path_units_pct)
    next
      case high: False
      have d: "char_code c div 64 < 4" "2 \<le> char_code c div 64" using lt high by (simp_all add: div_less_iff_less_mult)
      from False high d lt ts show ?thesis
        by (simp add: decodeURIComponent_def enc_char_def path_units_pct continues_def)
    qed
  qed
qed

lemma decode_encode: "decodeURIComponent (encodeURIComponent s) = Some (map char_code s)"
proof (induction s)
  case Nil
  then show ?case by (simp add: encodeURIComponent_def)
next
  case (Cons c s)
  from decode_encode_char [OF Cons.IH, of c] show ?case
    by (simp only: encodeURIComponent_def list.map concat.simps)
qed

lemma pct_no_slash: "b < 256 \<Longrightarrow> CHR ''/'' \<notin> set (pct b)"
proof -
  assume b: "b < 256"
  then have "b div 16 < 16" by (simp add: div_less_iff_less_mult)
  then show ?thesis
    using hex_digit_cases [of "b div 16"] hex_digit_cases [of "b mod 16"] by (auto simp: pct_def)
qed

lemma enc_char_no_slash: "CHR ''/'' \<notin> set (enc_char c)"
proof -
  have "char_code c < 256" by (rule nat_of_char_less_256)
  then have "char_code c div 64 < 4" by (simp add: div_less_iff_less_mult)
  then have "CHR ''/'' \<notin> set (pct (192 + char_code c div 64) @ pct (128 + char_code c mod 64))"
    by (simp add: pct_no_slash)
  moreover have "\<not> unreserved (CHR ''/'')"
    by (simp add: unreserved_def is_alpha_def is_upper_def is_lower_def is_digit_def)
  ultimately show ?thesis by (auto simp: enc_char_def pct_no_slash)
qed

lemma encode_no_slash: "CHR ''/'' \<notin> set (encodeURIComponent s)"
  by (auto simp: encodeURIComponent_def enc_char_no_slash)

lemma encode_empty: "encodeURIComponent s = [] \<longleftrightarrow> s = []"
proof
  assume "encodeURIComponent s = []"
  then have "decodeURIComponent [] = Some (map char_code s)" using decode_encode [of s] by simp
  then show "s = []" by simp
qed (simp add: encodeURIComponent_def)

end
