(* ===== verification/Outbox.thy ===== *)
theory Outbox
  imports Outbox_Store Split Percent
begin

text \<open>
  \<open>packages/core/src/channels/outbox.ts\<close>: the keys of a delivery, enqueueing a reply, and sending what is
  due. An attempt is three steps: \<open>attempt_start\<close> ends with the claim and hands the message over,
  \<open>attempt_answer\<close> is the transport's answer, \<open>attempt_record\<close> its record in the table, so any number of
  attempts, of one drain or of several, can be interleaved, and a crash can fall between any two. The transport's answers, clock readings and the
  grapheme segmenter are arguments. The log records what an observer of the wire sees.
\<close>

section \<open>Keys\<close>

datatype discriminator = Turn string | Key string

definition deliveryGroup :: "string \<Rightarrow> string \<Rightarrow> string \<Rightarrow> discriminator \<Rightarrow> string" where
  "deliveryGroup sessionKey channelId recipient d =
     join_with ''|'' [encodeURIComponent sessionKey, encodeURIComponent channelId, encodeURIComponent recipient,
       (case d of Turn t \<Rightarrow> ''t:'' @ encodeURIComponent t | Key k \<Rightarrow> ''k:'' @ encodeURIComponent k)]"

definition deliveryKey :: "string \<Rightarrow> nat \<Rightarrow> string" where
  "deliveryKey groupKey chunkIndex = groupKey @ ''|'' @ nat_str chunkIndex"

section \<open>Enqueueing a reply\<close>

record channel_limits =
  maxMessageChars :: int
  minSendIntervalMs :: "int option"
  attachmentsOk :: bool

record outbox_config =
  channels :: "string \<rightharpoonup> channel_limits"
  backoff :: "int list"
  maxAttempts :: nat
  concurrency :: nat
  segmenter :: "(string \<Rightarrow> nat list) option"

definition DEFAULT_BACKOFF_MS :: "int list" where
  "DEFAULT_BACKOFF_MS = [1000, 5000, 25000, 120000, 600000]"

record enqueue_reply =
  r_agent :: string
  r_session :: string
  r_channel :: string
  r_recipient :: string
  r_turn :: "string option"
  r_key :: "string option"
  r_thread :: "string option"
  r_text :: string
  r_attachments :: "(string \<times> string) list"

datatype enqueue_error = No_channel | No_key | Split_hangs

text \<open>\<open>basename\<close> of \<open>node:path\<close>.\<close>

definition basename :: "string \<Rightarrow> string" where
  "basename p = (let q = dropWhile (\<lambda>c. c = CHR ''/'') (rev p) in rev (takeWhile (\<lambda>c. c \<noteq> CHR ''/'') q))"

definition reply_text :: "channel_limits \<Rightarrow> enqueue_reply \<Rightarrow> string" where
  "reply_text lim reply =
     (let carried = (if attachmentsOk lim then r_attachments reply else []);
          named = (if length carried = length (r_attachments reply) then []
            else concat (map (\<lambda>(path, _). [NL, NL] @ ''('' @ basename path @
              '' is in my workspace; this channel cannot carry files.)'') (r_attachments reply)))
      in trim (r_text reply @ named))"

definition reply_chunks ::
  "outbox_config \<Rightarrow> channel_limits \<Rightarrow> enqueue_reply \<Rightarrow> (string \<times> (string \<times> string) option) list option" where
  "reply_chunks cfg lim reply =
     (let txt = reply_text lim reply;
          carried = (if attachmentsOk lim then r_attachments reply else []);
          files = map (\<lambda>a. ([], Some a)) carried
      in if txt = [] then Some files
         else map_option (\<lambda>bodies. map (\<lambda>b. (b, None)) bodies @ files)
           (splitMessage (length txt + 1) (segmenter cfg) txt (maxMessageChars lim) True))"

definition build_delivery ::
  "enqueue_reply \<Rightarrow> string \<Rightarrow> nat \<Rightarrow> int \<Rightarrow> nat \<times> string \<times> (string \<times> string) option \<Rightarrow> enqueue_delivery" where
  "build_delivery reply g n now x = (case x of (i, b, a) \<Rightarrow>
     \<lparr>e_agent = r_agent reply, e_dedupe = deliveryKey g i, e_group = g, e_session = r_session reply,
      e_turn = r_turn reply, e_channel = r_channel reply, e_recipient = r_recipient reply,
      e_thread = r_thread reply, e_chunk = i, e_total = n, e_body = b, e_attachment = a,
      e_next = Some now\<rparr>)"

definition reply_group :: "enqueue_reply \<Rightarrow> string option" where
  "reply_group reply =
     map_option (deliveryGroup (r_session reply) (r_channel reply) (r_recipient reply))
       (case r_turn reply of Some t \<Rightarrow> Some (Turn t) | None \<Rightarrow> map_option Key (r_key reply))"

definition reply_deliveries :: "outbox_config \<Rightarrow> enqueue_reply \<Rightarrow> int \<Rightarrow> enqueue_error + enqueue_delivery list" where
  "reply_deliveries cfg reply now =
     (case channels cfg (r_channel reply) of
        None \<Rightarrow> Inl No_channel
      | Some lim \<Rightarrow>
          (case reply_group reply of
             None \<Rightarrow> Inl No_key
           | Some g \<Rightarrow>
               (case reply_chunks cfg lim reply of
                  None \<Rightarrow> Inl Split_hangs
                | Some cs \<Rightarrow> Inr (map (build_delivery reply g (length cs) now) (enumerate 0 cs)))))"

definition enqueueReport ::
  "outbox_config \<Rightarrow> otable \<Rightarrow> enqueue_reply \<Rightarrow> int \<Rightarrow> int \<Rightarrow> enqueue_error + ((delivery list \<times> bool) \<times> otable)" where
  "enqueueReport cfg t reply now ts =
     (case reply_deliveries cfg reply now of
        Inl e \<Rightarrow> Inl e
      | Inr es \<Rightarrow> let (rs, t') = ob_enqueue t es ts in Inr ((map fst rs, list_ex snd rs), t'))"

section \<open>Sending\<close>

datatype send_result =
    Send_ok "string option"
  | Send_failed bool "int option" string string

text \<open>What happens to a message \<open>(agent, dedupe key)\<close>: it is put on the wire, with the flag its row carries in
  the table at that moment; the transport says yes; a yes, or a no, is recorded in the table; the rows in
  flight of some agents are put back; the process dies.\<close>

datatype wire_event =
    L_send "string \<times> string" bool
  | L_ack "string \<times> string"
  | L_sent "string \<times> string"
  | L_nak "string \<times> string"
  | L_recover "string list"
  | L_crash

datatype outcome = O_sent | O_retry | O_failed | O_skipped

record outbox =
  tbl :: otable
  cfg :: outbox_config
  picked :: "delivery list"
  sending :: "delivery list"
  answered :: "(delivery \<times> send_result) list"
  nextSendAt :: "string \<rightharpoonup> int"
  olog :: "wire_event list"

definition delayFor :: "int list \<Rightarrow> nat \<Rightarrow> int" where
  "delayFor bo attempt =
     (let k = nat (max 0 (min (int attempt - 1) (int (length bo) - 1)))
      in if k < length bo then bo ! k else 0)"

definition abandoned_msg :: "delivery \<Rightarrow> string" where
  "abandoned_msg row = ''Chunk '' @ nat_str (d_chunk row + 1) @ '' of '' @ nat_str (d_total row) @
     '' could not be delivered, so the rest of this message was not sent.''"

definition unknown_msg :: "delivery \<Rightarrow> string" where
  "unknown_msg row = ''Channel \"'' @ d_channel row @ ''\" is not configured on this runtime.''"

definition fail_row :: "delivery \<Rightarrow> string \<Rightarrow> string \<Rightarrow> int \<Rightarrow> otable \<Rightarrow> otable" where
  "fail_row row c msg ts t =
     snd (ob_abandonGroupAfter (ob_markFailed t (d_id row) c msg ts) (d_agent row) (d_group row) (d_chunk row)
       ''delivery_chunk_abandoned'' (abandoned_msg row) ts)"

text \<open>\<open>#attempt\<close> up to the transport, on the row as the drain read it.\<close>

definition attempt_start :: "delivery \<Rightarrow> int \<Rightarrow> int \<Rightarrow> outbox \<Rightarrow> outcome option \<times> outbox" where
  "attempt_start row now ts s =
     (case channels (cfg s) (d_channel row) of
        None \<Rightarrow> (Some O_failed, s\<lparr>tbl := fail_row row ''delivery_channel_unknown'' (unknown_msg row) ts (tbl s)\<rparr>)
      | Some lim \<Rightarrow>
          if (case nextSendAt s (d_channel row) of None \<Rightarrow> 0 | Some t \<Rightarrow> t) - now > 0 then (Some O_skipped, s)
          else (case ob_claim (tbl s) (d_id row) ts of
                  (None, _) \<Rightarrow> (Some O_skipped, s)
                | (Some claimed, t) \<Rightarrow>
                    (None, s\<lparr>tbl := t, sending := sending s @ [row],
                       olog := olog s @ [L_send (dedupe_key row) (d_uncertain claimed)]\<rparr>)))"

text \<open>The transport's \<open>send\<close> returns; one that throws answers \<open>Send_failed True None\<close>. The answer is in
  memory only until it is recorded.\<close>

definition attempt_answer :: "delivery \<Rightarrow> send_result \<Rightarrow> int \<Rightarrow> outbox \<Rightarrow> outbox" where
  "attempt_answer row result now s =
     (let interval = (case Option.bind (channels (cfg s) (d_channel row)) minSendIntervalMs of None \<Rightarrow> 0 | Some i \<Rightarrow> i)
      in s\<lparr>sending := remove1 row (sending s), answered := answered s @ [(row, result)],
           nextSendAt := (if interval > 0 then (nextSendAt s)(d_channel row \<mapsto> now + interval) else nextSendAt s),
           olog := olog s @ (case result of Send_ok _ \<Rightarrow> [L_ack (dedupe_key row)] | Send_failed _ _ _ _ \<Rightarrow> [])\<rparr>)"

text \<open>The rest of \<open>#attempt\<close>: the answer is written to the table.\<close>

definition attempt_record :: "delivery \<Rightarrow> send_result \<Rightarrow> int \<Rightarrow> int \<Rightarrow> outbox \<Rightarrow> outcome \<times> outbox" where
  "attempt_record row result now ts s =
     (let s1 = s\<lparr>answered := remove1 (row, result) (answered s)\<rparr>
      in case result of
           Send_ok pid \<Rightarrow>
             (O_sent, s1\<lparr>tbl := ob_markSent (tbl s) (d_id row) pid ts, olog := olog s @ [L_sent (dedupe_key row)]\<rparr>)
         | Send_failed retryable retryAfter c msg \<Rightarrow>
             let attempts = d_attempts row + 1; exhausted = attempts \<ge> maxAttempts (cfg s);
                 s2 = s1\<lparr>olog := olog s @ [L_nak (dedupe_key row)]\<rparr>
             in if \<not> retryable \<or> exhausted then
                  (O_failed, s2\<lparr>tbl := fail_row row c msg ts (tbl s)\<rparr>)
                else
                  (let delay = (case retryAfter of Some d \<Rightarrow> d | None \<Rightarrow> delayFor (backoff (cfg s)) attempts)
                   in (O_retry, s2\<lparr>tbl := ob_markRetry (tbl s) (d_id row) (now + delay) c msg ts\<rparr>)))"

section \<open>Steps\<close>

text \<open>A process over a table, before it has recovered anything.\<close>

definition boot_outbox :: "otable \<Rightarrow> outbox_config \<Rightarrow> wire_event list \<Rightarrow> outbox" where
  "boot_outbox t c l = \<lparr>tbl = t, cfg = c, picked = [], sending = [], answered = [], nextSendAt = Map.empty, olog = l\<rparr>"

text \<open>Replies are enqueued, drains read what is due, attempts start, are answered and are recorded in any
  order, the process dies and another one takes over. \<open>recover\<close> runs whenever \<open>startAgent\<close> of
  \<open>runtime/channels.ts\<close> does: at boot, and again when an agent is reloaded in a running process, where the
  attempts of the outbox it replaces go on. Each agent has an outbox object of its own, and a reload makes
  a new one; their configurations and send times differ, so whichever object acts next is any (\<open>Object\<close>).\<close>

inductive outbox_step :: "outbox \<Rightarrow> outbox \<Rightarrow> bool" where
  Enqueue: "enqueueReport (cfg s) (tbl s) reply now ts = Inr (rep, t) \<Longrightarrow> outbox_step s (s\<lparr>tbl := t\<rparr>)"
| Pick: "outbox_step s (s\<lparr>picked := picked s @ ob_due (tbl s) a now (concurrency (cfg s))\<rparr>)"
| Begin: "row \<in> set (picked s) \<Longrightarrow>
    outbox_step s (snd (attempt_start row now ts (s\<lparr>picked := remove1 row (picked s)\<rparr>)))"
| Answer: "row \<in> set (sending s) \<Longrightarrow> outbox_step s (attempt_answer row result now s)"
| Record: "(row, result) \<in> set (answered s) \<Longrightarrow> outbox_step s (snd (attempt_record row result now ts s))"
| Recover: "outbox_step s (s\<lparr>tbl := snd (ob_recoverInflight (tbl s) as now ts), olog := olog s @ [L_recover as]\<rparr>)"
| Object: "outbox_step s (s\<lparr>cfg := c, nextSendAt := n\<rparr>)"
| Crash: "outbox_step s (boot_outbox (tbl s) c (olog s @ [L_crash]))"

inductive outbox_reach :: "outbox \<Rightarrow> bool" where
  Empty: "outbox_reach (boot_outbox \<lparr>orows = [], lastId = 0\<rparr> c [])"
| Step: "outbox_reach s \<Longrightarrow> outbox_step s s' \<Longrightarrow> outbox_reach s'"

inductive_cases outbox_stepE: "outbox_step s s'"

text \<open>What the log says of one key. \<open>live\<close> counts the attempts of this process whose answer is not recorded;
  \<open>overlap\<close> says that the agent was recovered while one of them was out, so that another may have started
  beside it; \<open>recorded\<close> that the last record was a yes; \<open>ph\<close> where the key stands since its last send.
  \<open>bad\<close> is set by a send that nothing explains, by any send after a recorded yes, and by a recorded no
  after it that no overlap explains.\<close>

datatype phase = Idle | Sending | Recovered

record wire =
  live :: nat
  overlap :: bool
  recorded :: bool
  ph :: phase
  bad :: bool

definition wire0 :: wire where
  "wire0 = \<lparr>live = 0, overlap = False, recorded = False, ph = Idle, bad = False\<rparr>"

fun advance :: "string \<times> string \<Rightarrow> wire \<Rightarrow> wire_event \<Rightarrow> wire" where
  "advance k w (L_send j u) = (if j \<noteq> k then w else
     w\<lparr>live := live w + 1, ph := Sending,
       bad := bad w \<or> recorded w \<or> \<not> (ph w = Idle \<or> (ph w = Recovered \<and> u))\<rparr>)"
| "advance k w (L_ack j) = w"
| "advance k w (L_sent j) = (if j \<noteq> k then w else
     w\<lparr>live := live w - 1, overlap := overlap w \<and> live w > 1, recorded := True\<rparr>)"
| "advance k w (L_nak j) = (if j \<noteq> k then w else
     w\<lparr>live := live w - 1, overlap := overlap w \<and> live w > 1, recorded := False, ph := Idle,
       bad := bad w \<or> (recorded w \<and> \<not> overlap w)\<rparr>)"
| "advance k w (L_recover as) = (if fst k \<notin> set as then w else
     w\<lparr>overlap := overlap w \<or> live w > 0, ph := (if ph w = Sending then Recovered else ph w)\<rparr>)"
| "advance k w L_crash = w\<lparr>live := 0, overlap := False\<rparr>"

definition wire_of :: "wire_event list \<Rightarrow> string \<times> string \<Rightarrow> wire" where
  "wire_of log k = foldl (advance k) wire0 log"

section \<open>Keys are injective\<close>

lemma hex_digits: "distinct ''0123456789ABCDEF''" "length ''0123456789ABCDEF'' = 16"
  by code_simp+

lemma hex_digit_inj: "m < 16 \<Longrightarrow> n < 16 \<Longrightarrow> hex_digit m = hex_digit n \<Longrightarrow> m = n"
  using nth_eq_iff_index_eq [OF hex_digits(1)] unfolding hex_digit_def hex_digits(2) by blast

lemma hex_digit_plain: "n < 16 \<Longrightarrow> hex_digit n \<noteq> CHR ''|''"
proof -
  assume "n < 16"
  then have "hex_digit n \<in> set ''0123456789ABCDEF''" unfolding hex_digit_def by (intro nth_mem) simp
  then show ?thesis by auto
qed

lemma pct_inj:
  assumes "b < 256" "b' < 256" "pct b @ x = pct b' @ y"
  shows "b = b' \<and> x = y"
proof -
  have "hex_digit (b div 16) = hex_digit (b' div 16)" "hex_digit (b mod 16) = hex_digit (b' mod 16)" "x = y"
    using assms(3) by (simp_all add: pct_def)
  moreover have "b div 16 < 16" "b' div 16 < 16" using assms(1,2) by auto
  ultimately have "b div 16 = b' div 16" "b mod 16 = b' mod 16" "x = y"
    using hex_digit_inj by auto
  then show ?thesis by (metis div_mult_mod_eq)
qed

lemma unreserved_not_pct: "\<not> unreserved (CHR ''%'')" "\<not> unreserved (CHR ''|'')"
  by code_simp+

lemma enc_char_cases:
  obtains "unreserved c" "enc_char c = [c]"
  | "\<not> unreserved c" "char_code c < 128" "enc_char c = pct (char_code c)"
  | "\<not> unreserved c" "128 \<le> char_code c" "enc_char c = pct (192 + char_code c div 64) @ pct (128 + char_code c mod 64)"
  unfolding enc_char_def by (cases "unreserved c"; cases "char_code c < 128") auto

lemma code_div_64: "char_code (c :: char) div 64 < 4"
  using nat_of_char_less_256 [of c] by (simp add: div_less_iff_less_mult)

text \<open>The encoding is a prefix code.\<close>

lemma enc_char_prefix:
  assumes "enc_char c @ x = enc_char d @ y"
  shows "c = d \<and> x = y"
proof (cases c rule: enc_char_cases)
  case 1
  show ?thesis
    using assms 1 unreserved_not_pct(1) by (cases d rule: enc_char_cases) (auto simp: pct_def)
next
  case 2
  show ?thesis
  proof (cases d rule: enc_char_cases)
    case 1
    with assms 2 unreserved_not_pct(1) show ?thesis by (auto simp: pct_def)
  next
    case d: 2
    with assms 2 pct_inj [of "char_code c" "char_code d" x y] show ?thesis by (metis enc_char_def nat_of_char_less_256 of_char_eq_iff)
  next
    case d: 3
    with assms 2 pct_inj [of "char_code c" "192 + char_code d div 64" x "pct (128 + char_code d mod 64) @ y"]
      code_div_64 [of d] show ?thesis by simp
  qed
next
  case 3
  show ?thesis
  proof (cases d rule: enc_char_cases)
    case 1
    with assms 3 unreserved_not_pct(1) show ?thesis by (auto simp: pct_def)
  next
    case d: 2
    with assms 3 pct_inj [of "192 + char_code c div 64" "char_code d" "pct (128 + char_code c mod 64) @ x" y]
      code_div_64 [of c] show ?thesis by simp
  next
    case d: 3
    have "192 + char_code c div 64 = 192 + char_code d div 64 \<and>
        pct (128 + char_code c mod 64) @ x = pct (128 + char_code d mod 64) @ y"
      by (rule pct_inj) (use assms 3 d code_div_64 [of c] code_div_64 [of d] in simp_all)
    moreover have "128 + char_code c mod 64 < 256" "128 + char_code d mod 64 < 256"
      using mod_less_divisor [of 64 "char_code c"] mod_less_divisor [of 64 "char_code d"] by linarith+
    ultimately have "char_code c div 64 = char_code d div 64" "char_code c mod 64 = char_code d mod 64" "x = y"
      using pct_inj by (metis add_left_cancel)+
    then have "char_code c = char_code d" by (metis div_mult_mod_eq)
    with \<open>x = y\<close> show ?thesis by simp
  qed
qed

lemma enc_char_not_Nil: "enc_char c \<noteq> []"
  by (simp add: enc_char_def pct_def)

lemma encodeURIComponent_inj: "encodeURIComponent s = encodeURIComponent t \<Longrightarrow> s = t"
proof (induction s arbitrary: t)
  case Nil
  then show ?case by (cases t) (auto simp: encodeURIComponent_def enc_char_not_Nil)
next
  case (Cons c s)
  then obtain d u where t: "t = d # u" by (cases t) (auto simp: encodeURIComponent_def enc_char_not_Nil)
  with Cons.prems enc_char_prefix [of c "encodeURIComponent s" d "encodeURIComponent u"]
  have "c = d" "encodeURIComponent s = encodeURIComponent u" by (auto simp: encodeURIComponent_def)
  with Cons.IH t show ?case by simp
qed

lemma encoded_no_sep: "CHR ''|'' \<notin> set (encodeURIComponent s)"
proof -
  have p: "CHR ''|'' \<notin> set (pct b)" if "b < 256" for b
  proof -
    have "b div 16 < 16" "b mod 16 < 16" using that by auto
    from hex_digit_plain [OF this(1)] hex_digit_plain [OF this(2)] show ?thesis by (auto simp: pct_def)
  qed
  have "CHR ''|'' \<notin> set (enc_char c)" for c
  proof (cases c rule: enc_char_cases)
    case 1
    with unreserved_not_pct(2) show ?thesis by auto
  next
    case 2
    with p show ?thesis by simp
  next
    case 3
    have "128 + char_code c mod 64 < 256" using mod_less_divisor [of 64 "char_code c"] by linarith
    with 3 p code_div_64 [of c] show ?thesis by simp
  qed
  then show ?thesis by (induction s) (auto simp: encodeURIComponent_def)
qed

lemma deliveryGroup_inj:
  assumes "deliveryGroup s c r d = deliveryGroup s' c' r' d'"
  shows "s = s' \<and> c = c' \<and> r = r' \<and> d = d'"
proof -
  let ?e = "encodeURIComponent"
  let ?d = "\<lambda>d. case d of Turn t \<Rightarrow> ''t:'' @ ?e t | Key k \<Rightarrow> ''k:'' @ ?e k"
  have split: "split_on (CHR ''|'') (deliveryGroup s c r d) = [?e s, ?e c, ?e r, ?d d]" for s c r d
    unfolding deliveryGroup_def
    by (rule split_on_join_with) (auto simp: encoded_no_sep split: discriminator.splits)
  from assms split [of s c r d] split [of s' c' r' d']
  have "?e s = ?e s'" "?e c = ?e c'" "?e r = ?e r'" "?d d = ?d d'" by simp_all
  moreover from this(4) have "d = d'"
    by (cases d; cases d') (auto dest: encodeURIComponent_inj)
  ultimately show ?thesis by (auto dest: encodeURIComponent_inj)
qed

lemma deliveryKey_inj:
  assumes "deliveryKey g i = deliveryKey h j"
  shows "g = h \<and> i = j"
proof -
  have sep: "CHR ''|'' \<notin> set (nat_str n)" for n
    using nat_str_digits [of "CHR ''|''" n] by (auto simp: is_digit_def)
  have "rev (nat_str i) @ CHR ''|'' # rev g = rev (nat_str j) @ CHR ''|'' # rev h"
    using arg_cong [OF assms, of rev] by (simp add: deliveryKey_def)
  then have "split_on (CHR ''|'') (rev (nat_str i) @ CHR ''|'' # rev g) = split_on (CHR ''|'') (rev (nat_str j) @ CHR ''|'' # rev h)"
    by simp
  then have "nat_str i = nat_str j" using sep by (simp add: split_on_append)
  then have "i = j" by (metis nat_str_number)
  with assms show ?thesis by (simp add: deliveryKey_def)
qed

end
