(* ===== verification/Outbox_Delivery.thy ===== *)
theory Outbox_Delivery
  imports Outbox
begin

text \<open>
  What the outbox of \<open>channels/outbox.ts\<close> guarantees over any interleaving of enqueues, drains, attempts,
  answers, records, recoveries and crashes: no message goes out twice without a recorded refusal or a recovery in
  between, a recorded acknowledgement is final unless a reload let two attempts of the message overlap, a
  chunk goes out only after every earlier chunk of its reply was acknowledged, and a replayed enqueue, at any
  later time, adds nothing. Pruning is not among the steps: it forgets terminal rows, and with them the keys a replay would
  collide with.
\<close>

section \<open>Rows and their identity\<close>

definition ident :: "delivery \<Rightarrow> nat \<times> string \<times> string \<times> string \<times> nat \<times> string" where
  "ident r = (d_id r, d_agent r, d_dedupe r, d_group r, d_chunk r, d_channel r)"

definition same_group :: "delivery \<Rightarrow> delivery \<Rightarrow> bool" where
  "same_group e r \<longleftrightarrow> d_agent e = d_agent r \<and> d_group e = d_group r"

lemma identD:
  "ident p = ident r \<Longrightarrow> d_id p = d_id r \<and> d_agent p = d_agent r \<and> d_dedupe p = d_dedupe r \<and>
    d_group p = d_group r \<and> d_chunk p = d_chunk r \<and> d_channel p = d_channel r \<and> dedupe_key p = dedupe_key r"
  by (simp add: ident_def dedupe_key_def)

lemma blocked_iff: "blocked t r \<longleftrightarrow> (\<exists>e \<in> set (orows t). same_group e r \<and> d_chunk e < d_chunk r \<and> d_status e \<noteq> Sent)"
  by (auto simp: blocked_def list_ex_iff same_group_def)

text \<open>The table: keys derived from group and chunk, and chunks of a group without gaps.\<close>

definition wf_groups :: "otable \<Rightarrow> bool" where
  "wf_groups t \<longleftrightarrow> wf_otable t \<and>
     (\<forall>r \<in> set (orows t). d_dedupe r = deliveryKey (d_group r) (d_chunk r)) \<and>
     (\<forall>r \<in> set (orows t). \<forall>j < d_chunk r. \<exists>e \<in> set (orows t). same_group e r \<and> d_chunk e = j)"

text \<open>A row a drain has read is still in the table, with the same identity.\<close>

definition owned :: "otable \<Rightarrow> delivery \<Rightarrow> bool" where
  "owned t p \<longleftrightarrow> ident p \<in> ident ` set (orows t)"

definition handled :: "outbox \<Rightarrow> delivery list" where
  "handled s = sending s @ map fst (answered s)"

definition flying :: "outbox \<Rightarrow> string \<times> string \<Rightarrow> nat" where
  "flying s k = count_list (map dedupe_key (handled s)) k"

section \<open>One key\<close>

text \<open>What a row's status and flag may be, given what the log says of its key and how many attempts of it
  are out.\<close>

definition row_ok :: "wire \<Rightarrow> nat \<Rightarrow> delivery_status \<Rightarrow> bool \<Rightarrow> bool" where
  "row_ok w m st u \<longleftrightarrow> \<not> bad w \<and> live w = m \<and> (\<not> overlap w \<longrightarrow> m \<le> 1 \<and> (recorded w \<longrightarrow> m = 0)) \<and>
     (st \<in> {Pending, Inflight} \<longrightarrow> \<not> recorded w) \<and>
     (st = Pending \<longrightarrow> (ph w = Idle \<or> ph w = Recovered \<and> u) \<and> (\<not> overlap w \<longrightarrow> m = 0))"

lemma row_ok_send: "row_ok w m Pending u \<Longrightarrow> row_ok (advance k w (L_send k u)) (Suc m) Inflight u"
  by (auto simp: row_ok_def)

lemma row_ok_sent: "row_ok w (Suc m) st u \<Longrightarrow> row_ok (advance k w (L_sent k)) m Sent u"
  by (auto simp: row_ok_def)

lemma row_ok_nak: "row_ok w (Suc m) st u \<Longrightarrow> st' \<in> {Pending, Failed} \<Longrightarrow> row_ok (advance k w (L_nak k)) m st' u"
  by (auto simp: row_ok_def)

lemma row_ok_recover:
  "row_ok w m st u \<Longrightarrow> row_ok (advance k w (L_recover as)) m
     (if st = Inflight \<and> fst k \<in> set as then Pending else st) (u \<or> st = Inflight \<and> fst k \<in> set as)"
  by (cases "ph w") (auto simp: row_ok_def)

lemma row_ok_crash: "row_ok w m st u \<Longrightarrow> row_ok (advance k w L_crash) 0 st u"
  by (auto simp: row_ok_def)

lemma row_ok_fail: "row_ok w m st u \<Longrightarrow> row_ok w m Failed u"
  by (simp add: row_ok_def)

lemma row_ok_wire0: "row_ok wire0 0 st u"
  by (simp add: row_ok_def wire0_def)

text \<open>Events of another key change nothing.\<close>

lemma wire_snoc: "wire_of (l @ [e]) k = advance k (wire_of l k) e"
  by (simp add: wire_of_def)

lemma advance_wire0:
  "\<forall>j u. e \<noteq> L_send j u \<and> e \<noteq> L_sent j \<and> e \<noteq> L_nak j \<Longrightarrow> advance k wire0 e = wire0"
  by (cases e) (auto simp: wire0_def)

section \<open>The invariant\<close>

definition earlier_acked :: "wire_event list \<Rightarrow> delivery \<Rightarrow> bool" where
  "earlier_acked l p \<longleftrightarrow> (\<forall>j < d_chunk p. L_ack (d_agent p, deliveryKey (d_group p) j) \<in> set l)"

definition ob_inv :: "outbox \<Rightarrow> bool" where
  "ob_inv s \<longleftrightarrow> wf_groups (tbl s) \<and>
     (\<forall>p \<in> set (picked s) \<union> set (handled s). owned (tbl s) p) \<and>
     (\<forall>p \<in> set (picked s). earlier_acked (olog s) p) \<and>
     (\<forall>(p, result) \<in> set (answered s). (\<exists>pid. result = Send_ok pid) \<longrightarrow> L_ack (dedupe_key p) \<in> set (olog s)) \<and>
     (\<forall>r \<in> set (orows (tbl s)). d_status r = Sent \<longrightarrow> L_ack (dedupe_key r) \<in> set (olog s)) \<and>
     (\<forall>r \<in> set (orows (tbl s)). row_ok (wire_of (olog s) (dedupe_key r)) (flying s (dedupe_key r)) (d_status r) (d_uncertain r)) \<and>
     (\<forall>k. k \<notin> dedupe_key ` set (orows (tbl s)) \<longrightarrow> wire_of (olog s) k = wire0)"

lemma ob_invD:
  assumes "ob_inv s"
  shows "wf_groups (tbl s)" "p \<in> set (picked s) \<Longrightarrow> owned (tbl s) p" "p \<in> set (handled s) \<Longrightarrow> owned (tbl s) p"
    "p \<in> set (picked s) \<Longrightarrow> earlier_acked (olog s) p"
    "(p, Send_ok pid) \<in> set (answered s) \<Longrightarrow> L_ack (dedupe_key p) \<in> set (olog s)"
    "r \<in> set (orows (tbl s)) \<Longrightarrow> d_status r = Sent \<Longrightarrow> L_ack (dedupe_key r) \<in> set (olog s)"
    "r \<in> set (orows (tbl s)) \<Longrightarrow> row_ok (wire_of (olog s) (dedupe_key r)) (flying s (dedupe_key r)) (d_status r) (d_uncertain r)"
    "k \<notin> dedupe_key ` set (orows (tbl s)) \<Longrightarrow> wire_of (olog s) k = wire0"
  using assms unfolding ob_inv_def by blast+

lemma earlier_acked_mono: "earlier_acked l p \<Longrightarrow> set l \<subseteq> set l' \<Longrightarrow> earlier_acked l' p"
  by (auto simp: earlier_acked_def)

lemma wf_same: "wf_groups t \<Longrightarrow> r \<in> set (orows t) \<Longrightarrow> q \<in> set (orows t) \<Longrightarrow> d_id r = d_id q \<Longrightarrow> r = q"
  by (auto simp: wf_groups_def intro: wf_id)

lemma wf_same_key: "wf_groups t \<Longrightarrow> r \<in> set (orows t) \<Longrightarrow> q \<in> set (orows t) \<Longrightarrow> dedupe_key r = dedupe_key q \<Longrightarrow> r = q"
  by (auto simp: wf_groups_def intro: wf_key)

lemma ownedE:
  assumes "ob_inv s" "owned (tbl s) p"
  obtains q where "q \<in> set (orows (tbl s))" "ident p = ident q" "d_id p = d_id q" "dedupe_key p = dedupe_key q"
    "\<forall>r \<in> set (orows (tbl s)). d_id r = d_id p \<longleftrightarrow> r = q"
    "\<forall>r \<in> set (orows (tbl s)). dedupe_key r = dedupe_key p \<longleftrightarrow> r = q"
proof -
  from assms(2) obtain q where q: "q \<in> set (orows (tbl s))" "ident p = ident q" by (auto simp: owned_def)
  note wf = ob_invD(1) [OF assms(1)]
  show thesis
    by (rule that [OF q]) (use identD [OF q(2)] wf_same [OF wf _ q(1)] wf_same_key [OF wf _ q(1)] q(1) in auto)
qed

section \<open>Updates in place\<close>

definition keeps_ident :: "(delivery \<Rightarrow> delivery) \<Rightarrow> bool" where
  "keeps_ident f \<longleftrightarrow> (\<forall>r. ident (f r) = ident r)"

lemma keeps_identD: "keeps_ident f \<Longrightarrow> ident (f r) = ident r"
  by (simp add: keeps_ident_def)

lemma wf_groupsD:
  assumes "wf_groups t"
  shows "wf_otable t"
    "r \<in> set (orows t) \<Longrightarrow> d_dedupe r = deliveryKey (d_group r) (d_chunk r)"
    "r \<in> set (orows t) \<Longrightarrow> j < d_chunk r \<Longrightarrow> \<exists>e \<in> set (orows t). same_group e r \<and> d_chunk e = j"
  using assms by (simp_all add: wf_groups_def)

lemma wf_groups_map:
  assumes "wf_groups t" "keeps_ident f" "orows t' = map f (orows t)" "lastId t' = lastId t"
  shows "wf_groups t'"
  unfolding wf_groups_def
proof (intro conjI ballI allI impI)
  note i = identD [OF keeps_identD [OF assms(2)]]
  show "wf_otable t'"
  proof (rule wf_map [OF _ _ assms(3,4)])
    show "wf_otable t" using assms(1) by (simp add: wf_groups_def)
    show "keeps_identity f" unfolding keeps_identity_def using i by blast
  qed
  fix r assume "r \<in> set (orows t')"
  then obtain q where q: "q \<in> set (orows t)" "r = f q" using assms(3) by auto
  show "d_dedupe r = deliveryKey (d_group r) (d_chunk r)"
    using assms(1) q i [of q] by (simp add: wf_groups_def)
  fix j assume "j < d_chunk r"
  then have "j < d_chunk q" using q(2) i [of q] by simp
  then obtain e where e: "e \<in> set (orows t)" "same_group e q" "d_chunk e = j"
    using wf_groupsD(3) [OF assms(1) q(1)] by blast
  then show "\<exists>e \<in> set (orows t'). same_group e r \<and> d_chunk e = j"
    using q(2) i [of q] i [of e] assms(3) by (intro bexI [of _ "f e"]) (simp_all add: same_group_def)
qed

lemma owned_map: "owned t p \<Longrightarrow> keeps_ident f \<Longrightarrow> orows t' = map f (orows t) \<Longrightarrow> owned t' p"
  by (auto simp: owned_def keeps_ident_def image_comp comp_def)

lemma key_map: "keeps_ident f \<Longrightarrow> dedupe_key (f r) = dedupe_key r"
  by (meson identD keeps_identD)

text \<open>An update of rows in place keeps the invariant if what it attempts was read or out before, the
  statuses fit the new log, and rows become sent only with an acknowledgement.\<close>

lemma ob_inv_map:
  assumes inv: "ob_inv s" and f: "keeps_ident f" "orows (tbl s') = map f (orows (tbl s))" "lastId (tbl s') = lastId (tbl s)"
    and lg: "set (olog s) \<subseteq> set (olog s')" and picks: "set (picked s') \<subseteq> set (picked s)"
    and hand: "set (handled s') \<subseteq> set (picked s) \<union> set (handled s)"
    and ans: "\<And>p pid. (p, Send_ok pid) \<in> set (answered s') \<Longrightarrow> L_ack (dedupe_key p) \<in> set (olog s')"
    and sent: "\<And>r. r \<in> set (orows (tbl s)) \<Longrightarrow> d_status (f r) = Sent \<Longrightarrow> L_ack (dedupe_key r) \<in> set (olog s')"
    and ok: "\<And>r. r \<in> set (orows (tbl s)) \<Longrightarrow>
      row_ok (wire_of (olog s') (dedupe_key r)) (flying s' (dedupe_key r)) (d_status (f r)) (d_uncertain (f r))"
    and absent: "\<And>k. k \<notin> dedupe_key ` set (orows (tbl s)) \<Longrightarrow> wire_of (olog s') k = wire0"
  shows "ob_inv s'"
  unfolding ob_inv_def
proof (intro conjI)
  show "wf_groups (tbl s')" by (rule wf_groups_map [OF ob_invD(1) [OF inv] f])
  show "\<forall>p \<in> set (picked s') \<union> set (handled s'). owned (tbl s') p"
    using picks hand ob_invD(2,3) [OF inv] owned_map [OF _ f(1,2)] by blast
  show "\<forall>p \<in> set (picked s'). earlier_acked (olog s') p"
    using picks ob_invD(4) [OF inv] earlier_acked_mono [OF _ lg] by blast
  show "\<forall>(p, result) \<in> set (answered s'). (\<exists>pid. result = Send_ok pid) \<longrightarrow> L_ack (dedupe_key p) \<in> set (olog s')"
    using ans by blast
  show "\<forall>r \<in> set (orows (tbl s')). d_status r = Sent \<longrightarrow> L_ack (dedupe_key r) \<in> set (olog s')"
    using sent by (auto simp: f(2) key_map [OF f(1)])
  show "\<forall>r \<in> set (orows (tbl s')). row_ok (wire_of (olog s') (dedupe_key r)) (flying s' (dedupe_key r)) (d_status r) (d_uncertain r)"
    using ok by (auto simp: f(2) key_map [OF f(1)])
  have "dedupe_key ` set (orows (tbl s')) = dedupe_key ` set (orows (tbl s))"
    by (simp add: f(2) image_comp comp_def key_map [OF f(1)])
  then show "\<forall>k. k \<notin> dedupe_key ` set (orows (tbl s')) \<longrightarrow> wire_of (olog s') k = wire0"
    using absent by simp
qed

lemma keeps_ident_id: "keeps_ident (\<lambda>r. r)"
  by (simp add: keeps_ident_def)

section \<open>The end of an attempt\<close>

text \<open>Failing a row: the row itself and the later rows of its group that were not terminal.\<close>

definition failed_map :: "delivery \<Rightarrow> string \<Rightarrow> string \<Rightarrow> int \<Rightarrow> delivery \<Rightarrow> delivery" where
  "failed_map p c msg ts r =
     (let r1 = (if d_id r = d_id p then r\<lparr>d_status := Failed, d_attempts := d_attempts r + 1,
         d_errcode := Some c, d_errmsg := Some msg, d_updated := ts\<rparr> else r)
      in if abandonable (d_agent p) (d_group p) (d_chunk p) r1
         then r1\<lparr>d_status := Failed, d_errcode := Some ''delivery_chunk_abandoned'', d_errmsg := Some (abandoned_msg p), d_updated := ts\<rparr>
         else r1)"

lemma fail_row_rows:
  "orows (fail_row p c msg ts t) = map (failed_map p c msg ts) (orows t)" "lastId (fail_row p c msg ts t) = lastId t"
  by (simp_all add: fail_row_def ob_abandonGroupAfter_def ob_markFailed_def failed_map_def Let_def o_def)

lemma failed_map_ident: "keeps_ident (failed_map p c msg ts)"
  by (simp add: keeps_ident_def failed_map_def Let_def ident_def)

lemma failed_map_fields: "d_uncertain (failed_map p c msg ts r) = d_uncertain r"
  by (simp add: failed_map_def Let_def)

lemma failed_map_own: "d_id r = d_id p \<Longrightarrow> d_status (failed_map p c msg ts r) = Failed"
  by (simp add: failed_map_def Let_def)

lemma failed_map_status: "d_status (failed_map p c msg ts r) = d_status r \<or> d_status (failed_map p c msg ts r) = Failed"
  by (simp add: failed_map_def Let_def)

lemma row_ok_failed_map:
  "row_ok w m (d_status r) (d_uncertain r) \<Longrightarrow>
    row_ok w m (d_status (failed_map p c msg ts r)) (d_uncertain (failed_map p c msg ts r))"
  using failed_map_status [of p c msg ts r] failed_map_fields [of p c msg ts r] row_ok_fail by auto

lemma count_remove1: "x \<in> set xs \<Longrightarrow> count_list (map f xs) (f x) = Suc (count_list (map f (remove1 x xs)) (f x))"
proof (induction xs)
  case (Cons a xs)
  then show ?case by (cases "a = x") simp_all
qed simp

lemma count_remove1_other: "f x \<noteq> k \<Longrightarrow> count_list (map f (remove1 x xs)) k = count_list (map f xs) k"
  by (induction xs) auto

text \<open>An attempt whose answer is recorded: its row gets the status the answer asks for, and other rows may
  fail with it.\<close>

lemma record_inv:
  assumes inv: "ob_inv s" and p: "(p, result) \<in> set (answered s)" and f: "keeps_ident f"
    and own: "\<And>r. d_id r = d_id p \<Longrightarrow> d_uncertain (f r) = d_uncertain r \<and>
      (if ev = L_sent (dedupe_key p) then d_status (f r) = Sent else d_status (f r) \<in> {Pending, Failed})"
    and other: "\<And>r. d_id r \<noteq> d_id p \<Longrightarrow> d_uncertain (f r) = d_uncertain r \<and> (d_status (f r) = d_status r \<or> d_status (f r) = Failed)"
    and ev: "ev = L_sent (dedupe_key p) \<and> (\<exists>pid. result = Send_ok pid) \<or> ev = L_nak (dedupe_key p)"
    and s': "orows (tbl s') = map f (orows (tbl s))" "lastId (tbl s') = lastId (tbl s)" "picked s' = picked s"
      "sending s' = sending s" "answered s' = remove1 (p, result) (answered s)" "olog s' = olog s @ [ev]"
  shows "ob_inv s'"
proof -
  have h: "p \<in> set (handled s)" using p by (force simp: handled_def)
  obtain q where q: "q \<in> set (orows (tbl s))" "ident p = ident q" "d_id p = d_id q" "dedupe_key p = dedupe_key q"
    and qid: "\<forall>r \<in> set (orows (tbl s)). d_id r = d_id p \<longleftrightarrow> r = q"
    and qkey: "\<forall>r \<in> set (orows (tbl s)). dedupe_key r = dedupe_key p \<longleftrightarrow> r = q"
    by (rule ownedE [OF inv ob_invD(3) [OF inv h]])
  let ?k = "dedupe_key p"
  have fl: "flying s k = (if k = ?k then Suc (flying s' k) else flying s' k)" for k
    using count_remove1 [OF p, of "\<lambda>x. dedupe_key (fst x)"] count_remove1_other [of "\<lambda>x. dedupe_key (fst x)" "(p, result)" k "answered s"]
    by (auto simp: flying_def handled_def s' comp_def)
  have keep: "wire_of (olog s') k = wire_of (olog s) k" if "k \<noteq> ?k" for k
    using ev that by (auto simp: s' wire_snoc)
  show ?thesis
  proof (rule ob_inv_map [OF inv f s'(1,2)])
    show "set (handled s') \<subseteq> set (picked s) \<union> set (handled s)"
      using set_remove1_subset by (fastforce simp: handled_def s')
  next
    fix x pid assume "(x, Send_ok pid) \<in> set (answered s')"
    then show "L_ack (dedupe_key x) \<in> set (olog s')"
      using set_remove1_subset [of "(p, result)" "answered s"] ob_invD(5) [OF inv] by (auto simp: s')
  next
    fix r assume r: "r \<in> set (orows (tbl s))" and st: "d_status (f r) = Sent"
    show "L_ack (dedupe_key r) \<in> set (olog s')"
    proof (cases "r = q")
      case True
      with own [of q] st q have "ev = L_sent ?k" by (auto split: if_splits)
      with ev p obtain pid where "(p, Send_ok pid) \<in> set (answered s)" by auto
      from ob_invD(5) [OF inv this] True q(4) show ?thesis by (simp add: s')
    next
      case False
      with other [of r] st qid [rule_format, OF r] have "d_status r = Sent" by auto
      with ob_invD(6) [OF inv r] show ?thesis by (simp add: s')
    qed
  next
    fix r assume r: "r \<in> set (orows (tbl s))"
    note old = ob_invD(7) [OF inv r]
    show "row_ok (wire_of (olog s') (dedupe_key r)) (flying s' (dedupe_key r)) (d_status (f r)) (d_uncertain (f r))"
    proof (cases "r = q")
      case True
      with old q(4) fl [of ?k] have "row_ok (wire_of (olog s) ?k) (Suc (flying s' ?k)) (d_status r) (d_uncertain r)" by simp
      from row_ok_sent [OF this, of ?k] row_ok_nak [OF this, of _ ?k] own [of r] ev True q
      show ?thesis by (auto simp: s' wire_snoc split: if_splits)
    next
      case False
      then have ne: "d_id r \<noteq> d_id p" "dedupe_key r \<noteq> ?k" using qid [rule_format, OF r] qkey [rule_format, OF r] by auto
      with old fl [of "dedupe_key r"] keep have "row_ok (wire_of (olog s') (dedupe_key r)) (flying s' (dedupe_key r)) (d_status r) (d_uncertain r)"
        by simp
      with row_ok_fail [OF this] other [OF ne(1)] show ?thesis by auto
    qed
  next
    fix k assume k: "k \<notin> dedupe_key ` set (orows (tbl s))"
    then have "k \<noteq> ?k" using q by auto
    with keep ob_invD(8) [OF inv k] show "wire_of (olog s') k = wire0" by simp
  qed (simp_all add: s' subset_eq)
qed

lemma attempt_record_inv:
  assumes inv: "ob_inv s" and p: "(p, result) \<in> set (answered s)"
  shows "ob_inv (snd (attempt_record p result now ts s))"
proof -
  consider pid where "result = Send_ok pid"
    | (fail) re ra c msg where "result = Send_failed re ra c msg" "\<not> re \<or> d_attempts p + 1 \<ge> maxAttempts (cfg s)"
    | (retry) re ra c msg where "result = Send_failed re ra c msg" "\<not> (\<not> re \<or> d_attempts p + 1 \<ge> maxAttempts (cfg s))"
    by (cases result) blast+
  then show ?thesis
  proof cases
    case 1
    show ?thesis
      by (rule record_inv [OF inv p, where ev = "L_sent (dedupe_key p)" and
            f = "\<lambda>r. if d_id r = d_id p then r\<lparr>d_status := Sent, d_provider := pid, d_attempts := d_attempts r + 1,
              d_errcode := None, d_errmsg := None, d_updated := ts\<rparr> else r"])
        (simp_all add: 1 attempt_record_def Let_def ob_markSent_def keeps_ident_def ident_def)
  next
    case fail
    show ?thesis
    proof (rule record_inv [OF inv p failed_map_ident [of p c msg ts], where ev = "L_nak (dedupe_key p)"])
      show "d_uncertain (failed_map p c msg ts r) = d_uncertain r \<and>
        (d_status (failed_map p c msg ts r) = d_status r \<or> d_status (failed_map p c msg ts r) = Failed)" for r
        using failed_map_fields failed_map_status by blast
    qed (use fail in \<open>simp_all add: attempt_record_def Let_def fail_row_rows failed_map_own failed_map_fields\<close>)
  next
    case retry
    define nxt where "nxt = now + (case ra of Some d \<Rightarrow> d | None \<Rightarrow> delayFor (backoff (cfg s)) (Suc (d_attempts p)))"
    define u where "u = snd (attempt_record p result now ts s)"
    have u: "tbl u = ob_markRetry (tbl s) (d_id p) nxt c msg ts" "picked u = picked s" "sending u = sending s"
      "answered u = remove1 (p, result) (answered s)" "olog u = olog s @ [L_nak (dedupe_key p)]"
      using retry by (simp_all add: u_def attempt_record_def Let_def nxt_def)
    have "ob_inv u"
      by (rule record_inv [OF inv p, where ev = "L_nak (dedupe_key p)" and
            f = "\<lambda>r. if d_id r = d_id p then r\<lparr>d_status := Pending, d_attempts := d_attempts r + 1, d_next := nxt,
              d_errcode := Some c, d_errmsg := Some msg, d_updated := ts\<rparr> else r"])
        (simp_all add: u ob_markRetry_def keeps_ident_def ident_def)
    then show ?thesis by (simp only: u_def)
  qed
qed

text \<open>The transport's answer moves the attempt on and leaves the table.\<close>

lemma attempt_answer_inv:
  assumes inv: "ob_inv s" and p: "p \<in> set (sending s)"
  shows "ob_inv (attempt_answer p result now s)" (is "ob_inv ?s'")
proof (rule ob_inv_map [OF inv keeps_ident_id])
  have w: "wire_of (olog ?s') k = wire_of (olog s) k" for k
    by (cases result) (simp_all add: attempt_answer_def Let_def wire_snoc)
  have fl: "flying ?s' k = flying s k" for k
    using count_remove1 [OF p, of dedupe_key] count_remove1_other [of dedupe_key p k "sending s"]
    by (auto simp: flying_def handled_def attempt_answer_def Let_def)
  show lg: "set (olog s) \<subseteq> set (olog ?s')" by (auto simp: attempt_answer_def Let_def)
  show "set (handled ?s') \<subseteq> set (picked s) \<union> set (handled s)"
    using p set_remove1_subset [of p "sending s"] by (auto simp: handled_def attempt_answer_def Let_def)
  show "row_ok (wire_of (olog ?s') (dedupe_key r)) (flying ?s' (dedupe_key r)) (d_status r) (d_uncertain r)"
    if "r \<in> set (orows (tbl s))" for r
    using ob_invD(7) [OF inv that] by (simp add: w fl)
  show "wire_of (olog ?s') k = wire0" if "k \<notin> dedupe_key ` set (orows (tbl s))" for k
    using ob_invD(8) [OF inv that] by (simp add: w)
  show "L_ack (dedupe_key r) \<in> set (olog ?s')" if "r \<in> set (orows (tbl s))" "d_status r = Sent" for r
    using ob_invD(6) [OF inv that] lg by blast
  show "L_ack (dedupe_key x) \<in> set (olog ?s')" if "(x, Send_ok pid) \<in> set (answered ?s')" for x pid
    using that ob_invD(5) [OF inv] by (auto simp: attempt_answer_def Let_def)
qed (simp_all add: attempt_answer_def Let_def)

section \<open>The start of an attempt\<close>

lemma claim_flag:
  assumes "wf_groups t" "ob_claim t i ts = (Some x, t')"
  obtains q where "q \<in> set (orows t)" "d_id q = i" "d_status q = Pending" "d_uncertain x = d_uncertain q"
    "orows t' = map (\<lambda>r. if d_id r = i then if d_status r = Pending then r\<lparr>d_status := Inflight, d_updated := ts\<rparr> else r else r) (orows t)"
    "lastId t' = lastId t"
proof -
  let ?f = "\<lambda>r. if d_id r = i then if d_status r = Pending then r\<lparr>d_status := Inflight, d_updated := ts\<rparr> else r else r"
  from assms(2) have pend: "list_ex (\<lambda>r. d_id r = i \<and> d_status r = Pending) (orows t)"
    and t': "t' = update_id t i (\<lambda>r. if d_status r = Pending then r\<lparr>d_status := Inflight, d_updated := ts\<rparr> else r)"
    and x: "ob_get t' i = Some x"
    by (auto simp: ob_claim_def Let_def split: if_splits)
  from pend obtain q where q: "q \<in> set (orows t)" "d_id q = i" "d_status q = Pending" by (auto simp: list_ex_iff)
  have rows: "orows t' = map ?f (orows t)" "lastId t' = lastId t" by (simp_all add: t')
  from x have "x \<in> set (orows t')" "d_id x = i" by (auto simp: ob_get_def find_Some_iff)
  then obtain r where r: "r \<in> set (orows t)" "x = ?f r" unfolding rows set_map by blast
  then have "d_id r = i" using \<open>d_id x = i\<close> by (auto split: if_splits)
  then have "r = q" using wf_same [OF assms(1) r(1) q(1)] q(2) by simp
  with r have "d_uncertain x = d_uncertain q" by auto
  from that [OF q this rows] show thesis .
qed

lemma claim_inv:
  assumes inv: "ob_inv s" and p: "p \<in> set (picked s)" and cl: "ob_claim (tbl s) (d_id p) ts = (Some x, t)"
    and ps: "set ps \<subseteq> set (picked s)"
  shows "ob_inv (s\<lparr>picked := ps, tbl := t, sending := sending s @ [p],
    olog := olog s @ [L_send (dedupe_key p) (d_uncertain x)]\<rparr>)" (is "ob_inv ?s'")
proof -
  from claim_flag [OF ob_invD(1) [OF inv] cl] obtain q where q: "q \<in> set (orows (tbl s))" "d_id q = d_id p"
    "d_status q = Pending" "d_uncertain x = d_uncertain q"
    "orows t = map (\<lambda>r. if d_id r = d_id p then if d_status r = Pending then r\<lparr>d_status := Inflight, d_updated := ts\<rparr> else r else r) (orows (tbl s))"
    "lastId t = lastId (tbl s)" by blast
  let ?f = "\<lambda>r. if d_id r = d_id p then if d_status r = Pending then r\<lparr>d_status := Inflight, d_updated := ts\<rparr> else r else r"
  obtain q' where q': "q' \<in> set (orows (tbl s))" "ident p = ident q'" "d_id p = d_id q'" "dedupe_key p = dedupe_key q'"
    and qid': "\<forall>r \<in> set (orows (tbl s)). d_id r = d_id p \<longleftrightarrow> r = q'"
    and qkey': "\<forall>r \<in> set (orows (tbl s)). dedupe_key r = dedupe_key p \<longleftrightarrow> r = q'"
    by (rule ownedE [OF inv ob_invD(2) [OF inv p]])
  have "q' = q" using qid' [rule_format, OF q(1)] q(2) by simp
  note qid = qid' [unfolded this] and qkey = qkey' [unfolded this]
  have k: "dedupe_key p = dedupe_key q" using qkey [rule_format, OF q(1)] by simp
  have fl: "flying ?s' j = (if j = dedupe_key q then Suc (flying s j) else flying s j)" for j
    by (simp add: flying_def handled_def k)
  have w: "wire_of (olog ?s') j = (if j = dedupe_key q then advance j (wire_of (olog s) j) (L_send j (d_uncertain q)) else wire_of (olog s) j)" for j
    by (simp add: wire_snoc k q(4))
  show ?thesis
  proof (rule ob_inv_map [OF inv, where f = ?f])
    show "keeps_ident ?f" by (simp add: keeps_ident_def ident_def)
    fix r assume r: "r \<in> set (orows (tbl s))"
    show "L_ack (dedupe_key r) \<in> set (olog ?s')" if "d_status (?f r) = Sent"
      using that ob_invD(6) [OF inv r] by (auto split: if_splits)
    show "row_ok (wire_of (olog ?s') (dedupe_key r)) (flying ?s' (dedupe_key r)) (d_status (?f r)) (d_uncertain (?f r))"
    proof (cases "r = q")
      case True
      have "row_ok (wire_of (olog s) (dedupe_key q)) (flying s (dedupe_key q)) Pending (d_uncertain q)"
        using ob_invD(7) [OF inv q(1)] q(3) by simp
      from row_ok_send [OF this, of "dedupe_key q"] True q(2,3) show ?thesis
        unfolding w fl by (simp del: advance.simps)
    next
      case False
      then have "dedupe_key r \<noteq> dedupe_key q" "d_id r \<noteq> d_id p" using qkey [rule_format, OF r] qid [rule_format, OF r] k by auto
      with ob_invD(7) [OF inv r] show ?thesis by (simp only: w fl if_False)
    qed
  next
    fix j assume j: "j \<notin> dedupe_key ` set (orows (tbl s))"
    then have "j \<noteq> dedupe_key q" using q(1) by auto
    with ob_invD(8) [OF inv j] show "wire_of (olog ?s') j = wire0" by (simp only: w if_False)
  next
    fix y pid assume "(y, Send_ok pid) \<in> set (answered ?s')"
    with ob_invD(5) [OF inv] show "L_ack (dedupe_key y) \<in> set (olog ?s')" by simp
  qed (use p ps q(5,6) in \<open>auto simp: handled_def\<close>)
qed

text \<open>Steps that leave log, attempts and statuses alone, or fail rows.\<close>

lemma fail_inv:
  assumes inv: "ob_inv s" and ps: "set ps \<subseteq> set (picked s)"
  shows "ob_inv (s\<lparr>picked := ps, tbl := fail_row p c1 msg ts (tbl s)\<rparr>)" (is "ob_inv ?s'")
proof (rule ob_inv_map [OF inv failed_map_ident [of p c1 msg ts]])
  have same: "flying ?s' = flying s" "handled ?s' = handled s" by (simp_all add: fun_eq_iff flying_def handled_def)
  show "set (handled ?s') \<subseteq> set (picked s) \<union> set (handled s)" by (simp add: same)
  fix r assume r: "r \<in> set (orows (tbl s))"
  show "row_ok (wire_of (olog ?s') (dedupe_key r)) (flying ?s' (dedupe_key r)) (d_status (failed_map p c1 msg ts r))
      (d_uncertain (failed_map p c1 msg ts r))"
    using row_ok_failed_map [OF ob_invD(7) [OF inv r]] by (simp add: same)
  show "L_ack (dedupe_key r) \<in> set (olog ?s')" if "d_status (failed_map p c1 msg ts r) = Sent"
    using that failed_map_status [of p c1 msg ts r] ob_invD(6) [OF inv r] by auto
next
  show "wire_of (olog ?s') k = wire0" if "k \<notin> dedupe_key ` set (orows (tbl s))" for k
    using ob_invD(8) [OF inv that] by simp
  show "L_ack (dedupe_key x) \<in> set (olog ?s')" if "(x, Send_ok pid) \<in> set (answered ?s')" for x pid
    using that ob_invD(5) [OF inv] by simp
qed (use ps in \<open>simp_all add: fail_row_rows\<close>)

lemma same_inv:
  assumes "ob_inv s" "tbl s' = tbl s" "set (picked s') \<subseteq> set (picked s)" "sending s' = sending s" "answered s' = answered s"
    "olog s' = olog s"
  shows "ob_inv s'"
proof -
  have "handled s' = handled s" using assms(4,5) by (simp add: handled_def)
  moreover from this have "flying s' = flying s" by (simp add: fun_eq_iff flying_def)
  ultimately show ?thesis using assms unfolding ob_inv_def by auto
qed

lemma attempt_start_inv:
  assumes inv: "ob_inv s" and p: "p \<in> set (picked s)"
  shows "ob_inv (snd (attempt_start p now ts (s\<lparr>picked := remove1 p (picked s)\<rparr>)))"
proof -
  have sub: "set (remove1 p (picked s)) \<subseteq> set (picked s)" by (rule set_remove1_subset)
  have skip: "ob_inv (s\<lparr>picked := remove1 p (picked s)\<rparr>)" by (rule same_inv [OF inv]) (use sub in auto)
  show ?thesis
  proof (cases "channels (cfg s) (d_channel p)")
    case None
    with fail_inv [OF inv sub] show ?thesis by (simp add: attempt_start_def)
  next
    case (Some lim)
    obtain x t where cl: "ob_claim (tbl s) (d_id p) ts = (x, t)" by (cases "ob_claim (tbl s) (d_id p) ts")
    show ?thesis
    proof (cases x)
      case None
      with Some cl skip show ?thesis by (simp add: attempt_start_def)
    next
      case (Some y)
      from claim_inv [OF inv p _ sub, of ts y t] cl Some \<open>channels (cfg s) (d_channel p) = Some lim\<close> skip
      show ?thesis by (simp add: attempt_start_def)
    qed
  qed
qed

section \<open>Drains, crashes and recovery\<close>

text \<open>What a drain reads is not blocked, so every earlier chunk of its reply is sent.\<close>

lemma due_acked:
  assumes inv: "ob_inv s" and r: "r \<in> set (ob_due (tbl s) a now n)"
  shows "r \<in> set (orows (tbl s))" "earlier_acked (olog s) r"
proof -
  from in_set_takeD [OF r [unfolded ob_due_def]] have row: "r \<in> set (orows (tbl s))" and nb: "\<not> blocked (tbl s) r" by simp_all
  then show "r \<in> set (orows (tbl s))" by simp
  note wf = ob_invD(1) [OF inv]
  show "earlier_acked (olog s) r"
    unfolding earlier_acked_def
  proof (intro allI impI)
    fix j assume "j < d_chunk r"
    with wf_groupsD(3) [OF wf row] obtain e where e: "e \<in> set (orows (tbl s))" "same_group e r" "d_chunk e = j" by blast
    with nb \<open>j < d_chunk r\<close> have "d_status e = Sent" unfolding blocked_iff by blast
    with ob_invD(6) [OF inv e(1)] wf_groupsD(2) [OF wf e(1)] e(2,3)
    show "L_ack (d_agent r, deliveryKey (d_group r) j) \<in> set (olog s)" by (simp add: dedupe_key_def same_group_def)
  qed
qed

lemma pick_inv:
  assumes inv: "ob_inv s"
  shows "ob_inv (s\<lparr>picked := picked s @ ob_due (tbl s) a now n\<rparr>)" (is "ob_inv ?s'")
proof -
  have "handled ?s' = handled s" by (simp add: handled_def)
  moreover from this have "flying ?s' = flying s" by (simp add: fun_eq_iff flying_def)
  moreover have "owned (tbl s) r" if "r \<in> set (ob_due (tbl s) a now n)" for r
    using due_acked(1) [OF inv that] by (simp add: owned_def)
  ultimately show ?thesis using inv due_acked(2) [OF inv] unfolding ob_inv_def by auto
qed

lemma crash_inv:
  assumes inv: "ob_inv s"
  shows "ob_inv (boot_outbox (tbl s) c (olog s @ [L_crash]))" (is "ob_inv ?s'")
proof (rule ob_inv_map [OF inv keeps_ident_id])
  have h: "handled ?s' = []" "flying ?s' = (\<lambda>k. 0)" by (simp_all add: fun_eq_iff flying_def handled_def boot_outbox_def)
  show "set (handled ?s') \<subseteq> set (picked s) \<union> set (handled s)" by (simp add: h)
  show "row_ok (wire_of (olog ?s') (dedupe_key r)) (flying ?s' (dedupe_key r)) (d_status r) (d_uncertain r)"
    if "r \<in> set (orows (tbl s))" for r
    unfolding h using row_ok_crash [OF ob_invD(7) [OF inv that]] by (simp add: boot_outbox_def wire_snoc)
  show "wire_of (olog ?s') k = wire0" if "k \<notin> dedupe_key ` set (orows (tbl s))" for k
    using ob_invD(8) [OF inv that] by (simp add: boot_outbox_def wire_snoc advance_wire0 del: advance.simps)
  show "L_ack (dedupe_key r) \<in> set (olog ?s')" if "r \<in> set (orows (tbl s))" "d_status r = Sent" for r
    using ob_invD(6) [OF inv that] by (simp add: boot_outbox_def)
qed (auto simp: boot_outbox_def)

definition recovered :: "string list \<Rightarrow> int \<Rightarrow> int \<Rightarrow> delivery \<Rightarrow> delivery" where
  "recovered as nxt ts r = (if d_status r = Inflight \<and> d_agent r \<in> set as then recover_row nxt ts r else r)"

lemma recover_row_fields [simp]: "d_status (recover_row nxt ts r) = Pending" "d_agent (recover_row nxt ts r) = d_agent r"
    "d_uncertain (recover_row nxt ts r)" "ident (recover_row nxt ts r) = ident r"
  by (simp_all add: recover_row_def ident_def)

lemma recover_rows:
  "orows (snd (ob_recoverInflight t as nxt ts)) = map (recovered as nxt ts) (orows t)"
  "lastId (snd (ob_recoverInflight t as nxt ts)) = lastId t"
proof (induction as arbitrary: t)
  case Nil
  case 1 then show ?case by (simp add: recovered_def)
  case 2 then show ?case by simp
next
  case (Cons a as)
  have "recovered as nxt ts (if d_status r = Inflight \<and> d_agent r = a then recover_row nxt ts r else r) =
      recovered (a # as) nxt ts r" for r
    unfolding recovered_def by (cases "d_status r = Inflight \<and> d_agent r = a") (simp_all only: recover_row_fields, auto)
  then have "recovered as nxt ts \<circ> (\<lambda>r. if d_status r = Inflight \<and> d_agent r = a then recover_row nxt ts r else r) =
      recovered (a # as) nxt ts" by (simp only: comp_def)
  with Cons show "orows (snd (ob_recoverInflight t (a # as) nxt ts)) = map (recovered (a # as) nxt ts) (orows t)"
    "lastId (snd (ob_recoverInflight t (a # as) nxt ts)) = lastId t" for t
    by (simp_all add: Let_def case_prod_beta)
qed

lemma recovered_status:
  "d_status (recovered as nxt ts r) = (if d_status r = Inflight \<and> d_agent r \<in> set as then Pending else d_status r)"
  "d_uncertain (recovered as nxt ts r) = (d_uncertain r \<or> d_status r = Inflight \<and> d_agent r \<in> set as)"
  by (auto simp: recovered_def)

lemma recover_inv:
  assumes inv: "ob_inv s"
  shows "ob_inv (s\<lparr>tbl := snd (ob_recoverInflight (tbl s) as now ts), olog := olog s @ [L_recover as]\<rparr>)" (is "ob_inv ?s'")
proof (rule ob_inv_map [OF inv, where f = "recovered as now ts"])
  have h: "handled ?s' = handled s" "flying ?s' = flying s" by (simp_all add: fun_eq_iff flying_def handled_def)
  show "keeps_ident (recovered as now ts)" by (simp add: keeps_ident_def recovered_def)
  show "set (handled ?s') \<subseteq> set (picked s) \<union> set (handled s)" by (simp add: h)
  fix r assume r: "r \<in> set (orows (tbl s))"
  have "fst (dedupe_key r) = d_agent r" by (simp add: dedupe_key_def)
  with row_ok_recover [OF ob_invD(7) [OF inv r], of "dedupe_key r" as]
  show "row_ok (wire_of (olog ?s') (dedupe_key r)) (flying ?s' (dedupe_key r)) (d_status (recovered as now ts r))
      (d_uncertain (recovered as now ts r))"
    by (simp add: h wire_snoc recovered_status)
  show "L_ack (dedupe_key r) \<in> set (olog ?s')" if "d_status (recovered as now ts r) = Sent"
    using that ob_invD(6) [OF inv r] by (auto simp: recovered_status split: if_splits)
next
  show "wire_of (olog ?s') k = wire0" if "k \<notin> dedupe_key ` set (orows (tbl s))" for k
    using ob_invD(8) [OF inv that] by (simp add: wire_snoc advance_wire0 del: advance.simps)
  show "L_ack (dedupe_key x) \<in> set (olog ?s')" if "(x, Send_ok pid) \<in> set (answered ?s')" for x pid
    using that ob_invD(5) [OF inv] by simp
qed (auto simp: recover_rows)

section \<open>Enqueueing\<close>

text \<open>A new chunk is behind every chunk of its group: were a later one there, so would this one be, under
  the same key.\<close>

lemma new_chunk_last:
  assumes wf: "wf_groups t" and key: "e_dedupe e = deliveryKey (e_group e) (e_chunk e)"
    and new: "ob_byDedupeKey t (e_agent e) (e_dedupe e) = None"
    and r: "r \<in> set (orows t)" "d_agent r = e_agent e" "d_group r = e_group e"
  shows "d_chunk r < e_chunk e"
proof (rule ccontr)
  assume "\<not> d_chunk r < e_chunk e"
  then obtain q where q: "q \<in> set (orows t)" "same_group q r" "d_chunk q = e_chunk e"
    using wf_groupsD(3) [OF wf r(1), of "e_chunk e"] r(1) by (cases "d_chunk r = e_chunk e") (auto simp: same_group_def)
  then have "dedupe_key q = (e_agent e, e_dedupe e)"
    using wf_groupsD(2) [OF wf q(1)] r key by (simp add: dedupe_key_def same_group_def)
  with new q(1) show False unfolding byKey_None by blast
qed

lemma enqueue_one_inv:
  assumes inv: "ob_inv s" and key: "e_dedupe e = deliveryKey (e_group e) (e_chunk e)"
    and gap: "\<And>j. j < e_chunk e \<Longrightarrow> \<exists>r \<in> set (orows (tbl s)). d_agent r = e_agent e \<and> d_group r = e_group e \<and> d_chunk r = j"
  shows "ob_inv (s\<lparr>tbl := snd (enqueue_one (tbl s) e ts)\<rparr>)"
proof (cases "ob_byDedupeKey (tbl s) (e_agent e) (e_dedupe e)")
  case (Some r)
  then show ?thesis using inv by (simp add: enqueue_one_def)
next
  case None
  define n where "n = fresh_row e (lastId (tbl s) + 1) ts"
  define t where "t = snd (enqueue_one (tbl s) e ts)"
  define s' where "s' = s\<lparr>tbl := t\<rparr>"
  have n: "d_agent n = e_agent e" "d_group n = e_group e" "d_chunk n = e_chunk e" "d_status n = Pending"
    "d_dedupe n = e_dedupe e" "dedupe_key n = (e_agent e, e_dedupe e)"
    by (simp_all add: n_def)
  have t: "orows t = orows (tbl s) @ [n]" using None by (simp add: t_def n_def enqueue_one_def Let_def)
  note wf = ob_invD(1) [OF inv]
  have "wf_otable t" unfolding t_def by (rule wf_enqueue_one [OF wf_groupsD(1) [OF wf]])
  then have g: "wf_groups t"
    using wf gap key unfolding wf_groups_def t by (auto simp: n same_group_def)
  have new: "dedupe_key n \<notin> dedupe_key ` set (orows (tbl s))" using None by (auto simp: byKey_None n)
  have h: "handled s' = handled s" "flying s' = flying s" by (simp_all add: s'_def fun_eq_iff flying_def handled_def)
  have "flying s (dedupe_key n) = 0"
  proof -
    have "dedupe_key p \<noteq> dedupe_key n" if "p \<in> set (handled s)" for p
      using ownedE [OF inv ob_invD(3) [OF inv that]] new by (metis imageI)
    then have "dedupe_key n \<notin> set (map dedupe_key (handled s))" by fastforce
    then show ?thesis by (simp add: flying_def count_list_0_iff)
  qed
  then have nw: "row_ok (wire_of (olog s) (dedupe_key n)) (flying s (dedupe_key n)) (d_status n) (d_uncertain n)"
    using ob_invD(8) [OF inv new] row_ok_wire0 by simp
  have o: "owned t p" if "owned (tbl s) p" for p using that by (auto simp: owned_def t)
  have "ob_inv s'"
    unfolding ob_inv_def h
    using inv nw o g n(4) unfolding ob_inv_def by (auto simp: s'_def t)
  then show ?thesis by (simp add: s'_def t_def)
qed

definition group_has :: "otable \<Rightarrow> string \<Rightarrow> string \<Rightarrow> nat \<Rightarrow> bool" where
  "group_has t a g n \<longleftrightarrow> (\<forall>j < n. \<exists>r \<in> set (orows t). d_agent r = a \<and> d_group r = g \<and> d_chunk r = j)"

lemma group_has_enqueue:
  assumes wf: "wf_groups t" and key: "e_dedupe e = deliveryKey (e_group e) (e_chunk e)"
    and h: "group_has t (e_agent e) (e_group e) (e_chunk e)"
  shows "group_has (snd (enqueue_one t e ts)) (e_agent e) (e_group e) (Suc (e_chunk e))"
proof (cases "ob_byDedupeKey t (e_agent e) (e_dedupe e)")
  case None
  with h show ?thesis by (auto simp: group_has_def enqueue_one_def Let_def less_Suc_eq)
next
  case (Some r)
  from byKey_Some [OF Some] have r: "r \<in> set (orows t)" "d_agent r = e_agent e" "d_dedupe r = e_dedupe e"
    by (simp_all add: dedupe_key_def)
  with wf_groupsD(2) [OF wf r(1)] key have "d_group r = e_group e \<and> d_chunk r = e_chunk e"
    by (intro deliveryKey_inj) simp
  with r Some h show ?thesis by (auto simp: group_has_def enqueue_one_def less_Suc_eq)
qed

lemma enqueue_batch_inv:
  assumes "ob_inv s" "group_has (tbl s) (r_agent reply) g n"
  shows "ob_inv (s\<lparr>tbl := snd (ob_enqueue (tbl s) (map (build_delivery reply g m now) (enumerate n cs)) ts)\<rparr>)"
  using assms
proof (induction cs arbitrary: s n)
  case Nil
  then show ?case by simp
next
  case (Cons c cs)
  define e where "e = build_delivery reply g m now (n, c)"
  have e: "e_agent e = r_agent reply" "e_group e = g" "e_chunk e = n" "e_dedupe e = deliveryKey g n"
    by (simp_all add: e_def build_delivery_def case_prod_beta)
  have 1: "ob_inv (s\<lparr>tbl := snd (enqueue_one (tbl s) e ts)\<rparr>)"
    by (rule enqueue_one_inv [OF Cons.prems(1)]) (use Cons.prems(2) in \<open>auto simp: e group_has_def\<close>)
  have 2: "group_has (snd (enqueue_one (tbl s) e ts)) (r_agent reply) g (Suc n)"
    using group_has_enqueue [OF ob_invD(1) [OF Cons.prems(1)], of e ts] Cons.prems(2) e by simp
  from Cons.IH [OF 1, of "Suc n"] 2 show ?case
    by (simp add: e_def [symmetric] Let_def case_prod_beta)
qed

lemma enqueue_inv:
  assumes "ob_inv s" "enqueueReport (cfg s) (tbl s) reply now ts = Inr (rep, t)"
  shows "ob_inv (s\<lparr>tbl := t\<rparr>)"
proof -
  from assms(2) obtain g m cs where "t = snd (ob_enqueue (tbl s) (map (build_delivery reply g m now) (enumerate 0 cs)) ts)"
    by (auto simp: enqueueReport_def reply_deliveries_def Let_def case_prod_beta split: sum.splits option.splits)
  with enqueue_batch_inv [OF assms(1), of reply g 0 m now cs ts] show ?thesis by (simp add: group_has_def)
qed

section \<open>Every reachable outbox\<close>

lemma step_inv: "outbox_step s s' \<Longrightarrow> ob_inv s \<Longrightarrow> ob_inv s'"
proof (induction rule: outbox_step.induct)
  case (Object s c n)
  then show ?case by (rule same_inv) simp_all
qed (blast intro: enqueue_inv pick_inv attempt_start_inv attempt_answer_inv attempt_record_inv crash_inv recover_inv)+

lemma reach_inv: "outbox_reach s \<Longrightarrow> ob_inv s"
proof (induction rule: outbox_reach.induct)
  case (Empty c)
  show ?case
    by (simp add: boot_outbox_def ob_inv_def wf_groups_def wf_otable_def handled_def wire_of_def)
next
  case (Step s s')
  then show ?case by (blast intro: step_inv)
qed


section \<open>Reading the log\<close>

lemma wire_append: "wire_of (xs @ ys) k = foldl (advance k) (wire_of xs k) ys"
  by (simp add: wire_of_def)

lemma bad_stuck: "bad w \<Longrightarrow> bad (foldl (advance k) w ys)"
proof (induction ys arbitrary: w)
  case (Cons e ys)
  have "bad (advance k w e)" using Cons.prems by (cases e) auto
  with Cons.IH show ?case by simp
qed simp

lemma good_prefix: "\<not> bad (wire_of (xs @ ys) k) \<Longrightarrow> \<not> bad (wire_of xs k)"
  using bad_stuck [of "wire_of xs k" k ys] by (auto simp: wire_append)

lemma never_bad: "outbox_reach s \<Longrightarrow> \<not> bad (wire_of (olog s) k)"
proof -
  assume "outbox_reach s"
  then have inv: "ob_inv s" by (rule reach_inv)
  show ?thesis
  proof (cases "k \<in> dedupe_key ` set (orows (tbl s))")
    case True
    then obtain r where r: "r \<in> set (orows (tbl s))" "dedupe_key r = k" by blast
    from ob_invD(7) [OF inv r(1)] r(2) show ?thesis by (simp add: row_ok_def)
  next
    case False
    from ob_invD(8) [OF inv this] show ?thesis by (simp add: wire0_def)
  qed
qed

text \<open>Without a refusal a key that was sent does not become idle, and only a recovery moves it on; a record
  of a yes stays without a refusal.\<close>

lemma sending_no_nak:
  assumes "L_nak k \<notin> set ys" "ph w \<noteq> Idle"
  shows "ph (foldl (advance k) w ys) \<noteq> Idle"
  using assms
proof (induction ys arbitrary: w)
  case (Cons e ys)
  have "ph (advance k w e) \<noteq> Idle" using Cons.prems by (cases e) auto
  with Cons show ?case by simp
qed simp

lemma sending_no_recover:
  assumes "L_nak k \<notin> set ys" "\<forall>as. L_recover as \<in> set ys \<longrightarrow> fst k \<notin> set as" "ph w = Sending"
  shows "ph (foldl (advance k) w ys) = Sending"
  using assms
proof (induction ys arbitrary: w)
  case (Cons e ys)
  have "ph (advance k w e) = Sending" using Cons.prems by (cases e) auto
  with Cons show ?case by simp
qed simp


lemma resend_reason:
  assumes "outbox_reach s" "olog s = xs @ [L_send k u] @ ys @ [L_send k v] @ zs" "L_nak k \<notin> set ys"
  shows "(\<exists>as. L_recover as \<in> set ys \<and> fst k \<in> set as) \<and> v"
proof -
  define w where "w = wire_of (xs @ [L_send k u]) k"
  define w' where "w' = foldl (advance k) w ys"
  have "\<not> bad (wire_of ((xs @ [L_send k u] @ ys @ [L_send k v]) @ zs) k)"
    using never_bad [OF assms(1), of k] assms(2) by simp
  then have "\<not> bad (wire_of (((xs @ [L_send k u]) @ ys) @ [L_send k v]) k)" using good_prefix by fastforce
  then have "ph w' = Idle \<or> ph w' = Recovered \<and> v"
    unfolding wire_snoc [of _ "L_send k v"] wire_append [of "xs @ [L_send k u]"] w_def [symmetric] w'_def [symmetric] by auto
  moreover have p: "ph w = Sending" by (simp add: w_def wire_snoc)
  moreover have "ph w' \<noteq> Idle" unfolding w'_def using sending_no_nak [OF assms(3), of w] p by simp
  moreover have "ph w' = Sending" if "\<forall>as. L_recover as \<in> set ys \<longrightarrow> fst k \<notin> set as"
    unfolding w'_def by (rule sending_no_recover [OF assms(3) that p])
  ultimately show ?thesis by auto
qed


section \<open>Chunks on the wire\<close>

definition wire_ordered :: "wire_event list \<Rightarrow> bool" where
  "wire_ordered l \<longleftrightarrow> (\<forall>xs a g i u ys j. l = xs @ [L_send (a, deliveryKey g i) u] @ ys \<longrightarrow> j < i \<longrightarrow>
     L_ack (a, deliveryKey g j) \<in> set xs)"

lemma wire_ordered_snoc:
  assumes "wire_ordered l" "\<And>a g i u j. e = L_send (a, deliveryKey g i) u \<Longrightarrow> j < i \<Longrightarrow> L_ack (a, deliveryKey g j) \<in> set l"
  shows "wire_ordered (l @ [e])"
  unfolding wire_ordered_def
proof (intro allI impI)
  fix xs a g i u ys j assume l: "l @ [e] = xs @ [L_send (a, deliveryKey g i) u] @ ys" and j: "(j :: nat) < i"
  show "L_ack (a, deliveryKey g j) \<in> set xs"
  proof (cases ys rule: rev_cases)
    case Nil
    with l assms(2) j show ?thesis by simp
  next
    case (snoc ws w)
    with l have "l = xs @ [L_send (a, deliveryKey g i) u] @ ws" by simp
    with assms(1) j show ?thesis unfolding wire_ordered_def by blast
  qed
qed

lemma start_wire:
  assumes inv: "ob_inv s" and p: "p \<in> set (picked s)" and w: "wire_ordered (olog s)"
  shows "wire_ordered (olog (snd (attempt_start p now ts (s\<lparr>picked := ps\<rparr>))))"
proof -
  have "wire_ordered (olog s @ [L_send (dedupe_key p) v])" for v
  proof (rule wire_ordered_snoc [OF w])
    fix a g i u j assume e: "L_send (dedupe_key p) v = L_send (a, deliveryKey g i) u" and j: "j < (i :: nat)"
    obtain q where q: "q \<in> set (orows (tbl s))" "ident p = ident q" using ob_invD(2) [OF inv p] by (auto simp: owned_def)
    from identD [OF q(2)] e wf_groupsD(2) [OF ob_invD(1) [OF inv] q(1)]
    have a: "d_agent p = a" and "deliveryKey (d_group p) (d_chunk p) = deliveryKey g i" by (simp_all add: dedupe_key_def)
    from deliveryKey_inj [OF this(2)] ob_invD(4) [OF inv p] a j
    show "L_ack (a, deliveryKey g j) \<in> set (olog s)" by (simp add: earlier_acked_def)
  qed
  with w show ?thesis by (auto simp: attempt_start_def split: option.splits prod.splits)
qed

lemma answer_wire: "wire_ordered (olog s) \<Longrightarrow> wire_ordered (olog (attempt_answer p result now s))"
  by (cases result) (auto simp: attempt_answer_def Let_def intro: wire_ordered_snoc)

lemma record_wire: "wire_ordered (olog s) \<Longrightarrow> wire_ordered (olog (snd (attempt_record p result now ts s)))"
  by (cases result) (auto simp: attempt_record_def Let_def intro: wire_ordered_snoc)

lemma step_wire: "outbox_step s s' \<Longrightarrow> ob_inv s \<Longrightarrow> wire_ordered (olog s) \<Longrightarrow> wire_ordered (olog s')"
proof (induction rule: outbox_step.induct)
  case (Begin row s now ts)
  then show ?case by (intro start_wire)
next
  case (Answer row s result now)
  then show ?case by (intro answer_wire)
next
  case (Record row result s now ts)
  then show ?case by (intro record_wire)
next
  case (Crash s c)
  then show ?case using wire_ordered_snoc [of "olog s" L_crash] by (simp add: boot_outbox_def)
next
  case (Recover s as now ts)
  then show ?case using wire_ordered_snoc [of "olog s" "L_recover as"] by simp
qed simp_all

lemma reach_wire: "outbox_reach s \<Longrightarrow> wire_ordered (olog s)"
proof (induction rule: outbox_reach.induct)
  case (Empty c)
  show ?case by (simp add: boot_outbox_def wire_ordered_def)
next
  case (Step s s')
  then show ?case using step_wire reach_inv by blast
qed

section \<open>Properties\<close>

text \<open>An outbox of one channel and one agent, used in the examples.\<close>

definition demo_cfg :: outbox_config where
  "demo_cfg = \<lparr>channels = [''c'' \<mapsto> \<lparr>maxMessageChars = 10, minSendIntervalMs = Some 50, attachmentsOk = True\<rparr>],
     backoff = DEFAULT_BACKOFF_MS, maxAttempts = 6, concurrency = 4, segmenter = None\<rparr>"

definition demo_reply :: enqueue_reply where
  "demo_reply = \<lparr>r_agent = ''a'', r_session = ''s'', r_channel = ''c'', r_recipient = ''r'', r_turn = Some ''t'',
     r_key = None, r_thread = None, r_text = [], r_attachments = [(''f'', ''m''), (''g'', ''m'')]\<rparr>"

definition demo_reply2 :: enqueue_reply where
  "demo_reply2 = demo_reply\<lparr>r_text := ''x'', r_key := Some ''k''\<rparr>"

definition demo_reply3 :: enqueue_reply where
  "demo_reply3 = demo_reply\<lparr>r_turn := Some ''u''\<rparr>"


text \<open>The steps of the examples: a drain reads what is due at time 100, the first row it read is attempted, the
  oldest attempt is answered, the oldest answer is recorded, and the rows of the agent are recovered.\<close>

definition pick_step :: "outbox \<Rightarrow> outbox" where
  "pick_step s = s\<lparr>picked := picked s @ ob_due (tbl s) ''a'' 100 (concurrency (cfg s))\<rparr>"

definition begin_step :: "outbox \<Rightarrow> outbox" where
  "begin_step s = snd (attempt_start (hd (picked s)) 100 100 (s\<lparr>picked := remove1 (hd (picked s)) (picked s)\<rparr>))"

definition answer_step :: "send_result \<Rightarrow> outbox \<Rightarrow> outbox" where
  "answer_step result s = attempt_answer (hd (sending s)) result 0 s"

definition record_step :: "outbox \<Rightarrow> outbox" where
  "record_step s = (case hd (answered s) of (p, result) \<Rightarrow> snd (attempt_record p result 0 0 s))"

definition recover_step :: "outbox \<Rightarrow> outbox" where
  "recover_step s = s\<lparr>tbl := snd (ob_recoverInflight (tbl s) [''a''] 100 100), olog := olog s @ [L_recover [''a'']]\<rparr>"

lemma pick_reach: "outbox_reach s \<Longrightarrow> outbox_reach (pick_step s)"
  unfolding pick_step_def using Step Pick by blast

lemma begin_reach: "outbox_reach s \<Longrightarrow> picked s \<noteq> [] \<Longrightarrow> outbox_reach (begin_step s)"
  unfolding begin_step_def using Step Begin hd_in_set by metis

lemma answer_reach: "outbox_reach s \<Longrightarrow> sending s \<noteq> [] \<Longrightarrow> outbox_reach (answer_step result s)"
  unfolding answer_step_def using Step Answer hd_in_set by metis

lemma record_reach: "outbox_reach s \<Longrightarrow> answered s \<noteq> [] \<Longrightarrow> outbox_reach (record_step s)"
proof -
  assume s: "outbox_reach s" "answered s \<noteq> []"
  obtain p result where h: "hd (answered s) = (p, result)" by fastforce
  with hd_in_set [OF s(2)] have "(p, result) \<in> set (answered s)" by simp
  from Step [OF s(1) Record [OF this]] show ?thesis by (simp add: record_step_def h)
qed

lemma recover_reach: "outbox_reach s \<Longrightarrow> outbox_reach (recover_step s)"
  unfolding recover_step_def using Step Recover by blast

definition demo1 :: outbox where
  "demo1 = (case enqueueReport demo_cfg \<lparr>orows = [], lastId = 0\<rparr> demo_reply 0 0 of
     Inr (_, t) \<Rightarrow> boot_outbox t demo_cfg [] | Inl _ \<Rightarrow> boot_outbox \<lparr>orows = [], lastId = 0\<rparr> demo_cfg [])"

text \<open>A chunk is sent, the process dies and recovers, the chunk is sent again, acknowledged, and the next goes out.\<close>

definition demo3 :: outbox where
  "demo3 = boot_outbox (tbl (begin_step (pick_step demo1))) demo_cfg (olog (begin_step (pick_step demo1)) @ [L_crash])"

definition demo5 :: outbox where "demo5 = begin_step (pick_step (recover_step demo3))"

definition demo7 :: outbox where "demo7 = begin_step (pick_step (record_step (answer_step (Send_ok None) demo5)))"

lemma demo1_reach: "outbox_reach demo1"
proof -
  let ?s = "boot_outbox \<lparr>orows = [], lastId = 0\<rparr> demo_cfg []"
  have "isl (enqueueReport demo_cfg \<lparr>orows = [], lastId = 0\<rparr> demo_reply 0 0) = False" by code_simp
  then obtain rep t where e: "enqueueReport demo_cfg \<lparr>orows = [], lastId = 0\<rparr> demo_reply 0 0 = Inr (rep, t)"
    by (cases "enqueueReport demo_cfg \<lparr>orows = [], lastId = 0\<rparr> demo_reply 0 0") auto
  then have "outbox_reach (?s\<lparr>tbl := t\<rparr>)" by (intro Step [OF Empty Enqueue]) (simp add: boot_outbox_def)
  with e show ?thesis by (simp add: demo1_def boot_outbox_def)
qed

lemma demo3_reach: "outbox_reach demo3"
proof -
  have "picked (pick_step demo1) \<noteq> []" by code_simp
  with demo1_reach have "outbox_reach (begin_step (pick_step demo1))" by (intro begin_reach pick_reach)
  then show "outbox_reach demo3" unfolding demo3_def using Step Crash by blast
qed

lemma demo5_reach: "outbox_reach demo5"
proof -
  have "picked (pick_step (recover_step demo3)) \<noteq> []" by code_simp
  with demo3_reach show ?thesis unfolding demo5_def by (intro begin_reach pick_reach recover_reach)
qed

lemma demo7_reach: "outbox_reach demo7"
proof -
  have "sending demo5 \<noteq> []" "answered (answer_step (Send_ok None) demo5) \<noteq> []"
    "picked (pick_step (record_step (answer_step (Send_ok None) demo5))) \<noteq> []" by code_simp+
  with demo5_reach show ?thesis unfolding demo7_def by (intro begin_reach pick_reach record_reach answer_reach)
qed

definition demo_key :: "nat \<Rightarrow> string \<times> string" where
  "demo_key i = (''a'', deliveryKey ''s|c|r|t:t'' i)"

lemma demo7_log: "olog demo7 = [L_send (demo_key 0) False, L_crash, L_recover [''a''], L_send (demo_key 0) True,
    L_ack (demo_key 0), L_sent (demo_key 0), L_send (demo_key 1) False]"
  by code_simp

text \<open>A chunk is sent, the agent is reloaded with the send out, so the chunk is sent again beside it; the first
  attempt succeeds and is recorded, the second is refused, and the chunk goes out a third time.\<close>

definition fail_once :: send_result where "fail_once = Send_failed True (Some 0) ''e'' ''m''"

definition over1 :: outbox where
  "over1 = begin_step (pick_step (recover_step (begin_step (pick_step demo1))))"

definition over2 :: outbox where "over2 = record_step (answer_step (Send_ok None) over1)"

definition over3 :: outbox where "over3 = begin_step (pick_step (record_step (answer_step fail_once over2)))"

lemma over3_reach: "outbox_reach over3"
proof -
  have "picked (pick_step demo1) \<noteq> []" "picked (pick_step (recover_step (begin_step (pick_step demo1)))) \<noteq> []" by code_simp+
  with demo1_reach have 1: "outbox_reach over1" unfolding over1_def by (intro begin_reach pick_reach recover_reach)
  have "sending over1 \<noteq> []" "answered (answer_step (Send_ok None) over1) \<noteq> []" by code_simp+
  with 1 have 2: "outbox_reach over2" unfolding over2_def by (intro record_reach answer_reach)
  have "sending over2 \<noteq> []" "answered (answer_step fail_once over2) \<noteq> []"
    "picked (pick_step (record_step (answer_step fail_once over2))) \<noteq> []" by code_simp+
  with 2 show ?thesis unfolding over3_def by (intro begin_reach pick_reach record_reach answer_reach)
qed

lemma over3_log: "olog over3 = [L_send (demo_key 0) False, L_recover [''a''], L_send (demo_key 0) True,
    L_ack (demo_key 0), L_sent (demo_key 0), L_nak (demo_key 0), L_send (demo_key 0) True]"
  by code_simp

text \<open>A message can go out after its delivery was recorded, with no crash anywhere.\<close>

theorem sent_row_resent:
  "\<exists>s k xs u. outbox_reach s \<and> L_crash \<notin> set (olog s) \<and> olog s = xs @ [L_sent k, L_nak k, L_send k u]"
  using over3_reach over3_log
  by (intro exI [of _ over3] exI [of _ "demo_key 0"] exI [of _ "take 4 (olog over3)"] exI [of _ True]) simp

text \<open>A drain that read a row before it was recovered claims it with the old flag: the row is marked as
  possibly a duplicate, the copy whose flag \<open>delivery.sent\<close> reports is not.\<close>

theorem flag_read_too_early:
  "\<exists>s p. outbox_reach s \<and> p \<in> set (picked s) \<and> \<not> d_uncertain p \<and>
    fst (attempt_start p 100 100 s) = None \<and> last (olog (snd (attempt_start p 100 100 s))) = L_send (dedupe_key p) True"
proof -
  define s where "s = recover_step (begin_step (pick_step (pick_step demo1)))"
  have "picked (pick_step (pick_step demo1)) \<noteq> []" by code_simp
  with demo1_reach have r: "outbox_reach s" unfolding s_def by (intro begin_reach pick_reach recover_reach)
  let ?p = "hd (picked s)"
  have "picked s \<noteq> []" "\<not> d_uncertain ?p" "fst (attempt_start ?p 100 100 s) = None"
    "last (olog (snd (attempt_start ?p 100 100 s))) = L_send (dedupe_key ?p) True"
    unfolding s_def by code_simp+
  with r show ?thesis by (intro exI [of _ s] exI [of _ ?p]) simp
qed

text \<open>C4. Between two sends of one message either a refusal was recorded, or its agent's rows in flight were
  recovered, at boot or on a reload, and then the row of the second send is marked as possibly a duplicate.\<close>

theorem no_silent_resend:
  assumes "outbox_reach s" "olog s = xs @ [L_send k u] @ ys @ [L_send k v] @ zs" "L_nak k \<notin> set ys"
  shows "(\<exists>as. L_recover as \<in> set ys \<and> fst k \<in> set as) \<and> v"
  by (rule resend_reason [OF assms])

theorem no_silent_resend_witness:
  "outbox_reach demo7 \<and> (\<exists>as. L_recover as \<in> set [L_crash, L_recover [''a'']] \<and> fst (demo_key 0) \<in> set as)"
  using no_silent_resend [OF demo7_reach, of "[]" "demo_key 0" False "[L_crash, L_recover [''a'']]" True
      "[L_ack (demo_key 0), L_sent (demo_key 0), L_send (demo_key 1) False]"]
    demo7_reach unfolding demo7_log by simp



text \<open>C20. A chunk is put on the wire only after every earlier chunk of its reply was acknowledged.\<close>

theorem chunks_in_order:
  assumes "outbox_reach s" "olog s = xs @ [L_send (a, deliveryKey g i) u] @ ys" "j < i"
  shows "L_ack (a, deliveryKey g j) \<in> set xs"
  using reach_wire [OF assms(1)] assms(2,3) unfolding wire_ordered_def by blast

theorem chunks_in_order_witness: "L_ack (demo_key 0) \<in> set (take 6 (olog demo7))"
  using chunks_in_order [OF demo7_reach, of "take 6 (olog demo7)" "''a''" "''s|c|r|t:t''" 1 False "[]" 0]
  by (simp add: demo7_log demo_key_def)

lemma ob_enqueue_all: "snd (ob_enqueue t es ts) = sqlite_outbox.enq_all t es ts"
  by (induction es arbitrary: t) (simp_all add: sqlite_outbox.enq_all_def Let_def case_prod_beta)

lemma ob_enqueue_present:
  "\<forall>e \<in> set es. ob_byDedupeKey t (e_agent e) (e_dedupe e) \<noteq> None \<Longrightarrow> \<not> list_ex snd (fst (ob_enqueue t es ts))"
proof (induction es)
  case (Cons e es)
  then obtain r where "ob_byDedupeKey t (e_agent e) (e_dedupe e) = Some r" by auto
  with Cons show ?case by (simp add: enqueue_one_def Let_def case_prod_beta)
qed simp

text \<open>The keys of a reply do not depend on the clock.\<close>

lemma reply_keys:
  assumes "reply_deliveries c reply now = Inr es"
  obtains es' where "reply_deliveries c reply now' = Inr es'"
    "map (\<lambda>e. (e_agent e, e_dedupe e)) es' = map (\<lambda>e. (e_agent e, e_dedupe e)) es"
  using assms by (auto simp: reply_deliveries_def build_delivery_def split: option.splits prod.splits)

text \<open>Rows are neither removed nor renamed by any step, so what a key finds it always finds.\<close>

definition row_ids :: "otable \<Rightarrow> ((string \<times> string) \<times> nat) list" where
  "row_ids t = map (\<lambda>r. (dedupe_key r, d_id r)) (orows t)"

definition grown :: "otable \<Rightarrow> otable \<Rightarrow> bool" where
  "grown t t' \<longleftrightarrow> (\<exists>more. row_ids t' = row_ids t @ more)"

lemma grown_refl [simp]: "grown t t"
  by (simp add: grown_def)

lemma grown_trans: "grown t u \<Longrightarrow> grown u v \<Longrightarrow> grown t v"
  by (auto simp: grown_def)

lemma grown_map: "keeps_ident f \<Longrightarrow> orows t' = map f (orows t) \<Longrightarrow> grown t t'"
  using identD [OF keeps_identD [of f]] by (simp add: grown_def row_ids_def comp_def)

lemma grown_update: "keeps_ident f \<Longrightarrow> grown t (update_id t i f)"
  by (rule grown_map [of "\<lambda>r. if d_id r = i then f r else r"]) (auto simp: keeps_ident_def)

lemma grown_one: "grown t (snd (enqueue_one t e ts))"
  by (auto simp: enqueue_one_def grown_def row_ids_def Let_def split: option.splits)

lemma grown_enqueue: "grown t (snd (ob_enqueue t es ts))"
proof (induction es arbitrary: t)
  case (Cons e es)
  show ?case using grown_trans [OF grown_one [of t e ts] Cons] by (simp add: Let_def case_prod_beta)
qed simp

lemma byKey_id: "map_option d_id (ob_byDedupeKey t a k) = map_of (row_ids t) (a, k)"
proof -
  have "map_option d_id (find (\<lambda>r. dedupe_key r = (a, k)) rs) = map_of (map (\<lambda>r. (dedupe_key r, d_id r)) rs) (a, k)" for rs
    by (induction rs) auto
  then show ?thesis by (simp add: ob_byDedupeKey_def row_ids_def)
qed

lemma grown_key: "grown t t' \<Longrightarrow> ob_byDedupeKey t a k = Some r \<Longrightarrow> \<exists>r'. ob_byDedupeKey t' a k = Some r' \<and> d_id r' = d_id r"
proof -
  assume g: "grown t t'" and k: "ob_byDedupeKey t a k = Some r"
  then obtain more where "row_ids t' = row_ids t @ more" by (auto simp: grown_def)
  with k byKey_id [of t a k] byKey_id [of t' a k] show ?thesis by (simp add: map_add_def split: option.splits)
qed

lemma grown_fail: "grown t (fail_row p c msg ts t)"
  by (rule grown_map [OF failed_map_ident fail_row_rows(1)])

lemma grown_claim: "grown t (snd (ob_claim t i ts))"
  unfolding ob_claim_def Let_def by (simp add: grown_update keeps_ident_def ident_def)

lemma grown_start: "grown (tbl s) (tbl (snd (attempt_start row now ts s)))"
  using grown_claim [of "tbl s" "d_id row" ts]
  by (cases "ob_claim (tbl s) (d_id row) ts") (auto simp: attempt_start_def grown_fail split: option.splits)

lemma grown_record: "grown (tbl s) (tbl (snd (attempt_record row result now ts s)))"
  by (cases result) (simp_all add: attempt_record_def Let_def grown_fail ob_markSent_def ob_markRetry_def grown_update keeps_ident_def ident_def)

lemma grown_step: "outbox_step s s' \<Longrightarrow> grown (tbl s) (tbl s')"
proof (induction rule: outbox_step.induct)
  case (Enqueue s reply now ts rep t)
  then show ?case using grown_enqueue by (auto simp: enqueueReport_def Let_def case_prod_beta split: sum.splits)
next
  case (Begin row s now ts)
  then show ?case using grown_start [of "s\<lparr>picked := remove1 row (picked s)\<rparr>" row now ts] by simp
next
  case (Record row result s now ts)
  show ?case by (rule grown_record)
next
  case (Recover s as now ts)
  have "keeps_ident (recovered as now ts)" by (simp add: keeps_ident_def recovered_def)
  from grown_map [OF this recover_rows(1)] show ?case by simp
qed (simp_all add: attempt_answer_def boot_outbox_def Let_def)

lemma grown_steps: "outbox_step\<^sup>*\<^sup>* s s' \<Longrightarrow> grown (tbl s) (tbl s')"
  by (induction rule: rtranclp_induct) (auto intro: grown_trans grown_step)

text \<open>What enqueueing answers for a message is the row its key finds afterwards.\<close>

lemma enqueue_rows:
  "map (\<lambda>x. Some (d_id (fst x))) (fst (ob_enqueue t es ts)) =
   map (\<lambda>e. map_option d_id (ob_byDedupeKey (snd (ob_enqueue t es ts)) (e_agent e) (e_dedupe e))) es"
proof (induction es arbitrary: t)
  case (Cons e es)
  let ?u = "snd (enqueue_one t e ts)"
  have "ob_byDedupeKey ?u (e_agent e) (e_dedupe e) = Some (fst (fst (enqueue_one t e ts)))"
    using sqlite_outbox.enq_old [of t e _ ts] sqlite_outbox.enq_new [of t e ts "e_agent e" "e_dedupe e"]
    by (cases "ob_byDedupeKey t (e_agent e) (e_dedupe e)") auto
  from grown_key [OF grown_enqueue this, of es ts] Cons [of ?u] show ?case by (auto simp: Let_def case_prod_beta)
qed simp

text \<open>C6. A reply is queued once. Enqueueing it again, at any later time and whatever the outbox did in between,
  sends, failures, recoveries and crashes included, leaves the table as it is, reports that nothing was added,
  and answers the rows the first call answered.\<close>

theorem replay_is_noop:
  assumes "enqueueReport c (tbl s) reply now ts = Inr ((rows, added), t1)" "outbox_step\<^sup>*\<^sup>* (s\<lparr>tbl := t1\<rparr>) s'"
  shows "\<exists>rows'. enqueueReport c (tbl s') reply now' ts' = Inr ((rows', False), tbl s') \<and> map d_id rows' = map d_id rows"
proof -
  from assms(1) obtain es where es: "reply_deliveries c reply now = Inr es" "t1 = snd (ob_enqueue (tbl s) es ts)"
    "rows = map fst (fst (ob_enqueue (tbl s) es ts))" by (auto simp: enqueueReport_def Let_def case_prod_beta split: sum.splits)
  obtain es' where es': "reply_deliveries c reply now' = Inr es'"
    "map (\<lambda>e. (e_agent e, e_dedupe e)) es' = map (\<lambda>e. (e_agent e, e_dedupe e)) es" by (rule reply_keys [OF es(1)])
  have g: "grown t1 (tbl s')" using grown_steps [OF assms(2)] by simp
  let ?id = "\<lambda>t x. map_option d_id (ob_byDedupeKey t (fst x) (snd x))"
  let ?t = "tbl s'"
  have first: "map (Some \<circ> d_id) rows = map (?id t1) (map (\<lambda>e. (e_agent e, e_dedupe e)) es)"
    using enqueue_rows [of "tbl s" es ts] by (simp add: es comp_def)
  have later: "?id ?t x = ?id t1 x" if x: "x \<in> set (map (\<lambda>e. (e_agent e, e_dedupe e)) es)" for x
  proof -
    have "?id t1 x \<in> set (map (Some \<circ> d_id) rows)" unfolding first using x by auto
    then obtain r where "ob_byDedupeKey t1 (fst x) (snd x) = Some r" by auto
    with grown_key [OF g this] show ?thesis by auto
  qed
  have ids: "map (?id ?t) (map (\<lambda>e. (e_agent e, e_dedupe e)) es') = map (Some \<circ> d_id) rows"
    unfolding first es'(2) using later by (intro map_cong) auto
  have present: "\<forall>e \<in> set es'. ob_byDedupeKey ?t (e_agent e) (e_dedupe e) \<noteq> None"
  proof
    fix e assume "e \<in> set es'"
    then have "?id ?t (e_agent e, e_dedupe e) \<in> set (map (Some \<circ> d_id) rows)" unfolding ids [symmetric] by auto
    then show "ob_byDedupeKey ?t (e_agent e) (e_dedupe e) \<noteq> None" by auto
  qed
  have same: "snd (ob_enqueue ?t es' ts') = ?t"
    unfolding ob_enqueue_all by (rule sqlite_outbox.enq_all_present [OF present])
  have "map Some (map d_id (map fst (fst (ob_enqueue ?t es' ts')))) = map Some (map d_id rows)"
    using enqueue_rows [of ?t es' ts'] ids by (simp add: same comp_def)
  then have "map d_id (map fst (fst (ob_enqueue ?t es' ts'))) = map d_id rows"
    by (metis inj_Some inj_map_eq_map)
  with ob_enqueue_present [OF present, of ts'] es'(1) same show ?thesis
    by (cases "ob_enqueue ?t es' ts'") (simp add: enqueueReport_def Let_def)
qed

theorem replay_is_noop_witness:
  "\<exists>rows'. enqueueReport demo_cfg (tbl demo3) demo_reply 7 7 = Inr ((rows', False), tbl demo3) \<and> map d_id rows' = [1, 2]"
proof -
  let ?s = "boot_outbox \<lparr>orows = [], lastId = 0\<rparr> demo_cfg []"
  have "map_sum id (\<lambda>x. (snd (fst x), map d_id (fst (fst x)))) (enqueueReport demo_cfg (tbl ?s) demo_reply 0 0) = Inr (True, [1, 2])"
    by code_simp
  then obtain rows t where e: "enqueueReport demo_cfg (tbl ?s) demo_reply 0 0 = Inr ((rows, True), t)" "map d_id rows = [1, 2]"
    by (cases "enqueueReport demo_cfg (tbl ?s) demo_reply 0 0") auto
  then have 1: "?s\<lparr>tbl := t\<rparr> = demo1" by (simp add: demo1_def boot_outbox_def)
  have "outbox_step demo1 (pick_step demo1)" unfolding pick_step_def by (rule Pick)
  moreover have "picked (pick_step demo1) \<noteq> []" by code_simp
  then have "outbox_step (pick_step demo1) (begin_step (pick_step demo1))" unfolding begin_step_def by (intro Begin hd_in_set)
  moreover have "outbox_step (begin_step (pick_step demo1)) demo3" unfolding demo3_def by (rule Crash)
  ultimately have "outbox_step\<^sup>*\<^sup>* demo1 demo3" by (meson rtranclp.rtrancl_refl rtranclp.rtrancl_into_rtrancl)
  with replay_is_noop [of demo_cfg ?s demo_reply 0 0 rows True t demo3 7 7] e 1 show ?thesis by simp
qed

text \<open>C27. Two replies of one agent share a queued row only when session, channel, recipient, turn or key
  and chunk agree: no reply is swallowed as the replay of another.\<close>

theorem delivery_key_identifies:
  assumes "reply_group a = Some g" "reply_group b = Some h" "deliveryKey g i = deliveryKey h j"
  shows "r_session a = r_session b \<and> r_channel a = r_channel b \<and> r_recipient a = r_recipient b \<and>
    r_turn a = r_turn b \<and> (r_turn a = None \<longrightarrow> r_key a = r_key b) \<and> i = j"
proof -
  from deliveryKey_inj [OF assms(3)] have gh: "g = h" "i = j" by simp_all
  obtain d where d: "(case r_turn a of Some t \<Rightarrow> Some (Turn t) | None \<Rightarrow> map_option Key (r_key a)) = Some d"
    "g = deliveryGroup (r_session a) (r_channel a) (r_recipient a) d" using assms(1) by (auto simp: reply_group_def)
  obtain e where e: "(case r_turn b of Some t \<Rightarrow> Some (Turn t) | None \<Rightarrow> map_option Key (r_key b)) = Some e"
    "h = deliveryGroup (r_session b) (r_channel b) (r_recipient b) e" using assms(2) by (auto simp: reply_group_def)
  have "r_session a = r_session b \<and> r_channel a = r_channel b \<and> r_recipient a = r_recipient b \<and> d = e"
    by (rule deliveryGroup_inj) (use gh d(2) e(2) in simp)
  with gh d(1) e(1) show ?thesis by (auto split: option.splits)
qed

theorem delivery_key_identifies_witness:
  "r_session demo_reply = r_session demo_reply2 \<and> r_channel demo_reply = r_channel demo_reply2 \<and>
    r_recipient demo_reply = r_recipient demo_reply2 \<and> r_turn demo_reply = r_turn demo_reply2"
proof -
  have "reply_group demo_reply = Some ''s|c|r|t:t''" "reply_group demo_reply2 = Some ''s|c|r|t:t''" by code_simp+
  from delivery_key_identifies [OF this refl, of 0] show ?thesis by blast
qed

text \<open>The minimum gap between two sends of a channel is not kept within one drain: the next send time
  is set when a send returns, so every row the drain picked starts at once. Here two replies go out on a
  channel with a gap of 50 ms, both started at time 100.\<close>

theorem send_interval_not_kept:
  "\<exists>s p q t now. outbox_reach s \<and> p \<in> set (picked s) \<and> q \<in> set (picked s) \<and> d_id p \<noteq> d_id q \<and> d_channel p = d_channel q \<and>
    Option.bind (channels (cfg s) (d_channel p)) minSendIntervalMs = Some 50 \<and>
    attempt_start p now now s = (None, t) \<and> fst (attempt_start q now now t) = None"
proof -
  define s0 where "s0 = demo1\<lparr>tbl := (case enqueueReport (cfg demo1) (tbl demo1) demo_reply3 0 0 of Inr (_, t) \<Rightarrow> t | Inl _ \<Rightarrow> tbl demo1)\<rparr>"
  define s where "s = pick_step s0"
  have "isl (enqueueReport (cfg demo1) (tbl demo1) demo_reply3 0 0) = False" by code_simp
  then obtain rep t where "enqueueReport (cfg demo1) (tbl demo1) demo_reply3 0 0 = Inr (rep, t)"
    by (cases "enqueueReport (cfg demo1) (tbl demo1) demo_reply3 0 0") auto
  then have "outbox_reach s0" using Step [OF demo1_reach] Enqueue by (simp add: s0_def)
  then have r: "outbox_reach s" unfolding s_def pick_step_def using Step Pick by blast
  let ?p = "picked s ! 0" and ?q = "picked s ! 1"
  have l: "length (picked s) = 2" "d_id ?p = 1" "d_id ?q = 3" "d_channel ?p = ''c''" "d_channel ?q = ''c''"
    unfolding s_def s0_def by code_simp+
  have a: "fst (attempt_start ?p 100 100 s) = None" "fst (attempt_start ?q 100 100 (snd (attempt_start ?p 100 100 s))) = None"
    "Option.bind (channels (cfg s) ''c'') minSendIntervalMs = Some 50"
    unfolding s_def s0_def by code_simp+
  have "attempt_start ?p 100 100 s = (None, snd (attempt_start ?p 100 100 s))" using a(1) by (cases "attempt_start ?p 100 100 s") simp
  moreover have "?p \<in> set (picked s)" "?q \<in> set (picked s)" using l(1) by simp_all
  ultimately show ?thesis using r l(2-5) a by (intro exI [of _ s] exI [of _ ?p] exI [of _ ?q] exI) auto
qed

end
