(* ===== verification/Regex.thy ===== *)
theory Regex
  imports Prelude
begin

text \<open>
  The part of ECMAScript regular expressions the policy uses, as a backtracking matcher. A position is the
  code unit before it, if any, and the rest of the input; \<open>rxm r p\<close> lists the positions where a match of \<open>r\<close>
  from \<open>p\<close> can end, in the order the engine tries them, so its head is the match the engine takes. A
  starred expression never repeats on an empty match.
\<close>

datatype rx =
    Eps
  | Cls "char \<Rightarrow> bool"
  | Cat rx rx
  | Alt rx rx
  | Rep rx
  | Bound
  | Eot

type_synonym rpos = "char option \<times> string"

definition word_at :: "char option \<Rightarrow> bool" where
  "word_at c = (case c of None \<Rightarrow> False | Some d \<Rightarrow> is_word d)"

definition next_char :: "string \<Rightarrow> char option" where
  "next_char s = (case s of [] \<Rightarrow> None | c # _ \<Rightarrow> Some c)"

function rxm :: "rx \<Rightarrow> rpos \<Rightarrow> rpos list" where
  "rxm Eps p = [p]"
| "rxm (Cls f) p = (case snd p of [] \<Rightarrow> [] | c # s \<Rightarrow> if f c then [(Some c, s)] else [])"
| "rxm (Cat r s) p = concat (map (rxm s) (rxm r p))"
| "rxm (Alt r s) p = rxm r p @ rxm s p"
| "rxm (Rep r) p = concat (map (rxm (Rep r)) (filter (\<lambda>q. length (snd q) < length (snd p)) (rxm r p))) @ [p]"
| "rxm Bound p = (if word_at (fst p) \<noteq> word_at (next_char (snd p)) then [p] else [])"
| "rxm Eot p = (if snd p = [] then [p] else [])"
  by pat_completeness auto
termination
  by (relation "measures [\<lambda>(r, p). size r, \<lambda>(r, p). length (snd p)]") auto

declare rxm.simps [simp del]

lemmas rxm_simps = rxm.simps(1-4,6,7)

text \<open>Derived forms.\<close>

definition rx_opt :: "rx \<Rightarrow> rx" where
  "rx_opt r = Alt r Eps"

definition rx_plus :: "rx \<Rightarrow> rx" where
  "rx_plus r = Cat r (Rep r)"

definition rx_seq :: "rx list \<Rightarrow> rx" where
  "rx_seq rs = foldr Cat rs Eps"

fun rx_alts :: "rx list \<Rightarrow> rx" where
  "rx_alts [] = Eps"
| "rx_alts [r] = r"
| "rx_alts (r # rs) = Alt r (rx_alts rs)"

definition rx_lit :: "string \<Rightarrow> rx" where
  "rx_lit s = rx_seq (map (\<lambda>c. Cls (\<lambda>d. d = c)) s)"

text \<open>A literal under the \<open>i\<close> flag.\<close>

definition rx_ilit :: "string \<Rightarrow> rx" where
  "rx_ilit s = rx_seq (map (\<lambda>c. Cls (\<lambda>d. lower_char d = lower_char c)) s)"

text \<open>\<open>.\<close> is any code unit but a line terminator.\<close>

definition not_nl :: "char \<Rightarrow> bool" where
  "not_nl c \<longleftrightarrow> char_code c \<noteq> 10 \<and> char_code c \<noteq> 13"

definition rx_any :: rx where
  "rx_any = Cls not_nl"

text \<open>\<open>test\<close> without an anchor: a match from some position.\<close>

fun rx_search :: "rx \<Rightarrow> char option \<Rightarrow> string \<Rightarrow> bool" where
  "rx_search r b [] = (rxm r (b, []) \<noteq> [])"
| "rx_search r b (c # s) = (rxm r (b, c # s) \<noteq> [] \<or> rx_search r (Some c) s)"

definition rx_test :: "rx \<Rightarrow> string \<Rightarrow> bool" where
  "rx_test r s = rx_search r None s"

text \<open>\<open>test\<close> of an expression that starts with \<open>^\<close>, and what \<open>replace\<close> with the empty string leaves.\<close>

definition rx_prefix :: "rx \<Rightarrow> string \<Rightarrow> string option" where
  "rx_prefix r s = (case rxm r (None, s) of [] \<Rightarrow> None | p # _ \<Rightarrow> Some (snd p))"

section \<open>What a match consumes\<close>

lemma rxm_suffix: "q \<in> set (rxm r p) \<Longrightarrow> \<exists>w. snd p = w @ snd q"
proof (induction r p arbitrary: q rule: rxm.induct)
  case (2 f p)
  then show ?case by (cases "snd p") (auto simp: rxm_simps split: if_splits)
next
  case (3 r s p)
  then obtain m where m: "m \<in> set (rxm r p)" "q \<in> set (rxm s m)" by (auto simp: rxm_simps)
  with 3 show ?case by (metis append.assoc)
next
  case (5 r p)
  then consider "q = p" | m where "m \<in> set (rxm r p)" "length (snd m) < length (snd p)" "q \<in> set (rxm (Rep r) m)"
    by (auto simp: rxm.simps(5) [of r p])
  then show ?case
  proof cases
    case 2
    from 5(1) [OF 2(1)] obtain u where u: "snd p = u @ snd m" by blast
    from 2 have "m \<in> set (filter (\<lambda>q. length (snd q) < length (snd p)) (rxm r p))" by simp
    from 5(2) [OF this 2(3)] obtain v where "snd m = v @ snd q" by blast
    with u show ?thesis by simp
  qed simp
qed (auto simp: rxm_simps split: if_splits)

text \<open>The words a full match of an expression without assertions accepts.\<close>

definition rx_full :: "rx \<Rightarrow> string \<Rightarrow> bool" where
  "rx_full r s \<longleftrightarrow> rxm (Cat r Eot) (None, s) \<noteq> []"

lemma rx_full_iff: "rx_full r s \<longleftrightarrow> (\<exists>b. (b, []) \<in> set (rxm r (None, s)))"
proof -
  have "rxm (Cat r Eot) (None, s) \<noteq> [] \<longleftrightarrow> (\<exists>q \<in> set (rxm r (None, s)). rxm Eot q \<noteq> [])"
    by (auto simp: rxm_simps(3))
  also have "\<dots> \<longleftrightarrow> (\<exists>q \<in> set (rxm r (None, s)). snd q = [])" by (simp add: rxm_simps)
  also have "\<dots> \<longleftrightarrow> (\<exists>b. (b, []) \<in> set (rxm r (None, s)))" by force
  finally show ?thesis by (simp add: rx_full_def)
qed

text \<open>Repeating a class takes any run of it.\<close>

lemma rxm_Rep_Cls_Nil: "rxm (Rep (Cls f)) (b, []) = [(b, [])]"
  by (subst rxm.simps) (simp add: rxm_simps)

lemma rxm_Rep_Cls_Cons:
  "rxm (Rep (Cls f)) (b, c # s) = (if f c then rxm (Rep (Cls f)) (Some c, s) else []) @ [(b, c # s)]"
  by (subst rxm.simps) (simp add: rxm_simps)

definition lastb :: "char option \<Rightarrow> string \<Rightarrow> char option" where
  "lastb b u = (if u = [] then b else Some (last u))"

lemma lastb_append [simp]: "lastb (lastb b u) v = lastb b (u @ v)"
  by (simp add: lastb_def)

lemma lastb_Nil [simp]: "lastb b [] = b"
  by (simp add: lastb_def)

text \<open>The runs of a class.\<close>

lemma rxm_Rep_Cls:
  "q \<in> set (rxm (Rep (Cls f)) (b, s)) \<longleftrightarrow> (\<exists>u. s = u @ snd q \<and> list_all f u \<and> fst q = lastb b u)"
proof (induction s arbitrary: b)
  case Nil
  then show ?case by (cases q) (auto simp: rxm_Rep_Cls_Nil)
next
  case (Cons c s)
  have "(\<exists>u. c # s = u @ snd q \<and> list_all f u \<and> fst q = lastb b u) \<longleftrightarrow>
      q = (b, c # s) \<or> (f c \<and> (\<exists>u. s = u @ snd q \<and> list_all f u \<and> fst q = lastb (Some c) u))"
    (is "?l \<longleftrightarrow> ?r")
  proof
    assume ?l
    then obtain u where u: "c # s = u @ snd q" "list_all f u" "fst q = lastb b u" by blast
    show ?r
    proof (cases u)
      case Nil
      with u show ?thesis by (cases q) simp
    next
      case (Cons d v)
      with u show ?thesis by (auto simp: lastb_def)
    qed
  next
    assume ?r
    then show ?l
    proof
      assume "q = (b, c # s)"
      then show ?l by (intro exI [of _ "[]"]) simp
    next
      assume "f c \<and> (\<exists>u. s = u @ snd q \<and> list_all f u \<and> fst q = lastb (Some c) u)"
      then obtain u where "f c" "s = u @ snd q" "list_all f u" "fst q = lastb (Some c) u" by blast
      then show ?l by (intro exI [of _ "c # u"]) (simp add: lastb_def)
    qed
  qed
  with Cons [of "Some c"] show ?case by (auto simp: rxm_Rep_Cls_Cons)
qed

text \<open>Expressions that cannot match over an alphabet.\<close>

fun dead :: "char list \<Rightarrow> rx \<Rightarrow> bool" where
  "dead A (Cls f) = list_all (\<lambda>c. \<not> f c) A"
| "dead A (Cat r s) = (dead A r \<or> dead A s)"
| "dead A (Alt r s) = (dead A r \<and> dead A s)"
| "dead A _ = False"

lemma dead_no_match: "dead A r \<Longrightarrow> set (snd p) \<subseteq> set A \<Longrightarrow> rxm r p = []"
proof (induction A r arbitrary: p rule: dead.induct)
  case (1 A f)
  then show ?case by (cases "snd p") (auto simp: rxm_simps list_all_iff)
next
  case (2 A r s)
  have "set (snd q) \<subseteq> set A" if "q \<in> set (rxm r p)" for q
    using rxm_suffix [OF that] 2(4) by auto
  moreover have "rxm r p = []" if "dead A r" using 2(1) [OF that 2(4)] .
  moreover have "rxm s q = []" if "dead A s" "set (snd q) \<subseteq> set A" for q using 2(2) [OF that] .
  ultimately show ?case using 2(3) by (cases "dead A r") (auto simp: rxm_simps(3))
qed (auto simp: rxm_simps)

lemma dead_no_test: "dead A r \<Longrightarrow> set s \<subseteq> set A \<Longrightarrow> \<not> rx_test r s"
proof -
  assume d: "dead A r"
  have "set s \<subseteq> set A \<Longrightarrow> \<not> rx_search r b s" for b
    by (induction s arbitrary: b) (simp_all add: dead_no_match [OF d])
  then show "set s \<subseteq> set A \<Longrightarrow> \<not> rx_test r s" by (simp add: rx_test_def)
qed

text \<open>Sequences.\<close>

lemma rxm_seq_Nil: "rxm (rx_seq []) p = [p]"
  by (simp add: rx_seq_def rxm_simps)

lemma rxm_seq_Cons: "q \<in> set (rxm (rx_seq (r # rs)) p) \<longleftrightarrow> (\<exists>m \<in> set (rxm r p). q \<in> set (rxm (rx_seq rs) m))"
  by (simp add: rx_seq_def rxm_simps)

lemma rxm_seq_append:
  "q \<in> set (rxm (rx_seq (rs @ ts)) p) \<longleftrightarrow> (\<exists>m \<in> set (rxm (rx_seq rs) p). q \<in> set (rxm (rx_seq ts) m))"
proof (induction rs arbitrary: p)
  case Nil
  then show ?case by (simp add: rxm_seq_Nil)
next
  case (Cons r rs)
  have "set (rxm (rx_seq (r # rs)) p) = (\<Union>m \<in> set (rxm r p). set (rxm (rx_seq rs) m))"
    using rxm_seq_Cons by blast
  then show ?case unfolding append_Cons rxm_seq_Cons Cons.IH by auto
qed

lemma rxm_Cls: "q \<in> set (rxm (Cls f) (b, s)) \<longleftrightarrow> (\<exists>c. s = c # snd q \<and> f c \<and> fst q = Some c)"
proof (cases s)
  case Nil
  then show ?thesis by (simp add: rxm_simps)
next
  case (Cons c t)
  then show ?thesis by (cases q) (auto simp: rxm_simps(2))
qed

end
