(* ===== verification/Policy.thy ===== *)
theory Policy
  imports Regex
begin

text \<open>
  \<open>packages/core/src/tools/policy.ts\<close>: which tool calls run, which ask and which are refused, and how that
  decision meets the write gate of \<open>tools/trust.ts\<close>. The regular expressions of the source are terms of
  \<open>rx\<close>; the sentences that explain a decision are constructors of \<open>reason\<close>.
\<close>

section \<open>Configuration and decisions\<close>

datatype policy_mode = M_ask | M_allow | M_deny
datatype on_mutate = On_refuse | On_confirm | On_allow
datatype effect = Allow | Ask | Deny

record policy_config =
  pmode :: policy_mode
  pallow :: "string list"
  pdeny :: "string list"
  noApproverAllow :: bool

definition DEFAULT_POLICY :: policy_config where
  "DEFAULT_POLICY = \<lparr>pmode = M_allow, pallow = [], pdeny = [], noApproverAllow = False\<rparr>"

record policy_query =
  q_slug :: string
  q_match :: "string option"

datatype reason =
    R_floor string string
  | R_long string nat
  | R_denied string string
  | R_allowed string string
  | R_mode_allow
  | R_mode_deny
  | R_ask string
  | R_nobody_allow reason
  | R_nobody_deny reason
  | R_confirm string
  | R_gated string

record policy_decision =
  p_effect :: effect
  p_reason :: reason
  p_rule :: "string option"
  p_gated :: bool

definition decision :: "effect \<Rightarrow> reason \<Rightarrow> string option \<Rightarrow> policy_decision" where
  "decision e r ru = \<lparr>p_effect = e, p_reason = r, p_rule = ru, p_gated = False\<rparr>"

record rule =
  r_source :: string
  r_slug :: string
  r_pattern :: "string option"

section \<open>The hardline floor\<close>

abbreviation sp0 :: rx where "sp0 \<equiv> Rep (Cls is_space)"
abbreviation sp1 :: rx where "sp1 \<equiv> rx_plus (Cls is_space)"
abbreviation wd0 :: rx where "wd0 \<equiv> Rep (Cls is_word)"
abbreviation nonspace1 :: rx where "nonspace1 \<equiv> rx_plus (Cls (\<lambda>c. \<not> is_space c))"

definition rm_flags :: rx where
  "rm_flags = rx_seq [Bound, rx_ilit ''rm'', sp1,
     Rep (rx_seq [rx_lit ''-'', rx_plus (Cls (\<lambda>c. is_word c \<or> c = CHR ''-'')), sp1]), rx_lit ''-'', wd0]"

definition RM_FORCED :: rx where
  "RM_FORCED = Alt (rx_seq [rm_flags, rx_ilit ''r'', wd0, rx_ilit ''f'']) (rx_seq [rm_flags, rx_ilit ''f'', wd0, rx_ilit ''r''])"

definition FORK_BOMB :: rx where
  "FORK_BOMB = rx_seq [rx_lit '':'', sp0, rx_lit ''('', sp0, rx_lit '')'', sp0, rx_lit ''{'', sp0, rx_lit '':'', sp0,
     rx_lit ''|'', sp0, rx_lit '':'', sp0, rx_lit ''&'', sp0, rx_lit ''}'', sp0, rx_lit '';'', sp0, rx_lit '':'']"

definition MKFS :: rx where
  "MKFS = rx_seq [Bound, rx_ilit ''mkfs'', rx_opt (rx_seq [rx_lit ''.'', rx_plus (Cls is_word)]), Bound]"

definition DD_DEVICE :: rx where
  "DD_DEVICE = rx_seq [Bound, rx_ilit ''dd'', Bound, Rep (Cls (\<lambda>c. char_code c \<noteq> 10)), Bound, rx_ilit ''of=/dev/'']"

definition HARDLINE :: "(rx \<times> string) list" where
  "HARDLINE =
     [(RM_FORCED, ''a recursive forced delete''),
      (rx_ilit ''--no-preserve-root'', ''a delete that disables the root guard''),
      (FORK_BOMB, ''a fork bomb''),
      (MKFS, ''a filesystem format''),
      (DD_DEVICE, ''a raw write to a block device'')]"

definition HARDLINE_TARGET :: rx where
  "HARDLINE_TARGET = rx_seq [Cls is_space,
     rx_alts [rx_lit ''/'', rx_lit ''~'', rx_lit ''$HOME'', rx_lit ''/*'', rx_lit ''~/*''], sp0, Eot]"

fun floor_entry :: "(rx \<times> string) list \<Rightarrow> string \<Rightarrow> string option" where
  "floor_entry [] command = None"
| "floor_entry ((pattern, what) # es) command =
     (if \<not> rx_test pattern command then floor_entry es command
      else if includes_str ''recursive'' what \<and> \<not> rx_test HARDLINE_TARGET command then floor_entry es command
      else Some what)"

definition hardlineFailure :: "string \<Rightarrow> string option" where
  "hardlineFailure command = floor_entry HARDLINE command"

section \<open>Reading rules\<close>

definition CONTENT_FIELDS :: "string list" where
  "CONTENT_FIELDS = [''command'', ''path'', ''file_path'', ''url'', ''content'']"

definition slug_char :: "char \<Rightarrow> bool" where
  "slug_char c \<longleftrightarrow> is_word c \<or> c = CHR ''-''"

text \<open>\<open>RULE\<close> on a trimmed source: the slug, and what stands between the outer parentheses.\<close>

definition match_rule :: "string \<Rightarrow> (string \<times> string option) option" where
  "match_rule s =
     (case s of
        [] \<Rightarrow> None
      | c # _ \<Rightarrow>
          if \<not> (is_alpha c \<or> c = CHR ''_'') then None
          else let slug = takeWhile slug_char s; rest = dropWhile slug_char s in
            if rest = [] then Some (slug, None)
            else if hd rest = CHR ''('' \<and> length rest \<ge> 2 \<and> last rest = CHR '')'' \<and> list_all not_nl (butlast (tl rest))
            then Some (slug, Some (butlast (tl rest)))
            else None)"

text \<open>The field a pattern addresses: \<open>/^([A-Za-z_]\w*)\s*:/\<close>.\<close>

definition pattern_field :: "string \<Rightarrow> string option" where
  "pattern_field p =
     (case p of
        [] \<Rightarrow> None
      | c # _ \<Rightarrow>
          if (is_alpha c \<or> c = CHR ''_'') \<and> starts_with '':'' (dropWhile is_space (dropWhile is_word p))
          then Some (takeWhile is_word p) else None)"

datatype rejection = Not_a_rule | Addresses string

definition parseRule :: "string \<Rightarrow> rejection + rule" where
  "parseRule source =
     (let trimmed = trim source in
      case match_rule trimmed of
        None \<Rightarrow> Inl Not_a_rule
      | Some (slug, None) \<Rightarrow> Inr \<lparr>r_source = trimmed, r_slug = slug, r_pattern = None\<rparr>
      | Some (slug, Some pattern) \<Rightarrow>
          (case pattern_field pattern of
             Some f \<Rightarrow> if f \<in> set CONTENT_FIELDS then Inl (Addresses f)
                       else Inr \<lparr>r_source = trimmed, r_slug = slug, r_pattern = Some (trim pattern)\<rparr>
           | None \<Rightarrow> Inr \<lparr>r_source = trimmed, r_slug = slug, r_pattern = Some (trim pattern)\<rparr>))"

record parsed_policy =
  pp_deny :: "rule list"
  pp_allow :: "rule list"
  pp_rejected :: "(string \<times> rejection) list"

definition take_rules :: "string list \<Rightarrow> rule list \<times> (string \<times> rejection) list" where
  "take_rules sources =
     (List.map_filter (\<lambda>s. case parseRule s of Inr r \<Rightarrow> Some r | Inl _ \<Rightarrow> None) sources,
      List.map_filter (\<lambda>s. case parseRule s of Inr _ \<Rightarrow> None | Inl w \<Rightarrow> Some (s, w)) sources)"

definition parsePolicy :: "policy_config \<Rightarrow> parsed_policy" where
  "parsePolicy config =
     (let (deny, r1) = take_rules (pdeny config); (allow, r2) = take_rules (pallow config)
      in \<lparr>pp_deny = deny, pp_allow = allow, pp_rejected = r1 @ r2\<rparr>)"

section \<open>Patterns\<close>

text \<open>The text of the expression: what \<open>[.+?^${}()|[\]\\]\<close> matches gets a backslash, a star with the backslash
  before it, if any, becomes \<open>.*\<close>, and \<open> .*\<close> at the end becomes \<open>(?: .*)?\<close>. \<open>BS\<close> is the backslash.\<close>

abbreviation BS :: char where "BS \<equiv> CHR 0x5C"

definition syntax_char :: "char \<Rightarrow> bool" where
  "syntax_char c \<longleftrightarrow> c \<in> set ''.+?^${}()|[]'' \<or> c = BS"

definition escape_char :: "char \<Rightarrow> string" where
  "escape_char c = (if syntax_char c then [BS, c] else [c])"

fun star_dots :: "string \<Rightarrow> string" where
  "star_dots [] = []"
| "star_dots [c] = (if c = CHR ''*'' then ''.*'' else [c])"
| "star_dots (c # d # s) =
     (if c = BS \<and> d = CHR ''*'' then ''.*'' @ star_dots s
      else if c = CHR ''*'' then ''.*'' @ star_dots (d # s)
      else c # star_dots (d # s))"

definition pattern_source :: "string \<Rightarrow> string" where
  "pattern_source pattern =
     (let trailing = (if ends_with '':*'' pattern then take (length pattern - 2) pattern @ '' *'' else pattern);
          escaped = concat (map escape_char trailing);
          body = star_dots escaped
      in if ends_with '' .*'' body then take (length body - 3) body @ ''(?: .*)?'' else body)"

text \<open>\<open>new RegExp\<close> on such texts, with the \<open>i\<close> flag: an escaped character, a dot, the group above, or a character
  that is no syntax, and then perhaps a quantifier. \<open>None\<close> is a \<open>SyntaxError\<close>.\<close>

fun re_atom :: "string \<Rightarrow> (rx \<times> string) option" where
  "re_atom [] = None"
| "re_atom (c # s) =
     (if c = BS then (case s of [] \<Rightarrow> None | d # t \<Rightarrow> Some (Cls (\<lambda>x. lower_char x = lower_char d), t))
      else if c = CHR ''.'' then Some (rx_any, s)
      else if starts_with ''(?: .*)'' (c # s) then Some (rx_seq [rx_lit '' '', Rep rx_any], drop 6 s)
      else if syntax_char c \<or> c = CHR ''*'' then None
      else Some (Cls (\<lambda>x. lower_char x = lower_char c), s))"

definition re_quantified :: "rx \<Rightarrow> string \<Rightarrow> rx \<times> string" where
  "re_quantified r s =
     (case s of [] \<Rightarrow> (r, s)
      | c # t \<Rightarrow> if c = CHR ''*'' then (Rep r, t) else if c = CHR ''?'' then (rx_opt r, t) else (r, s))"

lemma re_atom_shorter: "re_atom s = Some (r, t) \<Longrightarrow> length t < length s"
  by (induction s rule: re_atom.induct) (auto split: if_splits list.splits)

lemma re_quantified_shorter: "re_quantified r s = (r', t) \<Longrightarrow> length t \<le> length s"
  by (auto simp: re_quantified_def split: if_splits list.splits)

function re_parse :: "string \<Rightarrow> rx list option" where
  "re_parse s =
     (if s = [] then Some []
      else (case re_atom s of
              None \<Rightarrow> None
            | Some (r, t) \<Rightarrow> (case re_quantified r t of (r', t') \<Rightarrow> map_option (\<lambda>rs. r' # rs) (re_parse t'))))"
  by pat_completeness auto
termination
  by (relation "measure length") (auto dest!: re_atom_shorter re_quantified_shorter [OF sym])

declare re_parse.simps [simp del]

text \<open>The constructor would throw on \<open>None\<close>; \<open>pattern_compiles\<close> below shows that it never does.\<close>

definition patternToRegex :: "string \<Rightarrow> rx" where
  "patternToRegex pattern = (case re_parse (pattern_source pattern) of None \<Rightarrow> Cls (\<lambda>_. False) | Some rs \<Rightarrow> rx_seq rs)"

section \<open>Commands\<close>

definition WRAPPERS :: rx where
  "WRAPPERS = Cat (rx_alts
     [rx_seq [rx_ilit ''timeout'', sp1, nonspace1],
      rx_ilit ''time'',
      rx_seq [rx_ilit ''nice'', rx_opt (rx_seq [sp1, rx_ilit ''-n'', sp1, nonspace1])],
      rx_seq [rx_ilit ''stdbuf'', Rep (rx_seq [sp1, rx_lit ''-'', nonspace1])],
      rx_ilit ''command'',
      rx_ilit ''builtin'']) sp1"

fun strip_loop :: "nat \<Rightarrow> string \<Rightarrow> string" where
  "strip_loop 0 current = current"
| "strip_loop (Suc i) current =
     (case rx_prefix WRAPPERS current of None \<Rightarrow> current | Some rest \<Rightarrow> strip_loop i (trim rest))"

definition stripWrappers :: "string \<Rightarrow> string" where
  "stripWrappers command = strip_loop 4 (trim command)"

definition MAX_MATCHABLE :: nat where
  "MAX_MATCHABLE = 10000"

text \<open>\<open>command.split(SEPARATORS)\<close>: \<open>&&\<close> and \<open>||\<close> before their single characters.\<close>

definition sep_char :: "char \<Rightarrow> bool" where
  "sep_char c \<longleftrightarrow> c = CHR ''&'' \<or> c = CHR ''|'' \<or> c = CHR '';'' \<or> char_code c = 10"

fun split_seps :: "string \<Rightarrow> string list" where
  "split_seps [] = [[]]"
| "split_seps [c] = (if sep_char c then [[], []] else [[c]])"
| "split_seps (c # d # s) =
     (if (c = CHR ''&'' \<or> c = CHR ''|'') \<and> d = c then [] # split_seps s
      else if sep_char c then [] # split_seps (d # s)
      else (case split_seps (d # s) of [] \<Rightarrow> [[c]] | w # ws \<Rightarrow> (c # w) # ws))"

definition subcommands :: "string \<Rightarrow> string list" where
  "subcommands command = filter (\<lambda>p. p \<noteq> []) (map stripWrappers (split_seps command))"

definition same_slug :: "rule \<Rightarrow> policy_query \<Rightarrow> bool" where
  "same_slug r q \<longleftrightarrow> to_lower (r_slug r) = to_lower (q_slug q)"

definition rule_matches :: "rule \<Rightarrow> policy_query \<Rightarrow> string option \<Rightarrow> bool" where
  "rule_matches r q fragment =
     (if \<not> same_slug r q then False
      else case r_pattern r of
        None \<Rightarrow> True
      | Some p \<Rightarrow> (case fragment of None \<Rightarrow> False | Some f \<Rightarrow> rx_full (patternToRegex p) f))"

definition covers :: "rule \<Rightarrow> policy_query \<Rightarrow> string list \<Rightarrow> bool" where
  "covers r q fragments =
     (if r_pattern r = None then same_slug r q
      else if fragments = [] then rule_matches r q (q_match q)
      else list_all (\<lambda>f. rule_matches r q (Some f)) fragments)"

definition touches :: "rule \<Rightarrow> policy_query \<Rightarrow> string list \<Rightarrow> bool" where
  "touches r q fragments =
     (if r_pattern r = None then same_slug r q
      else if fragments = [] then rule_matches r q (q_match q)
      else list_ex (\<lambda>f. rule_matches r q (Some f)) fragments)"

section \<open>The decision\<close>

definition fragments_of :: "policy_query \<Rightarrow> string list" where
  "fragments_of q = (case q_match q of None \<Rightarrow> [] | Some c \<Rightarrow> subcommands c)"

definition decide_rules :: "policy_config \<Rightarrow> policy_query \<Rightarrow> policy_decision" where
  "decide_rules config q =
     (let parsed = parsePolicy config; fragments = fragments_of q in
      case find (\<lambda>r. touches r q fragments) (pp_deny parsed) of
        Some r \<Rightarrow> decision Deny (R_denied (q_slug q) (r_source r)) (Some (r_source r))
      | None \<Rightarrow>
          (case find (\<lambda>r. covers r q fragments) (pp_allow parsed) of
             Some r \<Rightarrow> decision Allow (R_allowed (q_slug q) (r_source r)) (Some (r_source r))
           | None \<Rightarrow>
               (case pmode config of
                  M_allow \<Rightarrow> decision Allow R_mode_allow None
                | M_deny \<Rightarrow> decision Deny R_mode_deny None
                | M_ask \<Rightarrow> decision Ask (R_ask (q_slug q)) None)))"

definition decidePolicy :: "policy_config \<Rightarrow> policy_query \<Rightarrow> policy_decision" where
  "decidePolicy config q =
     (case q_match q of
        None \<Rightarrow> decide_rules config q
      | Some command \<Rightarrow>
          (case hardlineFailure command of
             Some what \<Rightarrow> decision Deny (R_floor (q_slug q) what) None
           | None \<Rightarrow>
               if length command > MAX_MATCHABLE then decision Ask (R_long (q_slug q) (length command)) None
               else decide_rules config q))"

definition resolveWithoutApprover :: "policy_decision \<Rightarrow> policy_config \<Rightarrow> policy_decision" where
  "resolveWithoutApprover d config =
     (if p_effect d \<noteq> Ask then d
      else if noApproverAllow config then d\<lparr>p_effect := Allow, p_reason := R_nobody_allow (p_reason d)\<rparr>
      else d\<lparr>p_effect := Deny, p_reason := R_nobody_deny (p_reason d)\<rparr>)"

record authorize_input =
  a_policy :: policy_config
  a_query :: policy_query
  a_mutating :: bool
  a_tainted :: bool
  a_onMutate :: on_mutate
  a_approver :: bool

definition needs_authorization :: "authorize_input \<Rightarrow> bool" where
  "needs_authorization i \<longleftrightarrow> a_tainted i \<and> a_mutating i \<and> a_onMutate i \<noteq> On_allow"

definition authorize :: "authorize_input \<Rightarrow> policy_decision" where
  "authorize i =
     (let d = decidePolicy (a_policy i) (a_query i) in
      if p_effect d = Deny then d
      else if needs_authorization i \<and> p_rule d = None then
        (if a_onMutate i = On_confirm \<and> a_approver i
         then decision Ask (R_confirm (q_slug (a_query i))) None
         else (decision Deny (R_gated (q_slug (a_query i))) None)\<lparr>p_gated := True\<rparr>)
      else if p_effect d = Ask \<and> \<not> a_approver i then resolveWithoutApprover d (a_policy i)
      else d)"

record once_tool =
  o_slug :: string
  o_mutating :: bool
  o_trust :: "string option"

definition onceOnlyTools :: "once_tool list \<Rightarrow> policy_config \<Rightarrow> on_mutate \<Rightarrow> string list" where
  "onceOnlyTools tools config onMutate =
     (if onMutate = On_allow then []
      else let named = map (\<lambda>r. to_lower (r_slug r)) (pp_allow (parsePolicy config)) in
        map o_slug (filter (\<lambda>t. o_mutating t \<and> o_trust t = Some ''untrusted'' \<and> to_lower (o_slug t) \<notin> set named) tools))"

section \<open>Patterns as globs\<close>

text \<open>The pieces of a pattern: a literal, a star, and a star after a backslash, which the rewriting takes for the
  backslash's own escape, so that it matches a run of dots.\<close>

datatype tok = T_lit char | T_any | T_dots

fun tokens :: "string \<Rightarrow> tok list" where
  "tokens [] = []"
| "tokens [c] = [if c = CHR ''*'' then T_any else T_lit c]"
| "tokens (c # d # s) =
     (if c = CHR ''*'' then T_any # tokens (d # s)
      else if char_code c = 92 \<and> d = CHR ''*'' then T_dots # tokens s
      else T_lit c # tokens (d # s))"

definition pattern_tokens :: "string \<Rightarrow> tok list" where
  "pattern_tokens pattern =
     tokens (if ends_with '':*'' pattern then take (length pattern - 2) pattern @ '' *'' else pattern)"

fun tok_rx :: "tok \<Rightarrow> rx" where
  "tok_rx (T_lit c) = Cls (\<lambda>d. lower_char d = lower_char c)"
| "tok_rx T_any = Rep rx_any"
| "tok_rx T_dots = Rep (Cls (\<lambda>d. d = CHR ''.''))"

text \<open>What they match: a star any run without a line end, an escaped star any run of dots, and anything else
  itself, whatever its case.\<close>

fun glob :: "tok list \<Rightarrow> string \<Rightarrow> bool" where
  "glob [] s = (s = [])"
| "glob (T_lit c # ts) [] = False"
| "glob (T_lit c # ts) (d # s) = (lower_char d = lower_char c \<and> glob ts s)"
| "glob (T_any # ts) [] = glob ts []"
| "glob (T_any # ts) (d # s) = (glob ts (d # s) \<or> (not_nl d \<and> glob (T_any # ts) s))"
| "glob (T_dots # ts) [] = glob ts []"
| "glob (T_dots # ts) (d # s) = (glob ts (d # s) \<or> (d = CHR ''.'' \<and> glob (T_dots # ts) s))"

text \<open>A pattern that ends in a space and a star also takes the bare command.\<close>

definition glob_match :: "string \<Rightarrow> string \<Rightarrow> bool" where
  "glob_match pattern s =
     (let ts = pattern_tokens pattern; n = length ts - 2 in
      glob ts s \<or> (2 \<le> length ts \<and> drop n ts = [T_lit (CHR '' ''), T_any] \<and> glob (take n ts) s))"

lemma glob_star:
  assumes "\<And>ts. glob (t # ts) [] = glob ts []" "\<And>ts d s. glob (t # ts) (d # s) = (glob ts (d # s) \<or> (f d \<and> glob (t # ts) s))"
  shows "glob (t # ts) s \<longleftrightarrow> (\<exists>u v. s = u @ v \<and> list_all f u \<and> glob ts v)"
proof (induction s)
  case Nil
  then show ?case by (simp add: assms(1))
next
  case (Cons d s)
  have "(\<exists>u v. d # s = u @ v \<and> list_all f u \<and> glob ts v) \<longleftrightarrow>
      glob ts (d # s) \<or> (f d \<and> (\<exists>u v. s = u @ v \<and> list_all f u \<and> glob ts v))" (is "?l \<longleftrightarrow> ?r")
  proof
    assume ?l
    then obtain u v where u: "d # s = u @ v" "list_all f u" "glob ts v" by blast
    then show ?r by (cases u) auto
  next
    assume ?r
    then show ?l
    proof
      assume "glob ts (d # s)"
      then show ?l by (intro exI [of _ "[]"] exI [of _ "d # s"]) simp
    next
      assume "f d \<and> (\<exists>u v. s = u @ v \<and> list_all f u \<and> glob ts v)"
      then obtain u v where "f d" "s = u @ v" "list_all f u" "glob ts v" by blast
      then show ?l by (intro exI [of _ "d # u"] exI [of _ v]) simp
    qed
  qed
  with Cons show ?case by (simp add: assms(2))
qed

lemmas glob_any = glob_star [of T_any not_nl, OF glob.simps(4,5)]
lemmas glob_dots = glob_star [of T_dots "\<lambda>d. d = CHR ''.''", OF glob.simps(6,7)]

lemma rxm_tokens:
  "q \<in> set (rxm (rx_seq (map tok_rx ts)) (b, s)) \<longleftrightarrow> (\<exists>u. s = u @ snd q \<and> glob ts u \<and> fst q = lastb b u)"
proof (induction ts arbitrary: b s)
  case Nil
  show ?case by (cases q) (auto simp: rxm_seq_Nil)
next
  case (Cons t ts)
  have rep: "(\<exists>m \<in> set (rxm (Rep (Cls f)) (b, s)). q \<in> set (rxm (rx_seq (map tok_rx ts)) m)) \<longleftrightarrow>
      (\<exists>u. s = u @ snd q \<and> (\<exists>v w. u = v @ w \<and> list_all f v \<and> glob ts w) \<and> fst q = lastb b u)" (is "?l \<longleftrightarrow> ?r") for f
  proof
    assume ?l
    then obtain m where m: "m \<in> set (rxm (Rep (Cls f)) (b, s))" "q \<in> set (rxm (rx_seq (map tok_rx ts)) (fst m, snd m))" by auto
    from m(1) obtain v where v: "s = v @ snd m" "list_all f v" "fst m = lastb b v" unfolding rxm_Rep_Cls by blast
    from m(2) obtain w where "snd m = w @ snd q" "glob ts w" "fst q = lastb (fst m) w" unfolding Cons by blast
    with v show ?r by (intro exI [of _ "v @ w"]) auto
  next
    assume ?r
    then obtain v w where u: "s = (v @ w) @ snd q" "list_all f v" "glob ts w" "fst q = lastb b (v @ w)" by blast
    then have "(lastb b v, w @ snd q) \<in> set (rxm (Rep (Cls f)) (b, s))" unfolding rxm_Rep_Cls by auto
    moreover have "q \<in> set (rxm (rx_seq (map tok_rx ts)) (lastb b v, w @ snd q))" unfolding Cons using u by auto
    ultimately show ?l by blast
  qed
  show ?case
  proof (cases t)
    case (T_lit c)
    have "(\<exists>m \<in> set (rxm (Cls f) (b, s)). q \<in> set (rxm (rx_seq (map tok_rx ts)) m)) \<longleftrightarrow>
        (\<exists>u. s = u @ snd q \<and> (\<exists>d w. u = d # w \<and> f d \<and> glob ts w) \<and> fst q = lastb b u)"
      (is "?l \<longleftrightarrow> ?r") for f
    proof
      assume ?l
      then obtain m where m: "m \<in> set (rxm (Cls f) (b, s))" "q \<in> set (rxm (rx_seq (map tok_rx ts)) (fst m, snd m))" by auto
      from m(1) obtain d where d: "s = d # snd m" "f d" "fst m = Some d" unfolding rxm_Cls by blast
      from m(2) obtain w where "snd m = w @ snd q" "glob ts w" "fst q = lastb (fst m) w" unfolding Cons by blast
      with d show ?r by (intro exI [of _ "d # w"]) (simp add: lastb_def)
    next
      assume ?r
      then obtain d w where u: "s = (d # w) @ snd q" "f d" "glob ts w" "fst q = lastb b (d # w)" by blast
      then have "(Some d, w @ snd q) \<in> set (rxm (Cls f) (b, s))" unfolding rxm_Cls by simp
      moreover have "q \<in> set (rxm (rx_seq (map tok_rx ts)) (Some d, w @ snd q))" unfolding Cons using u by (auto simp: lastb_def)
      ultimately show ?l by blast
    qed
    moreover have "glob (T_lit c # ts) u \<longleftrightarrow> (\<exists>d w. u = d # w \<and> lower_char d = lower_char c \<and> glob ts w)" for u
      by (cases u) auto
    ultimately show ?thesis unfolding T_lit list.map rxm_seq_Cons by simp
  next
    case T_any
    show ?thesis unfolding T_any list.map rxm_seq_Cons tok_rx.simps rx_any_def rep glob_any ..
  next
    case T_dots
    show ?thesis unfolding T_dots list.map rxm_seq_Cons tok_rx.simps rep glob_dots ..
  qed
qed

lemma rxm_tokens_ex:
  "(\<exists>m \<in> set (rxm (rx_seq (map tok_rx ts)) (b, s)). P (snd m)) \<longleftrightarrow> (\<exists>u t. s = u @ t \<and> glob ts u \<and> P t)" (is "?l \<longleftrightarrow> ?r")
proof
  assume ?l
  then obtain m where "m \<in> set (rxm (rx_seq (map tok_rx ts)) (b, s))" "P (snd m)" by blast
  then show ?r unfolding rxm_tokens by blast
next
  assume ?r
  then obtain u t where "s = u @ t" "glob ts u" "P t" by blast
  then have "(lastb b u, t) \<in> set (rxm (rx_seq (map tok_rx ts)) (b, s))" unfolding rxm_tokens by simp
  with \<open>P t\<close> show ?l by force
qed

lemma rx_full_tokens: "rx_full (rx_seq (map tok_rx ts)) s \<longleftrightarrow> glob ts s"
  unfolding rx_full_iff rxm_tokens by auto

lemma tail_match:
  "(\<exists>b'. (b', []) \<in> set (rxm (rx_seq [rx_opt (rx_seq [rx_lit '' '', Rep rx_any])]) (b, t))) \<longleftrightarrow>
     t = [] \<or> (\<exists>v. t = CHR '' '' # v \<and> list_all not_nl v)"
proof -
  have lit: "set (rxm (rx_lit '' '') (b, t)) = set (rxm (Cls (\<lambda>d. d = CHR '' '')) (b, t))"
    by (simp add: rx_lit_def rx_seq_def rxm_simps split: list.splits)
  have sp: "q \<in> set (rxm (rx_seq [rx_lit '' '', Rep rx_any]) (b, t)) \<longleftrightarrow>
      (\<exists>v. t = CHR '' '' # v @ snd q \<and> list_all not_nl v \<and> fst q = lastb (Some (CHR '' '')) v)" (is "?l \<longleftrightarrow> ?r") for q
  proof
    assume ?l
    then obtain m where m: "m \<in> set (rxm (Cls (\<lambda>d. d = CHR '' '')) (b, t))" "q \<in> set (rxm (Rep (Cls not_nl)) (fst m, snd m))"
      unfolding rxm_seq_Cons rxm_seq_Nil rx_any_def lit by auto
    then show ?r unfolding rxm_Cls rxm_Rep_Cls by auto
  next
    assume ?r
    then obtain v where v: "t = CHR '' '' # v @ snd q" "list_all not_nl v" "fst q = lastb (Some (CHR '' '')) v" by blast
    then have "(Some (CHR '' ''), v @ snd q) \<in> set (rxm (rx_lit '' '') (b, t))" unfolding lit rxm_Cls by simp
    moreover have "q \<in> set (rxm (Rep rx_any) (Some (CHR '' ''), v @ snd q))" unfolding rx_any_def rxm_Rep_Cls using v by auto
    ultimately show ?l unfolding rxm_seq_Cons rxm_seq_Nil by force
  qed
  have "(\<exists>b'. (b', []) \<in> set (rxm (rx_opt (rx_seq [rx_lit '' '', Rep rx_any])) (b, t))) \<longleftrightarrow>
      (\<exists>b'. (b', []) \<in> set (rxm (rx_seq [rx_lit '' '', Rep rx_any]) (b, t))) \<or> t = []"
    by (auto simp: rx_opt_def rxm_simps)
  moreover have "(\<exists>b'. (b', []) \<in> set (rxm (rx_seq [rx_opt (rx_seq [rx_lit '' '', Rep rx_any])]) (b, t))) \<longleftrightarrow>
      (\<exists>b'. (b', []) \<in> set (rxm (rx_opt (rx_seq [rx_lit '' '', Rep rx_any])) (b, t)))"
    unfolding rxm_seq_Cons rxm_seq_Nil by auto
  ultimately show ?thesis unfolding sp by auto
qed

lemma glob_append: "glob (ts @ us) s \<longleftrightarrow> (\<exists>u v. s = u @ v \<and> glob ts u \<and> glob us v)"
proof -
  have "glob (ts @ us) s \<longleftrightarrow> (\<exists>b. (b, []) \<in> set (rxm (rx_seq (map tok_rx ts @ map tok_rx us)) (None, s)))"
    by (simp add: rx_full_tokens [symmetric] rx_full_iff)
  also have "\<dots> \<longleftrightarrow> (\<exists>u v. s = u @ v \<and> glob ts u \<and> glob us v)"
    unfolding rxm_seq_append Bex_def split_paired_Ex rxm_tokens by auto
  finally show ?thesis .
qed

lemma glob_space_any: "glob [T_lit (CHR '' ''), T_any] v \<longleftrightarrow> (\<exists>w. v = CHR '' '' # w \<and> list_all not_nl w)"
proof -
  have low: "lower_char d = lower_char (CHR '' '') \<longleftrightarrow> d = CHR '' ''" for d
  proof
    assume "lower_char d = lower_char (CHR '' '')"
    moreover have sp: "lower_char (CHR '' '') = CHR '' ''" "char_code (CHR '' '') = (32 :: nat)" by code_simp+
    ultimately have "char_code (lower_char d) = (32 :: nat)" by simp
    moreover have "char_code (lower_char d) = char_code d + 32 \<and> char_code d \<noteq> (0 :: nat) \<or> lower_char d = d"
      by (auto simp: lower_char_def of_char_of is_upper_def)
    ultimately have "lower_char d = d" by auto
    with \<open>lower_char d = lower_char (CHR '' '')\<close> sp show "d = CHR '' ''" by simp
  qed simp
  show ?thesis by (cases v) (auto simp: glob_any low)
qed

lemma rx_full_tail:
  "rx_full (rx_seq (map tok_rx ts @ [rx_opt (rx_seq [rx_lit '' '', Rep rx_any])])) s \<longleftrightarrow>
     glob (ts @ [T_lit (CHR '' ''), T_any]) s \<or> glob ts s"
proof -
  note tail = glob_space_any
  let ?o = "rx_seq [rx_opt (rx_seq [rx_lit '' '', Rep rx_any])]"
  have "rx_full (rx_seq (map tok_rx ts @ [rx_opt (rx_seq [rx_lit '' '', Rep rx_any])])) s \<longleftrightarrow>
      (\<exists>m \<in> set (rxm (rx_seq (map tok_rx ts)) (None, s)). \<exists>b'. (b', []) \<in> set (rxm ?o (fst m, snd m)))"
    unfolding rx_full_iff rxm_seq_append by auto
  also have "\<dots> \<longleftrightarrow> (\<exists>m \<in> set (rxm (rx_seq (map tok_rx ts)) (None, s)). snd m = [] \<or> (\<exists>v. snd m = CHR '' '' # v \<and> list_all not_nl v))"
    unfolding tail_match ..
  also have "\<dots> \<longleftrightarrow> (\<exists>u t. s = u @ t \<and> glob ts u \<and> (t = [] \<or> (\<exists>v. t = CHR '' '' # v \<and> list_all not_nl v)))"
    by (rule rxm_tokens_ex)
  also have "\<dots> \<longleftrightarrow> glob (ts @ [T_lit (CHR '' ''), T_any]) s \<or> glob ts s"
    unfolding glob_append tail by (metis append_Nil2)
  finally show ?thesis .
qed

text \<open>The text of the expression, piece by piece.\<close>

fun tok_source :: "tok \<Rightarrow> string" where
  "tok_source (T_lit c) = escape_char c"
| "tok_source T_any = ''.*''"
| "tok_source T_dots = [BS] @ ''.*''"

definition proper :: "tok list \<Rightarrow> bool" where
  "proper ts \<longleftrightarrow> T_lit (CHR ''*'') \<notin> set ts"

lemma BS_code: "char_code c = 92 \<longleftrightarrow> c = BS"
proof -
  have "char_code BS = (92 :: nat)" by code_simp
  then show ?thesis by (metis of_char_eq_iff)
qed

lemma tokens_proper: "proper (tokens s)"
  by (induction s rule: tokens.induct) (auto simp: proper_def)

lemma star_not_syntax: "\<not> syntax_char (CHR ''*'')" "\<not> syntax_char (CHR '' '')" "syntax_char BS" "syntax_char (CHR ''.'')"
    "syntax_char (CHR ''('')" "syntax_char (CHR ''?'')"
  by code_simp+

lemma star_dots_plain: "c \<noteq> CHR ''*'' \<Longrightarrow> c \<noteq> BS \<or> (case s of [] \<Rightarrow> True | d # _ \<Rightarrow> d \<noteq> CHR ''*'') \<Longrightarrow> star_dots (c # s) = c # star_dots s"
  by (cases s) auto

lemma star_dots_star: "star_dots (CHR ''*'' # s) = ''.*'' @ star_dots s"
  by (cases s) auto

lemma star_dots_source: "star_dots (concat (map escape_char s)) = concat (map tok_source (tokens s))"
proof (induction s rule: tokens.induct)
  case (2 c)
  then show ?case by (auto simp: escape_char_def star_not_syntax star_dots_plain)
next
  case (3 c d s)
  have hd: "(case escape_char d @ u of [] \<Rightarrow> True | e # _ \<Rightarrow> e \<noteq> CHR ''*'') \<longleftrightarrow> d \<noteq> CHR ''*''" for u
    by (auto simp: escape_char_def star_not_syntax)
  consider (any) "c = CHR ''*''" | (dots) "c = BS" "d = CHR ''*''" | (lit) "c \<noteq> CHR ''*''" "\<not> (c = BS \<and> d = CHR ''*'')" by blast
  then show ?case
  proof cases
    case any
    with 3(1) show ?thesis by (simp add: escape_char_def star_not_syntax star_dots_star)
  next
    case dots
    with 3(2) show ?thesis by (simp add: escape_char_def star_not_syntax BS_code)
  next
    case lit
    then have "star_dots (escape_char c @ concat (map escape_char (d # s))) = escape_char c @ star_dots (concat (map escape_char (d # s)))"
      using hd [of "concat (map escape_char s)"] star_not_syntax
      by (auto simp: escape_char_def [of c] star_dots_plain)
    moreover have "tokens (c # d # s) = T_lit c # tokens (d # s)" using lit by (auto simp: BS_code)
    ultimately show ?thesis using 3(3) lit by (simp add: BS_code del: tokens.simps)
  qed
qed simp

lemma lower_dot: "lower_char d = lower_char (CHR ''.'') \<longleftrightarrow> d = CHR ''.''"
proof
  assume "lower_char d = lower_char (CHR ''.'')"
  moreover have sp: "lower_char (CHR ''.'') = CHR ''.''" "char_code (CHR ''.'') = (46 :: nat)" by code_simp+
  ultimately have "char_code (lower_char d) = (46 :: nat)" by simp
  moreover have "char_code (lower_char d) = char_code d + 32 \<and> 65 \<le> (char_code d :: nat) \<or> lower_char d = d"
    by (auto simp: lower_char_def of_char_of is_upper_def)
  ultimately have "lower_char d = d" by auto
  with \<open>lower_char d = lower_char (CHR ''.'')\<close> sp show "d = CHR ''.''" by simp
qed simp

lemma re_parse_atom:
  "re_atom s = Some (r, t) \<Longrightarrow> re_quantified r t = (r', t') \<Longrightarrow> re_parse s = map_option (\<lambda>rs. r' # rs) (re_parse t')"
  by (subst re_parse.simps) auto

definition no_quantifier :: "string \<Rightarrow> bool" where
  "no_quantifier s \<longleftrightarrow> (case s of [] \<Rightarrow> True | c # _ \<Rightarrow> c \<noteq> CHR ''*'' \<and> c \<noteq> CHR ''?'')"

lemma no_quantifier_source: "proper ts \<Longrightarrow> no_quantifier u \<Longrightarrow> no_quantifier (concat (map tok_source ts) @ u)"
proof (cases ts)
  case (Cons t us)
  assume "proper ts"
  with Cons show ?thesis
    by (cases t) (auto simp: no_quantifier_def escape_char_def proper_def star_not_syntax)
qed simp

lemma re_parse_source:
  "proper ts \<Longrightarrow> no_quantifier u \<Longrightarrow>
    re_parse (concat (map tok_source ts) @ u) = map_option (\<lambda>rs. map tok_rx ts @ rs) (re_parse u)"
proof (induction ts)
  case Nil
  then show ?case by (cases "re_parse u") simp_all
next
  case (Cons t ts)
  let ?rest = "concat (map tok_source ts) @ u"
  have p: "proper ts" and nq: "no_quantifier ?rest"
    using Cons.prems no_quantifier_source by (auto simp: proper_def)
  have "no_quantifier w \<Longrightarrow> re_quantified r w = (r, w)" for r w
    by (cases w) (simp_all add: re_quantified_def no_quantifier_def)
  note q = this [OF nq]
  have "re_parse (tok_source t @ ?rest) = map_option (\<lambda>rs. tok_rx t # rs) (re_parse ?rest)"
  proof (cases t)
    case (T_lit c)
    with Cons.prems(1) have "c \<noteq> CHR ''*''" by (auto simp: proper_def)
    then have "re_atom (escape_char c @ ?rest) = Some (Cls (\<lambda>x. lower_char x = lower_char c), ?rest)"
      using star_not_syntax by (auto simp: escape_char_def)
    from re_parse_atom [OF this q] T_lit show ?thesis by simp
  next
    case T_any
    have "re_atom (''.*'' @ ?rest) = Some (rx_any, CHR ''*'' # ?rest)" by simp
    from re_parse_atom [OF this, of "Rep rx_any" ?rest] T_any show ?thesis by (simp add: re_quantified_def)
  next
    case T_dots
    have "re_atom (([BS] @ ''.*'') @ ?rest) = Some (Cls (\<lambda>x. lower_char x = lower_char (CHR ''.'')), CHR ''*'' # ?rest)" by simp
    from re_parse_atom [OF this, of "Rep (Cls (\<lambda>x. x = CHR ''.''))" ?rest] T_dots
    show ?thesis by (simp add: re_quantified_def lower_dot)
  qed
  with Cons.IH [OF p Cons.prems(2)] show ?case by (simp add: option.map_comp comp_def)
qed

lemma source_tail:
  assumes "proper ts"
  shows "ends_with '' .*'' (concat (map tok_source ts)) \<longleftrightarrow> (\<exists>i. ts = i @ [T_lit (CHR '' ''), T_any])"
proof
  assume e: "ends_with '' .*'' (concat (map tok_source ts))"
  show "\<exists>i. ts = i @ [T_lit (CHR '' ''), T_any]"
  proof (cases ts rule: rev_cases)
    case Nil
    with e show ?thesis by (simp add: ends_with_def)
  next
    case (snoc us t)
    show ?thesis
    proof (cases t)
      case (T_lit c)
      with e snoc have "c = CHR ''*''" by (auto simp: ends_with_def escape_char_def split: if_splits)
      with snoc T_lit assms show ?thesis by (simp add: proper_def)
    next
      case T_dots
      with e snoc show ?thesis by (simp add: ends_with_def)
    next
      case T_any
      show ?thesis
      proof (cases us rule: rev_cases)
        case Nil
        with e snoc T_any show ?thesis by (simp add: ends_with_def)
      next
        case (snoc vs v)
        with e \<open>ts = us @ [t]\<close> T_any have "v = T_lit (CHR '' '')"
          using star_not_syntax by (cases v) (auto simp: ends_with_def escape_char_def split: if_splits)
        with snoc \<open>ts = us @ [t]\<close> T_any show ?thesis by simp
      qed
    qed
  qed
next
  assume "\<exists>i. ts = i @ [T_lit (CHR '' ''), T_any]"
  then show "ends_with '' .*'' (concat (map tok_source ts))"
    using star_not_syntax by (auto simp: ends_with_def escape_char_def)
qed

text \<open>Every pattern compiles, to the pieces in order, with an optional tail where it ends in a space and a star.\<close>

lemma pattern_compiles:
  "re_parse (pattern_source p) = Some (if \<exists>i. pattern_tokens p = i @ [T_lit (CHR '' ''), T_any]
     then map tok_rx (take (length (pattern_tokens p) - 2) (pattern_tokens p)) @ [rx_opt (rx_seq [rx_lit '' '', Rep rx_any])]
     else map tok_rx (pattern_tokens p))"
proof -
  let ?t = "if ends_with '':*'' p then take (length p - 2) p @ '' *'' else p"
  define ts where "ts = tokens ?t"
  have ts: "pattern_tokens p = ts" by (simp add: ts_def pattern_tokens_def)
  have pr: "proper ts" by (simp add: ts_def tokens_proper)
  have body: "star_dots (concat (map escape_char ?t)) = concat (map tok_source ts)" by (simp only: star_dots_source ts_def)
  show ?thesis
  proof (cases "\<exists>i. ts = i @ [T_lit (CHR '' ''), T_any]")
    case True
    then obtain i where i: "ts = i @ [T_lit (CHR '' ''), T_any]" by blast
    have "proper i" using pr i by (simp add: proper_def)
    have "concat (map tok_source ts) = concat (map tok_source i) @ '' .*''"
      using star_not_syntax by (simp add: i escape_char_def)
    then have "pattern_source p = concat (map tok_source i) @ ''(?: .*)?''"
      unfolding pattern_source_def Let_def body using True source_tail [OF pr] by simp
    moreover have "re_parse (concat (map tok_source i) @ ''(?: .*)?'') = map_option (\<lambda>rs. map tok_rx i @ rs) (re_parse ''(?: .*)?'')"
      by (rule re_parse_source [OF \<open>proper i\<close>]) (simp add: no_quantifier_def)
    moreover have "re_parse ''(?: .*)?'' = Some [rx_opt (rx_seq [rx_lit '' '', Rep rx_any])]"
      by (simp add: re_parse.simps re_quantified_def)
    ultimately show ?thesis using True i by (simp add: ts)
  next
    case False
    then have "pattern_source p = concat (map tok_source ts) @ []"
      unfolding pattern_source_def Let_def body using source_tail [OF pr] by simp
    moreover have "re_parse [] = Some []" by (simp add: re_parse.simps)
    ultimately show ?thesis
      using re_parse_source [OF pr, of "[]"] False by (simp add: ts no_quantifier_def)
  qed
qed

lemma pattern_regex_glob: "rx_full (patternToRegex p) s \<longleftrightarrow> glob_match p s"
proof (cases "\<exists>i. pattern_tokens p = i @ [T_lit (CHR '' ''), T_any]")
  case True
  then obtain i where i: "pattern_tokens p = i @ [T_lit (CHR '' ''), T_any]" by blast
  then have "patternToRegex p = rx_seq (map tok_rx i @ [rx_opt (rx_seq [rx_lit '' '', Rep rx_any])])"
    using True by (simp add: patternToRegex_def pattern_compiles)
  then show ?thesis using rx_full_tail [of i s] by (simp add: glob_match_def i)
next
  case False
  then have "patternToRegex p = rx_seq (map tok_rx (pattern_tokens p))"
    by (simp add: patternToRegex_def pattern_compiles)
  moreover have "drop (length (pattern_tokens p) - 2) (pattern_tokens p) \<noteq> [T_lit (CHR '' ''), T_any]"
    using False by (metis append_take_drop_id)
  ultimately show ?thesis by (simp add: glob_match_def rx_full_tokens Let_def)
qed

section \<open>Deciding\<close>

lemma find_SomeD: "find P xs = Some x \<Longrightarrow> x \<in> set xs \<and> P x"
  by (auto simp: find_Some_iff)

lemma rules_decision:
  assumes "p_effect (decide_rules c q) = Allow" "p_rule (decide_rules c q) \<noteq> None"
  shows "(\<exists>r \<in> set (pp_allow (parsePolicy c)). covers r q (fragments_of q) \<and> p_rule (decide_rules c q) = Some (r_source r)) \<and>
    (\<forall>d \<in> set (pp_deny (parsePolicy c)). \<not> touches d q (fragments_of q))"
proof (cases "find (\<lambda>r. touches r q (fragments_of q)) (pp_deny (parsePolicy c))")
  case (Some r)
  with assms(1) show ?thesis by (simp add: decide_rules_def decision_def)
next
  case None
  then have deny: "\<forall>d \<in> set (pp_deny (parsePolicy c)). \<not> touches d q (fragments_of q)" by (auto simp: find_None_iff)
  show ?thesis
  proof (cases "find (\<lambda>r. covers r q (fragments_of q)) (pp_allow (parsePolicy c))")
    case n: None
    with None assms(2) show ?thesis by (cases "pmode c") (simp_all add: decide_rules_def decision_def)
  next
    case (Some r)
    with None deny find_SomeD [OF Some] show ?thesis by (auto simp: decide_rules_def decision_def)
  qed
qed

lemma decidePolicy_rule: "p_rule (decidePolicy c q) \<noteq> None \<Longrightarrow> decidePolicy c q = decide_rules c q \<and>
    (\<forall>m. q_match q = Some m \<longrightarrow> hardlineFailure m = None)"
  by (auto simp: decidePolicy_def decision_def split: option.splits if_splits)

lemma authorize_allow:
  assumes "p_effect (authorize i) = Allow" "needs_authorization i"
  shows "p_effect (decidePolicy (a_policy i) (a_query i)) = Allow \<and> p_rule (decidePolicy (a_policy i) (a_query i)) \<noteq> None"
proof -
  let ?d = "decidePolicy (a_policy i) (a_query i)"
  have d: "p_effect ?d \<noteq> Deny" "p_rule ?d \<noteq> None"
    using assms by (auto simp: authorize_def Let_def decision_def split: if_splits)
  have "p_effect ?d \<noteq> Ask"
    using decidePolicy_rule [OF d(2)] d(2)
    by (auto simp: decide_rules_def Let_def decision_def split: option.splits policy_mode.splits)
  with d show ?thesis by (cases "p_effect ?d") auto
qed

section \<open>Parts of a command\<close>

lemma trim_subset: "set (trim s) \<subseteq> set s"
  by (auto simp: trim_def trim_start_def trim_end_def dest!: set_dropWhileD)

lemma strip_loop_subset: "set (strip_loop n s) \<subseteq> set s"
proof (induction n arbitrary: s)
  case (Suc n)
  show ?case
  proof (cases "rx_prefix WRAPPERS s")
    case (Some r)
    then obtain q where "q \<in> set (rxm WRAPPERS (None, s))" "r = snd q"
      by (cases "rxm WRAPPERS (None, s)") (auto simp: rx_prefix_def)
    from rxm_suffix [OF this(1)] this(2) have "set r \<subseteq> set s" by auto
    with Suc [of "trim r"] trim_subset [of r] Some show ?thesis by auto
  qed simp
qed simp

lemma split_seps_not_Nil: "split_seps s \<noteq> []"
  by (induction s rule: split_seps.induct) (auto split: list.splits)

lemma split_seps_parts: "w \<in> set (split_seps s) \<Longrightarrow> c \<in> set w \<Longrightarrow> \<not> sep_char c"
proof (induction s arbitrary: w rule: split_seps.induct)
  case (3 c' d s)
  have e: "split_seps (d # s) \<noteq> []" by (rule split_seps_not_Nil)
  then obtain v vs where vs: "split_seps (d # s) = v # vs" by (cases "split_seps (d # s)") auto
  consider "(c' = CHR ''&'' \<or> c' = CHR ''|'') \<and> d = c'" | "\<not> ((c' = CHR ''&'' \<or> c' = CHR ''|'') \<and> d = c')" "sep_char c'"
    | "\<not> ((c' = CHR ''&'' \<or> c' = CHR ''|'') \<and> d = c')" "\<not> sep_char c'" by blast
  then show ?case
  proof cases
    case 1
    with 3 show ?thesis by auto
  next
    case 2
    with 3 show ?thesis by auto
  next
    case 3
    from 3 vs "3.prems" consider "w = c' # v" | "w \<in> set vs" by auto
    then show ?thesis using "3.IH"(3) [OF 3, of v] "3.IH"(3) [OF 3, of w] vs "3.prems"(2) 3(2) by cases auto
  qed
qed (auto split: if_splits)

lemma split_seps_subset: "w \<in> set (split_seps s) \<Longrightarrow> set w \<subseteq> set s"
proof (induction s arbitrary: w rule: split_seps.induct)
  case (3 c d s)
  obtain v vs where vs: "split_seps (d # s) = v # vs" using split_seps_not_Nil [of "d # s"] by (cases "split_seps (d # s)") auto
  consider "(c = CHR ''&'' \<or> c = CHR ''|'') \<and> d = c" | "\<not> ((c = CHR ''&'' \<or> c = CHR ''|'') \<and> d = c)" "sep_char c"
    | "\<not> ((c = CHR ''&'' \<or> c = CHR ''|'') \<and> d = c)" "\<not> sep_char c" by blast
  then show ?case
  proof cases
    case 1
    with "3.prems" have "w = [] \<or> w \<in> set (split_seps s)" by simp
    with "3.IH"(1) [OF 1, of w] show ?thesis by auto
  next
    case 2
    then have "split_seps (c # d # s) = [] # split_seps (d # s)" by auto
    with "3.prems" have "w = [] \<or> w \<in> set (split_seps (d # s))" by simp
    with "3.IH"(2) [OF 2, of w] show ?thesis by auto
  next
    case 3
    from 3 vs "3.prems" consider "w = c # v" | "w \<in> set vs" by auto
    then show ?thesis using "3.IH"(3) [OF 3, of v] "3.IH"(3) [OF 3, of w] vs by cases auto
  qed
qed (auto split: if_splits)

section \<open>Properties\<close>

text \<open>Calls used in the examples.\<close>

definition demo_policy :: policy_config where
  "demo_policy = \<lparr>pmode = M_allow, pallow = [''exec(git *)''], pdeny = [''exec(git push:*)''], noApproverAllow = True\<rparr>"

definition demo_call :: "string \<Rightarrow> authorize_input" where
  "demo_call command = \<lparr>a_policy = demo_policy, a_query = \<lparr>q_slug = ''exec'', q_match = Some command\<rparr>,
     a_mutating = True, a_tainted = True, a_onMutate = On_refuse, a_approver = False\<rparr>"

text \<open>A command on the hardline floor is refused whatever the mode, the rules, the approver and the
  state of the turn.\<close>

theorem floor_is_absolute:
  assumes "q_match (a_query i) = Some command" "hardlineFailure command = Some what"
  shows "p_effect (authorize i) = Deny"
  using assms by (simp add: authorize_def decidePolicy_def decision_def)

theorem floor_is_absolute_witness:
  "hardlineFailure ''sudo rm -rf /'' = Some ''a recursive forced delete'' \<and>
   p_effect (authorize (demo_call ''sudo rm -rf /'')) = Deny"
proof -
  have "hardlineFailure ''sudo rm -rf /'' = Some ''a recursive forced delete''" by code_simp
  with floor_is_absolute [of "demo_call ''sudo rm -rf /''"] show ?thesis by (simp add: demo_call_def)
qed

text \<open>C17. A deny rule that touches any part of a command wins over every allow rule and mode.\<close>

theorem deny_wins:
  assumes "r \<in> set (pp_deny (parsePolicy (a_policy i)))" "touches r (a_query i) (fragments_of (a_query i))"
    "\<forall>c. q_match (a_query i) = Some c \<longrightarrow> length c \<le> MAX_MATCHABLE"
  shows "p_effect (authorize i) = Deny"
proof -
  have "\<exists>x. find (\<lambda>r. touches r (a_query i) (fragments_of (a_query i))) (pp_deny (parsePolicy (a_policy i))) = Some x"
    using assms(1,2) by (metis find_None_iff not_Some_eq)
  then have "p_effect (decide_rules (a_policy i) (a_query i)) = Deny" by (auto simp: decide_rules_def decision_def)
  with assms(3) have "p_effect (decidePolicy (a_policy i) (a_query i)) = Deny"
    by (auto simp: decidePolicy_def decision_def split: option.splits)
  then show ?thesis by (simp add: authorize_def)
qed

theorem deny_wins_witness: "p_effect (authorize (demo_call ''git status && git push'')) = Deny"
proof (rule deny_wins)
  let ?r = "\<lparr>r_source = ''exec(git push:*)'', r_slug = ''exec'', r_pattern = Some ''git push:*''\<rparr>"
  have "pp_deny (parsePolicy demo_policy) = [?r]" by code_simp
  then show "?r \<in> set (pp_deny (parsePolicy (a_policy (demo_call ''git status && git push''))))" by (simp add: demo_call_def)
  show "touches ?r (a_query (demo_call ''git status && git push'')) (fragments_of (a_query (demo_call ''git status && git push'')))"
    by code_simp
  show "\<forall>c. q_match (a_query (demo_call ''git status && git push'')) = Some c \<longrightarrow> length c \<le> MAX_MATCHABLE"
    by (simp add: demo_call_def MAX_MATCHABLE_def)
qed

text \<open>C18. Once untrusted content has entered a turn, a call that changes something runs only on an allow
  rule that covers every part of its command, with no deny rule touching any part and the floor clear.\<close>

theorem tainted_write_needs_rule:
  assumes "needs_authorization i" "p_effect (authorize i) = Allow"
  shows "(\<exists>r \<in> set (pp_allow (parsePolicy (a_policy i))). same_slug r (a_query i) \<and>
      (\<forall>p f. r_pattern r = Some p \<and> f \<in> set (fragments_of (a_query i)) \<longrightarrow> glob_match p f)) \<and>
    (\<forall>d \<in> set (pp_deny (parsePolicy (a_policy i))). \<not> touches d (a_query i) (fragments_of (a_query i))) \<and>
    (\<forall>m. q_match (a_query i) = Some m \<longrightarrow> hardlineFailure m = None)"
proof -
  note d = authorize_allow [OF assms(2,1)]
  note e = decidePolicy_rule [OF conjunct2 [OF d]]
  have "p_effect (decide_rules (a_policy i) (a_query i)) = Allow" "p_rule (decide_rules (a_policy i) (a_query i)) \<noteq> None"
    using d e by simp_all
  from rules_decision [OF this] obtain r where r: "r \<in> set (pp_allow (parsePolicy (a_policy i)))"
      "covers r (a_query i) (fragments_of (a_query i))"
    and deny: "\<forall>d \<in> set (pp_deny (parsePolicy (a_policy i))). \<not> touches d (a_query i) (fragments_of (a_query i))" by blast
  have "same_slug r (a_query i)"
    using r(2) by (cases "fragments_of (a_query i)") (auto simp: covers_def rule_matches_def split: if_splits)
  moreover have "\<forall>p f. r_pattern r = Some p \<and> f \<in> set (fragments_of (a_query i)) \<longrightarrow> glob_match p f"
    using r(2) by (auto simp: covers_def rule_matches_def list_all_iff pattern_regex_glob split: if_splits)
  ultimately show ?thesis using r(1) deny e by blast
qed

theorem tainted_write_needs_rule_witness:
  "p_effect (authorize (demo_call ''git add . && git commit'')) = Allow \<and>
   (\<exists>r \<in> set (pp_allow (parsePolicy demo_policy)). same_slug r (a_query (demo_call ''git add . && git commit'')))"
proof -
  have "needs_authorization (demo_call ''git add . && git commit'')" by code_simp
  moreover have "p_effect (authorize (demo_call ''git add . && git commit'')) = Allow" by code_simp
  ultimately show ?thesis
    using tainted_write_needs_rule [of "demo_call ''git add . && git commit''"] by (auto simp: demo_call_def)
qed

text \<open>The reference, read off the comment above \<open>patternToRegex\<close>: a star takes any run of characters (without CR
  and LF), any other character itself in either case, and a pattern that ends in a space or a colon and a
  star takes what the rest takes, alone or followed by a space and anything.\<close>

fun wild :: "string \<Rightarrow> string \<Rightarrow> bool" where
  "wild [] s = (s = [])"
| "wild (c # p) s =
     (if c = CHR ''*'' then list_ex (\<lambda>n. list_all not_nl (take n s) \<and> wild p (drop n s)) [0..<length s + 1]
      else (case s of [] \<Rightarrow> False | d # t \<Rightarrow> lower_char d = lower_char c \<and> wild p t))"

definition wild_command :: "string \<Rightarrow> string \<Rightarrow> bool" where
  "wild_command q s \<longleftrightarrow>
     wild q s \<or> list_ex (\<lambda>n. wild q (take n s) \<and> starts_with '' '' (drop n s) \<and> list_all not_nl (drop n s)) [0..<length s + 1]"

definition rule_glob :: "string \<Rightarrow> string \<Rightarrow> bool" where
  "rule_glob p s =
     (if ends_with '':*'' p \<or> ends_with '' *'' p then wild_command (take (length p - 2) p) s else wild p s)"

definition plain_tok :: "char \<Rightarrow> tok" where
  "plain_tok c = (if c = CHR ''*'' then T_any else T_lit c)"

lemma tokens_plain: "\<not> includes_str [BS, CHR ''*''] p \<Longrightarrow> tokens p = map plain_tok p"
  by (induction p rule: tokens.induct) (auto simp: plain_tok_def BS_code)

lemma wild_glob: "glob (map plain_tok p) s \<longleftrightarrow> wild p s"
proof (induction p arbitrary: s)
  case (Cons c p)
  show ?case
  proof (cases "c = CHR ''*''")
    case True
    have "glob (T_any # map plain_tok p) s \<longleftrightarrow> (\<exists>u v. s = u @ v \<and> list_all not_nl u \<and> glob (map plain_tok p) v)" by (rule glob_any)
    also have "\<dots> \<longleftrightarrow> (\<exists>n \<in> {0..<length s + 1}. list_all not_nl (take n s) \<and> wild p (drop n s))"
    proof
      assume "\<exists>u v. s = u @ v \<and> list_all not_nl u \<and> glob (map plain_tok p) v"
      then obtain u v where "s = u @ v" "list_all not_nl u" "wild p v" using Cons by blast
      then show "\<exists>n \<in> {0..<length s + 1}. list_all not_nl (take n s) \<and> wild p (drop n s)"
        by (intro bexI [of _ "length u"]) simp_all
    next
      assume "\<exists>n \<in> {0..<length s + 1}. list_all not_nl (take n s) \<and> wild p (drop n s)"
      then show "\<exists>u v. s = u @ v \<and> list_all not_nl u \<and> glob (map plain_tok p) v"
        using Cons by (metis append_take_drop_id)
    qed
    finally have "glob (T_any # map plain_tok p) s \<longleftrightarrow> (\<exists>n \<in> {0..<length s + 1}. list_all not_nl (take n s) \<and> wild p (drop n s))" .
    moreover have "map plain_tok (c # p) = T_any # map plain_tok p" using True by (simp add: plain_tok_def)
    ultimately show ?thesis using True by (simp only: wild.simps list_ex_iff set_upt if_True simp_thms)
  next
    case False
    then show ?thesis using Cons by (cases s) (simp_all add: plain_tok_def)
  qed
qed simp

lemma glob_command_tail: "glob [T_lit (CHR '' ''), T_any] v \<longleftrightarrow> starts_with '' '' v \<and> list_all not_nl v"
proof -
  have "not_nl (CHR '' '')" by code_simp
  then show ?thesis using glob_space_any [of v] by (cases v) auto
qed

lemma glob_wild_command:
  assumes "glob (map plain_tok q @ [T_lit (CHR '' ''), T_any]) s \<or> glob (map plain_tok q) s \<longleftrightarrow> P"
  shows "wild_command q s \<longleftrightarrow> P"
proof -
  have "glob (map plain_tok q @ [T_lit (CHR '' ''), T_any]) s \<longleftrightarrow>
      (\<exists>n \<in> {0..<length s + 1}. wild q (take n s) \<and> starts_with '' '' (drop n s) \<and> list_all not_nl (drop n s))"
    unfolding glob_append glob_command_tail wild_glob
  proof
    assume "\<exists>u v. s = u @ v \<and> wild q u \<and> starts_with '' '' v \<and> list_all not_nl v"
    then obtain u v where "s = u @ v" "wild q u \<and> starts_with '' '' v \<and> list_all not_nl v" by blast
    then show "\<exists>n \<in> {0..<length s + 1}. wild q (take n s) \<and> starts_with '' '' (drop n s) \<and> list_all not_nl (drop n s)"
      by (intro bexI [of _ "length u"]) simp_all
  qed (metis append_take_drop_id)
  with assms show ?thesis by (simp add: wild_command_def list_ex_iff wild_glob del: upt_Suc) blast
qed

lemma ends_with_two: "ends_with [c, d] p \<Longrightarrow> p = take (length p - 2) p @ [c, d]"
proof -
  assume "ends_with [c, d] p"
  then obtain r where "rev p = [d, c] @ r" by (auto simp: ends_with_def starts_with_iff)
  then have "p = rev r @ [c, d]" by (metis append_Cons append_Nil rev_append rev_rev_ident rev.simps)
  then show ?thesis by simp
qed

lemma rule_glob_match:
  assumes "\<not> includes_str [BS, CHR ''*''] p"
  shows "glob_match p s \<longleftrightarrow> rule_glob p s"
proof -
  let ?q = "take (length p - 2) p"
  have sub: "\<not> includes_str [BS, CHR ''*''] ?q"
    using assms by (metis append_assoc append_take_drop_id includes_iff)
  have tail: "tokens (?q @ '' *'') = map plain_tok ?q @ [T_lit (CHR '' ''), T_any]"
  proof -
    have "\<not> includes_str [BS, CHR ''*''] (?q @ '' *'')"
    proof
      assume "includes_str [BS, CHR ''*''] (?q @ '' *'')"
      then obtain l r where e: "?q @ '' *'' = l @ [BS, CHR ''*''] @ r" by (auto simp: includes_iff)
      show False
      proof (cases r rule: rev_cases)
        case Nil
        with e have "?q @ '' '' = l @ [BS]" by simp
        then show False by simp
      next
        case (snoc r' x)
        with e have "?q @ '' '' = l @ [BS, CHR ''*''] @ r'" by simp
        with sub show False
          by (cases r' rule: rev_cases) (auto simp: includes_iff)
      qed
    qed
    from tokens_plain [OF this] show ?thesis by (simp add: plain_tok_def)
  qed
  have match_tail: "glob_match p s \<longleftrightarrow> wild_command ?q s" if "pattern_tokens p = map plain_tok ?q @ [T_lit (CHR '' ''), T_any]"
    by (subst glob_wild_command [OF refl]) (simp add: glob_match_def that Let_def)
  consider (colon) "ends_with '':*'' p" | (space) "\<not> ends_with '':*'' p" "ends_with '' *'' p"
    | (plain) "\<not> ends_with '':*'' p" "\<not> ends_with '' *'' p" by blast
  then show ?thesis
  proof cases
    case colon
    then have "pattern_tokens p = map plain_tok ?q @ [T_lit (CHR '' ''), T_any]" by (simp add: pattern_tokens_def tail)
    with match_tail colon show ?thesis by (simp add: rule_glob_def)
  next
    case space
    then have "p = ?q @ '' *''" by (intro ends_with_two) simp
    then have "pattern_tokens p = map plain_tok ?q @ [T_lit (CHR '' ''), T_any]" using space(1) tail by (simp add: pattern_tokens_def)
    with match_tail space show ?thesis by (simp add: rule_glob_def)
  next
    case plain
    have toks: "pattern_tokens p = map plain_tok p" using plain(1) tokens_plain [OF assms] by (simp add: pattern_tokens_def)
    have "drop (length p - 2) (map plain_tok p) \<noteq> [T_lit (CHR '' ''), T_any]"
    proof
      assume d: "drop (length p - 2) (map plain_tok p) = [T_lit (CHR '' ''), T_any]"
      then have "map plain_tok (drop (length p - 2) p) = [plain_tok (CHR '' ''), plain_tok (CHR ''*'')]"
        by (simp add: drop_map plain_tok_def)
      then have "drop (length p - 2) p = '' *''" by (auto simp: map_eq_Cons_conv plain_tok_def split: if_splits)
      then have "p = ?q @ '' *''" by (metis append_take_drop_id)
      then have "ends_with '' *'' p" unfolding ends_with_def by (metis rev_append starts_with_append)
      with plain(2) show False by simp
    qed
    with toks plain show ?thesis by (simp add: glob_match_def rule_glob_def wild_glob Let_def)
  qed
qed

text \<open>C21. The regular expression compiled from a rule's pattern, its text escaped, rewritten and parsed again, always
  compiles, and matches exactly what the pattern denotes as a glob, in which a star stands for any run without CR
  and LF and a final \<open>:*\<close> or \<open> *\<close> for arguments that may be missing. A pattern with a backslash before a
  star is left out: the rewriting takes the backslash for an escape.\<close>

theorem patternToRegex_glob:
  assumes "\<not> includes_str [BS, CHR ''*''] pattern"
  shows "re_parse (pattern_source pattern) \<noteq> None \<and> rx_full (patternToRegex pattern) s = rule_glob pattern s"
  using pattern_regex_glob rule_glob_match [OF assms] by (simp add: pattern_compiles)

theorem patternToRegex_glob_witness:
  "rule_glob ''git:*'' ''GIT push'' \<and> rule_glob ''git:*'' ''git'' \<and> \<not> rule_glob ''git:*'' ''gitk'' \<and>
   rx_full (patternToRegex ''git:*'') ''git push'' \<and> \<not> rx_full (patternToRegex ''a.b*'') ''aXb''"
proof -
  have "\<not> includes_str [BS, CHR ''*''] ''git:*''" "\<not> includes_str [BS, CHR ''*''] ''a.b*''"
    "rule_glob ''git:*'' ''git push''" "\<not> rule_glob ''a.b*'' ''aXb''" "rule_glob ''git:*'' ''GIT push''"
    "rule_glob ''git:*'' ''git''" "\<not> rule_glob ''git:*'' ''gitk''" by code_simp+
  with patternToRegex_glob [of "''git:*''" "''git push''"] patternToRegex_glob [of "''a.b*''" "''aXb''"] show ?thesis by blast
qed

text \<open>A star is any run of characters but not across a carriage return, which does not separate commands
  either: a deny rule does not touch a command with one in its arguments.\<close>

theorem star_stops_at_carriage_return:
  "subcommands (''rm a'' @ [CHR 0x0D] @ ''b'') = [''rm a'' @ [CHR 0x0D] @ ''b''] \<and>
   rx_full (patternToRegex ''rm *'') ''rm ab'' \<and> \<not> rx_full (patternToRegex ''rm *'') (''rm a'' @ [CHR 0x0D] @ ''b'')"
  by code_simp

text \<open>Every part a command is split into is a non-empty piece of it without a separator.\<close>

theorem subcommands_parts:
  assumes "f \<in> set (subcommands command)"
  shows "f \<noteq> [] \<and> set f \<subseteq> set command \<and> (\<forall>c \<in> set f. \<not> sep_char c)"
proof -
  from assms obtain w where w: "w \<in> set (split_seps command)" "f = stripWrappers w" "f \<noteq> []"
    by (auto simp: subcommands_def)
  have sub: "set f \<subseteq> set w" using strip_loop_subset [of 4 "trim w"] trim_subset [of w] w(2) by (auto simp: stripWrappers_def)
  moreover have "set w \<subseteq> set command" using split_seps_subset w(1) by blast
  ultimately show ?thesis using w split_seps_parts by blast
qed

theorem subcommands_parts_witness:
  "subcommands ''timeout 5 git status && rm x'' = [''git status'', ''rm x''] \<and> (\<forall>c \<in> set ''rm x''. \<not> sep_char c)"
proof -
  have "subcommands ''timeout 5 git status && rm x'' = [''git status'', ''rm x'']" by code_simp
  with subcommands_parts [of "''rm x''" "''timeout 5 git status && rm x''"] show ?thesis by simp
qed

text \<open>The load-time warning is right: a call to a tool it names, in a turn its own first call has
  tainted, never runs without an approval.\<close>

theorem once_only_sound:
  assumes "o_slug t \<in> set (onceOnlyTools tools (a_policy i) (a_onMutate i))" "a_tainted i" "a_mutating i"
    "q_slug (a_query i) = o_slug t"
  shows "p_effect (authorize i) \<noteq> Allow"
proof
  assume a: "p_effect (authorize i) = Allow"
  have "a_onMutate i \<noteq> On_allow" using assms(1) by (auto simp: onceOnlyTools_def)
  then have "needs_authorization i" using assms(2,3) by (simp add: needs_authorization_def)
  note d = authorize_allow [OF a this]
  with rules_decision [of "a_policy i" "a_query i"] decidePolicy_rule [OF conjunct2 [OF d]]
  obtain r where r: "r \<in> set (pp_allow (parsePolicy (a_policy i)))" "covers r (a_query i) (fragments_of (a_query i))" by auto
  have "same_slug r (a_query i)"
    using r(2) by (cases "fragments_of (a_query i)") (auto simp: covers_def rule_matches_def split: if_splits)
  with assms(4) r(1) have "to_lower (o_slug t) \<in> set (map (\<lambda>r. to_lower (r_slug r)) (pp_allow (parsePolicy (a_policy i))))"
    by (auto simp: same_slug_def intro!: image_eqI [of _ _ r])
  with assms(1) show False by (auto simp: onceOnlyTools_def Let_def split: if_splits)
qed

theorem once_only_sound_witness:
  "onceOnlyTools [\<lparr>o_slug = ''sh'', o_mutating = True, o_trust = Some ''untrusted''\<rparr>] demo_policy On_refuse = [''sh''] \<and>
   p_effect (authorize ((demo_call ''ls'')\<lparr>a_query := \<lparr>q_slug = ''sh'', q_match = Some ''ls''\<rparr>\<rparr>)) \<noteq> Allow"
proof -
  let ?t = "\<lparr>o_slug = ''sh'', o_mutating = True, o_trust = Some ''untrusted''\<rparr>"
  have "onceOnlyTools [?t] demo_policy On_refuse = [''sh'']" by code_simp
  with once_only_sound [of ?t "[?t]" "(demo_call ''ls'')\<lparr>a_query := \<lparr>q_slug = ''sh'', q_match = Some ''ls''\<rparr>\<rparr>"]
  show ?thesis by (simp add: demo_call_def)
qed

text \<open>Padding lifts a deny rule: a command of more than ten thousand characters is asked before the
  rules are read, so with no approver and \<open>onNoApprover: allow\<close> it runs, under a rule that denies the whole tool.\<close>

theorem padded_command_escapes_deny:
  "\<exists>i. a_policy i = \<lparr>pmode = M_deny, pallow = [], pdeny = [''exec''], noApproverAllow = True\<rparr> \<and>
     q_slug (a_query i) = ''exec'' \<and> a_mutating i \<and> p_effect (authorize i) = Allow"
proof -
  let ?c = "replicate 10001 (CHR ''a'')"
  let ?p = "\<lparr>pmode = M_deny, pallow = [], pdeny = [''exec''], noApproverAllow = True\<rparr>"
  let ?q = "\<lparr>q_slug = ''exec'', q_match = Some ?c\<rparr>"
  have "list_all (\<lambda>e. dead ''a'' (fst e)) HARDLINE" by code_simp
  then have "\<not> rx_test r ?c" if "(r, w) \<in> set HARDLINE" for r w
    using that dead_no_test [of "''a''" r ?c] by (auto simp: list_all_iff)
  moreover have "floor_entry es ?c = None" if "\<forall>(r, w) \<in> set es. \<not> rx_test r ?c" for es
    using that by (induction es) auto
  ultimately have "hardlineFailure ?c = None" unfolding hardlineFailure_def by blast
  then have "decidePolicy ?p ?q = decision Ask (R_long ''exec'' 10001) None"
    by (simp add: decidePolicy_def MAX_MATCHABLE_def)
  then show ?thesis
    by (intro exI [of _ "\<lparr>a_policy = ?p, a_query = ?q, a_mutating = True, a_tainted = False, a_onMutate = On_refuse, a_approver = False\<rparr>"])
      (simp add: authorize_def decision_def needs_authorization_def resolveWithoutApprover_def)
qed

text \<open>The floor misses the same deletes written with separate flags, and with anything after them.\<close>

theorem floor_misses_deletes:
  "hardlineFailure ''rm -rf /'' = Some ''a recursive forced delete'' \<and>
   hardlineFailure ''rm -r -f /'' = None \<and> hardlineFailure ''rm -rf / && ls'' = None"
  by code_simp

end
