(* ===== verification/Semver.thy ===== *)
theory Semver
  imports Prelude
begin

text \<open>
  \<open>packages/core/src/plugins/semver.ts\<close>: whether the host's version satisfies the range a plugin declares.
  The three answers of \<open>satisfies\<close> are \<open>Some True\<close>, \<open>Some False\<close> and \<open>None\<close> for a range it cannot read.
\<close>

section \<open>Versions\<close>

record version =
  major :: nat
  minor :: nat
  patch :: nat

definition mkv :: "nat \<Rightarrow> nat \<Rightarrow> nat \<Rightarrow> version" where
  "mkv a b c = \<lparr>major = a, minor = b, patch = c\<rparr>"

text \<open>\<open>EXACT\<close>: three runs of digits separated by dots.\<close>

definition parseVersion :: "string \<Rightarrow> version option" where
  "parseVersion raw =
     (case split_on (CHR ''.'') (trim raw) of
        [a, b, c] \<Rightarrow>
          if all_digits a \<and> all_digits b \<and> all_digits c then Some (mkv (to_number a) (to_number b) (to_number c)) else None
      | _ \<Rightarrow> None)"

definition pre_char :: "char \<Rightarrow> bool" where
  "pre_char c \<longleftrightarrow> is_digit c \<or> is_alpha c \<or> c = CHR ''.'' \<or> c = CHR ''-''"

text \<open>A version, then nothing or a dash and a pre-release identifier.\<close>

definition parseHostVersion :: "string \<Rightarrow> version option" where
  "parseHostVersion raw =
     (let t = trim raw; base = takeWhile (\<lambda>c. is_digit c \<or> c = CHR ''.'') t; rest = dropWhile (\<lambda>c. is_digit c \<or> c = CHR ''.'') t in
      if rest = [] then parseVersion base
      else if hd rest = CHR ''-'' \<and> tl rest \<noteq> [] \<and> list_all pre_char (tl rest) then parseVersion base
      else None)"

definition parsePartial :: "string \<Rightarrow> (version \<times> nat) option" where
  "parsePartial raw =
     (let parts = split_on (CHR ''.'') (trim raw) in
      if \<not> list_all all_digits parts then None
      else (case parts of
              [a] \<Rightarrow> Some (mkv (to_number a) 0 0, 1)
            | [a, b] \<Rightarrow> Some (mkv (to_number a) (to_number b) 0, 2)
            | [a, b, c] \<Rightarrow> Some (mkv (to_number a) (to_number b) (to_number c), 3)
            | _ \<Rightarrow> None))"

definition compare :: "version \<Rightarrow> version \<Rightarrow> int" where
  "compare a b =
     (if major a \<noteq> major b then int (major a) - int (major b)
      else if minor a \<noteq> minor b then int (minor a) - int (minor b)
      else int (patch a) - int (patch b))"

definition caretUpper :: "version \<Rightarrow> version" where
  "caretUpper v =
     (if major v \<noteq> 0 then mkv (major v + 1) 0 0
      else if minor v \<noteq> 0 then mkv 0 (minor v + 1) 0
      else mkv 0 0 (patch v + 1))"

definition tildeUpper :: "version \<Rightarrow> nat \<Rightarrow> version" where
  "tildeUpper v specified =
     (if specified = 1 then mkv (major v + 1) 0 0 else mkv (major v) (minor v + 1) 0)"

section \<open>Ranges\<close>

datatype operator = Op_ge | Op_le | Op_gt | Op_lt | Op_eq | Op_caret | Op_tilde | Op_none

text \<open>\<open>/^(>=|<=|>|<|=|\^|~)?\s*(\S.*)$/\<close> on a term, which holds no white space. A lone operator has no
  operand after it, so it is read as the operand of no operator.\<close>

definition split_operator :: "string \<Rightarrow> (operator \<times> string) option" where
  "split_operator term =
     (if term = [] then None
      else if starts_with ''>='' term \<and> drop 2 term \<noteq> [] then Some (Op_ge, drop 2 term)
      else if starts_with ''<='' term \<and> drop 2 term \<noteq> [] then Some (Op_le, drop 2 term)
      else if starts_with ''>'' term \<and> drop 1 term \<noteq> [] then Some (Op_gt, drop 1 term)
      else if starts_with ''<'' term \<and> drop 1 term \<noteq> [] then Some (Op_lt, drop 1 term)
      else if starts_with ''='' term \<and> drop 1 term \<noteq> [] then Some (Op_eq, drop 1 term)
      else if starts_with ''^'' term \<and> drop 1 term \<noteq> [] then Some (Op_caret, drop 1 term)
      else if starts_with ''~'' term \<and> drop 1 term \<noteq> [] then Some (Op_tilde, drop 1 term)
      else Some (Op_none, term))"

definition term_holds :: "version \<Rightarrow> operator \<Rightarrow> version \<Rightarrow> nat \<Rightarrow> bool" where
  "term_holds v op bound specified =
     (case op of
        Op_caret \<Rightarrow> compare v bound \<ge> 0 \<and> compare v (caretUpper bound) < 0
      | Op_tilde \<Rightarrow> compare v bound \<ge> 0 \<and> compare v (tildeUpper bound specified) < 0
      | Op_ge \<Rightarrow> compare v bound \<ge> 0
      | Op_le \<Rightarrow> compare v bound \<le> 0
      | Op_gt \<Rightarrow> compare v bound > 0
      | Op_lt \<Rightarrow> compare v bound < 0
      | _ \<Rightarrow> if specified = 3 then compare v bound = 0
             else if specified = 2 then major v = major bound \<and> minor v = minor bound
             else major v = major bound)"

definition satisfiesTerm :: "version \<Rightarrow> string \<Rightarrow> bool option" where
  "satisfiesTerm v term =
     (if term = ''*'' \<or> term = ''x'' \<or> term = ''X'' then Some True
      else case split_operator term of
        None \<Rightarrow> None
      | Some (op, operand) \<Rightarrow>
          (case parsePartial operand of None \<Rightarrow> None | Some (bound, specified) \<Rightarrow> Some (term_holds v op bound specified)))"

text \<open>\<open>range.split("||")\<close>.\<close>

fun split_bars :: "string \<Rightarrow> string list" where
  "split_bars [] = [[]]"
| "split_bars [c] = [[c]]"
| "split_bars (c # d # s) =
     (if c = CHR ''|'' \<and> d = CHR ''|'' then [] # split_bars s
      else (case split_bars (d # s) of [] \<Rightarrow> [[c]] | w # ws \<Rightarrow> (c # w) # ws))"

text \<open>The loop over terms stops at one it cannot read, and otherwise says whether all hold.\<close>

fun all_terms :: "version \<Rightarrow> string list \<Rightarrow> bool \<Rightarrow> bool option" where
  "all_terms v [] ok = Some ok"
| "all_terms v (t # ts) ok =
     (case satisfiesTerm v t of None \<Rightarrow> None | Some r \<Rightarrow> all_terms v ts (ok \<and> r))"

fun any_alternative :: "version \<Rightarrow> string list \<Rightarrow> bool option" where
  "any_alternative v [] = Some False"
| "any_alternative v (a # as) =
     (let terms = split_ws (trim a) in
      if terms = [] then None
      else (case all_terms v terms True of
              None \<Rightarrow> None
            | Some True \<Rightarrow> Some True
            | Some False \<Rightarrow> any_alternative v as))"

definition satisfies :: "string \<Rightarrow> string \<Rightarrow> bool option" where
  "satisfies version rng =
     (case parseHostVersion version of
        None \<Rightarrow> None
      | Some v \<Rightarrow> any_alternative v (split_bars rng))"

section \<open>The order of versions\<close>

definition key :: "version \<Rightarrow> nat \<times> nat \<times> nat" where
  "key v = (major v, minor v, patch v)"

definition vless :: "version \<Rightarrow> version \<Rightarrow> bool" where
  "vless a b \<longleftrightarrow> major a < major b \<or> major a = major b \<and> (minor a < minor b \<or> minor a = minor b \<and> patch a < patch b)"

lemma compare_less: "compare a b < 0 \<longleftrightarrow> vless a b"
  by (auto simp: compare_def vless_def)

lemma compare_eq: "compare a b = 0 \<longleftrightarrow> a = b"
  by (cases a; cases b) (auto simp: compare_def)

lemma compare_swap: "compare b a = - compare a b"
  by (simp add: compare_def)

lemma compare_ge: "compare a b \<ge> 0 \<longleftrightarrow> \<not> vless a b"
  by (metis compare_less linorder_not_less)

text \<open>The reference: the versions a range term means, as an interval.\<close>

definition caret_range :: "version \<Rightarrow> version \<Rightarrow> bool" where
  "caret_range b v \<longleftrightarrow> \<not> vless v b \<and>
     (if major b \<noteq> 0 then major v = major b
      else if minor b \<noteq> 0 then major v = 0 \<and> minor v = minor b
      else v = b)"

lemma caret_upper: "\<not> vless v b \<Longrightarrow> vless v (caretUpper b) \<longleftrightarrow> caret_range b v"
  by (cases v; cases b) (auto simp: vless_def caretUpper_def caret_range_def mkv_def)

lemma tilde_upper: "\<not> vless v b \<Longrightarrow> n \<noteq> 1 \<Longrightarrow> vless v (tildeUpper b n) \<longleftrightarrow> major v = major b \<and> minor v = minor b"
  by (cases v; cases b) (auto simp: vless_def tildeUpper_def mkv_def)

lemma tilde_upper1: "\<not> vless v b \<Longrightarrow> vless v (tildeUpper b 1) \<longleftrightarrow> major v = major b"
  by (cases v; cases b) (auto simp: vless_def tildeUpper_def mkv_def)

section \<open>Answers\<close>

lemma all_terms_Some: "all_terms v ts ok = Some r \<longleftrightarrow> (\<forall>t \<in> set ts. satisfiesTerm v t \<noteq> None) \<and>
    r = (ok \<and> (\<forall>t \<in> set ts. satisfiesTerm v t = Some True))"
  by (induction ts arbitrary: ok) (auto split: option.splits)

definition alt_holds :: "version \<Rightarrow> string \<Rightarrow> bool" where
  "alt_holds v a \<longleftrightarrow> split_ws (trim a) \<noteq> [] \<and> (\<forall>t \<in> set (split_ws (trim a)). satisfiesTerm v t = Some True)"

definition alt_read :: "version \<Rightarrow> string \<Rightarrow> bool" where
  "alt_read v a \<longleftrightarrow> split_ws (trim a) \<noteq> [] \<and> (\<forall>t \<in> set (split_ws (trim a)). satisfiesTerm v t \<noteq> None)"

lemma alt_cases:
  "all_terms v (split_ws (trim a)) True = (if \<not> (\<forall>t \<in> set (split_ws (trim a)). satisfiesTerm v t \<noteq> None) then None
     else Some (\<forall>t \<in> set (split_ws (trim a)). satisfiesTerm v t = Some True))"
proof (cases "\<forall>t \<in> set (split_ws (trim a)). satisfiesTerm v t \<noteq> None")
  case True
  then show ?thesis using all_terms_Some [of v "split_ws (trim a)" True] by simp
next
  case False
  with all_terms_Some [of v "split_ws (trim a)" True] have "all_terms v (split_ws (trim a)) True \<noteq> Some r" for r by blast
  with False show ?thesis by auto
qed

lemma any_alternative_cases:
  "any_alternative v (a # as) = (if alt_holds v a then Some True else if alt_read v a then any_alternative v as else None)"
  by (auto simp: alt_holds_def alt_read_def alt_cases Let_def split: bool.splits)

lemma any_True: "any_alternative v as = Some True \<longleftrightarrow>
    (\<exists>xs a ys. as = xs @ a # ys \<and> alt_holds v a \<and> (\<forall>x \<in> set xs. alt_read v x))"
proof (induction as)
  case (Cons b as)
  show ?case
  proof
    assume "any_alternative v (b # as) = Some True"
    then consider "alt_holds v b" | "alt_read v b" "any_alternative v as = Some True"
      by (auto simp: any_alternative_cases simp del: any_alternative.simps split: if_splits)
    then show "\<exists>xs a ys. b # as = xs @ a # ys \<and> alt_holds v a \<and> (\<forall>x \<in> set xs. alt_read v x)"
    proof cases
      case 1
      then show ?thesis by (intro exI [of _ "[]"] exI [of _ b] exI [of _ as]) simp
    next
      case 2
      with Cons obtain xs a ys where "as = xs @ a # ys" "alt_holds v a" "\<forall>x \<in> set xs. alt_read v x" by blast
      with 2 show ?thesis by (intro exI [of _ "b # xs"] exI [of _ a] exI [of _ ys]) simp
    qed
  next
    assume "\<exists>xs a ys. b # as = xs @ a # ys \<and> alt_holds v a \<and> (\<forall>x \<in> set xs. alt_read v x)"
    then obtain xs a ys where x: "b # as = xs @ a # ys" "alt_holds v a" "\<forall>x \<in> set xs. alt_read v x" by blast
    show "any_alternative v (b # as) = Some True"
    proof (cases xs)
      case Nil
      with x show ?thesis by (simp add: any_alternative_cases del: any_alternative.simps)
    next
      case (Cons c zs)
      with x Cons.IH have "any_alternative v as = Some True" by auto
      with x Cons show ?thesis by (simp add: any_alternative_cases del: any_alternative.simps)
    qed
  qed
qed simp

section \<open>Properties\<close>

text \<open>A caret term admits the versions from its bound on that keep the leftmost non-zero part, a tilde
  term those that keep the minor (the major alone where no minor is given).\<close>

theorem caret_tilde_ranges:
  "term_holds v Op_caret b n = caret_range b v \<and>
   term_holds v Op_tilde b n = (\<not> vless v b \<and> major v = major b \<and> (n = 1 \<or> minor v = minor b))"
  using caret_upper [of v b] tilde_upper [of v b n] tilde_upper1 [of v b]
  by (cases "n = 1") (auto simp: term_holds_def compare_ge compare_less caret_range_def)

text \<open>A range is satisfied exactly when one of its alternatives holds and every alternative before it
  could be read.\<close>

theorem satisfies_alternatives:
  "satisfies host rng = Some True \<longleftrightarrow>
    (\<exists>v xs a ys. parseHostVersion host = Some v \<and> split_bars rng = xs @ a # ys \<and> alt_holds v a \<and> (\<forall>x \<in> set xs. alt_read v x))"
  by (auto simp: satisfies_def any_True split: option.splits)

theorem satisfies_alternatives_witness:
  "\<exists>v xs a ys. parseHostVersion ''1.2.3'' = Some v \<and> split_bars ''^2 || ^1'' = xs @ a # ys \<and> alt_holds v a \<and> (\<forall>x \<in> set xs. alt_read v x)"
proof -
  have "satisfies ''1.2.3'' ''^2 || ^1'' = Some True" by code_simp
  then show ?thesis unfolding satisfies_alternatives .
qed

text \<open>An alternative that cannot be read is assumed away when an earlier one holds, and \<open>^0\<close> admits
  0.0.0 only.\<close>

theorem unread_alternative_passes:
  "satisfies ''1.2.3'' ''^1 || nonsense'' = Some True \<and> satisfies ''1.2.3'' ''nonsense || ^1'' = None \<and>
   satisfies ''0.0.1'' ''^0'' = Some False \<and> satisfies ''0.0.0'' ''^0'' = Some True"
  by code_simp

end
