(* ===== verification/Lease.thy ===== *)
theory Lease
  imports Regex
begin

text \<open>
  Who may serve an agent: the lease table of \<open>store/sqlite/store.ts\<close> and \<open>runtime/lease.ts\<close>, which probes the
  holder and claims. The operating system's answers (\<open>process.kill(pid, 0)\<close>, \<open>/proc/<pid>/exe\<close>), the clock and
  the set of runtimes alive in this process are arguments. Another process may act between the probe and
  the claim, so a claim takes the lease as it was probed apart from the table it acts on.
\<close>

section \<open>The lease table\<close>

datatype runtime_mode = Daemon | Terminal | Embedded

record lease =
  l_agent :: string
  l_runtime :: string
  l_pid :: int
  l_mode :: runtime_mode
  l_started :: int
  l_beat :: "int option"
  l_url :: "string option"

type_synonym leases = "string \<rightharpoonup> lease"

record claim_input =
  c_agent :: string
  c_runtime :: string
  c_pid :: int
  c_mode :: runtime_mode
  c_now :: int
  c_steal :: "string option"

definition new_lease :: "claim_input \<Rightarrow> lease" where
  "new_lease c = \<lparr>l_agent = c_agent c, l_runtime = c_runtime c, l_pid = c_pid c, l_mode = c_mode c,
     l_started = c_now c, l_beat = Some (c_now c), l_url = None\<rparr>"

text \<open>\<open>Inl\<close> the holder for a refusal, \<open>Inr\<close> the lease and whom it was taken from.\<close>

definition lease_claim :: "leases \<Rightarrow> claim_input \<Rightarrow> (lease + lease \<times> lease option) \<times> leases" where
  "lease_claim t c =
     (case t (c_agent c) of
        None \<Rightarrow> (Inr (new_lease c, None), t(c_agent c \<mapsto> new_lease c))
      | Some held \<Rightarrow>
          if l_runtime held \<noteq> c_runtime c \<and> c_steal c \<noteq> Some (l_runtime held) then (Inl held, t)
          else (Inr (new_lease c, if l_runtime held = c_runtime c then None else Some held),
                t(c_agent c \<mapsto> new_lease c)))"

definition holds :: "leases \<Rightarrow> string \<Rightarrow> string \<Rightarrow> bool" where
  "holds t a rt \<longleftrightarrow> (case t a of None \<Rightarrow> False | Some l \<Rightarrow> l_runtime l = rt)"

definition lease_beat :: "leases \<Rightarrow> string \<Rightarrow> string \<Rightarrow> int \<Rightarrow> bool \<times> leases" where
  "lease_beat t a rt now =
     (if holds t a rt then (True, t(a := map_option (\<lambda>l. l\<lparr>l_beat := Some now\<rparr>) (t a))) else (False, t))"

definition lease_publish :: "leases \<Rightarrow> string \<Rightarrow> string \<Rightarrow> leases" where
  "lease_publish t rt url = (\<lambda>a. map_option (\<lambda>l. if l_runtime l = rt then l\<lparr>l_url := Some url\<rparr> else l) (t a))"

definition lease_release :: "leases \<Rightarrow> string \<Rightarrow> string \<Rightarrow> leases" where
  "lease_release t a rt = (if holds t a rt then t(a := None) else t)"

section \<open>Liveness\<close>

definition LEASE_STALE_MS :: int where "LEASE_STALE_MS = 90000"
definition LEASE_BEAT_MS :: int where "LEASE_BEAT_MS = 30000"
definition LEASE_REUSE_FACTOR :: int where "LEASE_REUSE_FACTOR = 30"

text \<open>\<open>LIVE_RUNTIMES\<close>, the runtimes of this process.\<close>

definition markRuntimeLive :: "string list \<Rightarrow> string \<Rightarrow> bool \<Rightarrow> string list" where
  "markRuntimeLive live rt on = (if on then (if rt \<in> set live then live else live @ [rt]) else removeAll rt live)"

record claim_options =
  o_agents :: "string list"
  o_runtime :: string
  o_mode :: runtime_mode
  o_now :: int
  o_pid :: int
  o_exclusive :: bool
  o_alive :: "int \<Rightarrow> bool"
  o_exe :: "int \<Rightarrow> string option"
  o_live :: "string list"

definition RUNTIME_EXECUTABLES :: rx where
  "RUNTIME_EXECUTABLES = Cat (rx_alts [rx_lit ''node'', rx_lit ''nodejs'', rx_lit ''bun''])
     (rx_opt (Cat (rx_plus (Cls is_digit)) (Rep (Cat (rx_lit ''.'') (rx_plus (Cls is_digit))))))"

definition live :: "claim_options \<Rightarrow> lease \<Rightarrow> bool" where
  "live opt l =
     (if \<not> o_alive opt (l_pid l) then False
      else if l_pid l = o_pid opt \<and> l_runtime l \<notin> set (o_live opt) then False
      else if l_pid l = 1 \<and> (case o_exe opt 1 of None \<Rightarrow> False | Some e \<Rightarrow> \<not> rx_full RUNTIME_EXECUTABLES e) then False
      else (case l_beat l of None \<Rightarrow> True
            | Some beat \<Rightarrow> o_now opt - beat < LEASE_STALE_MS * LEASE_REUSE_FACTOR))"

text \<open>One agent of the loop: \<open>probed\<close> is what \<open>leases.get\<close> returned, \<open>t\<close> the table at the claim.\<close>

definition claim_probed :: "claim_options \<Rightarrow> string \<Rightarrow> lease option \<Rightarrow> leases \<Rightarrow> (lease + lease \<times> lease option) \<times> leases" where
  "claim_probed opt a probed t =
     lease_claim t \<lparr>c_agent = a, c_runtime = o_runtime opt, c_pid = o_pid opt, c_mode = o_mode opt, c_now = o_now opt,
       c_steal = (case probed of
          Some held \<Rightarrow> if l_runtime held \<noteq> o_runtime opt \<and> \<not> live opt held then Some (l_runtime held) else None
        | None \<Rightarrow> None)\<rparr>"

record lease_outcome =
  owned :: "string list"
  tookOver :: "lease list"
  declined :: "lease list"

fun claim_loop :: "claim_options \<Rightarrow> string list \<Rightarrow> lease_outcome \<Rightarrow> leases \<Rightarrow> lease_outcome \<times> leases" where
  "claim_loop opt [] oc t = (oc, t)"
| "claim_loop opt (a # as) oc t =
     (case claim_probed opt a (t a) t of
        (Inr (_, took), t') \<Rightarrow>
          claim_loop opt as (oc\<lparr>owned := owned oc @ [a],
            tookOver := tookOver oc @ (case took of None \<Rightarrow> [] | Some l \<Rightarrow> [l])\<rparr>) t'
      | (Inl held, t') \<Rightarrow> claim_loop opt as (oc\<lparr>declined := declined oc @ [held]\<rparr>) t')"

text \<open>\<open>agent_already_serving\<close> carries the first lease that was refused.\<close>

definition claimLeases :: "claim_options \<Rightarrow> leases \<Rightarrow> (lease + lease_outcome) \<times> leases" where
  "claimLeases opt t =
     (let (oc, t') = claim_loop opt (o_agents opt) \<lparr>owned = [], tookOver = [], declined = []\<rparr> t in
      if o_exclusive opt \<and> owned oc = [] \<and> declined oc \<noteq> [] then (Inl (hd (declined oc)), t') else (Inr oc, t'))"

section \<open>Lemmas\<close>

lemma claim_other_agents: "b \<noteq> c_agent c \<Longrightarrow> snd (lease_claim t c) b = t b"
  by (auto simp: lease_claim_def split: option.splits)

lemma claim_refused: "fst (lease_claim t c) = Inl held \<Longrightarrow> snd (lease_claim t c) = t \<and> t (c_agent c) = Some held"
  by (auto simp: lease_claim_def split: option.splits if_splits)

lemma claim_granted: "fst (lease_claim t c) = Inr x \<Longrightarrow> snd (lease_claim t c) = t(c_agent c \<mapsto> new_lease c)"
  by (auto simp: lease_claim_def split: option.splits if_splits)

lemma probed_other_agents: "b \<noteq> a \<Longrightarrow> snd (claim_probed opt a p t) b = t b"
  unfolding claim_probed_def by (rule claim_other_agents) simp

lemma probed_granted: "fst (claim_probed opt a p t) = Inr x \<Longrightarrow> holds (snd (claim_probed opt a p t)) a (o_runtime opt)"
  unfolding claim_probed_def by (drule claim_granted) (simp add: holds_def new_lease_def)

text \<open>A claim is granted exactly when nobody else holds the lease, or the probe found dead the one who does.\<close>

lemma probed_result:
  "(\<exists>x. fst (claim_probed opt a p t) = Inr x) \<longleftrightarrow>
     (\<forall>held. t a = Some held \<longrightarrow> l_runtime held \<noteq> o_runtime opt \<longrightarrow>
        (\<exists>q. p = Some q \<and> l_runtime q = l_runtime held \<and> \<not> live opt q))"
  by (auto simp: claim_probed_def lease_claim_def split: option.splits)

lemma loop_outcome:
  assumes "claim_loop opt as oc t = (oc', t')" "distinct as"
  shows "owned oc' = owned oc @ filter (\<lambda>a. \<exists>x. fst (claim_probed opt a (t a) t) = Inr x) as"
    "declined oc' = declined oc @ map (\<lambda>a. the (t a)) (filter (\<lambda>a. \<nexists>x. fst (claim_probed opt a (t a) t) = Inr x) as)"
    "\<forall>b. t' b = (if b \<in> set as then snd (claim_probed opt b (t b) t) b else t b)"
proof -
  have loc: "t b = u b \<Longrightarrow> fst (claim_probed opt b (t b) t) = fst (claim_probed opt b (u b) u) \<and>
      snd (claim_probed opt b (t b) t) b = snd (claim_probed opt b (u b) u) b" for b t u
    by (auto simp: claim_probed_def lease_claim_def split: option.splits)
  have "owned oc' = owned oc @ filter (\<lambda>a. \<exists>x. fst (claim_probed opt a (t a) t) = Inr x) as \<and>
    declined oc' = declined oc @ map (\<lambda>a. the (t a)) (filter (\<lambda>a. \<nexists>x. fst (claim_probed opt a (t a) t) = Inr x) as) \<and>
    (\<forall>b. t' b = (if b \<in> set as then snd (claim_probed opt b (t b) t) b else t b))"
    using assms
  proof (induction as arbitrary: oc t)
    case Nil
    then show ?case by simp
  next
    case (Cons a as)
    obtain r u where r: "claim_probed opt a (t a) t = (r, u)" by (cases "claim_probed opt a (t a) t")
    have other: "u b = t b" if "b \<noteq> a" for b using probed_other_agents [OF that, of opt "t a" t] r by simp
    have same: "fst (claim_probed opt b (u b) u) = fst (claim_probed opt b (t b) t) \<and>
        snd (claim_probed opt b (u b) u) b = snd (claim_probed opt b (t b) t) b \<and> u b = t b" if "b \<in> set as" for b
    proof -
      have ub: "u b = t b" using other [of b] that Cons.prems(2) by auto
      from loc [of u b t, OF ub] ub show ?thesis by simp
    qed
    define oc1 where "oc1 = (case r of Inl held \<Rightarrow> oc\<lparr>declined := declined oc @ [held]\<rparr>
      | Inr (_, took) \<Rightarrow> oc\<lparr>owned := owned oc @ [a], tookOver := tookOver oc @ (case took of None \<Rightarrow> [] | Some l \<Rightarrow> [l])\<rparr>)"
    have "claim_loop opt as oc1 u = (oc', t')"
      using Cons.prems(1) r by (auto simp: oc1_def split: sum.splits prod.splits)
    from Cons.IH [OF this] Cons.prems(2)
    have ih: "owned oc' = owned oc1 @ filter (\<lambda>a. \<exists>x. fst (claim_probed opt a (u a) u) = Inr x) as"
      "declined oc' = declined oc1 @ map (\<lambda>a. the (u a)) (filter (\<lambda>a. \<nexists>x. fst (claim_probed opt a (u a) u) = Inr x) as)"
      "\<forall>b. t' b = (if b \<in> set as then snd (claim_probed opt b (u b) u) b else u b)" by auto
    have g: "(\<exists>x. fst (claim_probed opt b (u b) u) = Inr x) = (\<exists>x. fst (claim_probed opt b (t b) t) = Inr x)" if "b \<in> set as" for b
      unfolding conjunct1 [OF same [OF that]] ..
    have f: "filter (\<lambda>a. \<exists>x. fst (claim_probed opt a (u a) u) = Inr x) as = filter (\<lambda>a. \<exists>x. fst (claim_probed opt a (t a) t) = Inr x) as"
      by (rule filter_cong [OF refl]) (rule g)
    have "filter (\<lambda>a. \<nexists>x. fst (claim_probed opt a (u a) u) = Inr x) as = filter (\<lambda>a. \<nexists>x. fst (claim_probed opt a (t a) t) = Inr x) as"
      by (rule filter_cong [OF refl]) (unfold g, rule refl)
    then have d: "map (\<lambda>a. the (u a)) (filter (\<lambda>a. \<nexists>x. fst (claim_probed opt a (u a) u) = Inr x) as) =
       map (\<lambda>a. the (t a)) (filter (\<lambda>a. \<nexists>x. fst (claim_probed opt a (t a) t) = Inr x) as)"
      using same by (intro map_cong) simp_all
    have t': "t' b = (if b \<in> set (a # as) then snd (claim_probed opt b (t b) t) b else t b)" for b
      using ih(3) same [of b] other [of b] r Cons.prems(2) by auto
    show ?case
    proof (cases r)
      case (Inl held)
      have "t a = Some held"
        using r Inl by (auto simp: claim_probed_def lease_claim_def split: option.splits if_splits)
      with Inl ih(1,2) f d r t' show ?thesis by (simp add: oc1_def)
    next
      case (Inr x)
      with ih(1,2) f d r t' show ?thesis by (cases x) (simp add: oc1_def)
    qed
  qed
  then show "owned oc' = owned oc @ filter (\<lambda>a. \<exists>x. fst (claim_probed opt a (t a) t) = Inr x) as"
    "declined oc' = declined oc @ map (\<lambda>a. the (t a)) (filter (\<lambda>a. \<nexists>x. fst (claim_probed opt a (t a) t) = Inr x) as)"
    "\<forall>b. t' b = (if b \<in> set as then snd (claim_probed opt b (t b) t) b else t b)" by blast+
qed

section \<open>Properties\<close>

definition demo_lease :: "string \<Rightarrow> int \<Rightarrow> int \<Rightarrow> lease" where
  "demo_lease rt pid beat = \<lparr>l_agent = ''a'', l_runtime = rt, l_pid = pid, l_mode = Daemon, l_started = 0, l_beat = Some beat, l_url = None\<rparr>"

text \<open>A host at time 100000 with pid 7, where pids 1 and 9 are alive and pid 1 is a node process.\<close>

definition demo_options :: claim_options where
  "demo_options = \<lparr>o_agents = [''a'', ''b''], o_runtime = ''r'', o_mode = Daemon, o_now = 100000, o_pid = 7, o_exclusive = True,
     o_alive = (\<lambda>p. p = 1 \<or> p = 9), o_exe = (\<lambda>p. if p = 1 then Some ''node'' else None), o_live = [''r'']\<rparr>"

text \<open>C39. Whatever happened to the table between the probe and the claim, a lease is taken from another
  runtime only if that very runtime is the one the probe found dead.\<close>

theorem takeover_only_from_dead:
  assumes "fst (claim_probed opt a probed t) = Inr (new, Some held)"
  shows "t a = Some held \<and> l_runtime held \<noteq> o_runtime opt \<and>
    (\<exists>q. probed = Some q \<and> l_runtime q = l_runtime held \<and> \<not> live opt q)"
  using assms by (auto simp: claim_probed_def lease_claim_def split: option.splits if_splits)

theorem takeover_only_from_dead_witness:
  "\<not> live demo_options (demo_lease ''x'' 5 0) \<and>
   (\<exists>q. Some (demo_lease ''x'' 5 0) = Some q \<and> l_runtime q = ''x'' \<and> \<not> live demo_options q)"
proof -
  let ?h = "demo_lease ''x'' 5 0"
  have d: "\<not> live demo_options ?h" by code_simp
  then obtain new where "fst (claim_probed demo_options ''a'' (Some ?h) [''a'' \<mapsto> ?h]) = Inr (new, Some ?h)"
    by (simp add: claim_probed_def lease_claim_def demo_lease_def demo_options_def)
  from takeover_only_from_dead [OF this] d show ?thesis by (simp add: demo_lease_def)
qed

text \<open>A lease whose holder is alive is refused, and nothing changes.\<close>

theorem live_holder_refused:
  assumes "t a = Some held" "l_runtime held \<noteq> o_runtime opt" "live opt held"
  shows "claim_probed opt a (t a) t = (Inl held, t)"
  using assms by (simp add: claim_probed_def lease_claim_def)

theorem live_holder_refused_witness:
  "claim_probed demo_options ''a'' ([''a'' \<mapsto> demo_lease ''x'' 9 0] ''a'') [''a'' \<mapsto> demo_lease ''x'' 9 0] =
     (Inl (demo_lease ''x'' 9 0), [''a'' \<mapsto> demo_lease ''x'' 9 0])"
proof (rule live_holder_refused)
  show "live demo_options (demo_lease ''x'' 9 0)" by code_simp
qed (simp_all add: demo_lease_def demo_options_def)

text \<open>Nobody else serves the agent, or whoever does is dead.\<close>

definition free_for :: "claim_options \<Rightarrow> leases \<Rightarrow> string \<Rightarrow> bool" where
  "free_for opt t a = (case t a of None \<Rightarrow> True | Some held \<Rightarrow> l_runtime held = o_runtime opt \<or> \<not> live opt held)"

text \<open>Booting for several agents: the ones it owns are those nobody else serves or whose server is dead,
  it holds their leases afterwards, the rest are declined with their holders, no other agent's lease is
  touched, and it is refused exactly when it must serve alone, got nothing and lost something.\<close>

theorem claimLeases_outcome:
  assumes "distinct (o_agents opt)"
  shows "\<exists>oc t'. claimLeases opt t = (if o_exclusive opt \<and> owned oc = [] \<and> declined oc \<noteq> [] then Inl (hd (declined oc)) else Inr oc, t') \<and>
    owned oc = filter (free_for opt t) (o_agents opt) \<and> declined oc = map (\<lambda>a. the (t a)) (filter (\<lambda>a. \<not> free_for opt t a) (o_agents opt)) \<and>
    (\<forall>b. if b \<in> set (owned oc) then holds t' b (o_runtime opt) else t' b = t b)"
proof -
  obtain oc t' where l: "claim_loop opt (o_agents opt) \<lparr>owned = [], tookOver = [], declined = []\<rparr> t = (oc, t')"
    by (cases "claim_loop opt (o_agents opt) \<lparr>owned = [], tookOver = [], declined = []\<rparr> t")
  note lo = loop_outcome [OF l assms(1)]
  have fr: "(\<exists>x. fst (claim_probed opt a (t a) t) = Inr x) \<longleftrightarrow> free_for opt t a" for a
    unfolding probed_result free_for_def by (auto split: option.splits)
  have o: "owned oc = filter (free_for opt t) (o_agents opt)" and d: "declined oc = map (\<lambda>a. the (t a)) (filter (\<lambda>a. \<not> free_for opt t a) (o_agents opt))"
    using lo(1,2) unfolding fr by simp_all
  have "if b \<in> set (owned oc) then holds t' b (o_runtime opt) else t' b = t b" for b
  proof (cases "b \<in> set (o_agents opt)")
    case True
    then have t': "t' b = snd (claim_probed opt b (t b) t) b" using lo(3) by simp
    show ?thesis
    proof (cases "free_for opt t b")
      case free: True
      then obtain x where "fst (claim_probed opt b (t b) t) = Inr x" using fr by blast
      from probed_granted [OF this] have "holds t' b (o_runtime opt)" by (simp add: holds_def t')
      with free True o show ?thesis by simp
    next
      case False
      then obtain held where "fst (claim_probed opt b (t b) t) = Inl held"
        using fr [of b] by (cases "fst (claim_probed opt b (t b) t)") auto
      then have "snd (claim_probed opt b (t b) t) = t" 
        unfolding claim_probed_def by (rule conjunct1 [OF claim_refused])
      with False o t' show ?thesis by simp
    qed
  next
    case False
    then show ?thesis using lo(3) o by simp
  qed
  with o d show ?thesis
    by (intro exI [of _ oc] exI [of _ t']) (simp add: claimLeases_def l)
qed

theorem claimLeases_outcome_witness:
  "\<exists>oc t'. claimLeases demo_options [''a'' \<mapsto> demo_lease ''x'' 9 0] = (Inr oc, t') \<and> owned oc = [''b''] \<and>
    declined oc = [demo_lease ''x'' 9 0] \<and> holds t' ''b'' ''r''"
proof -
  let ?t = "[''a'' \<mapsto> demo_lease ''x'' 9 0]"
  have f: "\<not> free_for demo_options ?t ''a''" "free_for demo_options ?t ''b''" by code_simp+
  have d: "distinct (o_agents demo_options)" "o_agents demo_options = [''a'', ''b'']" "o_runtime demo_options = ''r''"
    by (simp_all add: demo_options_def)
  from claimLeases_outcome [OF d(1), of ?t] obtain oc t' where
    c: "claimLeases demo_options ?t = (if o_exclusive demo_options \<and> owned oc = [] \<and> declined oc \<noteq> [] then Inl (hd (declined oc)) else Inr oc, t')"
    "owned oc = filter (free_for demo_options ?t) (o_agents demo_options)"
    "declined oc = map (\<lambda>a. the (?t a)) (filter (\<lambda>a. \<not> free_for demo_options ?t a) (o_agents demo_options))"
    "\<forall>b. if b \<in> set (owned oc) then holds t' b (o_runtime demo_options) else t' b = ?t b" by blast
  have o: "owned oc = [''b'']" "declined oc = [demo_lease ''x'' 9 0]" using c(2,3) f d(2) by simp_all
  moreover have "holds t' ''b'' ''r''" using c(4) o(1) d(3) by (metis list.set_intros(1))
  ultimately show ?thesis using c(1) by (intro exI [of _ oc] exI [of _ t']) simp
qed

text \<open>A heartbeat, an address and a release act only on leases their runtime holds.\<close>

theorem lease_writes_scoped:
  assumes "t a = Some l" "l_runtime l \<noteq> rt"
  shows "snd (lease_beat t b rt now) a = Some l \<and> lease_publish t rt url a = Some l \<and> lease_release t b rt a = Some l"
  using assms by (auto simp: lease_beat_def lease_publish_def lease_release_def holds_def)

theorem lease_writes_scoped_witness:
  "lease_release [''a'' \<mapsto> demo_lease ''x'' 5 0] ''a'' ''r'' ''a'' = Some (demo_lease ''x'' 5 0)"
  using lease_writes_scoped [of "[''a'' \<mapsto> demo_lease ''x'' 5 0]" "''a''" "demo_lease ''x'' 5 0" "''r''" "''a''" 0 "[]"]
  by (simp add: demo_lease_def)

text \<open>A heartbeat ninety seconds old does not free a lease: while its pid resolves the holder is taken
  for alive until forty-five minutes have passed.\<close>

theorem stale_heartbeat_still_held:
  assumes "o_alive opt (l_pid l)" "l_pid l \<noteq> o_pid opt" "l_pid l \<noteq> 1" "l_beat l = Some beat"
  shows "live opt l \<longleftrightarrow> o_now opt - beat < 2700000"
  using assms by (simp add: live_def LEASE_STALE_MS_def LEASE_REUSE_FACTOR_def)

theorem stale_heartbeat_still_held_witness: "live demo_options (demo_lease ''x'' 9 0) \<and> o_now demo_options - 0 > LEASE_STALE_MS"
  using stale_heartbeat_still_held [of demo_options "demo_lease ''x'' 9 0" 0]
  by (simp add: demo_options_def demo_lease_def LEASE_STALE_MS_def)

end
