(* ===== verification/Webhook_Target.thy ===== *)
theory Webhook_Target
  imports Address
begin

text \<open>
  The target check of \<open>packages/core/src/webhooks/webhooks.ts\<close>: the operator's allowlist and the refusal of
  every URL a webhook must not be sent to. What \<open>new URL(raw)\<close> returns (\<open>None\<close> where it throws) and what DNS
  answers are arguments.
\<close>

section \<open>Reading a number\<close>

text \<open>\<open>Number(text)\<close> where it is an integer, in exact arithmetic: the empty text is 0, and signs, fractions,
  exponents and the \<open>0x\<close>, \<open>0o\<close> and \<open>0b\<close> prefixes are read.\<close>

definition scaled :: "nat \<Rightarrow> int \<Rightarrow> nat option" where
  "scaled m k = (if k \<ge> 0 then Some (m * 10 ^ nat k)
     else if m mod 10 ^ nat (- k) = 0 then Some (m div 10 ^ nat (- k)) else None)"

definition decimal_integer :: "string \<Rightarrow> nat option" where
  "decimal_integer t =
     (let ip = takeWhile is_digit t; r = dropWhile is_digit t;
          fp = (case r of c # q \<Rightarrow> if c = CHR ''.'' then takeWhile is_digit q else [] | [] \<Rightarrow> []);
          r2 = (case r of c # q \<Rightarrow> if c = CHR ''.'' then dropWhile is_digit q else r | [] \<Rightarrow> [])
      in if ip = [] \<and> fp = [] then None
         else (case r2 of
           [] \<Rightarrow> scaled (to_number (ip @ fp)) (- int (length fp))
         | e # q \<Rightarrow>
             if e \<noteq> CHR ''e'' \<and> e \<noteq> CHR ''E'' then None
             else let neg = starts_with ''-'' q; ds = (if neg \<or> starts_with ''+'' q then tl q else q) in
               if all_digits ds
               then scaled (to_number (ip @ fp)) ((if neg then - 1 else 1) * int (to_number ds) - int (length fp))
               else None))"

definition radix_integer :: "nat \<Rightarrow> string \<Rightarrow> nat option" where
  "radix_integer base ds =
     (if ds \<noteq> [] \<and> list_all (\<lambda>c. is_hex c \<and> hex_val c < base) ds then Some (foldl (\<lambda>n c. base * n + hex_val c) 0 ds) else None)"

definition js_integer :: "string \<Rightarrow> int option" where
  "js_integer s =
     (let t = trim s; p = to_lower (take 2 t) in
      if t = [] then Some 0
      else if p = ''0x'' then map_option int (radix_integer 16 (drop 2 t))
      else if p = ''0o'' then map_option int (radix_integer 8 (drop 2 t))
      else if p = ''0b'' then map_option int (radix_integer 2 (drop 2 t))
      else if starts_with ''-'' t then map_option (\<lambda>n. - int n) (decimal_integer (tl t))
      else if starts_with ''+'' t then map_option int (decimal_integer (tl t))
      else map_option int (decimal_integer t))"

section \<open>The allowlist\<close>

record allow_range =
  ar_bytes :: "nat list"
  ar_bits :: nat

record allowlist =
  al_hosts :: "string list"
  al_ranges :: "allow_range list"

definition EMPTY_ALLOWLIST :: allowlist where
  "EMPTY_ALLOWLIST = \<lparr>al_hosts = [], al_ranges = []\<rparr>"

definition parse_bytes :: "string \<Rightarrow> nat list option" where
  "parse_bytes s = (case parseIPv4 s of Some q \<Rightarrow> Some q | None \<Rightarrow> parseIPv6 s)"

text \<open>One entry; \<open>Inl\<close> the entry it cannot read.\<close>

definition add_entry :: "allowlist \<Rightarrow> string \<Rightarrow> string + allowlist" where
  "add_entry al entry =
     (let parts = split_on (CHR ''/'') entry; bytes = parse_bytes (hd parts); bitsText = (case tl parts of [] \<Rightarrow> None | b # _ \<Rightarrow> Some b)
      in if bitsText = None \<and> bytes = None then Inr (al\<lparr>al_hosts := al_hosts al @ [to_lower entry]\<rparr>)
         else (let bits = (case bitsText of None \<Rightarrow> map_option (\<lambda>b. int (length b * 8)) bytes | Some b \<Rightarrow> js_integer b) in
           case (bytes, bits) of
             (Some bs, Some n) \<Rightarrow>
               if n < 0 \<or> n > int (length bs * 8) then Inl entry
               else Inr (al\<lparr>al_ranges := al_ranges al @ [\<lparr>ar_bytes = bs, ar_bits = nat n\<rparr>]\<rparr>)
           | _ \<Rightarrow> Inl entry))"

fun add_entries :: "allowlist \<Rightarrow> string list \<Rightarrow> string + allowlist" where
  "add_entries al [] = Inr al"
| "add_entries al (e # es) = (case add_entry al e of Inl x \<Rightarrow> Inl x | Inr al' \<Rightarrow> add_entries al' es)"

definition parseWebhookAllowlist :: "string option \<Rightarrow> string + allowlist" where
  "parseWebhookAllowlist raw =
     (case raw of None \<Rightarrow> Inr EMPTY_ALLOWLIST
      | Some r \<Rightarrow> if trim r = [] then Inr EMPTY_ALLOWLIST
                  else add_entries EMPTY_ALLOWLIST (filter (\<lambda>p. p \<noteq> []) (map trim (split_on (CHR '','') r))))"

definition bit_mask :: "nat \<Rightarrow> nat" where
  "bit_mask i = drop_bit (i mod 8) 128"

definition inRange :: "nat list \<Rightarrow> allow_range \<Rightarrow> bool" where
  "inRange bytes r =
     (if length bytes \<noteq> length (ar_bytes r) then False
      else list_all (\<lambda>i. nth0 bytes (i div 8) AND bit_mask i = nth0 (ar_bytes r) (i div 8) AND bit_mask i) [0..<ar_bits r])"

section \<open>The check\<close>

definition NEVER :: "address_kind list" where
  "NEVER = [Link_local, Unspecified, Multicast]"

record url =
  u_protocol :: string
  u_username :: string
  u_password :: string
  u_hostname :: string

datatype target_error = Url_invalid | Target_unresolved string | Target_refused string string

definition url_host :: "url \<Rightarrow> string" where
  "url_host u =
     (let h = u_hostname u; h1 = (if starts_with ''['' h then tl h else h);
          h2 = (if ends_with '']'' h1 then butlast h1 else h1)
      in to_lower h2)"

definition allowed_address :: "allowlist \<Rightarrow> string \<Rightarrow> string \<Rightarrow> bool" where
  "allowed_address al host address =
     (host \<in> set (al_hosts al) \<or>
      (case parse_bytes address of None \<Rightarrow> False | Some bytes \<Rightarrow> list_ex (inRange bytes) (al_ranges al)))"

fun check_answers :: "allowlist \<Rightarrow> string \<Rightarrow> string list \<Rightarrow> target_error option" where
  "check_answers al host [] = None"
| "check_answers al host (address # rest) =
     (case classifyAddress address of
        None \<Rightarrow> Some (Target_refused host address)
      | Some v \<Rightarrow>
          if kind v = Public then check_answers al host rest
          else if kind v \<in> set NEVER then Some (Target_refused host address)
          else if allowed_address al host address then check_answers al host rest
          else Some (Target_refused host address))"

definition checkWebhookTarget :: "url option \<Rightarrow> allowlist \<Rightarrow> (string \<Rightarrow> string list option) \<Rightarrow> target_error option" where
  "checkWebhookTarget parsed al lookup =
     (case parsed of
        None \<Rightarrow> Some Url_invalid
      | Some u \<Rightarrow>
          if u_protocol u \<noteq> ''https:'' \<and> u_protocol u \<noteq> ''http:'' then Some Url_invalid
          else if u_username u \<noteq> [] \<or> u_password u \<noteq> [] then Some Url_invalid
          else (let host = url_host u; answers = (case lookup host of None \<Rightarrow> [] | Some as \<Rightarrow> as) in
            if answers = [] then Some (Target_unresolved host) else check_answers al host answers))"

section \<open>Ranges as networks\<close>

lemma bit_mask_eq: "bit_mask i = 2 ^ (7 - i mod 8)"
proof -
  have "bit_mask i = 2 ^ 7 div 2 ^ (i mod 8)" by (simp add: bit_mask_def drop_bit_eq_div)
  also have "\<dots> = 2 ^ (7 - i mod 8)" by (subst power_diff) simp_all
  finally show ?thesis .
qed

lemma and_mask_iff: "x AND bit_mask i = y AND bit_mask i \<longleftrightarrow> bit x (7 - i mod 8) = bit (y :: nat) (7 - i mod 8)"
proof -
  have "z AND 2 ^ n = (if bit z n then 2 ^ n else 0)" for z n :: nat
    by (rule bit_eqI) (auto simp: bit_and_iff bit_exp_iff)
  then show ?thesis by (simp add: bit_mask_eq)
qed

text \<open>The number an address of any family reads as, most significant byte first.\<close>

definition bytes_value :: "nat list \<Rightarrow> nat" where
  "bytes_value bs = foldl (\<lambda>v b. v * 256 + b) 0 bs"

lemma bytes_value_snoc: "bytes_value (bs @ [b]) = bytes_value bs * 256 + b"
  by (simp add: bytes_value_def)

lemma bytes_value_less: "\<forall>b \<in> set bs. b < 256 \<Longrightarrow> bytes_value bs < 2 ^ (8 * length bs)"
proof (induction bs rule: rev_induct)
  case (snoc b bs)
  then have "bytes_value bs + 1 \<le> 2 ^ (8 * length bs)" "b < 256" by simp_all
  then have "(bytes_value bs + 1) * 256 \<le> 2 ^ (8 * length bs) * 256" by simp
  then have "bytes_value bs * 256 + b < 2 ^ (8 * length bs) * 256" using \<open>b < 256\<close> by simp
  moreover have "(2 :: nat) ^ (8 * length (bs @ [b])) = 2 ^ (8 * length bs) * 256" by (simp add: power_add)
  ultimately show ?case by (simp only: bytes_value_snoc)
qed (simp add: bytes_value_def)

lemma bit_last_byte:
  assumes "b < 256"
  shows "k < 8 \<Longrightarrow> bit (v * 256 + b) k = bit (b :: nat) k" "bit (v * 256 + b) (8 + k) = bit (v :: nat) k"
proof -
  show "bit (v * 256 + b) k = bit b k" if "k < 8"
  proof -
    have "bit (v * 256 + b) k = bit (take_bit 8 (v * 256 + b)) k" using that by (simp add: bit_take_bit_iff)
    also have "take_bit 8 (v * 256 + b) = b" using assms by (simp add: take_bit_eq_mod)
    finally show ?thesis .
  qed
  have "(v * 256 + b) div 2 ^ 8 = v" using assms by simp
  then show "bit (v * 256 + b) (8 + k) = bit v k"
    by (metis bit_iff_odd div_mult2_eq power_add)
qed

lemma bit_bytes:
  assumes "\<forall>b \<in> set bs. b < 256" "i < 8 * length bs"
  shows "bit (bytes_value bs) (8 * length bs - 1 - i) = bit (nth0 bs (i div 8)) (7 - i mod 8)"
  using assms
proof (induction bs rule: rev_induct)
  case (snoc b bs)
  then have b: "b < 256" by simp
  show ?case
  proof (cases "i < 8 * length bs")
    case True
    then have e: "8 * length (bs @ [b]) - 1 - i = 8 + (8 * length bs - 1 - i)" by simp
    have "i div 8 < length bs" using True by (simp add: less_mult_imp_div_less mult.commute)
    then have "nth0 (bs @ [b]) (i div 8) = nth0 bs (i div 8)" by (simp add: nth0_def nth_append)
    with snoc.IH snoc.prems True show ?thesis unfolding e bytes_value_snoc bit_last_byte(2) [OF b] by simp
  next
    case False
    then obtain m where m: "i = 8 * length bs + m" "m < 8" using snoc.prems(2) le_Suc_ex [of "8 * length bs" i] by auto
    then have e: "8 * length (bs @ [b]) - 1 - i = 7 - m" "i div 8 = length bs" "i mod 8 = m" by simp_all
    have "7 - m < 8" by simp
    then show ?thesis unfolding e bytes_value_snoc bit_last_byte(1) [OF b \<open>7 - m < 8\<close>] by (simp add: nth0_def)
  qed
qed simp

text \<open>Equal prefixes are equal leading bits.\<close>

lemma prefix_bits:
  assumes "v < 2 ^ w" "u < 2 ^ w" "n \<le> w"
  shows "v div 2 ^ (w - n) = u div 2 ^ (w - n) \<longleftrightarrow> (\<forall>i < n. bit v (w - 1 - i) = bit (u :: nat) (w - 1 - i))"
proof -
  have high: "\<not> bit x j" if "x < 2 ^ w" "w \<le> j" for x j :: nat
    using that by (metis bit_take_bit_iff linorder_not_less take_bit_nat_eq_self)
  have "v div 2 ^ (w - n) = u div 2 ^ (w - n) \<longleftrightarrow> (\<forall>k. bit v (w - n + k) = bit u (w - n + k))"
    by (simp add: drop_bit_eq_div [symmetric] bit_eq_iff bit_drop_bit_eq)
  also have "\<dots> \<longleftrightarrow> (\<forall>i < n. bit v (w - 1 - i) = bit u (w - 1 - i))"
  proof
    assume e: "\<forall>k. bit v (w - n + k) = bit u (w - n + k)"
    have "w - 1 - i = w - n + (n - 1 - i)" if "i < n" for i using that assms(3) by simp
    with e show "\<forall>i < n. bit v (w - 1 - i) = bit u (w - 1 - i)" by metis
  next
    assume e: "\<forall>i < n. bit v (w - 1 - i) = bit u (w - 1 - i)"
    have "bit v (w - n + k) = bit u (w - n + k)" for k
    proof (cases "k < n")
      case True
      then have k: "w - n + k = w - 1 - (n - 1 - k)" "n - 1 - k < n" using assms(3) by simp_all
      from e k(2) show ?thesis unfolding k(1) by blast
    next
      case False
      then have "w \<le> w - n + k" using assms(3) by simp
      with high assms(1,2) show ?thesis by simp
    qed
    then show "\<forall>k. bit v (w - n + k) = bit u (w - n + k)" by blast
  qed
  finally show ?thesis .
qed

section \<open>Properties\<close>

text \<open>C22. The byte and mask walk decides membership in the network: an address of either family is in a range when
  both are of one length and, read as numbers, agree in everything above the host part. A prefix length is
  at most the address's own, as the parser of the allowlist ensures.\<close>

theorem inRange_network:
  assumes "\<forall>b \<in> set bytes. b < 256" "\<forall>b \<in> set base. b < 256" "n \<le> 8 * length base"
  shows "inRange bytes \<lparr>ar_bytes = base, ar_bits = n\<rparr> \<longleftrightarrow> length bytes = length base \<and>
    bytes_value bytes div 2 ^ (8 * length base - n) = bytes_value base div 2 ^ (8 * length base - n)"
proof (cases "length bytes = length base")
  case True
  let ?w = "8 * length base"
  have "inRange bytes \<lparr>ar_bytes = base, ar_bits = n\<rparr> \<longleftrightarrow>
      (\<forall>i < n. bit (nth0 bytes (i div 8)) (7 - i mod 8) = bit (nth0 base (i div 8)) (7 - i mod 8))"
    using True by (auto simp: inRange_def list_all_iff and_mask_iff)
  also have "\<dots> \<longleftrightarrow> (\<forall>i < n. bit (bytes_value bytes) (?w - 1 - i) = bit (bytes_value base) (?w - 1 - i))"
    using bit_bytes [OF assms(1)] bit_bytes [OF assms(2)] True assms(3) by auto
  also have "\<dots> \<longleftrightarrow> bytes_value bytes div 2 ^ (?w - n) = bytes_value base div 2 ^ (?w - n)"
    using prefix_bits [OF _ bytes_value_less [OF assms(2)] assms(3), of "bytes_value bytes"] bytes_value_less [OF assms(1)] True
    by simp
  finally show ?thesis using True by simp
qed (simp add: inRange_def)

definition demo_v6 :: "nat list" where
  "demo_v6 = [0xFD, 0, 7, 7, 7, 7, 7, 7, 7, 7, 7, 7, 7, 7, 7, 7]"

definition demo_ula :: "nat list" where
  "demo_ula = [0xFD, 0, 0, 0, 0, 0, 0, 0, 0, 0, 0, 0, 0, 0, 0, 0]"

theorem inRange_network_witness:
  "inRange [172, 20, 0, 9] \<lparr>ar_bytes = [172, 16, 0, 0], ar_bits = 12\<rparr> \<and>
   inRange demo_v6 \<lparr>ar_bytes = demo_ula, ar_bits = 16\<rparr> \<and>
   \<not> inRange demo_v6 \<lparr>ar_bytes = demo_ula, ar_bits = 120\<rparr>"
proof -
  have v: "bytes_value [172, 20, 0, 9] div 2 ^ 20 = bytes_value [172, 16, 0, 0] div 2 ^ 20"
    "bytes_value demo_v6 div 2 ^ 112 = bytes_value demo_ula div 2 ^ 112"
    "bytes_value demo_v6 div 2 ^ 8 \<noteq> bytes_value demo_ula div 2 ^ 8"
    by (simp_all add: bytes_value_def demo_v6_def demo_ula_def)
  show ?thesis
    using inRange_network [of "[172, 20, 0, 9]" "[172, 16, 0, 0]" 12] v(1)
      inRange_network [of demo_v6 demo_ula 16] v(2)
      inRange_network [of demo_v6 demo_ula 120] v(3)
    by (simp add: demo_v6_def demo_ula_def)
qed

text \<open>C19. A target passes only if it resolves and every address it resolves to is public, or of a kind the
  operator may allow and listed; link-local, unspecified and multicast addresses pass under no allowlist.\<close>

theorem target_check_safe:
  assumes "checkWebhookTarget (Some u) al lookup = None"
  shows "\<exists>answers. lookup (url_host u) = Some answers \<and> answers \<noteq> [] \<and>
    (\<forall>x \<in> set answers. \<exists>v. classifyAddress x = Some v \<and> kind v \<notin> {Link_local, Unspecified, Multicast} \<and>
      (kind v = Public \<or> allowed_address al (url_host u) x))"
proof -
  have c: "check_answers al host as = None \<Longrightarrow> \<forall>x \<in> set as. \<exists>v. classifyAddress x = Some v \<and>
      kind v \<notin> {Link_local, Unspecified, Multicast} \<and> (kind v = Public \<or> allowed_address al host x)" for host as
    by (induction as) (auto simp: NEVER_def split: option.splits if_splits)
  from assms obtain answers where "lookup (url_host u) = Some answers" "answers \<noteq> []" "check_answers al (url_host u) answers = None"
    by (auto simp: checkWebhookTarget_def Let_def split: if_splits option.splits)
  with c show ?thesis by blast
qed

definition demo_url :: url where
  "demo_url = \<lparr>u_protocol = ''http:'', u_username = [], u_password = [], u_hostname = ''backend''\<rparr>"

theorem target_check_safe_witness:
  "\<exists>answers. (\<lambda>h. if h = ''backend'' then Some [''172.20.0.9''] else None) (url_host demo_url) = Some answers \<and> answers \<noteq> []"
proof -
  have "checkWebhookTarget (Some demo_url) \<lparr>al_hosts = [''backend''], al_ranges = []\<rparr>
      (\<lambda>h. if h = ''backend'' then Some [''172.20.0.9''] else None) = None" by code_simp
  from target_check_safe [OF this] show ?thesis by blast
qed

text \<open>A range whose length was left out after the slash reads as length 0, which allows every address of
  the family.\<close>

theorem empty_prefix_allows_all:
  "parseWebhookAllowlist (Some ''10.0.0.0/'') = Inr \<lparr>al_hosts = [], al_ranges = [\<lparr>ar_bytes = [10, 0, 0, 0], ar_bits = 0\<rparr>]\<rparr> \<and>
   (\<forall>a b c d. inRange [a, b, c, d] \<lparr>ar_bytes = [10, 0, 0, 0], ar_bits = 0\<rparr>)"
proof
  show "parseWebhookAllowlist (Some ''10.0.0.0/'') = Inr \<lparr>al_hosts = [], al_ranges = [\<lparr>ar_bytes = [10, 0, 0, 0], ar_bits = 0\<rparr>]\<rparr>"
    by code_simp
qed (simp add: inRange_def)

end
