(* ===== verification/Webhooks.thy ===== *)
theory Webhooks
  imports Webhook_Target
begin

text \<open>
  Outbound webhooks: the tables \<open>webhook_subscriptions\<close> and \<open>webhook_deliveries\<close> of \<open>store/sqlite/store.ts\<close> and
  the dispatcher of \<open>webhooks/webhooks.ts\<close>. SHA-256, HMAC, base64 and \<open>JSON.stringify\<close> are arguments, as are
  clock readings, the verdict of the target check and what the receiver answers. Delivery rows are kept
  in \<open>rowid\<close> order.
\<close>

section \<open>Signing\<close>

definition keyOf :: "(string \<Rightarrow> string) \<Rightarrow> string \<Rightarrow> string" where
  "keyOf b64decode secret = b64decode (if starts_with ''whsec_'' secret then drop 6 secret else secret)"

text \<open>The signed text: id, Unix seconds and body, separated by dots.\<close>

definition signed_text :: "string \<Rightarrow> nat \<Rightarrow> string \<Rightarrow> string" where
  "signed_text i ts body = i @ ''.'' @ nat_str ts @ ''.'' @ body"

definition signWebhook :: "(string \<Rightarrow> string) \<Rightarrow> (string \<Rightarrow> string \<Rightarrow> string) \<Rightarrow> string \<Rightarrow> string \<Rightarrow> nat \<Rightarrow> string \<Rightarrow> string" where
  "signWebhook b64decode hmac64 secret i ts body = ''v1,'' @ hmac64 (keyOf b64decode secret) (signed_text i ts body)"

definition verifyWebhook ::
  "(string \<Rightarrow> string) \<Rightarrow> (string \<Rightarrow> string \<Rightarrow> string) \<Rightarrow> string \<Rightarrow> string \<Rightarrow> nat \<Rightarrow> string \<Rightarrow> string \<Rightarrow> int \<Rightarrow> int option \<Rightarrow> bool" where
  "verifyWebhook b64decode hmac64 secret i ts body signature now tol =
     (if \<bar>now - int ts\<bar> > (case tol of None \<Rightarrow> 300 | Some t \<Rightarrow> t) then False
      else let expected = b64decode (drop 3 (signWebhook b64decode hmac64 secret i ts body)) in
        list_ex (\<lambda>part. starts_with ''v1,'' part \<and> b64decode (drop 3 part) = expected) (split_on (CHR '' '') signature))"

definition webhookMessageId :: "(string \<Rightarrow> string) \<Rightarrow> string \<Rightarrow> string \<Rightarrow> string" where
  "webhookMessageId sha256hex sub body = ''msg_'' @ take 32 (sha256hex (sub @ [CHR 0x0A] @ body))"

section \<open>Tables\<close>

record webhook_scope =
  sc_agents :: "string list option"
  sc_prefix :: "string option"

record subscription =
  s_id :: string
  s_url :: string
  s_secret :: string
  s_types :: "string list"
  s_scope :: "webhook_scope option"
  s_created :: int
  s_failures :: nat
  s_error :: "string option"
  s_success :: "int option"
  s_failed :: "int option"

datatype wstatus = W_pending | W_inflight | W_sent | W_failed

record wdelivery =
  w_sub :: string
  w_msg :: string
  w_agent :: string
  w_type :: string
  w_body :: string
  w_status :: wstatus
  w_attempts :: nat
  w_uncertain :: bool
  w_next :: int
  w_error :: "string option"
  w_updated :: int

record wstore =
  subs :: "subscription list"
  dels :: "wdelivery list"

definition wkey :: "wdelivery \<Rightarrow> string \<times> string" where
  "wkey d = (w_sub d, w_msg d)"

definition w_create :: "wstore \<Rightarrow> string \<Rightarrow> string \<Rightarrow> string \<Rightarrow> string list \<Rightarrow> webhook_scope option \<Rightarrow> int \<Rightarrow> wstore option" where
  "w_create st i url secret types scope at =
     (if i \<in> s_id ` set (subs st) then None
      else Some (st\<lparr>subs := subs st @ [\<lparr>s_id = i, s_url = url, s_secret = secret, s_types = types, s_scope = scope,
        s_created = at, s_failures = 0, s_error = None, s_success = None, s_failed = None\<rparr>]\<rparr>))"

text \<open>Deleting a subscription takes its deliveries with it (\<open>ON DELETE CASCADE\<close>).\<close>

definition w_delete :: "wstore \<Rightarrow> string \<Rightarrow> bool \<times> wstore" where
  "w_delete st i =
     (i \<in> s_id ` set (subs st),
      st\<lparr>subs := filter (\<lambda>s. s_id s \<noteq> i) (subs st), dels := filter (\<lambda>d. w_sub d \<noteq> i \<or> i \<notin> s_id ` set (subs st)) (dels st)\<rparr>)"

definition secretOf :: "wstore \<Rightarrow> string \<Rightarrow> string option" where
  "secretOf st i = map_option s_secret (find (\<lambda>s. s_id s = i) (subs st))"

definition fresh_delivery :: "string \<Rightarrow> string \<Rightarrow> string \<Rightarrow> string \<Rightarrow> string \<Rightarrow> int \<Rightarrow> wdelivery" where
  "fresh_delivery sub msg agent ty body at = \<lparr>w_sub = sub, w_msg = msg, w_agent = agent, w_type = ty, w_body = body,
     w_status = W_pending, w_attempts = 0, w_uncertain = False, w_next = at, w_error = None, w_updated = at\<rparr>"

text \<open>\<open>INSERT OR IGNORE\<close> under \<open>UNIQUE (subscription_id, message_id)\<close>. A subscription deleted meanwhile fails the
  foreign key, which \<open>enqueue\<close> reports and the dispatcher turns into a warning.\<close>

datatype enqueue_result = E_added | E_duplicate | E_no_subscription

definition w_enqueue :: "wstore \<Rightarrow> wdelivery \<Rightarrow> enqueue_result \<times> wstore" where
  "w_enqueue st d =
     (if wkey d \<in> wkey ` set (dels st) then (E_duplicate, st)
      else if w_sub d \<notin> s_id ` set (subs st) then (E_no_subscription, st)
      else (E_added, st\<lparr>dels := dels st @ [d]\<rparr>))"

definition w_due :: "wdelivery list \<Rightarrow> string \<Rightarrow> int \<Rightarrow> nat \<Rightarrow> wdelivery list" where
  "w_due ds a now limit =
     take limit (sort_key w_next (filter (\<lambda>d. w_agent d = a \<and> w_status d = W_pending \<and> w_next d \<le> now) ds))"

definition update_key :: "wstore \<Rightarrow> string \<times> string \<Rightarrow> (wdelivery \<Rightarrow> wdelivery) \<Rightarrow> wstore" where
  "update_key st k f = st\<lparr>dels := map (\<lambda>d. if wkey d = k then f d else d) (dels st)\<rparr>"

definition claim_row :: "int \<Rightarrow> wdelivery \<Rightarrow> wdelivery" where
  "claim_row now d = d\<lparr>w_status := W_inflight, w_attempts := w_attempts d + 1, w_updated := now\<rparr>"

text \<open>Claiming the rows of one agent: each is claimed only if it is still pending.\<close>

fun claim_rows :: "wstore \<Rightarrow> int \<Rightarrow> wdelivery list \<Rightarrow> wdelivery list \<times> wstore" where
  "claim_rows st now [] = ([], st)"
| "claim_rows st now (d # ds) =
     (if list_ex (\<lambda>e. wkey e = wkey d \<and> w_status e = W_pending) (dels st)
      then let (cs, st') = claim_rows (update_key st (wkey d) (\<lambda>e. if w_status e = W_pending then claim_row now e else e)) now ds
           in (d\<lparr>w_status := W_inflight, w_attempts := w_attempts d + 1\<rparr> # cs, st')
      else claim_rows st now ds)"

fun w_claimDue :: "wstore \<Rightarrow> string list \<Rightarrow> int \<Rightarrow> nat \<Rightarrow> wdelivery list \<times> wstore" where
  "w_claimDue st [] now limit = ([], st)"
| "w_claimDue st (a # as) now limit =
     (if limit = 0 then ([], st)
      else let (cs, st1) = claim_rows st now (w_due (dels st) a now limit);
               (rest, st2) = w_claimDue st1 as now (limit - length cs)
           in (cs @ rest, st2))"

definition update_sub :: "wstore \<Rightarrow> string \<Rightarrow> (subscription \<Rightarrow> subscription) \<Rightarrow> wstore" where
  "update_sub st i f = st\<lparr>subs := map (\<lambda>s. if s_id s = i then f s else s) (subs st)\<rparr>"

definition unhealthy :: "wstore \<Rightarrow> string \<Rightarrow> string \<Rightarrow> int \<Rightarrow> wstore" where
  "unhealthy st i err at = update_sub st i (\<lambda>s. s\<lparr>s_failures := s_failures s + 1, s_error := Some err, s_failed := Some at\<rparr>)"

definition w_markSent :: "wstore \<Rightarrow> string \<times> string \<Rightarrow> int \<Rightarrow> wstore" where
  "w_markSent st k at =
     update_sub (update_key st k (\<lambda>d. d\<lparr>w_status := W_sent, w_error := None, w_updated := at\<rparr>)) (fst k)
       (\<lambda>s. s\<lparr>s_failures := 0, s_success := Some at\<rparr>)"

definition w_markRetry :: "wstore \<Rightarrow> string \<times> string \<Rightarrow> int \<Rightarrow> string \<Rightarrow> int \<Rightarrow> wstore" where
  "w_markRetry st k nxt err at =
     unhealthy (update_key st k (\<lambda>d. d\<lparr>w_status := W_pending, w_next := nxt, w_error := Some err, w_updated := at\<rparr>)) (fst k) err at"

definition w_markFailed :: "wstore \<Rightarrow> string \<times> string \<Rightarrow> string \<Rightarrow> int \<Rightarrow> wstore" where
  "w_markFailed st k err at =
     unhealthy (update_key st k (\<lambda>d. d\<lparr>w_status := W_failed, w_error := Some err, w_updated := at\<rparr>)) (fst k) err at"

fun w_recoverInflight :: "wstore \<Rightarrow> string list \<Rightarrow> int \<Rightarrow> wdelivery list \<times> wstore" where
  "w_recoverInflight st [] at = ([], st)"
| "w_recoverInflight st (a # as) at =
     (let hit = (\<lambda>d. w_agent d = a \<and> w_status d = W_inflight);
          found = map (\<lambda>d. d\<lparr>w_status := W_pending, w_uncertain := True\<rparr>) (filter hit (dels st));
          (rest, st') = w_recoverInflight
            (st\<lparr>dels := map (\<lambda>d. if hit d then d\<lparr>w_status := W_pending, w_uncertain := True, w_updated := at\<rparr> else d) (dels st)\<rparr>) as at
      in (found @ rest, st'))"

section \<open>Who hears what\<close>

record event =
  ev_type :: string
  ev_agent :: "string option"
  ev_session :: "string option"

definition webhookDeliverable :: "string \<Rightarrow> bool" where
  "webhookDeliverable ty \<longleftrightarrow> ty \<noteq> ''model.chunk''"

definition inScope :: "webhook_scope option \<Rightarrow> event \<Rightarrow> bool" where
  "inScope scope e =
     (let agents = Option.bind scope sc_agents; prefix = Option.bind scope sc_prefix;
          agent = (case ev_agent e of None \<Rightarrow> [] | Some a \<Rightarrow> a); session = (case ev_session e of None \<Rightarrow> [] | Some s \<Rightarrow> s)
      in if (case agents of None \<Rightarrow> False | Some as \<Rightarrow> agent \<notin> set as) then False
         else (case prefix of None \<Rightarrow> True | Some p \<Rightarrow> starts_with p session))"

definition webhookHears :: "subscription \<Rightarrow> event \<Rightarrow> bool" where
  "webhookHears s e =
     (if ev_agent e = None \<or> ev_type e \<notin> set (s_types s) then False else inScope (s_scope s) e)"

section \<open>The dispatcher\<close>

definition DEFAULT_WEBHOOK_BACKOFF_MS :: "int list" where
  "DEFAULT_WEBHOOK_BACKOFF_MS = [30000, 120000, 600000, 3600000, 21600000]"

definition BATCH :: nat where "BATCH = 16"

text \<open>\<open>#enqueue\<close> for the cached subscriptions, as the inserts arrive at the store.\<close>

definition enqueue_event ::
  "(string \<Rightarrow> string) \<Rightarrow> (event \<Rightarrow> string) \<Rightarrow> subscription list \<Rightarrow> event \<Rightarrow> int \<Rightarrow> wstore \<Rightarrow> wstore" where
  "enqueue_event sha256hex stringify cached e at st =
     (case ev_agent e of
        None \<Rightarrow> st
      | Some a \<Rightarrow>
          if \<not> webhookDeliverable (ev_type e) then st
          else foldl (\<lambda>u s. snd (w_enqueue u (fresh_delivery (s_id s) (webhookMessageId sha256hex (s_id s) (stringify e))
                 a (ev_type e) (stringify e) at))) st (filter (\<lambda>s. webhookHears s e) cached))"

definition retryOrFail :: "int list \<Rightarrow> wstore \<Rightarrow> wdelivery \<Rightarrow> string \<Rightarrow> bool \<Rightarrow> int \<Rightarrow> int \<Rightarrow> wstore" where
  "retryOrFail bo st row failure permanent now at =
     (if permanent \<or> w_attempts row > length bo then w_markFailed st (wkey row) failure at
      else (let i = w_attempts row - 1; delay = (if i < length bo then bo ! i else if bo = [] then 0 else last bo)
            in w_markRetry st (wkey row) (now + delay) failure at))"

datatype answer = Status nat | Threw string

definition nat_message :: "nat \<Rightarrow> string" where
  "nat_message n = ''HTTP '' @ nat_str n"

text \<open>\<open>#attempt\<close>: \<open>verdict\<close> is the target check's error and its message.\<close>

definition w_attempt ::
  "int list \<Rightarrow> subscription list \<Rightarrow> (target_error \<times> string) option \<Rightarrow> answer \<Rightarrow> int \<Rightarrow> int \<Rightarrow> wstore \<Rightarrow> wdelivery \<Rightarrow> wstore" where
  "w_attempt bo cached verdict ans now at st row =
     (if find (\<lambda>s. s_id s = w_sub row) cached = None \<or> secretOf st (w_sub row) = None
      then w_markFailed st (wkey row) ''subscription deleted'' at
      else case verdict of
        Some (Target_unresolved h, msg) \<Rightarrow> retryOrFail bo st row msg False now at
      | Some (_, msg) \<Rightarrow> w_markFailed st (wkey row) msg at
      | None \<Rightarrow>
          (case ans of
             Threw msg \<Rightarrow> retryOrFail bo st row msg False now at
           | Status n \<Rightarrow>
               if 200 \<le> n \<and> n < 300 then w_markSent st (wkey row) at
               else retryOrFail bo st row (nat_message n) (n = 410 \<or> (300 \<le> n \<and> n < 400)) now at))"

section \<open>The delivery table\<close>

definition wf_wstore :: "wstore \<Rightarrow> bool" where
  "wf_wstore st \<longleftrightarrow> distinct (map wkey (dels st))"

lemma wf_enqueue: "wf_wstore st \<Longrightarrow> wf_wstore (snd (w_enqueue st d))"
  by (auto simp: wf_wstore_def w_enqueue_def)

lemma wf_update_key:
  assumes "wf_wstore st" "\<And>d. wkey (f d) = wkey d"
  shows "wf_wstore (update_key st k f)"
proof -
  have "map wkey (dels (update_key st k f)) = map wkey (dels st)" using assms(2) by (simp add: update_key_def)
  with assms(1) show ?thesis by (simp only: wf_wstore_def)
qed

lemma claim_row_key [simp]: "wkey (claim_row now d) = wkey d"
  by (simp add: claim_row_def wkey_def)

text \<open>The rows a claim takes, and what it makes of them.\<close>

definition claimed_map :: "int \<Rightarrow> (string \<times> string) set \<Rightarrow> wdelivery \<Rightarrow> wdelivery" where
  "claimed_map now K e = (if wkey e \<in> K \<and> w_status e = W_pending then claim_row now e else e)"

lemma claimed_map_fields: "wkey (claimed_map now K e) = wkey e" "w_agent (claimed_map now K e) = w_agent e"
    "w_status (claimed_map now K e) = W_pending \<longleftrightarrow> w_status e = W_pending \<and> wkey e \<notin> K"
  by (auto simp: claimed_map_def claim_row_def wkey_def)

lemma claimed_map_comp: "claimed_map now K (claimed_map now L e) = claimed_map now (L \<union> K) e"
  by (cases "w_status e = W_pending"; cases "wkey e \<in> L") (auto simp: claimed_map_def claim_row_def)

lemma claim_rows_spec:
  assumes "set ds \<subseteq> set (dels st)" "distinct (map wkey ds)" "\<forall>d \<in> set ds. w_status d = W_pending"
  shows "fst (claim_rows st now ds) = map (\<lambda>d. d\<lparr>w_status := W_inflight, w_attempts := w_attempts d + 1\<rparr>) ds \<and>
    dels (snd (claim_rows st now ds)) = map (claimed_map now (wkey ` set ds)) (dels st) \<and> subs (snd (claim_rows st now ds)) = subs st"
  using assms
proof (induction ds arbitrary: st)
  case Nil
  have "claimed_map now {} = (\<lambda>e. e)" by (rule ext) (simp add: claimed_map_def)
  then show ?case by simp
next
  case (Cons d ds)
  define u where "u = update_key st (wkey d) (\<lambda>e. if w_status e = W_pending then claim_row now e else e)"
  have u: "dels u = map (claimed_map now {wkey d}) (dels st)" "subs u = subs st"
    by (auto simp: u_def update_key_def claimed_map_def)
  have "set ds \<subseteq> set (dels u)"
  proof
    fix e assume e: "e \<in> set ds"
    then have "wkey e \<in> wkey ` set ds" by (rule imageI)
    then have "wkey e \<noteq> wkey d" using Cons.prems(2) by auto
    then have "claimed_map now {wkey d} e = e" by (simp add: claimed_map_def)
    moreover have "e \<in> set (dels st)" using e Cons.prems(1) by auto
    ultimately show "e \<in> set (dels u)" unfolding u(1) set_map by (metis imageI)
  qed
  with Cons.IH [of u] Cons.prems(2,3) have ih:
    "fst (claim_rows u now ds) = map (\<lambda>d. d\<lparr>w_status := W_inflight, w_attempts := w_attempts d + 1\<rparr>) ds"
    "dels (snd (claim_rows u now ds)) = map (claimed_map now (wkey ` set ds)) (dels u)" "subs (snd (claim_rows u now ds)) = subs u"
    by auto
  have "list_ex (\<lambda>e. wkey e = wkey d \<and> w_status e = W_pending) (dels st)"
    using Cons.prems(1,3) by (auto simp: list_ex_iff)
  then have "claim_rows st now (d # ds) = (d\<lparr>w_status := W_inflight, w_attempts := w_attempts d + 1\<rparr> # fst (claim_rows u now ds), snd (claim_rows u now ds))"
    by (simp add: u_def [symmetric] case_prod_beta Let_def)
  moreover have "claimed_map now (wkey ` set ds) \<circ> claimed_map now {wkey d} = claimed_map now (wkey ` set (d # ds))"
    by (auto simp: fun_eq_iff claimed_map_comp)
  ultimately show ?case using ih u by simp
qed

lemma w_due_rows:
  assumes "wf_wstore st" "ds = w_due (dels st) a now limit"
  shows "set ds \<subseteq> set (dels st)" "distinct (map wkey ds)"
    "\<forall>d \<in> set ds. w_status d = W_pending \<and> w_agent d = a \<and> w_next d \<le> now" "length ds \<le> limit"
proof -
  let ?f = "filter (\<lambda>d. w_agent d = a \<and> w_status d = W_pending \<and> w_next d \<le> now) (dels st)"
  have sub: "set ds \<subseteq> set ?f" using assms(2) by (auto simp: w_due_def dest: in_set_takeD)
  then show "set ds \<subseteq> set (dels st)" "\<forall>d \<in> set ds. w_status d = W_pending \<and> w_agent d = a \<and> w_next d \<le> now" by auto
  show "length ds \<le> limit" using assms(2) by (simp add: w_due_def)
  have "distinct (dels st)" "inj_on wkey (set (dels st))" using assms(1) by (auto simp: wf_wstore_def distinct_map)
  then have "distinct ds" "inj_on wkey (set ds)"
    using assms(2) \<open>set ds \<subseteq> set (dels st)\<close> by (auto simp: w_due_def intro: inj_on_subset)
  then show "distinct (map wkey ds)" by (simp add: distinct_map)
qed

lemma wf_claimed: "wf_wstore st \<Longrightarrow> dels st' = map (claimed_map now K) (dels st) \<Longrightarrow> wf_wstore st'"
  by (simp add: wf_wstore_def claimed_map_fields comp_def)

lemma claimDue_spec:
  assumes "wf_wstore st" "w_claimDue st as now limit = (cs, st')"
  shows "length cs \<le> limit \<and> dels st' = map (claimed_map now (wkey ` set cs)) (dels st) \<and> distinct (map wkey cs) \<and>
    (\<forall>c \<in> set cs. \<exists>d \<in> set (dels st). wkey d = wkey c \<and> w_status d = W_pending \<and> w_agent d \<in> set as \<and> w_next d \<le> now \<and>
       c = d\<lparr>w_status := W_inflight, w_attempts := w_attempts d + 1\<rparr>)"
  using assms
proof (induction as arbitrary: st limit cs st')
  case Nil
  have "claimed_map now {} = (\<lambda>e. e)" by (rule ext) (simp add: claimed_map_def)
  with Nil show ?case by simp
next
  case (Cons a as)
  show ?case
  proof (cases "limit = 0")
    case True
    have "claimed_map now {} = (\<lambda>e. e)" by (rule ext) (simp add: claimed_map_def)
    with True Cons.prems show ?thesis by simp
  next
    case False
    define ds where "ds = w_due (dels st) a now limit"
    define st1 where "st1 = snd (claim_rows st now ds)"
    note due = w_due_rows [OF Cons.prems(1) ds_def]
    define f where "f = (\<lambda>d :: wdelivery. d\<lparr>w_status := W_inflight, w_attempts := w_attempts d + 1\<rparr>)"
    have spec: "fst (claim_rows st now ds) = map f ds" "dels st1 = map (claimed_map now (wkey ` set ds)) (dels st)"
      using claim_rows_spec [OF due(1,2)] due(3) by (auto simp: st1_def f_def)
    obtain rest st2 where r2: "w_claimDue st1 as now (limit - length (map f ds)) = (rest, st2)"
      by (cases "w_claimDue st1 as now (limit - length (map f ds))")
    have "claim_rows st now ds = (map f ds, st1)" using spec(1) by (simp add: st1_def prod_eq_iff)
    then have r: "w_claimDue st1 as now (limit - length (map f ds)) = (rest, st')" "cs = map f ds @ rest"
      using Cons.prems(2) False r2 by (simp_all add: ds_def [symmetric] Let_def)
    have wf1: "wf_wstore st1" by (rule wf_claimed [OF Cons.prems(1) spec(2)])
    note ih = Cons.IH [OF wf1 r(1)]
    have kf: "wkey (f d) = wkey d" for d by (simp add: f_def wkey_def)
    have "length rest \<le> limit - length ds" using ih by simp
    then have len: "length cs \<le> limit" using due(4) r(2) by simp
    have "claimed_map now (wkey ` set rest) \<circ> claimed_map now (wkey ` set ds) = claimed_map now (wkey ` set cs)"
      by (auto simp: fun_eq_iff claimed_map_comp r(2) kf image_Un image_image)
    then have dels: "dels st' = map (claimed_map now (wkey ` set cs)) (dels st)" using ih spec(2) by simp
    have from1: "\<exists>d \<in> set (dels st). wkey d = wkey c \<and> w_status d = W_pending \<and> w_agent d \<in> set as \<and> w_next d \<le> now \<and> c = f d \<and> wkey c \<notin> wkey ` set ds"
      if "c \<in> set rest" for c
    proof -
      from ih that obtain e where e: "e \<in> set (dels st1)" "wkey e = wkey c" "w_status e = W_pending" "w_agent e \<in> set as"
        "w_next e \<le> now" "c = f e" by (auto simp: f_def)
      then obtain d where d: "d \<in> set (dels st)" "e = claimed_map now (wkey ` set ds) d" using spec(2) by auto
      then have "e = d" "wkey d \<notin> wkey ` set ds" using e(3) claimed_map_fields(3) [of now "wkey ` set ds" d] by (auto simp: claimed_map_def)
      with d(1) e show ?thesis by auto
    qed
    have "wkey ` set rest \<inter> wkey ` set ds = {}" using from1 by blast
    moreover have "map wkey cs = map wkey ds @ map wkey rest" by (simp add: r(2) kf)
    ultimately have dist: "distinct (map wkey cs)" using due(2) ih by auto
    have "\<exists>d \<in> set (dels st). wkey d = wkey c \<and> w_status d = W_pending \<and> w_agent d \<in> set (a # as) \<and> w_next d \<le> now \<and> c = f d"
      if "c \<in> set cs" for c
    proof (cases "c \<in> set rest")
      case True
      from from1 [OF this] show ?thesis by auto
    next
      case False
      with that obtain d where "d \<in> set ds" "c = f d" using r(2) by auto
      with due(1,3) kf show ?thesis by (intro bexI [of _ d]) auto
    qed
    with len dels dist show ?thesis unfolding f_def by blast
  qed
qed

section \<open>Enqueueing\<close>

lemma enqueue_keys: "wkey d \<in> wkey ` set (dels st) \<Longrightarrow> wkey d \<in> wkey ` set (dels (snd (w_enqueue st e)))"
  by (auto simp: w_enqueue_def)

lemma enqueue_subs: "subs (snd (w_enqueue st e)) = subs st"
  by (simp add: w_enqueue_def)

lemma enqueue_again: "fst (w_enqueue st d) = E_added \<or> fst (w_enqueue st d) = E_duplicate \<Longrightarrow>
    wkey d \<in> wkey ` set (dels (snd (w_enqueue st d)))"
  by (auto simp: w_enqueue_def split: if_splits)

definition enqueue_list :: "wstore \<Rightarrow> wdelivery list \<Rightarrow> wstore" where
  "enqueue_list st ds = foldl (\<lambda>u d. snd (w_enqueue u d)) st ds"

lemma enqueue_list_subs: "subs (enqueue_list st ds) = subs st"
  unfolding enqueue_list_def by (induction ds arbitrary: st) (simp_all add: enqueue_subs)

lemma enqueue_list_keys: "k \<in> wkey ` set (dels st) \<Longrightarrow> k \<in> wkey ` set (dels (enqueue_list st ds))"
proof (induction ds arbitrary: st)
  case (Cons d ds)
  have "k \<in> wkey ` set (dels (snd (w_enqueue st d)))" using Cons.prems by (auto simp: w_enqueue_def)
  from Cons.IH [OF this] show ?case by (simp add: enqueue_list_def)
qed (simp add: enqueue_list_def)

lemma enqueue_list_has: "d \<in> set ds \<Longrightarrow> wkey d \<in> wkey ` set (dels (enqueue_list st ds)) \<or> w_sub d \<notin> s_id ` set (subs st)"
proof (induction ds arbitrary: st)
  case (Cons e ds)
  show ?case
  proof (cases "d = e")
    case True
    have "wkey d \<in> wkey ` set (dels (snd (w_enqueue st e))) \<or> w_sub d \<notin> s_id ` set (subs st)"
      using True by (auto simp: w_enqueue_def)
    with enqueue_list_keys [of "wkey d" "snd (w_enqueue st e)" ds] show ?thesis by (auto simp: enqueue_list_def)
  next
    case False
    with Cons.prems have "d \<in> set ds" by simp
    from Cons.IH [OF this, of "snd (w_enqueue st e)"] show ?thesis by (simp add: enqueue_list_def enqueue_subs)
  qed
qed simp

lemma enqueue_list_noop:
  "\<forall>d \<in> set ds. wkey d \<in> wkey ` set (dels st) \<or> w_sub d \<notin> s_id ` set (subs st) \<Longrightarrow> enqueue_list st ds = st"
proof (induction ds)
  case (Cons d ds)
  then have "snd (w_enqueue st d) = st" by (auto simp: w_enqueue_def)
  with Cons show ?case by (simp add: enqueue_list_def)
qed (simp add: enqueue_list_def)

definition event_rows :: "(string \<Rightarrow> string) \<Rightarrow> (event \<Rightarrow> string) \<Rightarrow> subscription list \<Rightarrow> event \<Rightarrow> int \<Rightarrow> wdelivery list" where
  "event_rows sha stringify cached e at = (case ev_agent e of None \<Rightarrow> [] | Some a \<Rightarrow>
     if \<not> webhookDeliverable (ev_type e) then []
     else map (\<lambda>s. fresh_delivery (s_id s) (webhookMessageId sha (s_id s) (stringify e)) a (ev_type e) (stringify e) at)
       (filter (\<lambda>s. webhookHears s e) cached))"

lemma foldl_map: "foldl f st (map g xs) = foldl (\<lambda>u x. f u (g x)) st xs"
  by (induction xs arbitrary: st) auto

lemma enqueue_event_rows: "enqueue_event sha stringify cached e at st = enqueue_list st (event_rows sha stringify cached e at)"
  by (auto simp: enqueue_event_def event_rows_def enqueue_list_def foldl_map split: option.splits)

lemma enqueue_list_new: "d \<in> set (dels (enqueue_list st ds)) \<Longrightarrow> d \<in> set (dels st) \<or> d \<in> set ds"
proof (induction ds arbitrary: st)
  case (Cons e ds)
  then have "d \<in> set (dels (snd (w_enqueue st e))) \<or> d \<in> set ds" by (simp add: enqueue_list_def)
  then show ?case by (auto simp: w_enqueue_def split: if_splits)
qed (simp add: enqueue_list_def)

section \<open>Properties\<close>

definition demo_sub :: subscription where
  "demo_sub = \<lparr>s_id = ''s'', s_url = ''u'', s_secret = ''k'', s_types = [''turn.end''],
     s_scope = Some \<lparr>sc_agents = Some [''a''], sc_prefix = None\<rparr>, s_created = 0, s_failures = 0, s_error = None,
     s_success = None, s_failed = None\<rparr>"

definition demo_event :: event where
  "demo_event = \<lparr>ev_type = ''turn.end'', ev_agent = Some ''a'', ev_session = None\<rparr>"

definition demo_store :: wstore where
  "demo_store = \<lparr>subs = [demo_sub], dels = [fresh_delivery ''s'' ''m'' ''a'' ''turn.end'' ''{}'' 5]\<rparr>"

text \<open>Enqueueing an event again, on a redelivery or in a process that saw it twice, adds nothing: the
  message id is derived from the subscription and the body.\<close>

theorem enqueue_event_idempotent:
  "enqueue_event sha stringify cached e at' (enqueue_event sha stringify cached e at st) = enqueue_event sha stringify cached e at st"
proof -
  let ?rows = "event_rows sha stringify cached e at"
  have keys: "map wkey (event_rows sha stringify cached e at') = map wkey ?rows \<and> map w_sub (event_rows sha stringify cached e at') = map w_sub ?rows"
    by (auto simp: event_rows_def fresh_delivery_def wkey_def split: option.splits)
  have "wkey d \<in> wkey ` set (dels (enqueue_list st ?rows)) \<or> w_sub d \<notin> s_id ` set (subs (enqueue_list st ?rows))"
    if "d \<in> set (event_rows sha stringify cached e at')" for d
  proof -
    from that obtain n where n: "n < length (event_rows sha stringify cached e at')" "d = event_rows sha stringify cached e at' ! n"
      by (auto simp: in_set_conv_nth)
    then have "n < length ?rows" using keys by (metis length_map)
    moreover have "wkey d = wkey (?rows ! n)" "w_sub d = w_sub (?rows ! n)"
      using n keys \<open>n < length ?rows\<close> by (metis nth_map)+
    ultimately show ?thesis using enqueue_list_has [of "?rows ! n" ?rows st] by (simp add: enqueue_list_subs)
  qed
  then show ?thesis unfolding enqueue_event_rows by (intro enqueue_list_noop) blast
qed

text \<open>Claiming takes at most the limit, only rows pending and due for its agents, and once: each key at
  most one time, and a row it took is not pending any more.\<close>

theorem claimDue_exclusive:
  assumes "wf_wstore st" "w_claimDue st as now limit = (cs, st')" "w_claimDue st' as' now' limit' = (cs', st'')"
  shows "length cs \<le> limit \<and> distinct (map wkey (cs @ cs')) \<and>
    (\<forall>c \<in> set cs. \<exists>d \<in> set (dels st). w_status d = W_pending \<and> w_agent d \<in> set as \<and> w_next d \<le> now \<and>
       c = d\<lparr>w_status := W_inflight, w_attempts := w_attempts d + 1\<rparr>)"
proof -
  note s1 = claimDue_spec [OF assms(1,2)]
  have "wf_wstore st'" using wf_claimed [OF assms(1)] s1 by blast
  note s2 = claimDue_spec [OF this assms(3)]
  have "wkey c \<notin> wkey ` set cs" if "c \<in> set cs'" for c
  proof -
    from s2 that obtain e where "e \<in> set (dels st')" "wkey e = wkey c" "w_status e = W_pending" by blast
    moreover from this s1 obtain d where "e = claimed_map now (wkey ` set cs) d" by auto
    ultimately show ?thesis using claimed_map_fields [of now "wkey ` set cs" d] by simp
  qed
  then have "wkey ` set cs' \<inter> wkey ` set cs = {}" by blast
  then have "distinct (map wkey (cs @ cs'))" using s1 s2 by auto
  with s1 show ?thesis by blast
qed

theorem claimDue_exclusive_witness:
  "map wkey (fst (w_claimDue demo_store [''a''] 9 16)) = [(''s'', ''m'')] \<and>
   distinct (map wkey (fst (w_claimDue demo_store [''a''] 9 16) @ fst (w_claimDue (snd (w_claimDue demo_store [''a''] 9 16)) [''a''] 9 16)))"
proof -
  have "wf_wstore demo_store" by code_simp
  moreover have "map wkey (fst (w_claimDue demo_store [''a''] 9 16)) = [(''s'', ''m'')]" by code_simp
  ultimately show ?thesis
    using claimDue_exclusive [OF _ prod.collapse [symmetric] prod.collapse [symmetric], of demo_store "[''a'']" 9 16 "[''a'']" 9 16]
    by blast
qed

lemma row_updated:
  assumes "d \<in> set (dels st)" "wkey d = k" "\<And>e. wkey (f e) = wkey e"
  shows "f d \<in> set (dels (update_key st k f))" "dels (update_sub u i g) = dels u" "dels (unhealthy u i err at) = dels u"
  using assms by (auto simp: update_key_def update_sub_def unhealthy_def)

text \<open>What an attempt that passed the target check makes of its row: a 2xx answer sends it, a redirect or
  410 fails it for good, and anything else retries it after the backoff of that attempt, until one attempt
  more than the backoff has steps has failed.\<close>

theorem attempt_outcome:
  assumes "d \<in> set (dels st)" "wkey d = wkey row" "find (\<lambda>s. s_id s = w_sub row) cached \<noteq> None"
    "secretOf st (w_sub row) \<noteq> None" "0 < w_attempts row"
  shows "\<exists>e \<in> set (dels (w_attempt bo cached None (Status n) now at st row)). wkey e = wkey row \<and>
    w_status e = (if 200 \<le> n \<and> n < 300 then W_sent
      else if n = 410 \<or> (300 \<le> n \<and> n < 400) \<or> w_attempts row > length bo then W_failed else W_pending) \<and>
    (w_status e = W_pending \<longrightarrow> w_next e = now + bo ! (w_attempts row - 1))"
proof -
  let ?k = "wkey row"
  let ?sent = "\<lambda>d. d\<lparr>w_status := W_sent, w_error := None, w_updated := at\<rparr>"
  let ?fail = "\<lambda>d. d\<lparr>w_status := W_failed, w_error := Some (nat_message n), w_updated := at\<rparr>"
  let ?retry = "\<lambda>d. d\<lparr>w_status := W_pending, w_next := now + bo ! (w_attempts row - 1), w_error := Some (nat_message n), w_updated := at\<rparr>"
  have key: "wkey (?sent e) = wkey e" "wkey (?fail e) = wkey e" "wkey (?retry e) = wkey e" for e by (simp_all add: wkey_def)
  note up = row_updated(1) [OF assms(1,2)]
  consider (sent) "200 \<le> n \<and> n < 300" | (fail) "\<not> (200 \<le> n \<and> n < 300)" "n = 410 \<or> (300 \<le> n \<and> n < 400) \<or> w_attempts row > length bo"
    | (retry) "\<not> (200 \<le> n \<and> n < 300)" "\<not> (n = 410 \<or> (300 \<le> n \<and> n < 400) \<or> w_attempts row > length bo)" by blast
  then show ?thesis
  proof cases
    case sent
    then have "dels (w_attempt bo cached None (Status n) now at st row) = dels (update_key st ?k ?sent)"
      using assms(3,4) by (auto simp: w_attempt_def w_markSent_def update_sub_def)
    with sent up [of ?sent, OF key(1)] assms(2) show ?thesis by (intro bexI [of _ "?sent d"]) (simp_all add: key)
  next
    case fail
    then have "dels (w_attempt bo cached None (Status n) now at st row) = dels (update_key st ?k ?fail)"
      using assms(3,4) by (auto simp: w_attempt_def retryOrFail_def w_markFailed_def update_sub_def unhealthy_def)
    with fail up [of ?fail, OF key(2)] assms(2) show ?thesis by (intro bexI [of _ "?fail d"]) (auto simp: key)
  next
    case retry
    then have "w_attempts row \<le> length bo" by simp
    then have "w_attempts row - 1 < length bo" using assms(5) by linarith
    with retry have "dels (w_attempt bo cached None (Status n) now at st row) = dels (update_key st ?k ?retry)"
      using assms(3,4) by (auto simp: w_attempt_def retryOrFail_def w_markRetry_def update_sub_def unhealthy_def Let_def)
    with retry up [of ?retry, OF key(3)] assms(2) show ?thesis by (intro bexI [of _ "?retry d"]) (auto simp: wkey_def)
  qed
qed

theorem attempt_outcome_witness:
  "\<exists>e \<in> set (dels (w_attempt DEFAULT_WEBHOOK_BACKOFF_MS [demo_sub] None (Status 500) 9 9 demo_store
      (claim_row 9 (fresh_delivery ''s'' ''m'' ''a'' ''turn.end'' ''{}'' 5)))).
    w_status e = W_pending \<and> w_next e = 30009"
proof -
  let ?d = "fresh_delivery ''s'' ''m'' ''a'' ''turn.end'' ''{}'' 5"
  have "?d \<in> set (dels demo_store)" "wkey ?d = wkey (claim_row 9 ?d)"
    by (simp_all add: demo_store_def)
  moreover have "find (\<lambda>s. s_id s = w_sub (claim_row 9 ?d)) [demo_sub] \<noteq> None" "secretOf demo_store (w_sub (claim_row 9 ?d)) \<noteq> None"
    "0 < w_attempts (claim_row 9 ?d)" "w_attempts (claim_row 9 ?d) = 1"
    by (simp_all add: claim_row_def fresh_delivery_def demo_sub_def demo_store_def secretOf_def)
  ultimately show ?thesis
    using attempt_outcome [of ?d demo_store "claim_row 9 ?d" "[demo_sub]" DEFAULT_WEBHOOK_BACKOFF_MS 500 9 9]
    by (fastforce simp: DEFAULT_WEBHOOK_BACKOFF_MS_def)
qed

text \<open>A subscription gets rows only for events of its types, of the agents and sessions its creator could
  reach, and never for a token.\<close>

theorem deliveries_in_scope:
  assumes "d \<in> set (dels (enqueue_event sha stringify cached e at st))" "d \<notin> set (dels st)"
  shows "\<exists>s \<in> set cached. w_sub d = s_id s \<and> ev_agent e = Some (w_agent d) \<and> ev_type e \<in> set (s_types s) \<and> ev_type e \<noteq> ''model.chunk'' \<and>
    (\<forall>sc as. s_scope s = Some sc \<and> sc_agents sc = Some as \<longrightarrow> w_agent d \<in> set as) \<and>
    (\<forall>sc p. s_scope s = Some sc \<and> sc_prefix sc = Some p \<longrightarrow> p = [] \<or> (\<exists>k. ev_session e = Some k \<and> starts_with p k))"
proof -
  from assms have "d \<in> set (event_rows sha stringify cached e at)" using enqueue_list_new unfolding enqueue_event_rows by blast
  moreover obtain a where a: "ev_agent e = Some a" using calculation by (cases "ev_agent e") (auto simp: event_rows_def)
  ultimately obtain s where s: "s \<in> set cached" "ev_agent e = Some a" "webhookDeliverable (ev_type e)" "webhookHears s e"
    "d = fresh_delivery (s_id s) (webhookMessageId sha (s_id s) (stringify e)) a (ev_type e) (stringify e) at"
    by (auto simp: event_rows_def split: option.splits if_splits)
  then have d: "w_sub d = s_id s" "w_agent d = a" by (simp_all add: fresh_delivery_def)
  have sc: "inScope (s_scope s) e" "ev_type e \<in> set (s_types s)" using s(4) by (auto simp: webhookHears_def split: if_splits)
  have "w_agent d \<in> set as" if "s_scope s = Some sc" "sc_agents sc = Some as" for sc as
    using that \<open>inScope (s_scope s) e\<close> d(2) s(2) by (auto simp: inScope_def Let_def split: if_splits)
  moreover have "p = [] \<or> (\<exists>k. ev_session e = Some k \<and> starts_with p k)" if "s_scope s = Some sc" "sc_prefix sc = Some p" for sc p
    using that \<open>inScope (s_scope s) e\<close> by (cases p; cases "ev_session e") (auto simp: inScope_def Let_def split: if_splits)
  ultimately show ?thesis using s(1-3) d sc(2) by (intro bexI [of _ s]) (auto simp: webhookDeliverable_def)
qed

theorem deliveries_in_scope_witness:
  "\<exists>s \<in> set [demo_sub]. ''s'' = s_id s \<and> ev_type demo_event \<in> set (s_types s)"
proof -
  let ?st = "demo_store\<lparr>dels := []\<rparr>"
  let ?d = "fresh_delivery ''s'' (webhookMessageId id ''s'' ''{}'') ''a'' ''turn.end'' ''{}'' 3"
  have "dels (enqueue_event id (\<lambda>_. ''{}'') [demo_sub] demo_event 3 ?st) = [?d]" by code_simp
  then have "?d \<in> set (dels (enqueue_event id (\<lambda>_. ''{}'') [demo_sub] demo_event 3 ?st))" by simp
  from deliveries_in_scope [OF this] show ?thesis by (auto simp: fresh_delivery_def)
qed

text \<open>A receiver accepts what the dispatcher signs, within the tolerance, and nothing whose decoded
  signature differs from the expected one.\<close>

theorem sign_verify:
  assumes "CHR '' '' \<notin> set (hmac64 (keyOf dec secret) (signed_text i ts body))" "\<bar>now - int ts\<bar> \<le> 300"
  shows "verifyWebhook dec hmac64 secret i ts body (signWebhook dec hmac64 secret i ts body) now None \<and>
    (verifyWebhook dec hmac64 secret i ts body other now None \<longrightarrow>
      (\<exists>part \<in> set (split_on (CHR '' '') other). starts_with ''v1,'' part \<and>
         dec (drop 3 part) = dec (hmac64 (keyOf dec secret) (signed_text i ts body))))"
proof -
  have "CHR '' '' \<notin> set (signWebhook dec hmac64 secret i ts body)" using assms(1) by (auto simp: signWebhook_def)
  from split_on_no_sep [OF this] assms(2) show ?thesis
    by (auto simp: verifyWebhook_def signWebhook_def list_ex_iff Let_def split: if_splits)
qed

theorem sign_verify_witness:
  "verifyWebhook id (\<lambda>k m. k) ''whsec_abc'' ''m'' 7 ''{}'' (signWebhook id (\<lambda>k m. k) ''whsec_abc'' ''m'' 7 ''{}'') 9 None"
proof -
  have "CHR '' '' \<notin> set (keyOf id ''whsec_abc'')" by code_simp
  then show ?thesis using sign_verify [of "\<lambda>k m. k" id "''whsec_abc''" "''m''" 7 "''{}''" 9] by simp
qed

end
