(* ===== verification/Event_Bus.thy ===== *)
theory Event_Bus
  imports Prelude
begin

text \<open>
  \<open>packages/core/src/events/bus.ts\<close>: subscribing, unsubscribing and the synchronous fan-out of an event. A
  handler is a number, or the closure \<open>once\<close> wraps around one. What a handler does to the bus and to the state
  of its owner (\<open>'w\<close>) while it runs, and whether it throws, is a parameter of dispatch, constrained by the
  locale \<open>bus_handlers\<close>.
\<close>

section \<open>State\<close>

text \<open>The closure \<open>once\<close> makes is a new function each time, which its serial number tells apart.\<close>

datatype handler = Plain nat | Once nat string nat

record bus =
  handlers :: "string \<Rightarrow> handler list"
  wildcard :: "(handler \<times> bool) list"
  chunkSubscribers :: int

definition CHUNK :: string where "CHUNK = ''model.chunk''"
definition STAR :: string where "STAR = ''*''"

definition new_bus :: bus where
  "new_bus = \<lparr>handlers = (\<lambda>_. []), wildcard = [], chunkSubscribers = 0\<rparr>"

section \<open>Subscribing\<close>

text \<open>\<open>Map.set\<close>: an entry that is there keeps its place.\<close>

fun map_set :: "('k \<times> 'v) list \<Rightarrow> 'k \<Rightarrow> 'v \<Rightarrow> ('k \<times> 'v) list" where
  "map_set [] h w = [(h, w)]"
| "map_set ((k, v) # m) h w = (if k = h then (k, w) # m else (k, v) # map_set m h w)"

definition bus_on :: "bus \<Rightarrow> string \<Rightarrow> handler \<Rightarrow> bool \<Rightarrow> bus" where
  "bus_on b ty h chunks =
     (if ty = STAR then
        (let had = map_of (wildcard b) h \<noteq> None;
             wanted = (case map_of (wildcard b) h of None \<Rightarrow> False | Some w \<Rightarrow> w)
         in b\<lparr>wildcard := map_set (wildcard b) h (chunks \<or> wanted),
              chunkSubscribers := chunkSubscribers b +
                (if \<not> had \<and> chunks then 1 else if had \<and> chunks \<and> \<not> wanted then 1 else 0)\<rparr>)
      else
        (let added = h \<notin> set (handlers b ty)
         in b\<lparr>handlers := (handlers b)(ty := (if added then handlers b ty @ [h] else handlers b ty)),
              chunkSubscribers := chunkSubscribers b + (if added \<and> ty = CHUNK then 1 else 0)\<rparr>))"

text \<open>The function \<open>on\<close> returns.\<close>

definition bus_off :: "bus \<Rightarrow> string \<Rightarrow> handler \<Rightarrow> bus" where
  "bus_off b ty h =
     (if ty = STAR then
        (case map_of (wildcard b) h of
           None \<Rightarrow> b
         | Some w \<Rightarrow> b\<lparr>wildcard := filter (\<lambda>p. fst p \<noteq> h) (wildcard b),
             chunkSubscribers := chunkSubscribers b - (if w then 1 else 0)\<rparr>)
      else if h \<in> set (handlers b ty) then
        b\<lparr>handlers := (handlers b)(ty := removeAll h (handlers b ty)),
          chunkSubscribers := chunkSubscribers b - (if ty = CHUNK then 1 else 0)\<rparr>
      else b)"

definition bus_once :: "bus \<Rightarrow> string \<Rightarrow> nat \<Rightarrow> nat \<Rightarrow> bool \<Rightarrow> bus" where
  "bus_once b ty serial inner chunks = bus_on b ty (Once serial ty inner) chunks"

section \<open>Emitting\<close>

text \<open>A handler gets the event, may change the bus and may throw. One that was wrapped by \<open>once\<close> unsubscribes
  first.\<close>

definition run_handler :: "(nat \<Rightarrow> 'e \<Rightarrow> 'w \<times> bus \<Rightarrow> ('w \<times> bus) \<times> bool) \<Rightarrow> handler \<Rightarrow> 'e \<Rightarrow> 'w \<times> bus \<Rightarrow> ('w \<times> bus) \<times> bool" where
  "run_handler behave h e w =
     (case h of Plain n \<Rightarrow> behave n e w | Once serial ty n \<Rightarrow> behave n e (fst w, bus_off (snd w) ty h))"

text \<open>\<open>#deliver\<close> over a snapshot: who got the event, and whether its failure was reported.\<close>

fun deliver_all :: "(nat \<Rightarrow> 'e \<Rightarrow> 'w \<times> bus \<Rightarrow> ('w \<times> bus) \<times> bool) \<Rightarrow> handler list \<Rightarrow> 'e \<Rightarrow> 'w \<times> bus \<Rightarrow> (handler \<times> bool) list \<times> 'w \<times> bus" where
  "deliver_all behave [] e w = ([], w)"
| "deliver_all behave (h # hs) e w =
     (let (w1, threw) = run_handler behave h e w; (ds, w2) = deliver_all behave hs e w1 in ((h, threw) # ds, w2))"

definition listening :: "bus \<Rightarrow> string \<Rightarrow> handler list" where
  "listening b ty = map fst (filter (\<lambda>p. ty = CHUNK \<longrightarrow> snd p) (wildcard b))"

text \<open>\<open>#dispatch\<close>: the snapshot of the wildcard subscribers is taken after the specific ones ran.\<close>

definition dispatch :: "(nat \<Rightarrow> 'e \<Rightarrow> 'w \<times> bus \<Rightarrow> ('w \<times> bus) \<times> bool) \<Rightarrow> string \<Rightarrow> 'e \<Rightarrow> 'w \<times> bus \<Rightarrow> (handler \<times> bool) list \<times> 'w \<times> bus" where
  "dispatch behave ty e w =
     (let (ds1, w1) = deliver_all behave (handlers (snd w) ty) e w;
          (ds2, w2) = deliver_all behave (listening (snd w1) ty) e w1
      in (ds1 @ ds2, w2))"

definition emit :: "(nat \<Rightarrow> 'e \<Rightarrow> 'w \<times> bus \<Rightarrow> ('w \<times> bus) \<times> bool) \<Rightarrow> string \<Rightarrow> 'e \<Rightarrow> 'w \<times> bus \<Rightarrow> (handler \<times> bool) list \<times> 'w \<times> bus" where
  "emit behave ty e w = (if ty = CHUNK \<and> chunkSubscribers (snd w) = 0 then ([], w) else dispatch behave ty e w)"

section \<open>The count\<close>

definition bus_inv :: "bus \<Rightarrow> bool" where
  "bus_inv b \<longleftrightarrow> distinct (map fst (wildcard b)) \<and> (\<forall>ty. distinct (handlers b ty)) \<and>
     chunkSubscribers b = int (length (handlers b CHUNK)) + int (length (filter snd (wildcard b)))"

lemma map_set_keys: "fst ` set (map_set m h w) = insert h (fst ` set m)"
  by (induction m h w rule: map_set.induct) auto

lemma map_set_distinct: "distinct (map fst m) \<Longrightarrow> distinct (map fst (map_set m h w))"
proof (induction m h w rule: map_set.induct)
  case (2 k v m h w)
  have "k \<notin> fst ` set (map_set m h w)" if "k \<noteq> h" using 2(2) that by (auto simp: map_set_keys)
  with 2 show ?case by auto
qed simp

lemma map_set_count:
  "distinct (map fst m) \<Longrightarrow> length (filter snd (map_set m h w)) + (case map_of m h of Some True \<Rightarrow> 1 | _ \<Rightarrow> 0) =
     length (filter snd m) + (if w then 1 else 0)"
proof (induction m h w rule: map_set.induct)
  case (1 h w)
  show ?case by simp
next
  case (2 k v m h w)
  show ?case
  proof (cases "k = h")
    case True
    then show ?thesis by (cases v) auto
  next
    case False
    with 2 have "length (filter snd (map_set m h w)) + (case map_of m h of Some True \<Rightarrow> 1 | _ \<Rightarrow> 0) =
      length (filter snd m) + (if w then 1 else 0)" by simp
    with False show ?thesis by (cases w; cases v) simp_all
  qed
qed

lemma filter_key_count:
  "distinct (map fst m) \<Longrightarrow> map_of m h = Some w \<Longrightarrow>
     length (filter snd m) = length (filter snd (filter (\<lambda>p. fst p \<noteq> h) m)) + (if w then 1 else 0)"
proof (induction m)
  case (Cons p m)
  obtain k v where p: "p = (k, v)" by (cases p)
  show ?case
  proof (cases "k = h")
    case True
    with Cons.prems p have "\<forall>q \<in> set m. fst q \<noteq> h" by force
    then have "filter (\<lambda>p. fst p \<noteq> h) m = m" by simp
    with True p Cons.prems show ?thesis by simp
  next
    case False
    with Cons p show ?thesis by simp
  qed
qed simp

lemma on_inv: "bus_inv b \<Longrightarrow> bus_inv (bus_on b ty h chunks)"
proof -
  assume inv: "bus_inv b"
  show ?thesis
  proof (cases "ty = STAR")
    case True
    have d: "distinct (map fst (wildcard b))" using inv by (simp add: bus_inv_def)
    note c = map_set_count [OF d, of h "chunks \<or> (case map_of (wildcard b) h of None \<Rightarrow> False | Some w \<Rightarrow> w)"]
    show ?thesis
      using inv True c map_set_distinct [OF d] unfolding bus_inv_def bus_on_def Let_def
      by (cases "map_of (wildcard b) h"; cases chunks) (auto split: bool.splits)
  next
    case False
    then show ?thesis using inv by (auto simp: bus_inv_def bus_on_def Let_def)
  qed
qed

lemma removeAll_length: "distinct xs \<Longrightarrow> x \<in> set xs \<Longrightarrow> length (removeAll x xs) + 1 = length xs"
  by (induction xs) auto

lemma off_inv: "bus_inv b \<Longrightarrow> bus_inv (bus_off b ty h)"
proof -
  assume inv: "bus_inv b"
  show ?thesis
  proof (cases "ty = STAR")
    case True
    have d: "distinct (map fst (wildcard b))" using inv by (simp add: bus_inv_def)
    show ?thesis
    proof (cases "map_of (wildcard b) h")
      case (Some w)
      have "distinct (map fst (filter (\<lambda>p. fst p \<noteq> h) (wildcard b)))" using d by (rule distinct_map_filter)
      with inv True Some filter_key_count [OF d Some] show ?thesis by (auto simp: bus_inv_def bus_off_def)
    qed (use inv True in \<open>simp add: bus_off_def\<close>)
  next
    case False
    have "distinct (handlers b ty)" using inv by (simp add: bus_inv_def)
    then show ?thesis
      using inv False removeAll_length [of "handlers b ty" h] by (auto simp: bus_inv_def bus_off_def distinct_removeAll)
  qed
qed

section \<open>Handlers\<close>

text \<open>All dispatch relies on: a handler leaves the bookkeeping intact.\<close>

locale bus_handlers =
  fixes behave :: "nat \<Rightarrow> 'e \<Rightarrow> 'w \<times> bus \<Rightarrow> ('w \<times> bus) \<times> bool"
  assumes keeps_inv: "bus_inv (snd w) \<Longrightarrow> bus_inv (snd (fst (behave n e w)))"
begin

lemma run_inv: "bus_inv (snd w) \<Longrightarrow> bus_inv (snd (fst (run_handler behave h e w)))"
  by (cases h) (simp_all add: run_handler_def keeps_inv off_inv)

lemma deliver_inv: "bus_inv (snd w) \<Longrightarrow> bus_inv (snd (snd (deliver_all behave hs e w)))"
proof (induction hs arbitrary: w)
  case (Cons h hs)
  from Cons.IH [OF run_inv [OF Cons.prems]] show ?case by (simp add: Let_def case_prod_beta)
qed simp

lemma deliver_to_all: "map fst (fst (deliver_all behave hs e w)) = hs"
  by (induction hs arbitrary: w) (auto simp: Let_def case_prod_beta)

lemma emit_inv: "bus_inv (snd w) \<Longrightarrow> bus_inv (snd (snd (emit behave ty e w)))"
  by (simp add: emit_def dispatch_def Let_def case_prod_beta deliver_inv)

text \<open>When the count is 0 nobody would have got the chunk.\<close>

lemma gate_exact: "bus_inv (snd w) \<Longrightarrow> emit behave ty e w = dispatch behave ty e w"
proof -
  assume inv: "bus_inv (snd w)"
  have "dispatch behave ty e w = ([], w)" if "ty = CHUNK" "chunkSubscribers (snd w) = 0"
  proof -
    have "int (length (handlers (snd w) CHUNK)) + int (length (filter snd (wildcard (snd w)))) = 0" using inv that(2) by (simp add: bus_inv_def)
    then have "length (handlers (snd w) CHUNK) = 0" "length (filter snd (wildcard (snd w))) = 0" by linarith+
    then have "handlers (snd w) CHUNK = []" "filter snd (wildcard (snd w)) = []" by simp_all
    then show ?thesis using that(1) by (simp add: dispatch_def listening_def)
  qed
  then show ?thesis by (auto simp: emit_def)
qed

end

text \<open>Handlers as the sources write them: a list of calls on the bus, and whether they throw at the end.\<close>

datatype action = A_on string handler bool | A_off string handler | A_once string nat nat bool

fun run_action :: "bus \<Rightarrow> action \<Rightarrow> bus" where
  "run_action b (A_on ty h c) = bus_on b ty h c"
| "run_action b (A_off ty h) = bus_off b ty h"
| "run_action b (A_once ty k n c) = bus_once b ty k n c"

definition scripted :: "(nat \<Rightarrow> action list \<times> bool) \<Rightarrow> nat \<Rightarrow> 'e \<Rightarrow> 'w \<times> bus \<Rightarrow> ('w \<times> bus) \<times> bool" where
  "scripted script n e w = ((fst w, foldl run_action (snd w) (fst (script n))), snd (script n))"

lemma action_inv: "bus_inv b \<Longrightarrow> bus_inv (run_action b a)"
  by (cases a) (simp_all add: on_inv off_inv bus_once_def)

lemma actions_inv: "bus_inv b \<Longrightarrow> bus_inv (foldl run_action b as)"
  by (induction as arbitrary: b) (simp_all add: action_inv)

interpretation scripted_bus: bus_handlers "scripted script" for script
  by unfold_locales (simp add: scripted_def actions_inv)

text \<open>What a program does with a bus: subscribe, unsubscribe and emit.\<close>

inductive bus_reach :: "(nat \<Rightarrow> action list \<times> bool) \<Rightarrow> bus \<Rightarrow> bool" for script where
  Start: "bus_reach script new_bus"
| Act: "bus_reach script b \<Longrightarrow> bus_reach script (run_action b a)"
| Emit: "bus_reach script b \<Longrightarrow> bus_reach script (snd (snd (emit (scripted script) ty () ((), b))))"

lemma reach_bus_inv: "bus_reach script b \<Longrightarrow> bus_inv b"
proof (induction rule: bus_reach.induct)
  case Start
  show ?case by (simp add: bus_inv_def new_bus_def)
qed (simp_all add: action_inv scripted_bus.emit_inv)

section \<open>Properties\<close>

text \<open>The count of subscribers a token would reach is exact in every reachable bus, so the early return
  on 0 suppresses no delivery: \<open>emit\<close> is \<open>dispatch\<close> for every type.\<close>

theorem chunk_gate_exact:
  assumes "bus_reach script b"
  shows "chunkSubscribers b = int (length (handlers b CHUNK) + length (listening b CHUNK)) \<and>
    emit (scripted script) ty () ((), b) = dispatch (scripted script) ty () ((), b)"
proof -
  have inv: "bus_inv b" by (rule reach_bus_inv [OF assms])
  then have "chunkSubscribers b = int (length (handlers b CHUNK) + length (listening b CHUNK))"
    by (simp add: bus_inv_def listening_def)
  with scripted_bus.gate_exact [of "((), b)"] inv show ?thesis by simp
qed

definition demo_bus :: bus where
  "demo_bus = run_action (run_action new_bus (A_on STAR (Plain 0) False)) (A_once CHUNK 0 1 False)"

lemma demo_bus_reach: "bus_reach (\<lambda>_. ([], True)) demo_bus"
  unfolding demo_bus_def by (intro bus_reach.intros)

theorem chunk_gate_exact_witness: "chunkSubscribers demo_bus = 1 \<and>
    emit (scripted (\<lambda>_. ([], True))) CHUNK () ((), demo_bus) = dispatch (scripted (\<lambda>_. ([], True))) CHUNK () ((), demo_bus)"
proof -
  have "chunkSubscribers demo_bus = 1" by code_simp
  with chunk_gate_exact [OF demo_bus_reach, of CHUNK] show ?thesis by blast
qed

text \<open>A handler that throws, or unsubscribes others, takes the event from nobody subscribed to its type
  when it was emitted.\<close>

theorem every_subscriber_hears:
  assumes "bus_reach script b" "h \<in> set (handlers b ty)"
  shows "h \<in> set (map fst (fst (emit (scripted script) ty () ((), b))))"
proof -
  have "set (map fst (fst (deliver_all (scripted script) (handlers b ty) () ((), b)))) = set (handlers b ty)"
    by (simp only: scripted_bus.deliver_to_all)
  moreover have "emit (scripted script) ty () ((), b) = dispatch (scripted script) ty () ((), b)"
    by (rule scripted_bus.gate_exact) (simp add: reach_bus_inv [OF assms(1)])
  ultimately show ?thesis using assms(2) by (auto simp: dispatch_def case_prod_beta)
qed

theorem every_subscriber_hears_witness:
  "Once 0 CHUNK 1 \<in> set (map fst (fst (emit (scripted (\<lambda>_. ([], True))) CHUNK () ((), demo_bus))))"
proof (rule every_subscriber_hears [OF demo_bus_reach])
  show "Once 0 CHUNK 1 \<in> set (handlers demo_bus CHUNK)" by code_simp
qed

end
