(* ===== verification/Turn_Streams.thy ===== *)
theory Turn_Streams
  imports Event_Bus
begin

text \<open>
  \<open>packages/core/src/store/buffer.ts\<close>: the replayable buffer of each turn, its listeners, and the counted
  interest in tokens, on top of the event bus of \<open>Event_Bus\<close>.

  A state is a pair of the streams and the bus they listen on. JavaScript objects have an identity: an
  event, a buffer and a handler closure carry a number for it, fresh from \<open>serial\<close>; an even bus handler is a
  closure of the streams, an odd one belongs to somebody else. A listener is a number; \<open>heard\<close> logs what each
  listener was called with. A listener may, while it is called, detach any attachments (\<open>reacts\<close>); it does not
  emit. The clock readings of a \<open>record\<close> come with its event.
\<close>

section \<open>State\<close>

record ev =
  e_ref :: nat
  e_type :: string
  e_turn :: "string option"
  e_parent :: "string option"

datatype buffer_state = B_running | B_ended
datatype chunk_history = Ch_start | Ch_partial | Ch_none

record interest =
  wants_chunks :: bool
  wants_children :: bool

record buffered =
  b_ref :: nat
  b_turn :: string
  b_events :: "ev list"
  b_state :: buffer_state
  b_endedAt :: "int option"
  b_listeners :: "(nat \<times> interest) list"
  b_children :: "string list"
  b_truncated :: bool
  b_dropped :: nat
  b_chunks :: chunk_history
  b_holds :: bool

text \<open>The closure \<open>unsubscribe\<close> of an attachment keeps the buffer, the listener and what it asked for.\<close>

record subscription_handle =
  at_buffer :: nat
  at_listener :: nat
  at_chunks :: bool
  at_detached :: bool

record turn_streams =
  buffers :: "(string \<times> buffered) list"
  order :: "nat \<Rightarrow> nat option"
  seq_no :: nat
  maxEvents :: nat
  retainMs :: int
  retainCount :: nat
  unsubscribeBus :: "nat option"
  hasBus :: bool
  chunkInterest :: nat
  unsubscribeChunks :: "nat option"
  handles :: "subscription_handle list"
  serial :: nat
  heard :: "(nat \<times> ev) list"

type_synonym world = "turn_streams \<times> bus"

definition DEFAULT_MAX_EVENTS :: nat where "DEFAULT_MAX_EVENTS = 10000"
definition RETENTION_ms :: int where "RETENTION_ms = 60000"
definition RETENTION_count :: nat where "RETENTION_count = 32"
definition TURN_END :: string where "TURN_END = ''turn.end''"

definition new_streams :: "nat option \<Rightarrow> int option \<Rightarrow> nat option \<Rightarrow> turn_streams" where
  "new_streams mx ms n = \<lparr>buffers = [], order = (\<lambda>_. None), seq_no = 0,
     maxEvents = (case mx of None \<Rightarrow> DEFAULT_MAX_EVENTS | Some m \<Rightarrow> m),
     retainMs = (case ms of None \<Rightarrow> RETENTION_ms | Some m \<Rightarrow> m),
     retainCount = (case n of None \<Rightarrow> RETENTION_count | Some m \<Rightarrow> m),
     unsubscribeBus = None, hasBus = False, chunkInterest = 0, unsubscribeChunks = None,
     handles = [], serial = 0, heard = []\<rparr>"

section \<open>Interest in tokens\<close>

definition takeChunkInterest :: "world \<Rightarrow> world" where
  "takeChunkInterest w =
     (let s = (fst w)\<lparr>chunkInterest := chunkInterest (fst w) + 1\<rparr> in
      if chunkInterest s = 1 \<and> hasBus s
      then (s\<lparr>unsubscribeChunks := Some (serial s), serial := serial s + 1\<rparr>,
            bus_on (snd w) CHUNK (Plain (2 * serial s)) False)
      else (s, snd w))"

definition unsubscribe_chunks :: "world \<Rightarrow> world" where
  "unsubscribe_chunks w =
     ((fst w)\<lparr>unsubscribeChunks := None\<rparr>,
      case unsubscribeChunks (fst w) of None \<Rightarrow> snd w | Some k \<Rightarrow> bus_off (snd w) CHUNK (Plain (2 * k)))"

definition releaseChunkInterest :: "world \<Rightarrow> world" where
  "releaseChunkInterest w =
     (if chunkInterest (fst w) = 0 then w
      else let s = (fst w)\<lparr>chunkInterest := chunkInterest (fst w) - 1\<rparr> in
        if chunkInterest s = 0 then unsubscribe_chunks (s, snd w) else (s, snd w))"

definition releaseAllChunkInterest :: "world \<Rightarrow> world" where
  "releaseAllChunkInterest w = unsubscribe_chunks ((fst w)\<lparr>chunkInterest := 0\<rparr>, snd w)"

definition unsubscribe_bus :: "world \<Rightarrow> bus" where
  "unsubscribe_bus w = (case unsubscribeBus (fst w) of None \<Rightarrow> snd w | Some k \<Rightarrow> bus_off (snd w) STAR (Plain (2 * k)))"

definition listen :: "world \<Rightarrow> world" where
  "listen w =
     (let s = fst w; b = unsubscribe_bus w in
      (s\<lparr>unsubscribeBus := Some (serial s), hasBus := True, serial := serial s + 1\<rparr>,
       bus_on b STAR (Plain (2 * serial s)) False))"

text \<open>The function \<open>listen\<close> returns, for the closure it subscribed.\<close>

definition unlisten :: "nat \<Rightarrow> world \<Rightarrow> world" where
  "unlisten k w = releaseAllChunkInterest (fst w, bus_off (snd w) STAR (Plain (2 * k)))"

section \<open>Buffers\<close>

definition new_buffer :: "nat \<Rightarrow> string \<Rightarrow> bool \<Rightarrow> buffered" where
  "new_buffer i t chunks = \<lparr>b_ref = i, b_turn = t, b_events = [], b_state = B_running, b_endedAt = None,
     b_listeners = [], b_children = [], b_truncated = False, b_dropped = 0,
     b_chunks = (if chunks then Ch_start else Ch_none), b_holds = chunks\<rparr>"

definition add_buffer :: "string \<Rightarrow> bool \<Rightarrow> turn_streams \<Rightarrow> turn_streams" where
  "add_buffer t chunks s =
     s\<lparr>buffers := map_set (buffers s) t (new_buffer (serial s) t chunks), serial := serial s + 1\<rparr>"

definition open_turn :: "string \<Rightarrow> bool \<Rightarrow> world \<Rightarrow> world" where
  "open_turn t chunks w =
     (if map_of (buffers (fst w)) t \<noteq> None then w
      else let w1 = (if chunks then takeChunkInterest w else w) in (add_buffer t chunks (fst w1), snd w1))"

text \<open>A buffer object is changed wherever it is reachable from.\<close>

definition update_buffer :: "nat \<Rightarrow> (buffered \<Rightarrow> buffered) \<Rightarrow> turn_streams \<Rightarrow> turn_streams" where
  "update_buffer i f s = s\<lparr>buffers := map (\<lambda>(t, x). (t, if b_ref x = i then f x else x)) (buffers s)\<rparr>"

definition unsubscribe :: "nat \<Rightarrow> world \<Rightarrow> world" where
  "unsubscribe k w =
     (if k \<ge> length (handles (fst w)) \<or> at_detached (handles (fst w) ! k) then w
      else let h = handles (fst w) ! k;
               s = update_buffer (at_buffer h) (\<lambda>x. x\<lparr>b_listeners := filter (\<lambda>p. fst p \<noteq> at_listener h) (b_listeners x)\<rparr>)
                 ((fst w)\<lparr>handles := (handles (fst w))[k := h\<lparr>at_detached := True\<rparr>]\<rparr>)
           in if at_chunks h then releaseChunkInterest (s, snd w) else (s, snd w))"

definition hear :: "nat \<Rightarrow> ev \<Rightarrow> world \<Rightarrow> world" where
  "hear l e w = ((fst w)\<lparr>heard := heard (fst w) @ [(l, e)]\<rparr>, snd w)"

fun fanOut :: "(nat \<Rightarrow> ev \<Rightarrow> nat list) \<Rightarrow> (nat \<times> interest) list \<Rightarrow> ev \<Rightarrow> bool \<Rightarrow> bool \<Rightarrow> world \<Rightarrow> world" where
  "fanOut reacts [] e chunk child w = w"
| "fanOut reacts ((l, i) # ls) e chunk child w =
     (if chunk \<and> \<not> wants_chunks i then fanOut reacts ls e chunk child w
      else if child \<and> \<not> wants_children i then fanOut reacts ls e chunk child w
      else fanOut reacts ls e chunk child (fold unsubscribe (reacts l e) (hear l e w)))"

section \<open>Retention\<close>

definition drop_buffer :: "buffered \<Rightarrow> world \<Rightarrow> world" where
  "drop_buffer x w =
     (let w1 = (if b_holds x then releaseChunkInterest w else w) in
      ((fst w1)\<lparr>buffers := filter (\<lambda>p. fst p \<noteq> b_turn x) (buffers (fst w1))\<rparr>, snd w1))"

text \<open>The first loop of \<open>#evict\<close>: the buffers past their age go, the other candidates are collected.\<close>

fun evict_scan :: "int \<Rightarrow> int \<Rightarrow> buffered list \<Rightarrow> world \<Rightarrow> buffered list \<times> world" where
  "evict_scan ms now [] w = ([], w)"
| "evict_scan ms now (x # xs) w =
     (case (b_state x, b_endedAt x) of
        (B_ended, Some at) \<Rightarrow>
          if b_listeners x \<noteq> [] then evict_scan ms now xs w
          else if now - at \<ge> ms then evict_scan ms now xs (drop_buffer x w)
          else (let (ended, w') = evict_scan ms now xs w in (x # ended, w'))
      | _ \<Rightarrow> evict_scan ms now xs w)"

definition endedAt0 :: "buffered \<Rightarrow> int" where
  "endedAt0 x = (case b_endedAt x of None \<Rightarrow> 0 | Some t \<Rightarrow> t)"

definition evict_ended :: "int \<Rightarrow> world \<Rightarrow> world" where
  "evict_ended now w =
     (let (ended, w1) = evict_scan (retainMs (fst w)) now (map snd (buffers (fst w))) w in
      if length ended \<le> retainCount (fst w) then w1
      else fold drop_buffer (take (length ended - retainCount (fst w)) (sort_key endedAt0 ended)) w1)"

section \<open>Recording\<close>

text \<open>The part of \<open>record\<close> before the fan-out: the event is appended to its buffer, under the cap.\<close>

definition push_event :: "nat \<Rightarrow> ev \<Rightarrow> buffered \<Rightarrow> buffered" where
  "push_event cap e x =
     (let es = b_events x @ [e]; over = length es > cap in
      x\<lparr>b_events := (if over then tl es else es), b_truncated := b_truncated x \<or> over,
        b_dropped := b_dropped x + (if over then 1 else 0),
        b_chunks := (if e_type e = CHUNK \<and> b_chunks x = Ch_none then Ch_partial else b_chunks x)\<rparr>)"

definition store_event :: "ev \<Rightarrow> string \<Rightarrow> turn_streams \<Rightarrow> turn_streams" where
  "store_event e t s0 =
     (let s = (if map_of (buffers s0) t = None then add_buffer t False s0 else s0) in
      s\<lparr>order := (order s)(e_ref e \<mapsto> seq_no s), seq_no := seq_no s + 1,
        buffers := map (\<lambda>(k, x). (k, if k = t then push_event (maxEvents s) e x else x)) (buffers s)\<rparr>)"

text \<open>The part for the parent turn, when its buffer is there.\<close>

definition tell_parent :: "(nat \<Rightarrow> ev \<Rightarrow> nat list) \<Rightarrow> ev \<Rightarrow> string \<Rightarrow> world \<Rightarrow> world" where
  "tell_parent reacts e t w =
     (case Option.bind (e_parent e) (map_of (buffers (fst w))) of
        None \<Rightarrow> w
      | Some p \<Rightarrow> fanOut reacts (b_listeners p) e (e_type e = CHUNK) True
          (update_buffer (b_ref p) (\<lambda>x. x\<lparr>b_children := List.insert t (b_children x)\<rparr>) (fst w), snd w))"

definition deliver_event :: "(nat \<Rightarrow> ev \<Rightarrow> nat list) \<Rightarrow> ev \<Rightarrow> string \<Rightarrow> world \<Rightarrow> world" where
  "deliver_event reacts e t w =
     (let w1 = (store_event e t (fst w), snd w); x = the (map_of (buffers (fst w1)) t)
      in tell_parent reacts e t (fanOut reacts (b_listeners x) e (e_type e = CHUNK) False w1))"

definition mark_ended :: "string \<Rightarrow> int \<Rightarrow> turn_streams \<Rightarrow> turn_streams" where
  "mark_ended t at s =
     s\<lparr>buffers := map (\<lambda>(k, x). (k, if k = t then x\<lparr>b_state := B_ended, b_endedAt := Some at\<rparr> else x)) (buffers s)\<rparr>"

definition record_event :: "(nat \<Rightarrow> ev \<Rightarrow> nat list) \<Rightarrow> ev \<times> int \<times> int \<Rightarrow> world \<Rightarrow> world" where
  "record_event reacts et w =
     (case et of (e, at, now) \<Rightarrow>
        case e_turn e of
          None \<Rightarrow> w
        | Some t \<Rightarrow>
            (let w1 = deliver_event reacts e t w
             in if e_type e = TURN_END then evict_ended now (mark_ended t at (fst w1), snd w1) else w1))"

section \<open>Attaching\<close>

record attachment =
  ta_handle :: nat
  ta_replay :: "ev list"
  ta_state :: buffer_state
  ta_truncated :: bool
  ta_dropped :: nat
  ta_chunks :: chunk_history

definition withChildren :: "turn_streams \<Rightarrow> buffered \<Rightarrow> ev list" where
  "withChildren s x =
     sort_key (\<lambda>e. case order s (e_ref e) of None \<Rightarrow> 0 | Some n \<Rightarrow> n)
       (b_events x @ concat (map (\<lambda>c. case map_of (buffers s) c of None \<Rightarrow> [] | Some y \<Rightarrow> b_events y) (b_children x)))"

definition attach :: "string \<Rightarrow> nat \<Rightarrow> interest \<Rightarrow> world \<Rightarrow> attachment option \<times> world" where
  "attach t l i w =
     (case map_of (buffers (fst w)) t of
        None \<Rightarrow> (None, w)
      | Some x \<Rightarrow>
          (let w1 = (if wants_chunks i then takeChunkInterest w else w);
               replay = (if wants_children i then withChildren (fst w1) x else b_events x);
               k = length (handles (fst w1));
               s = update_buffer (b_ref x) (\<lambda>y. y\<lparr>b_listeners := map_set (b_listeners y) l i\<rparr>)
                 ((fst w1)\<lparr>handles := handles (fst w1) @
                    [\<lparr>at_buffer = b_ref x, at_listener = l, at_chunks = wants_chunks i, at_detached = False\<rparr>]\<rparr>)
           in (Some \<lparr>ta_handle = k, ta_replay = replay, ta_state = b_state x, ta_truncated = b_truncated x,
                 ta_dropped = b_dropped x, ta_chunks = b_chunks x\<rparr>, (s, snd w1))))"

definition buffer_state_of :: "string \<Rightarrow> turn_streams \<Rightarrow> buffer_state option" where
  "buffer_state_of t s = map_option b_state (map_of (buffers s) t)"

definition is_truncated :: "string \<Rightarrow> turn_streams \<Rightarrow> bool" where
  "is_truncated t s = (case map_of (buffers s) t of None \<Rightarrow> False | Some x \<Rightarrow> b_truncated x)"

definition close_streams :: "world \<Rightarrow> world" where
  "close_streams w =
     (let w1 = releaseAllChunkInterest ((fst w)\<lparr>unsubscribeBus := None\<rparr>, unsubscribe_bus w) in
      ((fst w1)\<lparr>hasBus := False, buffers := []\<rparr>, snd w1))"

section \<open>On the bus\<close>

text \<open>Every closure of the streams records; the other handlers on the bus are scripts of bus calls.\<close>

definition behaviour ::
  "(nat \<Rightarrow> ev \<Rightarrow> nat list) \<Rightarrow> (nat \<Rightarrow> action list \<times> bool) \<Rightarrow> nat \<Rightarrow> ev \<times> int \<times> int \<Rightarrow> world \<Rightarrow> world \<times> bool" where
  "behaviour reacts script n et w =
     (if even n then (record_event reacts et w, False) else scripted script n et w)"

datatype stream_op =
    Emit ev int int
  | Open string bool
  | Attach string nat interest
  | Detach nat
  | Other action

fun stream_step :: "(nat \<Rightarrow> ev \<Rightarrow> nat list) \<Rightarrow> (nat \<Rightarrow> action list \<times> bool) \<Rightarrow> world \<Rightarrow> stream_op \<Rightarrow> world" where
  "stream_step reacts script w (Emit e at now) = snd (emit (behaviour reacts script) (e_type e) (e, at, now) w)"
| "stream_step reacts script w (Open t chunks) = open_turn t chunks w"
| "stream_step reacts script w (Attach t l i) = snd (attach t l i w)"
| "stream_step reacts script w (Detach k) = unsubscribe k w"
| "stream_step reacts script w (Other a) = (fst w, run_action (snd w) a)"

section \<open>What the operations leave alone\<close>

lemma take_frame [simp]:
  "buffers (fst (takeChunkInterest w)) = buffers (fst w)" "handles (fst (takeChunkInterest w)) = handles (fst w)"
  "heard (fst (takeChunkInterest w)) = heard (fst w)" "maxEvents (fst (takeChunkInterest w)) = maxEvents (fst w)"
  "chunkInterest (fst (takeChunkInterest w)) = chunkInterest (fst w) + 1"
  "serial (fst (takeChunkInterest w)) \<ge> serial (fst w)"
  by (simp_all add: takeChunkInterest_def Let_def)

lemma release_frame [simp]:
  "buffers (fst (releaseChunkInterest w)) = buffers (fst w)" "handles (fst (releaseChunkInterest w)) = handles (fst w)"
  "heard (fst (releaseChunkInterest w)) = heard (fst w)" "maxEvents (fst (releaseChunkInterest w)) = maxEvents (fst w)"
  "chunkInterest (fst (releaseChunkInterest w)) = chunkInterest (fst w) - 1"
  "serial (fst (releaseChunkInterest w)) = serial (fst w)"
  by (simp_all add: releaseChunkInterest_def unsubscribe_chunks_def Let_def)

lemma unsubscribe_frame [simp]:
  "heard (fst (unsubscribe k w)) = heard (fst w)" "maxEvents (fst (unsubscribe k w)) = maxEvents (fst w)"
  "serial (fst (unsubscribe k w)) = serial (fst w)" "length (handles (fst (unsubscribe k w))) = length (handles (fst w))"
  by (simp_all add: unsubscribe_def update_buffer_def Let_def)

lemma unsubscribes_frame [simp]:
  "heard (fst (fold unsubscribe ks w)) = heard (fst w)" "maxEvents (fst (fold unsubscribe ks w)) = maxEvents (fst w)"
  "serial (fst (fold unsubscribe ks w)) = serial (fst w)"
  by (induction ks arbitrary: w) simp_all

lemma drop_frame [simp]:
  "heard (fst (drop_buffer x w)) = heard (fst w)" "maxEvents (fst (drop_buffer x w)) = maxEvents (fst w)"
  "handles (fst (drop_buffer x w)) = handles (fst w)" "serial (fst (drop_buffer x w)) = serial (fst w)"
  "buffers (fst (drop_buffer x w)) = filter (\<lambda>p. fst p \<noteq> b_turn x) (buffers (fst w))"
  by (simp_all add: drop_buffer_def Let_def)

lemma drops_frame [simp]:
  "heard (fst (fold drop_buffer xs w)) = heard (fst w)" "maxEvents (fst (fold drop_buffer xs w)) = maxEvents (fst w)"
  "handles (fst (fold drop_buffer xs w)) = handles (fst w)" "serial (fst (fold drop_buffer xs w)) = serial (fst w)"
  by (induction xs arbitrary: w) simp_all

lemma drops_buffers:
  "buffers (fst (fold drop_buffer xs w)) = filter (\<lambda>p. fst p \<notin> b_turn ` set xs) (buffers (fst w))"
  by (induction xs arbitrary: w) (auto intro!: filter_cong)

text \<open>A fan-out calls the listeners that asked, in their order, each once, whatever they do meanwhile.\<close>

definition passes :: "bool \<Rightarrow> bool \<Rightarrow> interest \<Rightarrow> bool" where
  "passes chunk child i \<longleftrightarrow> (chunk \<longrightarrow> wants_chunks i) \<and> (child \<longrightarrow> wants_children i)"

lemma fanOut_heard:
  "heard (fst (fanOut reacts ls e chunk child w)) =
     heard (fst w) @ map (\<lambda>p. (fst p, e)) (filter (\<lambda>p. passes chunk child (snd p)) ls)"
  by (induction reacts ls e chunk child w rule: fanOut.induct) (auto simp: passes_def hear_def)

section \<open>The streams do not look at the bus\<close>

lemma take_release_fst_cong:
  "fst w = fst w' \<Longrightarrow> fst (takeChunkInterest w) = fst (takeChunkInterest w')"
  "fst w = fst w' \<Longrightarrow> fst (releaseChunkInterest w) = fst (releaseChunkInterest w')"
  "fst w = fst w' \<Longrightarrow> fst (hear l e w) = fst (hear l e w')"
  by (simp_all add: takeChunkInterest_def releaseChunkInterest_def unsubscribe_chunks_def hear_def Let_def)

lemma unsubscribe_fst_cong: "fst w = fst w' \<Longrightarrow> fst (unsubscribe k w) = fst (unsubscribe k w')"
  by (simp add: unsubscribe_def Let_def take_release_fst_cong(2) [of "(s, snd w)" "(s, snd w')" for s])

lemma drop_fst_cong: "fst w = fst w' \<Longrightarrow> fst (drop_buffer x w) = fst (drop_buffer x w')"
  using take_release_fst_cong(2) [of w w'] by (simp add: drop_buffer_def Let_def)

lemma fold_fst_cong:
  assumes "\<And>x w w'. fst w = fst w' \<Longrightarrow> fst (f x w) = fst (f x w')" "fst w = fst w'"
  shows "fst (fold f xs w) = fst (fold f xs w')"
  using assms(2)
proof (induction xs arbitrary: w w')
  case (Cons x xs)
  from Cons.IH [OF assms(1) [OF Cons.prems]] show ?case by simp
qed simp

lemma unsubscribes_fst_cong: "fst w = fst w' \<Longrightarrow> fst (fold unsubscribe ks w) = fst (fold unsubscribe ks w')"
  by (rule fold_fst_cong [OF unsubscribe_fst_cong])

lemma drops_fst_cong: "fst w = fst w' \<Longrightarrow> fst (fold drop_buffer xs w) = fst (fold drop_buffer xs w')"
  by (rule fold_fst_cong [OF drop_fst_cong])

lemma fanOut_fst_cong: "fst w = fst w' \<Longrightarrow> fst (fanOut reacts ls e chunk child w) = fst (fanOut reacts ls e chunk child w')"
proof (induction ls arbitrary: w w')
  case (Cons p ls)
  obtain l i where p: "p = (l, i)" by (cases p)
  have "fst (fold unsubscribe (reacts l e) (hear l e w)) = fst (fold unsubscribe (reacts l e) (hear l e w'))"
    by (rule unsubscribes_fst_cong [OF take_release_fst_cong(3) [OF Cons.prems]])
  note q = Cons.IH [OF this] Cons.IH [OF Cons.prems]
  show ?case by (simp only: p fanOut.simps if_distrib [of fst] q)
qed simp

lemma evict_scan_cong:
  "fst w = fst w' \<Longrightarrow> fst (evict_scan ms now xs w) = fst (evict_scan ms now xs w') \<and>
     fst (snd (evict_scan ms now xs w)) = fst (snd (evict_scan ms now xs w'))"
proof (induction xs arbitrary: w w')
  case (Cons x xs)
  note d = Cons.IH [OF drop_fst_cong [OF Cons.prems]]
  show ?case using Cons.IH [OF Cons.prems] d
    by (cases "b_state x"; cases "b_endedAt x") (simp_all add: case_prod_beta Let_def)
qed simp

lemma evict_fst_cong:
  assumes "fst w = fst w'"
  shows "fst (evict_ended now w) = fst (evict_ended now w')"
proof -
  note c = evict_scan_cong [OF assms, of "retainMs (fst w)" now "map snd (buffers (fst w))"]
  note d = drops_fst_cong [OF conjunct2 [OF c]]
  show ?thesis using c d assms by (simp add: evict_ended_def case_prod_beta Let_def)
qed

lemma parent_fst_cong: "fst w = fst w' \<Longrightarrow> fst (tell_parent reacts e t w) = fst (tell_parent reacts e t w')"
  by (cases "Option.bind (e_parent e) (map_of (buffers (fst w)))") (simp_all add: tell_parent_def fanOut_fst_cong)

lemma deliver_fst_cong: "fst w = fst w' \<Longrightarrow> fst (deliver_event reacts e t w) = fst (deliver_event reacts e t w')"
  using parent_fst_cong [OF fanOut_fst_cong [of "(s, snd w)" "(s, snd w')" for s]] by (simp add: deliver_event_def Let_def)

lemma record_fst_cong:
  assumes "fst w = fst w'"
  shows "fst (record_event reacts et w) = fst (record_event reacts et w')"
proof (cases "e_turn (fst et)")
  case (Some t)
  obtain e at now where et: "et = (e, at, now)" by (cases et)
  note d = deliver_fst_cong [OF assms, of reacts e t]
  have "fst (evict_ended now (mark_ended t at (fst (deliver_event reacts e t w)), snd (deliver_event reacts e t w))) =
      fst (evict_ended now (mark_ended t at (fst (deliver_event reacts e t w')), snd (deliver_event reacts e t w')))"
    using d by (intro evict_fst_cong) simp
  with Some et d show ?thesis by (simp add: record_event_def Let_def)
qed (use assms in \<open>simp add: record_event_def case_prod_beta\<close>)

section \<open>The closures of the streams on the bus\<close>

fun foreign :: "handler \<Rightarrow> bool" where
  "foreign (Plain n) = odd n"
| "foreign (Once k ty n) = odd n"

fun foreign_action :: "action \<Rightarrow> bool" where
  "foreign_action (A_on ty h c) = foreign h"
| "foreign_action (A_off ty h) = foreign h"
| "foreign_action (A_once ty k n c) = odd n"

definition ours :: "bus \<Rightarrow> string \<Rightarrow> handler list" where
  "ours b ty = filter (\<lambda>h. \<not> foreign h) (handlers b ty)"

definition our_wildcards :: "bus \<Rightarrow> (handler \<times> bool) list" where
  "our_wildcards b = filter (\<lambda>p. \<not> foreign (fst p)) (wildcard b)"

lemma map_set_filter: "P h \<Longrightarrow> filter (\<lambda>p. \<not> P (fst p)) (map_set m h v) = filter (\<lambda>p. \<not> P (fst p)) m"
  by (induction m h v rule: map_set.induct) auto

lemma foreign_on: "foreign h \<Longrightarrow> ours (bus_on b ty h c) ty' = ours b ty' \<and> our_wildcards (bus_on b ty h c) = our_wildcards b"
  by (simp add: bus_on_def ours_def our_wildcards_def map_set_filter Let_def)

lemma foreign_off:
  assumes "foreign h"
  shows "ours (bus_off b ty h) ty' = ours b ty' \<and> our_wildcards (bus_off b ty h) = our_wildcards b"
proof -
  have "filter (\<lambda>h. \<not> foreign h) (removeAll h xs) = filter (\<lambda>h. \<not> foreign h) xs" for xs
    using assms by (induction xs) auto
  moreover have "filter (\<lambda>p. fst p \<noteq> h \<and> \<not> foreign (fst p)) m = filter (\<lambda>p. \<not> foreign (fst p)) m" for m :: "(handler \<times> bool) list"
    using assms by (auto intro!: filter_cong)
  ultimately show ?thesis by (simp add: bus_off_def ours_def our_wildcards_def split: option.split)
qed

lemma foreign_act:
  "foreign_action a \<Longrightarrow> ours (run_action b a) ty = ours b ty \<and> our_wildcards (run_action b a) = our_wildcards b"
  by (cases a) (simp_all add: foreign_on foreign_off bus_once_def)

lemma foreign_acts:
  "\<forall>a \<in> set as. foreign_action a \<Longrightarrow>
     ours (foldl run_action b as) ty = ours b ty \<and> our_wildcards (foldl run_action b as) = our_wildcards b"
  by (induction as arbitrary: b) (simp_all add: foreign_act)

text \<open>On a bus they listen on, the streams have one wildcard closure, which gets no tokens, and one closure for
  tokens exactly while there is interest in them.\<close>

definition plugged :: "world \<Rightarrow> bool" where
  "plugged w \<longleftrightarrow> bus_inv (snd w) \<and> hasBus (fst w) \<and>
     (\<exists>k. unsubscribeBus (fst w) = Some k \<and> our_wildcards (snd w) = [(Plain (2 * k), False)]) \<and>
     (\<forall>ty. ours (snd w) ty = (if ty = CHUNK then (case unsubscribeChunks (fst w) of None \<Rightarrow> [] | Some k \<Rightarrow> [Plain (2 * k)]) else [])) \<and>
     (unsubscribeChunks (fst w) = None \<longleftrightarrow> chunkInterest (fst w) = 0)"

lemma plugged_cong:
  "plugged w \<Longrightarrow> snd w' = snd w \<Longrightarrow> hasBus (fst w') = hasBus (fst w) \<Longrightarrow> unsubscribeBus (fst w') = unsubscribeBus (fst w) \<Longrightarrow>
   unsubscribeChunks (fst w') = unsubscribeChunks (fst w) \<Longrightarrow> chunkInterest (fst w') = chunkInterest (fst w) \<Longrightarrow> plugged w'"
  by (simp add: plugged_def)

lemma plugged_foreign: "plugged w \<Longrightarrow> \<forall>a \<in> set as. foreign_action a \<Longrightarrow> plugged (fst w, foldl run_action (snd w) as)"
  by (simp add: plugged_def foreign_acts actions_inv)

lemma CHUNK_not_STAR [simp]: "CHUNK \<noteq> STAR" "STAR \<noteq> CHUNK" by (simp_all add: CHUNK_def STAR_def)

lemma take_plugged:
  assumes "plugged w"
  shows "plugged (takeChunkInterest w)"
proof (cases "chunkInterest (fst w) = 0")
  case True
  let ?h = "Plain (2 * serial (fst w))"
  have o: "ours (snd w) CHUNK = []" using assms True by (simp add: plugged_def)
  have "?h \<notin> set (handlers (snd w) CHUNK)"
  proof
    assume "?h \<in> set (handlers (snd w) CHUNK)"
    then have "?h \<in> set (ours (snd w) CHUNK)" by (simp add: ours_def)
    with o show False by simp
  qed
  then have "ours (bus_on (snd w) CHUNK ?h False) ty = (if ty = CHUNK then [?h] else ours (snd w) ty)"
    "our_wildcards (bus_on (snd w) CHUNK ?h False) = our_wildcards (snd w)" for ty
    using o by (auto simp: bus_on_def ours_def our_wildcards_def Let_def)
  with assms True show ?thesis by (simp add: plugged_def takeChunkInterest_def Let_def on_inv)
qed (use assms in \<open>simp add: plugged_def takeChunkInterest_def Let_def\<close>)

lemma release_plugged:
  assumes "plugged w"
  shows "plugged (releaseChunkInterest w)"
proof (cases "chunkInterest (fst w) = 1")
  case True
  then obtain k where k: "unsubscribeChunks (fst w) = Some k" using assms by (auto simp: plugged_def)
  then have o: "ours (snd w) CHUNK = [Plain (2 * k)]" using assms by (simp add: plugged_def)
  then have "Plain (2 * k) \<in> set (ours (snd w) CHUNK)" by simp
  then have m: "Plain (2 * k) \<in> set (handlers (snd w) CHUNK)" by (simp add: ours_def)
  have "filter (\<lambda>h. \<not> foreign h) (removeAll x xs) = removeAll x (filter (\<lambda>h. \<not> foreign h) xs)" for x xs
    by (simp add: removeAll_filter_not_eq conj_commute)
  then have "ours (bus_off (snd w) CHUNK (Plain (2 * k))) ty = (if ty = CHUNK then [] else ours (snd w) ty)"
    "our_wildcards (bus_off (snd w) CHUNK (Plain (2 * k))) = our_wildcards (snd w)" for ty
    using o m by (simp_all add: bus_off_def ours_def our_wildcards_def)
  with assms True k show ?thesis
    by (simp add: plugged_def releaseChunkInterest_def unsubscribe_chunks_def Let_def off_inv)
qed (use assms in \<open>auto simp: plugged_def releaseChunkInterest_def unsubscribe_chunks_def Let_def\<close>)

lemma unsubscribe_plugged:
  assumes "plugged w"
  shows "plugged (unsubscribe k w)"
proof -
  have "plugged (update_buffer i f ((fst w)\<lparr>handles := hs\<rparr>), snd w)" for i f hs
    by (rule plugged_cong [OF assms]) (simp_all add: update_buffer_def)
  with assms show ?thesis by (simp add: unsubscribe_def Let_def release_plugged)
qed

lemma fanOut_plugged: "plugged w \<Longrightarrow> plugged (fanOut reacts ls e chunk child w)"
proof (induction reacts ls e chunk child w rule: fanOut.induct)
  case (2 reacts l i ls e chunk child w)
  have "plugged (fold unsubscribe ks v)" if "plugged v" for ks v
    using that by (induction ks arbitrary: v) (simp_all add: unsubscribe_plugged)
  moreover have "plugged (hear l e w)" by (rule plugged_cong [OF 2(4)]) (simp_all add: hear_def)
  ultimately show ?case using 2 by simp
qed simp

lemma drop_plugged:
  assumes "plugged w"
  shows "plugged (drop_buffer x w)"
proof -
  have "plugged (if b_holds x then releaseChunkInterest w else w)" using assms release_plugged by simp
  then show ?thesis by (rule plugged_cong) (simp_all add: drop_buffer_def Let_def)
qed

lemma drops_plugged: "plugged w \<Longrightarrow> plugged (fold drop_buffer xs w)"
  by (induction xs arbitrary: w) (simp_all add: drop_plugged)

text \<open>An eviction forgets some ended buffers that nobody listens to, each once.\<close>

definition evictable :: "buffered \<Rightarrow> bool" where
  "evictable x \<longleftrightarrow> b_state x = B_ended \<and> b_listeners x = []"

lemma evict_scan_folds:
  "distinct (map b_turn xs) \<Longrightarrow>
   \<exists>ys. snd (evict_scan ms now xs w) = fold drop_buffer ys w \<and>
     distinct (map b_turn (ys @ fst (evict_scan ms now xs w))) \<and>
     set (ys @ fst (evict_scan ms now xs w)) \<subseteq> {x \<in> set xs. evictable x}"
proof (induction xs arbitrary: w)
  case (Cons x xs)
  then have d: "distinct (map b_turn xs)" "b_turn x \<notin> b_turn ` set xs" by auto
  show ?case
  proof (cases "b_state x = B_ended \<and> b_endedAt x \<noteq> None \<and> b_listeners x = []")
    case False
    then have "evict_scan ms now (x # xs) w = evict_scan ms now xs w" by (cases "b_state x"; cases "b_endedAt x") auto
    with Cons.IH [OF d(1), of w] show ?thesis by auto
  next
    case True
    then obtain at where at: "b_endedAt x = Some at" by auto
    define v where "v = (if now - at \<ge> ms then drop_buffer x w else w)"
    obtain ys where ys: "snd (evict_scan ms now xs v) = fold drop_buffer ys v"
      "distinct (map b_turn (ys @ fst (evict_scan ms now xs v)))"
      "set (ys @ fst (evict_scan ms now xs v)) \<subseteq> {x \<in> set xs. evictable x}" using Cons.IH [OF d(1), of v] by blast
    have n: "b_turn x \<notin> b_turn ` set (ys @ fst (evict_scan ms now xs v))" using d(2) ys(3) by blast
    have e: "evictable x" using True by (simp add: evictable_def)
    show ?thesis
    proof (cases "now - at \<ge> ms")
      case old: True
      then have "evict_scan ms now (x # xs) w = evict_scan ms now xs v" using True at by (simp add: v_def)
      moreover have "fold drop_buffer ys v = fold drop_buffer (x # ys) w" using old by (simp add: v_def)
      ultimately show ?thesis using ys n e by (intro exI [of _ "x # ys"]) auto
    next
      case young: False
      then have "evict_scan ms now (x # xs) w = (x # fst (evict_scan ms now xs v), snd (evict_scan ms now xs v))"
        using True at by (simp add: v_def case_prod_beta Let_def)
      moreover have "v = w" using young by (simp add: v_def)
      ultimately show ?thesis using ys n e by (intro exI [of _ ys]) auto
    qed
  qed
qed auto

lemma evict_folds:
  assumes "distinct (map b_turn (map snd (buffers (fst w))))"
  shows "\<exists>ys. evict_ended now w = fold drop_buffer ys w \<and> distinct (map b_turn ys) \<and> set ys \<subseteq> {x \<in> snd ` set (buffers (fst w)). evictable x}"
proof -
  obtain ended v where s: "evict_scan (retainMs (fst w)) now (map snd (buffers (fst w))) w = (ended, v)"
    by (cases "evict_scan (retainMs (fst w)) now (map snd (buffers (fst w))) w")
  from evict_scan_folds [OF assms, of "retainMs (fst w)" now w] s
  obtain ys where ys: "v = fold drop_buffer ys w" "distinct (map b_turn (ys @ ended))"
    "set (ys @ ended) \<subseteq> {x \<in> snd ` set (buffers (fst w)). evictable x}" by auto
  let ?zs = "take (length ended - retainCount (fst w)) (sort_key endedAt0 ended)"
  show ?thesis
  proof (cases "length ended \<le> retainCount (fst w)")
    case True
    then show ?thesis using ys s by (intro exI [of _ ys]) (auto simp: evict_ended_def)
  next
    case False
    have "set ?zs \<subseteq> set ended" by (metis set_sort set_take_subset)
    moreover have "distinct (map b_turn (sort_key endedAt0 ended))"
      using ys(2) by (simp add: distinct_map)
    then have "distinct (map b_turn ?zs)" by (metis distinct_take take_map)
    ultimately have "distinct (map b_turn (ys @ ?zs))" using ys(2) by auto
    then show ?thesis
      using ys s False \<open>set ?zs \<subseteq> set ended\<close> by (intro exI [of _ "ys @ ?zs"]) (auto simp: evict_ended_def)
  qed
qed

lemma scan_plugged: "plugged w \<Longrightarrow> plugged (snd (evict_scan ms now xs w))"
proof (induction xs arbitrary: w)
  case (Cons x xs)
  note q = Cons.IH [OF Cons.prems] Cons.IH [OF drop_plugged [OF Cons.prems]]
  then show ?case by (cases "b_state x"; cases "b_endedAt x") (simp_all add: case_prod_beta Let_def)
qed simp

lemma evict_plugged: "plugged w \<Longrightarrow> plugged (evict_ended now w)"
  by (simp add: evict_ended_def case_prod_beta Let_def drops_plugged scan_plugged)

lemma parent_plugged:
  assumes "plugged w"
  shows "plugged (tell_parent reacts e t w)"
proof -
  have "plugged (update_buffer i f (fst w), snd w)" for i f
    by (rule plugged_cong [OF assms]) (simp_all add: update_buffer_def)
  with assms show ?thesis by (auto simp: tell_parent_def split: option.split intro: fanOut_plugged)
qed

lemma deliver_plugged:
  assumes "plugged w"
  shows "plugged (deliver_event reacts e t w)"
  unfolding deliver_event_def Let_def
  by (intro parent_plugged fanOut_plugged plugged_cong [OF assms]) (simp_all add: store_event_def add_buffer_def Let_def)

lemma record_plugged:
  assumes "plugged w"
  shows "plugged (record_event reacts et w)"
proof -
  have "plugged (mark_ended t at (fst v), snd v)" if "plugged v" for t at v
    by (rule plugged_cong [OF that]) (simp_all add: mark_ended_def)
  with deliver_plugged [OF assms] show ?thesis
    using assms by (auto simp: record_event_def case_prod_beta Let_def intro!: evict_plugged split: option.split)
qed

definition foreign_script :: "(nat \<Rightarrow> action list \<times> bool) \<Rightarrow> bool" where
  "foreign_script script \<longleftrightarrow> (\<forall>n. \<forall>a \<in> set (fst (script n)). foreign_action a)"

lemma behaviour_plugged: "foreign_script script \<Longrightarrow> plugged w \<Longrightarrow> plugged (fst (behaviour reacts script n et w))"
  by (simp add: behaviour_def record_plugged scripted_def plugged_foreign foreign_script_def)

text \<open>The streams' closures keep the bookkeeping of any bus, so all the bus promises holds with them on it.\<close>

lemma release_bus: "bus_inv (snd w) \<Longrightarrow> bus_inv (snd (releaseChunkInterest w))"
  by (simp add: releaseChunkInterest_def unsubscribe_chunks_def Let_def off_inv split: option.split)

lemma unsubscribe_bus_inv: "bus_inv (snd w) \<Longrightarrow> bus_inv (snd (unsubscribe k w))"
  by (simp add: unsubscribe_def Let_def release_bus)

lemma fanOut_bus: "bus_inv (snd w) \<Longrightarrow> bus_inv (snd (fanOut reacts ls e chunk child w))"
proof (induction reacts ls e chunk child w rule: fanOut.induct)
  case (2 reacts l i ls e chunk child w)
  have "bus_inv (snd (fold unsubscribe ks v))" if "bus_inv (snd v)" for ks v
    using that by (induction ks arbitrary: v) (simp_all add: unsubscribe_bus_inv)
  from this [of "hear l e w" "reacts l e"] 2 show ?case by (simp add: hear_def)
qed simp

lemma drop_bus: "bus_inv (snd w) \<Longrightarrow> bus_inv (snd (drop_buffer x w))"
  by (simp add: drop_buffer_def Let_def release_bus)

lemma evict_bus:
  assumes "bus_inv (snd w)"
  shows "bus_inv (snd (evict_ended now w))"
proof -
  have d: "bus_inv (snd (fold drop_buffer ys v))" if "bus_inv (snd v)" for ys v
    using that by (induction ys arbitrary: v) (simp_all add: drop_bus)
  have "bus_inv (snd (snd (evict_scan ms now xs v)))" if "bus_inv (snd v)" for ms xs v
    using that
  proof (induction xs arbitrary: v)
    case (Cons x xs)
    note q = Cons.IH [OF Cons.prems] Cons.IH [OF drop_bus [OF Cons.prems]]
    then show ?case by (cases "b_state x"; cases "b_endedAt x") (simp_all add: case_prod_beta Let_def)
  qed simp
  with assms d show ?thesis by (simp add: evict_ended_def case_prod_beta Let_def)
qed

lemma deliver_bus: "bus_inv (snd w) \<Longrightarrow> bus_inv (snd (deliver_event reacts e t w))"
  by (auto simp: deliver_event_def tell_parent_def Let_def split: option.split intro!: fanOut_bus)

lemma record_bus: "bus_inv (snd w) \<Longrightarrow> bus_inv (snd (record_event reacts et w))"
  by (auto simp: record_event_def case_prod_beta Let_def split: option.split intro!: evict_bus deliver_bus)

interpretation streams_bus: bus_handlers "behaviour reacts script" for reacts script
  by unfold_locales (simp add: behaviour_def record_bus scripted_def actions_inv)

section \<open>An emitted event is recorded once\<close>

lemma run_fst:
  assumes "foreign_script script"
  shows "fst (fst (run_handler (behaviour reacts script) h et w)) = (if foreign h then fst w else fst (record_event reacts et (fst w, b)))"
proof -
  have r: "fst (record_event reacts et w) = fst (record_event reacts et (fst w, b))"
    "fst (record_event reacts et (fst w, b')) = fst (record_event reacts et (fst w, b))" for b'
    by (rule record_fst_cong; simp)+
  show ?thesis
  proof (cases h)
    case (Plain n)
    with r(1) show ?thesis by (simp add: run_handler_def behaviour_def scripted_def)
  next
    case (Once k ty n)
    with r(2) [of "bus_off (snd w) ty h"] show ?thesis by (simp add: run_handler_def behaviour_def scripted_def)
  qed
qed

lemma deliver_all_fst:
  assumes "foreign_script script"
  shows "fst (snd (deliver_all (behaviour reacts script) hs et w)) =
    ((\<lambda>s. fst (record_event reacts et (s, b))) ^^ length (filter (\<lambda>h. \<not> foreign h) hs)) (fst w)"
proof (induction hs arbitrary: w)
  case (Cons h hs)
  show ?case
    using Cons.IH [of "fst (run_handler (behaviour reacts script) h et w)"] run_fst [OF assms, of reacts h et w b]
    by (simp add: case_prod_beta Let_def funpow_Suc_right del: funpow.simps)
qed simp

lemma deliver_all_plugged:
  assumes "foreign_script script" "\<forall>h \<in> set hs. foreign h \<or> (\<exists>n. h = Plain n)" "plugged w"
  shows "plugged (snd (deliver_all (behaviour reacts script) hs et w))"
  using assms(2,3)
proof (induction hs arbitrary: w)
  case (Cons h hs)
  have "plugged (fst (run_handler (behaviour reacts script) h et w))"
  proof (cases h)
    case (Plain n)
    then show ?thesis using behaviour_plugged [OF assms(1) Cons.prems(2)] by (simp add: run_handler_def)
  next
    case (Once k ty n)
    with Cons.prems(1) have "foreign_action (A_off ty h)" by auto
    from plugged_foreign [OF Cons.prems(2), of "[A_off ty h]"] this have "plugged (fst w, bus_off (snd w) ty h)" by simp
    then show ?thesis using behaviour_plugged [OF assms(1)] Once by (simp add: run_handler_def)
  qed
  from Cons.IH [OF _ this] Cons.prems(1) show ?case by (simp add: case_prod_beta Let_def)
qed simp

lemma plugged_handlers:
  assumes "plugged w"
  shows "\<forall>h \<in> set (handlers (snd w) ty). foreign h \<or> (\<exists>n. h = Plain n)"
    "\<forall>h \<in> set (listening (snd w) ty). foreign h \<or> (\<exists>n. h = Plain n)"
    "length (filter (\<lambda>h. \<not> foreign h) (handlers (snd w) ty)) = (if ty = CHUNK \<and> chunkInterest (fst w) > 0 then 1 else 0)"
    "length (filter (\<lambda>h. \<not> foreign h) (listening (snd w) ty)) = (if ty = CHUNK then 0 else 1)"
proof -
  obtain k where k: "our_wildcards (snd w) = [(Plain (2 * k), False)]" using assms by (auto simp: plugged_def)
  have o: "ours (snd w) ty = (if ty = CHUNK then (case unsubscribeChunks (fst w) of None \<Rightarrow> [] | Some k \<Rightarrow> [Plain (2 * k)]) else [])"
    using assms by (simp add: plugged_def)
  have "foreign h \<or> h \<in> set (ours (snd w) ty)" if "h \<in> set (handlers (snd w) ty)" for h using that by (simp add: ours_def)
  moreover have "\<exists>n. h = Plain n" if "h \<in> set (ours (snd w) ty)" for h
  proof (cases "ty = CHUNK \<and> unsubscribeChunks (fst w) \<noteq> None")
    case True
    then obtain j where "unsubscribeChunks (fst w) = Some j" by blast
    with True that o have "h = Plain (2 * j)" by simp
    then show ?thesis by (rule exI)
  next
    case False
    then have "ours (snd w) ty = []" using o by (cases "ty = CHUNK") simp_all
    with that show ?thesis by simp
  qed
  ultimately show "\<forall>h \<in> set (handlers (snd w) ty). foreign h \<or> (\<exists>n. h = Plain n)" by blast
  have "foreign (fst p) \<or> p \<in> set (our_wildcards (snd w))" if "p \<in> set (wildcard (snd w))" for p
    using that by (simp add: our_wildcards_def)
  with k show "\<forall>h \<in> set (listening (snd w) ty). foreign h \<or> (\<exists>n. h = Plain n)" by (fastforce simp: listening_def)
  show "length (filter (\<lambda>h. \<not> foreign h) (handlers (snd w) ty)) = (if ty = CHUNK \<and> chunkInterest (fst w) > 0 then 1 else 0)"
    using assms o by (auto simp: plugged_def ours_def split: option.splits)
  have "filter (\<lambda>h. \<not> foreign h) (listening (snd w) ty) = map fst (filter (\<lambda>p. ty = CHUNK \<longrightarrow> snd p) (our_wildcards (snd w)))"
    by (simp add: listening_def our_wildcards_def filter_map o_def conj_commute)
  then show "length (filter (\<lambda>h. \<not> foreign h) (listening (snd w) ty)) = (if ty = CHUNK then 0 else 1)" using k by simp
qed

lemma emit_once:
  assumes "foreign_script script" "plugged w"
  shows "fst (snd (emit (behaviour reacts script) ty et w)) =
      (if ty = CHUNK \<and> chunkInterest (fst w) = 0 then fst w else fst (record_event reacts et w))"
    "plugged (snd (emit (behaviour reacts script) ty et w))"
proof -
  let ?f = "\<lambda>s. fst (record_event reacts et (s, snd w))"
  define w1 where "w1 = snd (deliver_all (behaviour reacts script) (handlers (snd w) ty) et w)"
  define w2 where "w2 = snd (deliver_all (behaviour reacts script) (listening (snd w1) ty) et w1)"
  have e: "snd (emit (behaviour reacts script) ty et w) = w2"
    using streams_bus.gate_exact [of w reacts script ty et] assms(2)
    by (simp add: plugged_def dispatch_def case_prod_beta Let_def w1_def w2_def)
  have p1: "plugged w1" unfolding w1_def by (rule deliver_all_plugged [OF assms(1) plugged_handlers(1) [OF assms(2)] assms(2)])
  then show "plugged (snd (emit (behaviour reacts script) ty et w))"
    unfolding e w2_def by (intro deliver_all_plugged [OF assms(1) plugged_handlers(2) [OF p1] p1])
  have "fst w1 = (?f ^^ (if ty = CHUNK \<and> chunkInterest (fst w) > 0 then 1 else 0)) (fst w)"
    using deliver_all_fst [OF assms(1), of reacts "handlers (snd w) ty" et w "snd w"] plugged_handlers(3) [OF assms(2), of ty] by (simp add: w1_def)
  moreover have "fst w2 = (?f ^^ (if ty = CHUNK then 0 else 1)) (fst w1)"
    using deliver_all_fst [OF assms(1), of reacts "listening (snd w1) ty" et w1 "snd w"] plugged_handlers(4) [OF p1, of ty] by (simp add: w2_def)
  moreover have "?f (fst w) = fst (record_event reacts et w)" by simp
  ultimately show "fst (snd (emit (behaviour reacts script) ty et w)) =
      (if ty = CHUNK \<and> chunkInterest (fst w) = 0 then fst w else fst (record_event reacts et w))"
    using e by (simp split: if_splits)
qed

section \<open>Well-formed streams\<close>

definition targets :: "turn_streams \<Rightarrow> (nat \<times> nat) list" where
  "targets s = map (\<lambda>h. (at_buffer h, at_listener h)) (handles s)"

definition buf_ok :: "nat \<Rightarrow> nat \<Rightarrow> (nat \<times> nat) list \<Rightarrow> buffered \<Rightarrow> bool" where
  "buf_ok mx n ts x \<longleftrightarrow> b_ref x < n \<and> length (b_events x) \<le> mx \<and> (b_truncated x \<longleftrightarrow> b_dropped x > 0) \<and>
     distinct (map fst (b_listeners x)) \<and> (\<forall>l \<in> fst ` set (b_listeners x). (b_ref x, l) \<in> set ts)"

definition holding :: "(string \<times> buffered) list \<Rightarrow> nat" where
  "holding bs = length (filter (\<lambda>p. b_holds (snd p)) bs)"

definition asking :: "subscription_handle list \<Rightarrow> nat" where
  "asking hs = length (filter (\<lambda>h. at_chunks h \<and> \<not> at_detached h) hs)"

text \<open>The interest in tokens is the number of buffers and live attachments that asked for them.\<close>

definition streams_ok :: "turn_streams \<Rightarrow> bool" where
  "streams_ok s \<longleftrightarrow> distinct (map fst (buffers s)) \<and> distinct (map (\<lambda>p. b_ref (snd p)) (buffers s)) \<and>
     (\<forall>p \<in> set (buffers s). b_turn (snd p) = fst p \<and> buf_ok (maxEvents s) (serial s) (targets s) (snd p)) \<and>
     (\<forall>p \<in> set (targets s). fst p < serial s) \<and>
     chunkInterest s = holding (buffers s) + asking (handles s)"

lemma map_set_new: "map_of m k = None \<Longrightarrow> map_set m k v = m @ [(k, v)]"
  by (induction m k v rule: map_set.induct) (auto split: if_splits)

lemma filter_update_count:
  "k < length xs \<Longrightarrow> length (filter P (xs[k := y])) + (if P (xs ! k) then 1 else 0) = length (filter P xs) + (if P y then 1 else 0)"
proof (induction xs arbitrary: k)
  case (Cons x xs)
  show ?case
  proof (cases k)
    case (Suc j)
    with Cons.IH [of j] Cons.prems show ?thesis by simp
  qed simp
qed simp

lemma filter_key_drop:
  "distinct (map fst m) \<Longrightarrow> (k, v) \<in> set m \<Longrightarrow>
     length (filter (\<lambda>p. P (snd p)) m) = length (filter (\<lambda>p. P (snd p)) (filter (\<lambda>p. fst p \<noteq> k) m)) + (if P v then 1 else 0)"
proof (induction m)
  case (Cons p m)
  obtain k' v' where p: "p = (k', v')" by (cases p)
  show ?case
  proof (cases "k' = k")
    case True
    with Cons.prems p have "\<forall>q \<in> set m. fst q \<noteq> k" "v' = v" by force+
    then have "filter (\<lambda>p. fst p \<noteq> k) m = m" by simp
    with True p \<open>v' = v\<close> show ?thesis by simp
  next
    case False
    with Cons p show ?thesis by simp
  qed
qed simp

lemma buf_ok_mono: "buf_ok mx n ts x \<Longrightarrow> n \<le> n' \<Longrightarrow> set ts \<subseteq> set ts' \<Longrightarrow> buf_ok mx n' ts' x"
  by (auto simp: buf_ok_def)

text \<open>Changing the buffers in place keeps them well-formed when each stays so and keeps its identity.\<close>

lemma streams_ok_map:
  assumes "streams_ok s" "buffers s' = map (\<lambda>(k, x). (k, g k x)) (buffers s)"
    "\<And>k x. (k, x) \<in> set (buffers s) \<Longrightarrow> b_turn (g k x) = b_turn x \<and> b_ref (g k x) = b_ref x \<and> b_holds (g k x) = b_holds x"
    "\<And>k x. (k, x) \<in> set (buffers s) \<Longrightarrow> buf_ok (maxEvents s) (serial s) (targets s) x \<Longrightarrow> buf_ok (maxEvents s') (serial s') (targets s') (g k x)"
    "\<forall>p \<in> set (targets s'). fst p < serial s'"
    "chunkInterest s' = holding (buffers s) + asking (handles s')"
  shows "streams_ok s'"
proof -
  have f: "map fst (buffers s') = map fst (buffers s)" unfolding assms(2) by (simp add: o_def case_prod_beta)
  have r: "map (\<lambda>p. b_ref (snd p)) (buffers s') = map (\<lambda>p. b_ref (snd p)) (buffers s)"
    unfolding assms(2) using assms(3) by (auto simp: case_prod_beta)
  have h: "holding (buffers s') = holding (buffers s)"
    unfolding assms(2) holding_def filter_map using assms(3) by (auto simp: case_prod_beta intro!: arg_cong [of _ _ length] filter_cong)
  have "b_turn (snd p) = fst p \<and> buf_ok (maxEvents s') (serial s') (targets s') (snd p)" if "p \<in> set (buffers s')" for p
  proof -
    from that obtain q where q: "q \<in> set (buffers s)" "p = (\<lambda>(k, x). (k, g k x)) q" by (auto simp: assms(2))
    obtain k x where "q = (k, x)" by (rule prod.exhaust)
    with q have kx: "(k, x) \<in> set (buffers s)" "p = (k, g k x)" by simp_all
    then have "b_turn x = k \<and> buf_ok (maxEvents s) (serial s) (targets s) x" using assms(1) by (force simp: streams_ok_def)
    with kx assms(3,4) show ?thesis by simp
  qed
  with f r h assms(1,5,6) show ?thesis by (simp add: streams_ok_def)
qed

lemma streams_ok_same:
  assumes "streams_ok s" "buffers s' = buffers s" "handles s' = handles s" "maxEvents s' = maxEvents s" "serial s \<le> serial s'"
    "chunkInterest s' = chunkInterest s"
  shows "streams_ok s'"
proof (rule streams_ok_map [OF assms(1), where g = "\<lambda>k x. x"])
  have t: "targets s' = targets s" by (simp add: targets_def assms(3))
  show "\<forall>p \<in> set (targets s'). fst p < serial s'" using assms(1,5) t by (fastforce simp: streams_ok_def)
  show "buf_ok (maxEvents s') (serial s') (targets s') x" if "buf_ok (maxEvents s) (serial s) (targets s) x" for x
    using buf_ok_mono [OF that assms(5), of "targets s"] t assms(4) by simp
qed (use assms in \<open>simp_all add: streams_ok_def\<close>)

lemma unsubscribe_fields:
  assumes "k < length (handles (fst w))" "\<not> at_detached (handles (fst w) ! k)"
  defines "h \<equiv> handles (fst w) ! k"
  shows "handles (fst (unsubscribe k w)) = (handles (fst w))[k := h\<lparr>at_detached := True\<rparr>]"
    "buffers (fst (unsubscribe k w)) = map (\<lambda>(t, x). (t, if b_ref x = at_buffer h
       then x\<lparr>b_listeners := filter (\<lambda>p. fst p \<noteq> at_listener h) (b_listeners x)\<rparr> else x)) (buffers (fst w))"
    "chunkInterest (fst (unsubscribe k w)) = chunkInterest (fst w) - (if at_chunks h then 1 else 0)"
    "targets (fst (unsubscribe k w)) = targets (fst w)"
proof -
  show f: "handles (fst (unsubscribe k w)) = (handles (fst w))[k := h\<lparr>at_detached := True\<rparr>]"
    "buffers (fst (unsubscribe k w)) = map (\<lambda>(t, x). (t, if b_ref x = at_buffer h
       then x\<lparr>b_listeners := filter (\<lambda>p. fst p \<noteq> at_listener h) (b_listeners x)\<rparr> else x)) (buffers (fst w))"
    "chunkInterest (fst (unsubscribe k w)) = chunkInterest (fst w) - (if at_chunks h then 1 else 0)"
    using assms(1,2) unfolding h_def by (simp_all add: unsubscribe_def update_buffer_def Let_def)
  show "targets (fst (unsubscribe k w)) = targets (fst w)"
    unfolding targets_def f(1) using assms(1) by (simp add: map_update h_def list_update_same_conv)
qed

lemma unsubscribe_ok:
  assumes "streams_ok (fst w)"
  shows "streams_ok (fst (unsubscribe k w))"
proof (cases "k < length (handles (fst w)) \<and> \<not> at_detached (handles (fst w) ! k)")
  case True
  let ?h = "handles (fst w) ! k"
  note f = unsubscribe_fields [OF conjunct1 [OF True] conjunct2 [OF True]]
  show ?thesis
  proof (rule streams_ok_map [OF assms f(2)])
    show "\<forall>p \<in> set (targets (fst (unsubscribe k w))). fst p < serial (fst (unsubscribe k w))"
      using assms by (simp add: f(4) streams_ok_def)
    have "asking (handles (fst (unsubscribe k w))) + (if at_chunks ?h then 1 else 0) = asking (handles (fst w))"
      unfolding f(1) asking_def using True filter_update_count [of k "handles (fst w)" "\<lambda>h. at_chunks h \<and> \<not> at_detached h"] by simp
    then show "chunkInterest (fst (unsubscribe k w)) = holding (buffers (fst w)) + asking (handles (fst (unsubscribe k w)))"
      using assms unfolding f(3) by (simp add: streams_ok_def split: if_splits)
  next
    fix t x assume "buf_ok (maxEvents (fst w)) (serial (fst w)) (targets (fst w)) x"
    then show "buf_ok (maxEvents (fst (unsubscribe k w))) (serial (fst (unsubscribe k w))) (targets (fst (unsubscribe k w)))
        (if b_ref x = at_buffer ?h then x\<lparr>b_listeners := filter (\<lambda>p. fst p \<noteq> at_listener ?h) (b_listeners x)\<rparr> else x)"
      unfolding f(4) by (auto simp: buf_ok_def distinct_map_filter)
  qed simp
qed (use assms in \<open>auto simp: unsubscribe_def\<close>)

lemma fanOut_ok: "streams_ok (fst w) \<Longrightarrow> streams_ok (fst (fanOut reacts ls e chunk child w))"
proof (induction reacts ls e chunk child w rule: fanOut.induct)
  case (2 reacts l i ls e chunk child w)
  have "streams_ok (fst (fold unsubscribe ks v))" if "streams_ok (fst v)" for ks v
    using that by (induction ks arbitrary: v) (simp_all add: unsubscribe_ok)
  moreover have "streams_ok (fst (hear l e w))" by (rule streams_ok_same [OF 2(4)]) (simp_all add: hear_def)
  ultimately show ?case using 2 by simp
qed simp

lemma drop_ok:
  assumes "streams_ok (fst w)" "(b_turn x, x) \<in> set (buffers (fst w))"
  shows "streams_ok (fst (drop_buffer x w))"
proof -
  have h: "holding (buffers (fst w)) = holding (filter (\<lambda>p. fst p \<noteq> b_turn x) (buffers (fst w))) + (if b_holds x then 1 else 0)"
    unfolding holding_def by (rule filter_key_drop) (use assms in \<open>simp_all add: streams_ok_def\<close>)
  have "chunkInterest (fst (drop_buffer x w)) = chunkInterest (fst w) - (if b_holds x then 1 else 0)"
    by (simp add: drop_buffer_def Let_def)
  with h assms(1) show ?thesis by (auto simp: streams_ok_def targets_def distinct_map_filter)
qed

lemma drops_ok:
  "streams_ok (fst w) \<Longrightarrow> distinct (map b_turn xs) \<Longrightarrow> \<forall>x \<in> set xs. (b_turn x, x) \<in> set (buffers (fst w)) \<Longrightarrow>
   streams_ok (fst (fold drop_buffer xs w))"
proof (induction xs arbitrary: w)
  case (Cons x xs)
  have "b_turn y \<noteq> b_turn x" if "y \<in> set xs" for y using Cons.prems(2) imageI [OF that, of b_turn] by auto
  then have "\<forall>y \<in> set xs. (b_turn y, y) \<in> set (buffers (fst (drop_buffer x w)))" using Cons.prems by simp
  with Cons.IH [of "drop_buffer x w"] Cons.prems drop_ok [of w x] show ?case by simp
qed simp

lemma evict_ok:
  assumes "streams_ok (fst w)"
  shows "streams_ok (fst (evict_ended now w)) \<and>
    (\<exists>ts. buffers (fst (evict_ended now w)) = filter (\<lambda>p. fst p \<notin> ts) (buffers (fst w)) \<and>
       (\<forall>p \<in> set (buffers (fst w)). fst p \<in> ts \<longrightarrow> evictable (snd p))) \<and>
    handles (fst (evict_ended now w)) = handles (fst w) \<and> heard (fst (evict_ended now w)) = heard (fst w) \<and>
    serial (fst (evict_ended now w)) = serial (fst w) \<and> maxEvents (fst (evict_ended now w)) = maxEvents (fst w)"
proof -
  have t: "b_turn (snd p) = fst p" if "p \<in> set (buffers (fst w))" for p using assms that by (simp add: streams_ok_def)
  then have "map b_turn (map snd (buffers (fst w))) = map fst (buffers (fst w))" by simp
  moreover have "distinct (map fst (buffers (fst w)))" using assms by (simp add: streams_ok_def)
  ultimately have "distinct (map b_turn (map snd (buffers (fst w))))" by (simp only:)
  from evict_folds [OF this, of now] obtain ys where ys: "evict_ended now w = fold drop_buffer ys w" "distinct (map b_turn ys)"
    "set ys \<subseteq> {x \<in> snd ` set (buffers (fst w)). evictable x}" by blast
  have m: "(b_turn y, y) \<in> set (buffers (fst w))" "evictable y" if "y \<in> set ys" for y using ys(3) that t by fastforce+
  have "evictable (snd p)" if p: "p \<in> set (buffers (fst w))" "fst p \<in> b_turn ` set ys" for p
  proof -
    from p(2) obtain y where y: "y \<in> set ys" "fst p = b_turn y" by auto
    have "distinct (map fst (buffers (fst w)))" using assms by (simp add: streams_ok_def)
    with m(1) [OF y(1)] p(1) y(2) have "snd p = y" by (metis eq_key_imp_eq_value prod.collapse)
    with m(2) [OF y(1)] show ?thesis by simp
  qed
  moreover have "streams_ok (fst (fold drop_buffer ys w))" by (rule drops_ok [OF assms ys(2)]) (use m in blast)
  ultimately show ?thesis unfolding ys(1) by (auto simp: drops_buffers)
qed

lemma streams_ok_add:
  assumes "streams_ok s" "map_of (buffers s) t = None" "buffers s' = buffers s @ [(t, new_buffer n t c)]" "serial s \<le> n"
    "serial s' = n + 1" "handles s' = handles s" "maxEvents s' = maxEvents s" "chunkInterest s' = chunkInterest s + (if c then 1 else 0)"
  shows "streams_ok s'"
proof -
  have t: "targets s' = targets s" by (simp add: targets_def assms(6))
  have k: "t \<notin> fst ` set (buffers s)" using assms(2) by (simp add: map_of_eq_None_iff)
  have b: "b_ref (snd p) < n" "buf_ok (maxEvents s') (serial s') (targets s') (snd p)" if "p \<in> set (buffers s)" for p
  proof -
    have p: "buf_ok (maxEvents s) (serial s) (targets s) (snd p)" using assms(1) that by (simp add: streams_ok_def)
    then show "b_ref (snd p) < n" using assms(4) by (simp add: buf_ok_def)
    from buf_ok_mono [OF p, of "serial s'" "targets s'"] show "buf_ok (maxEvents s') (serial s') (targets s') (snd p)"
      using assms(4,5,7) t by simp
  qed
  have "buf_ok (maxEvents s') (serial s') (targets s') (new_buffer n t c)" using assms(5) by (simp add: buf_ok_def new_buffer_def)
  moreover have "n \<notin> (\<lambda>p. b_ref (snd p)) ` set (buffers s)" using b(1) by blast
  moreover have "fst p < serial s'" if "p \<in> set (targets s')" for p
    using assms(1,4,5) that unfolding t by (fastforce simp: streams_ok_def)
  ultimately show ?thesis using assms(1,3,6,8) k b(2)
    by (auto simp: streams_ok_def holding_def new_buffer_def)
qed

lemma open_ok: "streams_ok (fst w) \<Longrightarrow> streams_ok (fst (open_turn t c w))"
proof (cases "map_of (buffers (fst w)) t")
  case None
  assume ok: "streams_ok (fst w)"
  let ?w = "if c then takeChunkInterest w else w"
  show ?thesis
    by (rule streams_ok_add [OF ok None, of _ "serial (fst ?w)" c])
      (use None in \<open>simp_all add: open_turn_def add_buffer_def map_set_new Let_def\<close>)
qed (simp add: open_turn_def)

definition ensure_buffer :: "string \<Rightarrow> turn_streams \<Rightarrow> turn_streams" where
  "ensure_buffer t s = (if map_of (buffers s) t = None then add_buffer t False s else s)"

lemma ensure_ok: "streams_ok s \<Longrightarrow> streams_ok (ensure_buffer t s) \<and> map_of (buffers (ensure_buffer t s)) t \<noteq> None"
proof (cases "map_of (buffers s) t")
  case None
  assume ok: "streams_ok s"
  have "streams_ok (add_buffer t False s)"
    by (rule streams_ok_add [OF ok None, of _ "serial s" False]) (use None in \<open>simp_all add: add_buffer_def map_set_new\<close>)
  moreover have "map_of (buffers (add_buffer t False s)) t \<noteq> None"
    using None by (simp add: add_buffer_def map_set_new map_of_append map_add_def)
  ultimately show ?thesis using None by (simp add: ensure_buffer_def)
qed (simp add: ensure_buffer_def)

lemma store_fields:
  "buffers (store_event e t s) = map (\<lambda>(k, x). (k, if k = t then push_event (maxEvents s) e x else x)) (buffers (ensure_buffer t s))"
  "handles (store_event e t s) = handles s" "maxEvents (store_event e t s) = maxEvents s"
  "serial (store_event e t s) = serial (ensure_buffer t s)" "chunkInterest (store_event e t s) = chunkInterest (ensure_buffer t s)"
  "heard (store_event e t s) = heard s" "handles (ensure_buffer t s) = handles s" "maxEvents (ensure_buffer t s) = maxEvents s"
  by (simp_all add: store_event_def ensure_buffer_def add_buffer_def Let_def case_prod_beta cong: if_cong)

lemma push_ok:
  assumes "buf_ok mx n ts x"
  shows "buf_ok mx n ts (push_event mx e x)"
  using assms by (auto simp: buf_ok_def push_event_def Let_def)

lemma push_fields [simp]:
  "b_turn (push_event mx e x) = b_turn x" "b_ref (push_event mx e x) = b_ref x" "b_holds (push_event mx e x) = b_holds x"
  "b_listeners (push_event mx e x) = b_listeners x" "b_state (push_event mx e x) = b_state x"
  by (simp_all add: push_event_def Let_def)

lemma store_ok:
  assumes "streams_ok s"
  shows "streams_ok (store_event e t s)"
proof (rule streams_ok_map [OF conjunct1 [OF ensure_ok [OF assms]] store_fields(1)])
  have t: "targets (store_event e t s) = targets (ensure_buffer t s)" by (simp add: targets_def store_fields)
  have ok: "streams_ok (ensure_buffer t s)" using ensure_ok [OF assms] by blast
  then show "\<forall>p \<in> set (targets (store_event e t s)). fst p < serial (store_event e t s)"
    unfolding t store_fields(4) by (simp add: streams_ok_def)
  show "chunkInterest (store_event e t s) = holding (buffers (ensure_buffer t s)) + asking (handles (store_event e t s))"
    using ok by (simp add: streams_ok_def store_fields)
  fix k x assume "buf_ok (maxEvents (ensure_buffer t s)) (serial (ensure_buffer t s)) (targets (ensure_buffer t s)) x"
  then show "buf_ok (maxEvents (store_event e t s)) (serial (store_event e t s)) (targets (store_event e t s))
      (if k = t then push_event (maxEvents s) e x else x)"
    unfolding t store_fields by (simp add: push_ok)
qed simp

text \<open>Changes of a buffer that leave the well-formedness of every buffer alone.\<close>

lemma streams_ok_tweak:
  assumes "streams_ok s" "buffers s' = map (\<lambda>(k, x). (k, g k x)) (buffers s)" "handles s' = handles s" "maxEvents s' = maxEvents s"
    "serial s' = serial s" "chunkInterest s' = chunkInterest s"
    "\<And>k x. b_turn (g k x) = b_turn x \<and> b_ref (g k x) = b_ref x \<and> b_holds (g k x) = b_holds x \<and> b_events (g k x) = b_events x \<and>
       b_truncated (g k x) = b_truncated x \<and> b_dropped (g k x) = b_dropped x \<and> b_listeners (g k x) = b_listeners x"
  shows "streams_ok s'"
proof (rule streams_ok_map [OF assms(1,2)])
  have t: "targets s' = targets s" by (simp add: targets_def assms(3))
  show "\<forall>p \<in> set (targets s'). fst p < serial s'" using assms(1,5) t by (simp add: streams_ok_def)
  show "chunkInterest s' = holding (buffers s) + asking (handles s')" using assms(1,3,6) by (simp add: streams_ok_def)
  fix k x assume "buf_ok (maxEvents s) (serial s) (targets s) x"
  then show "buf_ok (maxEvents s') (serial s') (targets s') (g k x)" using assms(4,5,7) t by (simp add: buf_ok_def)
qed (use assms(7) in simp)

lemma parent_ok:
  assumes "streams_ok (fst w)"
  shows "streams_ok (fst (tell_parent reacts e t w))"
proof -
  have "streams_ok (update_buffer i (\<lambda>x. x\<lparr>b_children := f x\<rparr>) (fst w))" for i f
    by (rule streams_ok_tweak [OF assms, where g = "\<lambda>k x. if b_ref x = i then x\<lparr>b_children := f x\<rparr> else x"])
      (simp_all add: update_buffer_def)
  with assms show ?thesis by (auto simp: tell_parent_def split: option.split intro!: fanOut_ok)
qed

lemma deliver_ok: "streams_ok (fst w) \<Longrightarrow> streams_ok (fst (deliver_event reacts e t w))"
  by (auto simp: deliver_event_def Let_def intro!: parent_ok fanOut_ok store_ok)

lemma mark_ok: "streams_ok s \<Longrightarrow> streams_ok (mark_ended t at s)"
  by (rule streams_ok_tweak [where g = "\<lambda>k x. if k = t then x\<lparr>b_state := B_ended, b_endedAt := Some at\<rparr> else x"])
    (simp_all add: mark_ended_def)

lemma record_ok: "streams_ok (fst w) \<Longrightarrow> streams_ok (fst (record_event reacts et w))"
  using deliver_ok evict_ok mark_ok by (simp add: record_event_def case_prod_beta Let_def split: option.split)

lemma attach_ok:
  assumes "streams_ok (fst w)"
  shows "streams_ok (fst (snd (attach t l i w)))"
proof (cases "map_of (buffers (fst w)) t")
  case (Some x)
  let ?s = "fst (snd (attach t l i w))"
  define h where "h = \<lparr>at_buffer = b_ref x, at_listener = l, at_chunks = wants_chunks i, at_detached = False\<rparr>"
  have x: "b_ref x < serial (fst w)" using map_of_SomeD [OF Some] assms by (force simp: streams_ok_def buf_ok_def)
  have f: "buffers ?s = map (\<lambda>(k, y). (k, if b_ref y = b_ref x then y\<lparr>b_listeners := map_set (b_listeners y) l i\<rparr> else y)) (buffers (fst w))"
    "handles ?s = handles (fst w) @ [h]" "maxEvents ?s = maxEvents (fst w)" "serial (fst w) \<le> serial ?s"
    "chunkInterest ?s = chunkInterest (fst w) + (if wants_chunks i then 1 else 0)"
    using Some by (simp_all add: attach_def update_buffer_def h_def Let_def)
  have t: "targets ?s = targets (fst w) @ [(b_ref x, l)]" by (simp add: targets_def f(2) h_def)
  show ?thesis
  proof (rule streams_ok_map [OF assms f(1)])
    show "\<forall>p \<in> set (targets ?s). fst p < serial ?s" using assms x f(4) unfolding t by (fastforce simp: streams_ok_def)
    show "chunkInterest ?s = holding (buffers (fst w)) + asking (handles ?s)"
      using assms unfolding f(2,5) by (simp add: streams_ok_def asking_def h_def)
    fix k y assume y: "buf_ok (maxEvents (fst w)) (serial (fst w)) (targets (fst w)) y"
    then have "buf_ok (maxEvents ?s) (serial ?s) (targets ?s) y" unfolding f(3) by (rule buf_ok_mono) (use f(4) t in auto)
    moreover from this have "\<forall>a \<in> fst ` set (map_set (b_listeners y) l i). (b_ref y, a) \<in> set (targets ?s)" if "b_ref y = b_ref x"
      unfolding map_set_keys buf_ok_def using that t by simp
    ultimately show "buf_ok (maxEvents ?s) (serial ?s) (targets ?s) (if b_ref y = b_ref x then y\<lparr>b_listeners := map_set (b_listeners y) l i\<rparr> else y)"
      by (simp add: buf_ok_def map_set_distinct)
  qed simp
qed (use assms in \<open>simp add: attach_def\<close>)

section \<open>Every state a program can reach\<close>

definition allowed :: "stream_op \<Rightarrow> bool" where
  "allowed op \<longleftrightarrow> (case op of Other a \<Rightarrow> foreign_action a | _ \<Rightarrow> True)"

inductive stream_reach :: "(nat \<Rightarrow> ev \<Rightarrow> nat list) \<Rightarrow> (nat \<Rightarrow> action list \<times> bool) \<Rightarrow> world \<Rightarrow> bool" for reacts script where
  Start: "stream_reach reacts script (listen (new_streams mx ms n, new_bus))"
| Step: "stream_reach reacts script w \<Longrightarrow> allowed op \<Longrightarrow> stream_reach reacts script (stream_step reacts script w op)"

definition world_ok :: "world \<Rightarrow> bool" where
  "world_ok w \<longleftrightarrow> plugged w \<and> streams_ok (fst w)"

lemma open_plugged: "plugged w \<Longrightarrow> plugged (open_turn t c w)"
proof -
  assume w: "plugged w"
  have "plugged (if c then takeChunkInterest w else w)" using w take_plugged by simp
  then have "plugged (add_buffer t c (fst (if c then takeChunkInterest w else w)), snd (if c then takeChunkInterest w else w))"
    by (rule plugged_cong) (simp_all add: add_buffer_def)
  with w show ?thesis by (simp add: open_turn_def Let_def)
qed

lemma attach_plugged: "plugged w \<Longrightarrow> plugged (snd (attach t l i w))"
proof -
  assume w: "plugged w"
  have "plugged (if wants_chunks i then takeChunkInterest w else w)" using w take_plugged by simp
  then have "plugged (update_buffer j f ((fst (if wants_chunks i then takeChunkInterest w else w))\<lparr>handles := hs\<rparr>),
      snd (if wants_chunks i then takeChunkInterest w else w))" for j f hs
    by (rule plugged_cong) (simp_all add: update_buffer_def)
  with w show ?thesis by (auto simp: attach_def Let_def split: option.split)
qed

lemma step_ok:
  assumes "foreign_script script" "allowed op" "world_ok w"
  shows "world_ok (stream_step reacts script w op)"
proof (cases op)
  case (Emit e at now)
  with assms emit_once [OF assms(1), of w reacts "e_type e" "(e, at, now)"] record_ok [of w reacts "(e, at, now)"] show ?thesis
    by (simp add: world_ok_def)
next
  case (Other a)
  with assms plugged_foreign [of w "[a]"] show ?thesis by (simp add: world_ok_def allowed_def)
qed (use assms in \<open>simp_all add: world_ok_def open_plugged attach_plugged unsubscribe_plugged open_ok attach_ok unsubscribe_ok\<close>)

lemma start_ok: "world_ok (listen (new_streams mx ms n, new_bus))"
proof -
  have "bus_inv (bus_on new_bus STAR (Plain 0) False)" by (rule on_inv) (simp add: bus_inv_def new_bus_def)
  then show ?thesis
    by (simp add: world_ok_def plugged_def streams_ok_def listen_def unsubscribe_bus_def new_streams_def Let_def ours_def
      our_wildcards_def bus_on_def new_bus_def targets_def holding_def asking_def)
qed

lemma reach_ok: "stream_reach reacts script w \<Longrightarrow> foreign_script script \<Longrightarrow> world_ok w"
  by (induction rule: stream_reach.induct) (simp_all add: start_ok step_ok)

abbreviation run where "run reacts script ops w \<equiv> foldl (stream_step reacts script) w ops"

lemma run_ok: "foreign_script script \<Longrightarrow> \<forall>op \<in> set ops. allowed op \<Longrightarrow> world_ok w \<Longrightarrow> world_ok (run reacts script ops w)"
  by (induction ops arbitrary: w) (simp_all add: step_ok)

section \<open>What a turn said, and who heard it\<close>

fun said :: "string \<Rightarrow> stream_op \<Rightarrow> ev list" where
  "said t (Emit e at now) = (if e_turn e = Some t then [e] else [])"
| "said t op = []"

definition turn_events :: "string \<Rightarrow> stream_op list \<Rightarrow> ev list" where
  "turn_events t ops = concat (map (said t) ops)"

definition hears :: "nat \<Rightarrow> turn_streams \<Rightarrow> ev list" where
  "hears l s = map snd (filter (\<lambda>p. fst p = l) (heard s))"

lemma map_of_in_place: "map_of (map (\<lambda>(k, x). (k, g k x)) m) t = map_option (g t) (map_of m t)"
  by (induction m) auto

definition core :: "buffered \<Rightarrow> buffer_state \<times> bool \<times> nat \<times> ev list" where
  "core x = (b_state x, b_holds x, b_dropped x, b_events x)"

definition core_of :: "string \<Rightarrow> turn_streams \<Rightarrow> (buffer_state \<times> bool \<times> nat \<times> ev list) option" where
  "core_of t s = map_option core (map_of (buffers s) t)"

lemma core_in_place:
  "buffers s' = map (\<lambda>(k, x). (k, g k x)) (buffers s) \<Longrightarrow> (\<And>x. core (g t x) = core x) \<Longrightarrow> core_of t s' = core_of t s"
  by (simp add: core_of_def map_of_in_place option.map_comp o_def)

lemma core_same: "buffers s' = buffers s \<Longrightarrow> core_of t s' = core_of t s"
  by (simp add: core_of_def)

lemma unsubscribe_core: "core_of t (fst (unsubscribe k w)) = core_of t (fst w)"
proof (cases "k < length (handles (fst w)) \<and> \<not> at_detached (handles (fst w) ! k)")
  case True
  note f = unsubscribe_fields(2) [OF conjunct1 [OF True] conjunct2 [OF True]]
  show ?thesis by (rule core_in_place [OF f]) (simp add: core_def)
qed (auto simp: unsubscribe_def)

lemma fanOut_core: "core_of t (fst (fanOut reacts ls e chunk child w)) = core_of t (fst w)"
proof (induction reacts ls e chunk child w rule: fanOut.induct)
  case (2 reacts l i ls e chunk child w)
  have "core_of t (fst (fold unsubscribe ks v)) = core_of t (fst v)" for ks v
    by (induction ks arbitrary: v) (simp_all add: unsubscribe_core)
  moreover have "core_of t (fst (hear l e w)) = core_of t (fst w)" by (rule core_same) (simp add: hear_def)
  ultimately show ?case using 2 by simp
qed simp

lemma parent_core: "core_of t (fst (tell_parent reacts e t' w)) = core_of t (fst w)"
proof -
  have "core_of t (update_buffer i (\<lambda>x. x\<lparr>b_children := f x\<rparr>) (fst w)) = core_of t (fst w)" for i f
    by (rule core_in_place [where g = "\<lambda>k x. if b_ref x = i then x\<lparr>b_children := f x\<rparr> else x"]) (simp_all add: update_buffer_def core_def)
  then show ?thesis by (simp add: tell_parent_def fanOut_core split: option.split)
qed

lemma map_of_ensure: "t \<noteq> t' \<Longrightarrow> map_of (buffers (ensure_buffer t' s)) t = map_of (buffers s) t"
  "map_of (buffers s) t = Some x \<Longrightarrow> map_of (buffers (ensure_buffer t' s)) t = Some x"
  by (auto simp: ensure_buffer_def add_buffer_def map_set_new map_of_append map_add_def split: option.split)

lemma deliver_core:
  assumes "map_of (buffers (fst w)) t = Some x"
  shows "core_of t (fst (deliver_event reacts e t' w)) = Some (if t' = t then core (push_event (maxEvents (fst w)) e x) else core x)"
proof -
  have "core_of t (fst (deliver_event reacts e t' w)) = core_of t (store_event e t' (fst w))"
    by (simp add: deliver_event_def Let_def parent_core fanOut_core)
  with map_of_ensure(2) [OF assms, of t'] show ?thesis
    by (cases "t' = t") (simp_all add: core_of_def store_fields(1) map_of_in_place)
qed

lemma map_of_filter_keys: "map_of (filter (\<lambda>p. fst p \<notin> ts) m) t = (if t \<in> ts then None else map_of m t)"
  by (induction m) auto

lemma evict_keeps:
  assumes "streams_ok (fst w)" "map_of (buffers (fst w)) t = Some x" "\<not> evictable x"
  shows "map_of (buffers (fst (evict_ended now w))) t = Some x"
proof -
  from evict_ok [OF assms(1), of now] obtain ts where ts: "buffers (fst (evict_ended now w)) = filter (\<lambda>p. fst p \<notin> ts) (buffers (fst w))"
    "\<forall>p \<in> set (buffers (fst w)). fst p \<in> ts \<longrightarrow> evictable (snd p)" by blast
  have "t \<notin> ts" using ts(2) map_of_SomeD [OF assms(2)] assms(3) by force
  then show ?thesis using assms(2) by (simp add: ts(1) map_of_filter_keys)
qed

text \<open>A turn opened for tokens and still running has everything it said in its buffer, but for what the cap dropped.\<close>

definition held :: "string \<Rightarrow> ev list \<Rightarrow> turn_streams \<Rightarrow> bool" where
  "held t hist s \<longleftrightarrow> (\<exists>n. core_of t s = Some (B_running, True, n, drop n hist) \<and> n \<le> length hist)"

lemma held_interest: "streams_ok s \<Longrightarrow> held t hist s \<Longrightarrow> 0 < chunkInterest s"
proof -
  assume ok: "streams_ok s" and "held t hist s"
  then obtain x where x: "map_of (buffers s) t = Some x" "b_holds x" by (auto simp: held_def core_of_def core_def)
  then have "(t, x) \<in> set (filter (\<lambda>p. b_holds (snd p)) (buffers s))" using map_of_SomeD by fastforce
  then have "0 < holding (buffers s)" unfolding holding_def by (rule length_pos_if_in_set)
  with ok show ?thesis by (simp add: streams_ok_def)
qed

lemma held_push:
  assumes "held t hist s" "map_of (buffers s) t = Some x"
  shows "\<exists>n. core (push_event mx e x) = (B_running, True, n, drop n (hist @ [e])) \<and> n \<le> length (hist @ [e])"
proof -
  let ?n = "b_dropped x"
  have x: "b_state x = B_running" "b_holds x" "b_events x @ [e] = drop ?n (hist @ [e])" "?n \<le> length hist"
    using assms by (auto simp: held_def core_of_def core_def)
  have "tl (drop ?n (hist @ [e])) = drop (Suc ?n) (hist @ [e])" by (simp only: drop_Suc tl_drop)
  then have c: "core (push_event mx e x) = (let over = length (drop ?n (hist @ [e])) > mx; n = (if over then Suc ?n else ?n)
      in (B_running, True, n, drop n (hist @ [e])))"
    by (simp only: core_def push_event_def Let_def x(3)) (simp add: x)
  show ?thesis unfolding c Let_def using x(4) by simp
qed

lemma held_record:
  assumes "streams_ok (fst w)" "held t hist (fst w)" "e_type e = TURN_END \<longrightarrow> e_turn e \<noteq> Some t"
  shows "held t (hist @ said t (Emit e at now)) (fst (record_event reacts (e, at, now) w))"
proof (cases "e_turn e")
  case (Some t')
  obtain x where x: "map_of (buffers (fst w)) t = Some x" using assms(2) by (auto simp: held_def core_of_def)
  let ?v = "deliver_event reacts e t' w"
  have d: "held t (hist @ said t (Emit e at now)) (fst ?v)"
    using deliver_core [OF x, of reacts e t'] held_push [OF assms(2) x, of "maxEvents (fst w)" e] assms(2) x Some
    by (auto simp: held_def core_of_def)
  show ?thesis
  proof (cases "e_type e = TURN_END")
    case True
    then have "t \<noteq> t'" using assms(3) Some by auto
    let ?u = "(mark_ended t' at (fst ?v), snd ?v)"
    obtain y where y: "map_of (buffers (fst ?v)) t = Some y" using d by (auto simp: held_def core_of_def)
    then have u: "map_of (buffers (fst ?u)) t = Some y" using \<open>t \<noteq> t'\<close> by (simp add: mark_ended_def map_of_in_place)
    have "\<not> evictable y" using d y by (auto simp: held_def core_of_def core_def evictable_def)
    from evict_keeps [OF _ u this, of now] mark_ok [OF deliver_ok [OF assms(1)]]
    have "map_of (buffers (fst (evict_ended now ?u))) t = Some y" by simp
    with d y True Some show ?thesis by (simp add: record_event_def Let_def held_def core_of_def)
  next
    case False
    with d Some show ?thesis by (simp add: record_event_def Let_def)
  qed
qed (use assms in \<open>simp add: record_event_def\<close>)

lemma held_step:
  assumes "foreign_script script" "world_ok w" "held t hist (fst w)" "\<forall>e at now. op = Emit e at now \<and> e_type e = TURN_END \<longrightarrow> e_turn e \<noteq> Some t"
  shows "held t (hist @ said t op) (fst (stream_step reacts script w op))"
proof (cases op)
  case (Emit e at now)
  have "fst (stream_step reacts script w op) = fst (record_event reacts (e, at, now) w)"
    using emit_once(1) [OF assms(1), of w reacts "e_type e" "(e, at, now)"] held_interest [OF _ assms(3)] assms(2) Emit
    by (simp add: world_ok_def)
  with held_record [of w t hist e at now reacts] assms(2-4) Emit show ?thesis by (auto simp: world_ok_def)
next
  case (Open t' c)
  have "core_of t (fst w) \<noteq> None" using assms(3) by (auto simp: held_def)
  then have "core_of t (fst (open_turn t' c w)) = core_of t (fst w)"
    by (auto simp: open_turn_def add_buffer_def core_of_def map_set_new map_of_append map_add_def Let_def split: option.split)
  with assms(3) Open show ?thesis by (simp add: held_def)
next
  case (Attach t' l i)
  have "core_of t (fst (snd (attach t' l i w))) = core_of t (fst w)"
  proof (cases "map_of (buffers (fst w)) t'")
    case (Some x)
    then show ?thesis
      by (intro core_in_place [where g = "\<lambda>k y. if b_ref y = b_ref x then y\<lparr>b_listeners := map_set (b_listeners y) l i\<rparr> else y"])
        (simp_all add: attach_def update_buffer_def core_def Let_def)
  qed (simp add: attach_def)
  with assms(3) Attach show ?thesis by (simp add: held_def)
qed (use assms(3) in \<open>simp_all add: held_def unsubscribe_core\<close>)

lemma held_run:
  assumes "foreign_script script"
  shows "\<forall>op \<in> set ops. allowed op \<Longrightarrow> world_ok w \<Longrightarrow> held t hist (fst w) \<Longrightarrow>
    \<forall>e at now. Emit e at now \<in> set ops \<and> e_type e = TURN_END \<longrightarrow> e_turn e \<noteq> Some t \<Longrightarrow>
    held t (hist @ turn_events t ops) (fst (run reacts script ops w))"
proof (induction ops arbitrary: w hist)
  case (Cons op ops)
  have "held t (hist @ said t op) (fst (stream_step reacts script w op))"
    by (rule held_step [OF assms Cons.prems(2,3)]) (use Cons.prems(4) in auto)
  moreover have "world_ok (stream_step reacts script w op)" using step_ok [OF assms] Cons.prems by simp
  ultimately have "held t ((hist @ said t op) @ turn_events t ops) (fst (run reacts script ops (stream_step reacts script w op)))"
    using Cons.prems(1,4) by (intro Cons.IH) auto
  then show ?case by (simp add: turn_events_def)
qed (simp add: turn_events_def)

text \<open>An attachment of a listener of its own is there: in its buffer, with a live handle, the only one of that listener.\<close>

definition tracked :: "string \<Rightarrow> nat \<Rightarrow> bool \<Rightarrow> nat \<Rightarrow> turn_streams \<Rightarrow> bool" where
  "tracked t l c k s \<longleftrightarrow> (\<exists>x. map_of (buffers s) t = Some x \<and>
     map_of (b_listeners x) l = Some \<lparr>wants_chunks = c, wants_children = False\<rparr> \<and> k < length (handles s) \<and>
     handles s ! k = \<lparr>at_buffer = b_ref x, at_listener = l, at_chunks = c, at_detached = False\<rparr> \<and>
     (\<forall>j < length (handles s). j \<noteq> k \<longrightarrow> at_listener (handles s ! j) \<noteq> l))"

lemma tracked_in_place:
  assumes "tracked t l c k s" "buffers s' = map (\<lambda>(k, x). (k, g k x)) (buffers s)" "handles s' = handles s"
    "\<And>x. b_ref (g t x) = b_ref x \<and> map_of (b_listeners (g t x)) l = map_of (b_listeners x) l"
  shows "tracked t l c k s'"
  using assms(1) by (auto simp: tracked_def assms map_of_in_place)

lemma tracked_same: "tracked t l c k s \<Longrightarrow> buffers s' = buffers s \<Longrightarrow> handles s' = handles s \<Longrightarrow> tracked t l c k s'"
  by (simp add: tracked_def)

lemma map_of_filter_other: "l \<noteq> l' \<Longrightarrow> map_of (filter (\<lambda>p. fst p \<noteq> l') m) l = map_of m l"
  by (induction m) auto

lemma unsubscribe_tracked:
  assumes "tracked t l c k (fst w)" "j \<noteq> k"
  shows "tracked t l c k (fst (unsubscribe j w))"
proof (cases "j < length (handles (fst w)) \<and> \<not> at_detached (handles (fst w) ! j)")
  case True
  let ?h = "handles (fst w) ! j"
  note f = unsubscribe_fields [OF conjunct1 [OF True] conjunct2 [OF True]]
  have l: "at_listener ?h \<noteq> l" using assms True by (auto simp: tracked_def)
  obtain x where x: "map_of (buffers (fst w)) t = Some x"
    "map_of (b_listeners x) l = Some \<lparr>wants_chunks = c, wants_children = False\<rparr>" "k < length (handles (fst w))"
    "handles (fst w) ! k = \<lparr>at_buffer = b_ref x, at_listener = l, at_chunks = c, at_detached = False\<rparr>"
    "\<forall>i < length (handles (fst w)). i \<noteq> k \<longrightarrow> at_listener (handles (fst w) ! i) \<noteq> l" using assms(1) by (auto simp: tracked_def)
  have "map_of (filter (\<lambda>p. fst p \<noteq> at_listener ?h) (b_listeners x)) l = map_of (b_listeners x) l"
    by (rule map_of_filter_other) (use l in simp)
  moreover have "at_listener ((handles (fst w))[j := ?h\<lparr>at_detached := True\<rparr>] ! i) = at_listener (handles (fst w) ! i)"
    if "i < length (handles (fst w))" for i using that by (cases "i = j") simp_all
  ultimately show ?thesis
    unfolding tracked_def f(1,2) using x assms(2)
    by (intro exI [of _ "if b_ref x = at_buffer ?h then x\<lparr>b_listeners := filter (\<lambda>p. fst p \<noteq> at_listener ?h) (b_listeners x)\<rparr> else x"])
      (simp add: map_of_in_place)
qed (use assms in \<open>auto simp: unsubscribe_def\<close>)

lemma fanOut_tracked:
  assumes "\<forall>l e. k \<notin> set (reacts l e)"
  shows "tracked t l c k (fst w) \<Longrightarrow> tracked t l c k (fst (fanOut reacts ls e chunk child w))"
proof (induction ls arbitrary: w)
  case (Cons p ls)
  obtain m i where p: "p = (m, i)" by (cases p)
  have "tracked t l c k (fst (fold unsubscribe ks v))" if "tracked t l c k (fst v)" "k \<notin> set ks" for ks v
    using that by (induction ks arbitrary: v) (simp_all add: unsubscribe_tracked)
  moreover have "tracked t l c k (fst (hear m e w))" by (rule tracked_same [OF Cons.prems]) (simp_all add: hear_def)
  ultimately have "tracked t l c k (fst (fold unsubscribe (reacts m e) (hear m e w)))" using assms by blast
  from Cons.IH [OF this] Cons.IH [OF Cons.prems] show ?case by (simp only: p fanOut.simps split: if_split) blast
qed simp

text \<open>No other buffer has the listener.\<close>

lemma tracked_only:
  assumes "streams_ok s" "tracked t l c k s" "map_of (buffers s) t' = Some y" "l \<in> fst ` set (b_listeners y)"
  shows "t' = t"
proof -
  obtain x where x: "map_of (buffers s) t = Some x" "handles s ! k = \<lparr>at_buffer = b_ref x, at_listener = l, at_chunks = c, at_detached = False\<rparr>"
    "\<forall>j < length (handles s). j \<noteq> k \<longrightarrow> at_listener (handles s ! j) \<noteq> l" using assms(2) by (auto simp: tracked_def)
  have y: "(t', y) \<in> set (buffers s)" "(t, x) \<in> set (buffers s)" using map_of_SomeD assms(3) x(1) by fastforce+
  then have "(b_ref y, l) \<in> set (targets s)" using assms(1,4) by (force simp: streams_ok_def buf_ok_def)
  then obtain j where j: "j < length (handles s)" "at_buffer (handles s ! j) = b_ref y" "at_listener (handles s ! j) = l"
    by (auto simp: targets_def in_set_conv_nth)
  with x(3) have "j = k" by blast
  with j x(2) have "b_ref y = b_ref x" by simp
  moreover have "inj_on (\<lambda>p. b_ref (snd p)) (set (buffers s))" using assms(1) by (simp add: streams_ok_def distinct_map)
  ultimately show ?thesis using y inj_onD [of "\<lambda>p. b_ref (snd p)" "set (buffers s)" "(t', y)" "(t, x)"] by simp
qed

lemma hears_append: "heard s' = heard s @ xs \<Longrightarrow> hears l s' = hears l s @ map snd (filter (\<lambda>p. fst p = l) xs)"
  by (simp add: hears_def)

lemma fan_to: "l \<notin> fst ` set ls \<or> (\<forall>i. map_of ls l = Some i \<longrightarrow> \<not> P i) \<Longrightarrow> distinct (map fst ls) \<Longrightarrow>
    filter (\<lambda>p. fst p = l) (map (\<lambda>p. (fst p, e)) (filter (\<lambda>p. P (snd p)) ls)) = []"
  "map_of ls l = Some i \<Longrightarrow> P i \<Longrightarrow> distinct (map fst ls) \<Longrightarrow>
    filter (\<lambda>p. fst p = l) (map (\<lambda>p. (fst p, e)) (filter (\<lambda>p. P (snd p)) ls)) = [(l, e)]"
proof -
  show a: "filter (\<lambda>p. fst p = l) (map (\<lambda>p. (fst p, e)) (filter (\<lambda>p. P (snd p)) ls)) = []"
    if "l \<notin> fst ` set ls \<or> (\<forall>i. map_of ls l = Some i \<longrightarrow> \<not> P i)" "distinct (map fst ls)" for ls
    using that by (force simp: filter_empty_conv)
  show "filter (\<lambda>p. fst p = l) (map (\<lambda>p. (fst p, e)) (filter (\<lambda>p. P (snd p)) ls)) = [(l, e)]"
    if "map_of ls l = Some i" "P i" "distinct (map fst ls)"
    using that
  proof (induction ls)
    case (Cons q ls)
    show ?case
    proof (cases "fst q = l")
      case True
      with Cons.prems have "snd q = i" "l \<notin> fst ` set ls" by (auto split: if_splits)
      with Cons.prems a [of ls] True show ?thesis by simp
    qed (use Cons in \<open>auto split: if_splits\<close>)
  qed simp
qed

lemma store_tracked:
  assumes "tracked t l c k s"
  shows "tracked t l c k (store_event e t' s)"
proof -
  have "tracked t l c k (ensure_buffer t' s)" using assms map_of_ensure(2) unfolding tracked_def store_fields(7) by blast
  then show ?thesis by (rule tracked_in_place [OF _ store_fields(1)]) (simp_all add: store_fields)
qed

lemma listeners_ok: "streams_ok s \<Longrightarrow> map_of (buffers s) t = Some x \<Longrightarrow> distinct (map fst (b_listeners x))"
  using map_of_SomeD by (force simp: streams_ok_def buf_ok_def)

lemma parent_tracked:
  assumes "\<forall>l e. k \<notin> set (reacts l e)" "streams_ok (fst w)" "tracked t l c k (fst w)"
  shows "tracked t l c k (fst (tell_parent reacts e t' w)) \<and> hears l (fst (tell_parent reacts e t' w)) = hears l (fst w)"
proof (cases "Option.bind (e_parent e) (map_of (buffers (fst w)))")
  case (Some p)
  then obtain tp where tp: "map_of (buffers (fst w)) tp = Some p" by (auto simp: bind_eq_Some_conv)
  let ?v = "(update_buffer (b_ref p) (\<lambda>x. x\<lparr>b_children := List.insert t' (b_children x)\<rparr>) (fst w), snd w)"
  have v: "tracked t l c k (fst ?v)"
    by (rule tracked_in_place [OF assms(3), where g = "\<lambda>k x. if b_ref x = b_ref p then x\<lparr>b_children := List.insert t' (b_children x)\<rparr> else x"])
      (simp_all add: update_buffer_def)
  have "l \<notin> fst ` set (b_listeners p) \<or> (\<forall>i. map_of (b_listeners p) l = Some i \<longrightarrow> \<not> passes (e_type e = CHUNK) True i)"
  proof (cases "l \<in> fst ` set (b_listeners p)")
    case True
    from tracked_only [OF assms(2,3) tp True] tp assms(3) show ?thesis by (auto simp: tracked_def passes_def)
  qed simp
  from hears_append [OF fanOut_heard, of l reacts "b_listeners p" e "e_type e = CHUNK" True ?v] fan_to(1) [OF this listeners_ok [OF assms(2) tp], of e]
  have "hears l (fst (fanOut reacts (b_listeners p) e (e_type e = CHUNK) True ?v)) = hears l (fst w)"
    by (simp add: hears_def update_buffer_def)
  with Some fanOut_tracked [OF assms(1) v, of "b_listeners p" e "e_type e = CHUNK" True] show ?thesis by (simp add: tell_parent_def)
qed (use assms in \<open>simp add: tell_parent_def\<close>)

lemma deliver_tracked:
  assumes "\<forall>l e. k \<notin> set (reacts l e)" "streams_ok (fst w)" "tracked t l c k (fst w)"
  shows "tracked t l c k (fst (deliver_event reacts e t' w)) \<and>
    hears l (fst (deliver_event reacts e t' w)) = hears l (fst w) @ (if t' = t \<and> (e_type e = CHUNK \<longrightarrow> c) then [e] else [])"
proof -
  let ?s = "store_event e t' (fst w)"
  have s: "tracked t l c k ?s" "streams_ok ?s" using store_tracked [OF assms(3)] store_ok [OF assms(2)] by blast+
  have "map_of (buffers ?s) t' \<noteq> None" using ensure_ok [OF assms(2), of t'] by (auto simp: store_fields(1) map_of_in_place)
  then obtain x where x: "map_of (buffers ?s) t' = Some x" by blast
  let ?w = "fanOut reacts (b_listeners x) e (e_type e = CHUNK) False (?s, snd w)"
  let ?fan = "filter (\<lambda>p. fst p = l) (map (\<lambda>p. (fst p, e)) (filter (\<lambda>p. passes (e_type e = CHUNK) False (snd p)) (b_listeners x)))"
  note d = listeners_ok [OF s(2) x]
  have "?fan = (if t' = t \<and> (e_type e = CHUNK \<longrightarrow> c) then [(l, e)] else [])"
  proof (cases "t' = t")
    case True
    let ?i = "\<lparr>wants_chunks = c, wants_children = False\<rparr>"
    have m: "map_of (b_listeners x) l = Some ?i" using True s(1) x by (auto simp: tracked_def)
    have "passes (e_type e = CHUNK) False ?i \<longleftrightarrow> (e_type e = CHUNK \<longrightarrow> c)" by (simp add: passes_def)
    with fan_to(1) [OF _ d, of l "passes (e_type e = CHUNK) False" e] fan_to(2) [OF m _ d, of "passes (e_type e = CHUNK) False" e] True m
    show ?thesis by (cases "e_type e = CHUNK \<longrightarrow> c") simp_all
  next
    case False
    then have "l \<notin> fst ` set (b_listeners x)" using tracked_only [OF s(2,1) x] by blast
    with fan_to(1) [OF _ d, of l "passes (e_type e = CHUNK) False" e] False show ?thesis by simp
  qed
  with hears_append [OF fanOut_heard, of l reacts "b_listeners x" e "e_type e = CHUNK" False "(?s, snd w)"]
  have "hears l (fst ?w) = hears l (fst w) @ (if t' = t \<and> (e_type e = CHUNK \<longrightarrow> c) then [e] else [])"
    by (simp add: hears_def store_fields)
  moreover have "tracked t l c k (fst ?w)" using fanOut_tracked [OF assms(1)] s(1) by simp
  moreover have "streams_ok (fst ?w)" using fanOut_ok s(2) by simp
  ultimately show ?thesis using parent_tracked [OF assms(1), of ?w t l c e t'] x by (simp add: deliver_event_def Let_def)
qed

lemma record_tracked:
  assumes "\<forall>l e. k \<notin> set (reacts l e)" "streams_ok (fst w)" "tracked t l c k (fst w)"
  shows "tracked t l c k (fst (record_event reacts (e, at, now) w)) \<and>
    hears l (fst (record_event reacts (e, at, now) w)) = hears l (fst w) @ filter (\<lambda>e. e_type e = CHUNK \<longrightarrow> c) (said t (Emit e at now))"
proof (cases "e_turn e")
  case (Some t')
  let ?v = "deliver_event reacts e t' w"
  let ?u = "(mark_ended t' at (fst ?v), snd ?v)"
  note v = deliver_tracked [OF assms, of e t']
  have u: "tracked t l c k (fst ?u)"
    by (rule tracked_in_place [OF conjunct1 [OF v], where g = "\<lambda>k x. if k = t' then x\<lparr>b_state := B_ended, b_endedAt := Some at\<rparr> else x"])
      (simp_all add: mark_ended_def)
  then obtain y i where y: "map_of (buffers (fst ?u)) t = Some y" "map_of (b_listeners y) l = Some i" by (auto simp: tracked_def)
  then have "b_listeners y \<noteq> []" by auto
  have ok: "streams_ok (fst ?u)" using mark_ok deliver_ok assms(2) by simp
  have e: "map_of (buffers (fst (evict_ended now ?u))) t = Some y" using evict_keeps [OF ok y(1)] \<open>b_listeners y \<noteq> []\<close> by (simp add: evictable_def)
  have f: "handles (fst (evict_ended now ?u)) = handles (fst ?u)" "heard (fst (evict_ended now ?u)) = heard (fst ?v)"
    using evict_ok [OF ok, of now] by (auto simp: mark_ended_def)
  have "tracked t l c k (fst (evict_ended now ?u))" using u unfolding tracked_def f(1) e using y(1) by auto
  moreover have "hears l (fst (evict_ended now ?u)) = hears l (fst ?v)" by (simp only: hears_def f(2))
  moreover have "filter (\<lambda>e. e_type e = CHUNK \<longrightarrow> c) (said t (Emit e at now)) = (if t' = t \<and> (e_type e = CHUNK \<longrightarrow> c) then [e] else [])"
    using Some by simp
  moreover have "record_event reacts (e, at, now) w = (if e_type e = TURN_END then evict_ended now ?u else ?v)"
    using Some by (simp add: record_event_def Let_def)
  ultimately show ?thesis using v by (simp only: split: if_split) blast
qed (use assms in \<open>simp add: record_event_def\<close>)

lemma tracked_interest: "streams_ok s \<Longrightarrow> tracked t l True k s \<Longrightarrow> 0 < chunkInterest s"
proof -
  assume ok: "streams_ok s" and "tracked t l True k s"
  then have k: "k < length (handles s)" "at_chunks (handles s ! k)" "\<not> at_detached (handles s ! k)" by (auto simp: tracked_def)
  with nth_mem [OF k(1)] have "handles s ! k \<in> set (filter (\<lambda>h. at_chunks h \<and> \<not> at_detached h) (handles s))" by simp
  then have "0 < asking (handles s)" unfolding asking_def by (rule length_pos_if_in_set)
  with ok show ?thesis by (simp add: streams_ok_def)
qed

lemma map_of_map_set: "map_of (map_set m k v) l = (if l = k then Some v else map_of m l)"
  by (induction m k v rule: map_set.induct) auto

lemma attach_tracked:
  assumes "tracked t l c k (fst w)" "l' \<noteq> l"
  shows "tracked t l c k (fst (snd (attach t' l' i w))) \<and> hears l (fst (snd (attach t' l' i w))) = hears l (fst w)"
proof (cases "map_of (buffers (fst w)) t'")
  case (Some y)
  let ?s = "fst (snd (attach t' l' i w))"
  have f: "buffers ?s = map (\<lambda>(k, x). (k, if b_ref x = b_ref y then x\<lparr>b_listeners := map_set (b_listeners x) l' i\<rparr> else x)) (buffers (fst w))"
    "handles ?s = handles (fst w) @ [\<lparr>at_buffer = b_ref y, at_listener = l', at_chunks = wants_chunks i, at_detached = False\<rparr>]"
    "heard ?s = heard (fst w)"
    using Some by (simp_all add: attach_def update_buffer_def Let_def)
  obtain x where x: "map_of (buffers (fst w)) t = Some x"
    "map_of (b_listeners x) l = Some \<lparr>wants_chunks = c, wants_children = False\<rparr>" "k < length (handles (fst w))"
    "handles (fst w) ! k = \<lparr>at_buffer = b_ref x, at_listener = l, at_chunks = c, at_detached = False\<rparr>"
    "\<forall>j < length (handles (fst w)). j \<noteq> k \<longrightarrow> at_listener (handles (fst w) ! j) \<noteq> l" using assms(1) by (auto simp: tracked_def)
  have "tracked t l c k ?s"
    unfolding tracked_def f(1,2) using x assms(2)
    by (intro exI [of _ "if b_ref x = b_ref y then x\<lparr>b_listeners := map_set (b_listeners x) l' i\<rparr> else x"])
      (auto simp: map_of_in_place map_of_map_set nth_append less_Suc_eq)
  with f(3) show ?thesis by (simp add: hears_def)
qed (use assms in \<open>simp add: attach_def\<close>)

lemma unsubscribe_hears: "hears l (fst (unsubscribe k w)) = hears l (fst w)"
  by (simp add: hears_def)

definition leaves_alone :: "nat \<Rightarrow> nat \<Rightarrow> stream_op \<Rightarrow> bool" where
  "leaves_alone l k op \<longleftrightarrow> (case op of Attach t l' i \<Rightarrow> l' \<noteq> l | Detach j \<Rightarrow> j \<noteq> k | _ \<Rightarrow> True)"

lemma tracked_step:
  assumes "foreign_script script" "\<forall>l e. k \<notin> set (reacts l e)" "world_ok w" "tracked t l c k (fst w)" "leaves_alone l k op"
  shows "tracked t l c k (fst (stream_step reacts script w op)) \<and>
    hears l (fst (stream_step reacts script w op)) = hears l (fst w) @ filter (\<lambda>e. e_type e = CHUNK \<longrightarrow> c) (said t op)"
proof (cases op)
  case (Emit e at now)
  have ok: "streams_ok (fst w)" "plugged w" using assms(3) by (simp_all add: world_ok_def)
  have "\<not> c" if "chunkInterest (fst w) = 0" using tracked_interest [OF ok(1)] assms(4) that by (cases c) auto
  with emit_once(1) [OF assms(1) ok(2), of reacts "e_type e" "(e, at, now)"] record_tracked [OF assms(2) ok(1) assms(4), of e at now] assms(4) Emit
  show ?thesis by auto
next
  case (Open t' c')
  have "tracked t l c k (fst (open_turn t' c' w))"
  proof -
    obtain x where x: "map_of (buffers (fst w)) t = Some x" using assms(4) by (auto simp: tracked_def)
    then have "map_of (buffers (fst (open_turn t' c' w))) t = Some x" "handles (fst (open_turn t' c' w)) = handles (fst w)"
      by (auto simp: open_turn_def add_buffer_def map_set_new map_of_append map_add_def Let_def split: option.split)
    with assms(4) x show ?thesis by (simp add: tracked_def)
  qed
  with Open show ?thesis by (simp add: hears_def open_turn_def add_buffer_def Let_def)
qed (use assms in \<open>simp_all add: attach_tracked unsubscribe_tracked unsubscribe_hears leaves_alone_def\<close>)

lemma tracked_run:
  assumes "foreign_script script" "\<forall>l e. k \<notin> set (reacts l e)"
  shows "world_ok w \<Longrightarrow> tracked t l c k (fst w) \<Longrightarrow> \<forall>op \<in> set ops. allowed op \<and> leaves_alone l k op \<Longrightarrow>
    hears l (fst (run reacts script ops w)) = hears l (fst w) @ filter (\<lambda>e. e_type e = CHUNK \<longrightarrow> c) (turn_events t ops)"
proof (induction ops arbitrary: w)
  case (Cons op ops)
  have "tracked t l c k (fst (stream_step reacts script w op)) \<and>
      hears l (fst (stream_step reacts script w op)) = hears l (fst w) @ filter (\<lambda>e. e_type e = CHUNK \<longrightarrow> c) (said t op)"
    by (rule tracked_step [OF assms Cons.prems(1,2)]) (use Cons.prems(3) in simp)
  moreover have "world_ok (stream_step reacts script w op)" using step_ok [OF assms(1)] Cons.prems by simp
  ultimately show ?case using Cons.IH [of "stream_step reacts script w op"] Cons.prems(3) by (simp add: turn_events_def)
qed (simp add: turn_events_def)

lemma attach_fresh:
  assumes "streams_ok (fst w)" "attach t l \<lparr>wants_chunks = c, wants_children = False\<rparr> w = (Some a, w1)"
    "l \<notin> at_listener ` set (handles (fst w))"
  shows "tracked t l c (ta_handle a) (fst w1)"
    "\<exists>x. map_of (buffers (fst w)) t = Some x \<and> ta_replay a = b_events x \<and> ta_dropped a = b_dropped x \<and> ta_truncated a = b_truncated x"
proof -
  obtain x where x: "map_of (buffers (fst w)) t = Some x" using assms(2) by (auto simp: attach_def split: option.splits)
  then show "\<exists>x. map_of (buffers (fst w)) t = Some x \<and> ta_replay a = b_events x \<and> ta_dropped a = b_dropped x \<and> ta_truncated a = b_truncated x"
    using assms(2) by (auto simp: attach_def Let_def)
  let ?h = "\<lparr>at_buffer = b_ref x, at_listener = l, at_chunks = c, at_detached = False\<rparr>"
  have f: "buffers (fst w1) = map (\<lambda>(k, y). (k, if b_ref y = b_ref x
      then y\<lparr>b_listeners := map_set (b_listeners y) l \<lparr>wants_chunks = c, wants_children = False\<rparr>\<rparr> else y)) (buffers (fst w))"
    "handles (fst w1) = handles (fst w) @ [?h]" "ta_handle a = length (handles (fst w))"
    using assms(2) x by (auto simp: attach_def update_buffer_def Let_def)
  have "at_listener (handles (fst w) ! j) \<noteq> l" if "j < length (handles (fst w))" for j using assms(3) nth_mem [OF that] by blast
  then show "tracked t l c (ta_handle a) (fst w1)"
    unfolding tracked_def f using x by (auto simp: map_of_in_place map_of_map_set nth_append less_Suc_eq)
qed

lemma open_held: "map_of (buffers (fst w)) t = None \<Longrightarrow> held t [] (fst (open_turn t True w))"
  by (simp add: open_turn_def add_buffer_def held_def core_of_def map_set_new map_of_append map_add_def new_buffer_def core_def Let_def)

section \<open>Properties\<close>

text \<open>C40. The handover of an attachment is gapless and free of duplicates, for a turn that was opened with tokens
  buffered from the start and has not ended, and for a new listener that asks for tokens, not for the events of
  child turns, and is neither detached nor attached again. Whatever else happens on the bus and in the other turns
  before and after, what the attachment replays and what its listener is called with afterwards are together
  everything the turn emitted, in order and once, less the oldest events the attachment reports as dropped; and it
  reports truncation exactly when it dropped some. Nothing is claimed of a turn opened without tokens, whose tokens
  before the first interest were never buffered and which the attachment reports as \<open>partial\<close>.\<close>

theorem gapless_handover:
  assumes "foreign_script script" "stream_reach reacts script w0" "map_of (buffers (fst w0)) t = None"
    "\<forall>op \<in> set (before @ after). allowed op"
    "\<forall>e at now. Emit e at now \<in> set before \<and> e_type e = TURN_END \<longrightarrow> e_turn e \<noteq> Some t"
    "w = run reacts script before (open_turn t True w0)"
    "attach t l \<lparr>wants_chunks = True, wants_children = False\<rparr> w = (Some a, w1)"
    "l \<notin> at_listener ` set (handles (fst w))" "\<forall>op \<in> set after. leaves_alone l (ta_handle a) op"
    "\<forall>l e. ta_handle a \<notin> set (reacts l e)"
  shows "\<exists>live. hears l (fst (run reacts script after w1)) = hears l (fst w1) @ live \<and>
      ta_replay a @ live = drop (ta_dropped a) (turn_events t (before @ after)) \<and>
      (ta_truncated a \<longleftrightarrow> ta_dropped a > 0)"
proof -
  let ?live = "turn_events t after"
  have o: "world_ok (open_turn t True w0)"
    using reach_ok [OF assms(2,1)] by (simp add: world_ok_def open_plugged open_ok)
  then have w: "world_ok w" unfolding assms(6) using assms(1,4) by (intro run_ok) auto
  have "held t ([] @ turn_events t before) (fst w)"
    unfolding assms(6) by (rule held_run [OF assms(1) _ o open_held [OF assms(3)] assms(5)]) (use assms(4) in auto)
  then obtain x where x: "map_of (buffers (fst w)) t = Some x" "b_events x = drop (b_dropped x) (turn_events t before)"
    "b_dropped x \<le> length (turn_events t before)" by (auto simp: held_def core_of_def core_def)
  have s: "streams_ok (fst w)" using w by (simp add: world_ok_def)
  note a = attach_fresh [OF s assms(7,8)]
  have "b_truncated x \<longleftrightarrow> b_dropped x > 0" using s map_of_SomeD [OF x(1)] by (force simp: streams_ok_def buf_ok_def)
  moreover have "world_ok w1" using w assms(7) attach_plugged [of w t l] attach_ok [of w t l] by (metis snd_conv world_ok_def)
  then have "hears l (fst (run reacts script after w1)) = hears l (fst w1) @ ?live"
    using tracked_run [OF assms(1,10) _ a(1), of after] assms(4,9) by simp
  ultimately show ?thesis using a(2) x by (intro exI [of _ ?live]) (auto simp: turn_events_def)
qed

text \<open>Through the bus, with any other handlers on it, an emitted event reaches the streams exactly once; a token
  reaches them exactly while somebody is interested in tokens.\<close>

theorem recorded_once:
  assumes "foreign_script script" "stream_reach reacts script w"
  shows "fst (stream_step reacts script w (Emit e at now)) =
    (if e_type e = CHUNK \<and> (\<forall>p \<in> set (buffers (fst w)). \<not> b_holds (snd p)) \<and>
        (\<forall>h \<in> set (handles (fst w)). at_chunks h \<longrightarrow> at_detached h)
     then fst w else fst (record_event reacts (e, at, now) w))"
proof -
  have ok: "plugged w" "streams_ok (fst w)" using reach_ok [OF assms(2,1)] by (simp_all add: world_ok_def)
  have "chunkInterest (fst w) = 0 \<longleftrightarrow> (\<forall>p \<in> set (buffers (fst w)). \<not> b_holds (snd p)) \<and>
      (\<forall>h \<in> set (handles (fst w)). at_chunks h \<longrightarrow> at_detached h)"
    using ok(2) by (auto simp: streams_ok_def holding_def asking_def filter_empty_conv)
  with emit_once(1) [OF assms(1) ok(1), of reacts "e_type e" "(e, at, now)"] show ?thesis by simp
qed

definition demo_ev :: "nat \<Rightarrow> string \<Rightarrow> ev" where
  "demo_ev n ty = \<lparr>e_ref = n, e_type = ty, e_turn = Some ''t'', e_parent = None\<rparr>"

definition demo_world :: world where
  "demo_world = listen (new_streams (Some 2) None None, new_bus)"

definition demo_before :: "stream_op list" where
  "demo_before = [Emit (demo_ev 0 ''turn.start'') 0 0, Emit (demo_ev 1 CHUNK) 0 0, Emit (demo_ev 2 CHUNK) 0 0]"

definition demo_after :: "stream_op list" where
  "demo_after = [Emit (demo_ev 3 CHUNK) 0 0, Emit (demo_ev 4 TURN_END) 0 0]"

definition demo_attached :: "attachment option \<times> world" where
  "demo_attached = attach ''t'' 7 \<lparr>wants_chunks = True, wants_children = False\<rparr>
     (run (\<lambda>_ _. []) (\<lambda>_. ([], False)) demo_before (open_turn ''t'' True demo_world))"

lemma demo_reach: "stream_reach reacts script demo_world"
  unfolding demo_world_def by (rule Start)

lemma demo_replay: "map_option (\<lambda>a. (ta_handle a, map e_ref (ta_replay a), ta_dropped a)) (fst demo_attached) = Some (0, [1, 2], 1)"
  by code_simp

theorem gapless_handover_witness:
  "\<exists>a w1 live. demo_attached = (Some a, w1) \<and>
     hears 7 (fst (run (\<lambda>_ _. []) (\<lambda>_. ([], False)) demo_after w1)) = hears 7 (fst w1) @ live \<and>
     map e_ref (ta_replay a @ live) = [1, 2, 3, 4]"
proof -
  obtain a where "fst demo_attached = Some a" using demo_replay by auto
  then obtain w1 where a: "demo_attached = (Some a, w1)" by (metis prod.collapse)
  let ?w = "run (\<lambda>_ _. []) (\<lambda>_. ([], False)) demo_before (open_turn ''t'' True demo_world)"
  have "map_of (buffers (fst demo_world)) ''t'' = None" "handles (fst ?w) = []" by code_simp+
  moreover have "e_turn e \<noteq> Some ''t''" if "Emit e at now \<in> set demo_before \<and> e_type e = TURN_END" for e at now
    using that by (auto simp: demo_before_def demo_ev_def TURN_END_def CHUNK_def)
  ultimately obtain live where "hears 7 (fst (run (\<lambda>_ _. []) (\<lambda>_. ([], False)) demo_after w1)) = hears 7 (fst w1) @ live"
      "ta_replay a @ live = drop (ta_dropped a) (turn_events ''t'' (demo_before @ demo_after))"
    using gapless_handover [of "\<lambda>_. ([], False)" "\<lambda>_ _. []" demo_world "''t''" demo_before demo_after ?w 7 a w1] demo_reach a
    by (auto simp: foreign_script_def demo_attached_def demo_before_def demo_after_def allowed_def leaves_alone_def)
  moreover have "ta_dropped a = 1" using demo_replay unfolding a by simp
  moreover have "map e_ref (drop 1 (turn_events ''t'' (demo_before @ demo_after))) = [1, 2, 3, 4]" by code_simp
  ultimately show ?thesis using a by metis
qed

theorem recorded_once_witness:
  "fst (stream_step (\<lambda>_ _. []) (\<lambda>_. ([], False)) demo_world (Emit (demo_ev 0 CHUNK) 0 0)) = fst demo_world \<and>
   fst (stream_step (\<lambda>_ _. []) (\<lambda>_. ([], False)) demo_world (Emit (demo_ev 0 TURN_END) 0 0)) =
     fst (record_event (\<lambda>_ _. []) (demo_ev 0 TURN_END, 0, 0) demo_world)"
proof -
  have "buffers (fst demo_world) = []" "handles (fst demo_world) = []" by code_simp+
  moreover have "e_type (demo_ev 0 CHUNK) = CHUNK" "e_type (demo_ev 0 TURN_END) \<noteq> CHUNK" by code_simp+
  ultimately show ?thesis
    using recorded_once [of "\<lambda>_. ([], False)" "\<lambda>_ _. []" demo_world, OF _ demo_reach] by (simp add: foreign_script_def del: stream_step.simps)
qed

end
