(* ===== verification/Phases.thy ===== *)
theory Phases
  imports Prelude "HOL-Library.Sublist"
begin

text \<open>
  \<open>packages/core/src/loop/phases.ts\<close>: which tools a phase shows, and which phase a session starts in. A phase
  map is the list of its entries in the order \<open>Object.keys\<close> gives them.
\<close>

section \<open>Data\<close>

record phase_config =
  ph_allow :: "string list"
  ph_entry :: "bool option"

type_synonym phase_map = "(string \<times> phase_config) list"

record tool_spec =
  t_slug :: string
  t_tags :: "string list"

definition PHASE_SET :: string where "PHASE_SET = ''phase_set''"
definition ALLOW_ALL :: string where "ALLOW_ALL = ''*''"
definition TAG_PREFIX :: string where "TAG_PREFIX = ''tag:''"

section \<open>Operations\<close>

definition entryPhase :: "phase_map \<Rightarrow> string option" where
  "entryPhase phases =
     (case find (\<lambda>p. ph_entry (snd p) = Some True) phases of
        Some p \<Rightarrow> Some (fst p)
      | None \<Rightarrow> (case phases of [] \<Rightarrow> None | p # _ \<Rightarrow> Some (fst p)))"

definition normaliseSlug :: "string \<Rightarrow> string" where
  "normaliseSlug slug = filter (\<lambda>c. \<not> (is_space c \<or> c = CHR ''_'' \<or> c = CHR ''.'' \<or> c = CHR ''-'')) (to_lower slug)"

definition allowMatches :: "string \<Rightarrow> tool_spec \<Rightarrow> bool" where
  "allowMatches entry spec =
     (if entry = ALLOW_ALL then True
      else if starts_with TAG_PREFIX entry then
        list_ex (\<lambda>own. to_lower own = to_lower (drop (length TAG_PREFIX) entry)) (t_tags spec)
      else normaliseSlug entry = normaliseSlug (t_slug spec))"

definition visibleIn :: "tool_spec list \<Rightarrow> string list \<Rightarrow> tool_spec list" where
  "visibleIn specs allow = filter (\<lambda>spec. list_ex (\<lambda>entry. allowMatches entry spec) allow) specs"

definition unmatchedAllows :: "phase_map \<Rightarrow> tool_spec list \<Rightarrow> (string \<times> string) list" where
  "unmatchedAllows phases specs =
     concat (map (\<lambda>(phase, config). map (\<lambda>entry. (phase, entry))
       (filter (\<lambda>entry. entry \<noteq> PHASE_SET \<and> \<not> list_ex (allowMatches entry) specs) (ph_allow config))) phases)"

definition unmatchedEntries :: "string list \<Rightarrow> tool_spec list \<Rightarrow> string list" where
  "unmatchedEntries allow specs = filter (\<lambda>entry. \<not> list_ex (allowMatches entry) specs) allow"

definition allowFor :: "phase_map \<Rightarrow> string \<Rightarrow> string list" where
  "allowFor phases phase =
     (case map_of phases phase of
        None \<Rightarrow> [ALLOW_ALL]
      | Some config \<Rightarrow> if PHASE_SET \<in> set (ph_allow config) then ph_allow config else ph_allow config @ [PHASE_SET])"

definition isPhased :: "phase_map option \<Rightarrow> bool" where
  "isPhased phases = (case phases of None \<Rightarrow> False | Some p \<Rightarrow> length p > 1)"

definition phasesFor :: "phase_map \<Rightarrow> tool_spec \<Rightarrow> string list" where
  "phasesFor phases spec =
     filter (\<lambda>name. list_ex (\<lambda>entry. allowMatches entry spec) (allowFor phases name)) (map fst phases)"

definition otherPhases :: "phase_map \<Rightarrow> string \<Rightarrow> tool_spec list \<Rightarrow> (string \<times> nat) list" where
  "otherPhases phases current specs =
     (let here = map t_slug (visibleIn specs (allowFor phases current)) in
      map (\<lambda>name. (name, length (filter (\<lambda>spec. t_slug spec \<notin> set here) (visibleIn specs (allowFor phases name)))))
        (filter (\<lambda>name. name \<noteq> current) (map fst phases)))"

section \<open>Properties\<close>

lemma phase_set_matches: "normaliseSlug (t_slug spec) = normaliseSlug PHASE_SET \<Longrightarrow> allowMatches PHASE_SET spec"
  by (simp add: allowMatches_def PHASE_SET_def ALLOW_ALL_def TAG_PREFIX_def)

lemma phase_set_allowed: "\<exists>entry \<in> set (allowFor phases p). entry = ALLOW_ALL \<or> entry = PHASE_SET"
  by (auto simp: allowFor_def split: option.splits)

text \<open>Every phase, declared or not, shows the tool that leaves it: no session is stuck in a phase.\<close>

theorem phase_set_always_visible:
  assumes "spec \<in> set specs" "t_slug spec = PHASE_SET"
  shows "spec \<in> set (visibleIn specs (allowFor phases phase))"
proof -
  have "allowMatches ALLOW_ALL spec" by (simp add: allowMatches_def)
  moreover have "allowMatches PHASE_SET spec" using assms(2) by (intro phase_set_matches) simp
  ultimately show ?thesis using assms(1) phase_set_allowed [of phases phase] by (auto simp: visibleIn_def list_ex_iff)
qed

theorem phase_set_always_visible_witness:
  "visibleIn [\<lparr>t_slug = ''exec'', t_tags = []\<rparr>, \<lparr>t_slug = ''phase_set'', t_tags = []\<rparr>]
     (allowFor [(''triage'', \<lparr>ph_allow = [], ph_entry = None\<rparr>)] ''triage'') = [\<lparr>t_slug = ''phase_set'', t_tags = []\<rparr>] \<and>
   \<lparr>t_slug = ''phase_set'', t_tags = []\<rparr> \<in> set (visibleIn [\<lparr>t_slug = ''exec'', t_tags = []\<rparr>, \<lparr>t_slug = ''phase_set'', t_tags = []\<rparr>]
     (allowFor [(''triage'', \<lparr>ph_allow = [], ph_entry = None\<rparr>)] ''triage''))"
proof
  show "visibleIn [\<lparr>t_slug = ''exec'', t_tags = []\<rparr>, \<lparr>t_slug = ''phase_set'', t_tags = []\<rparr>]
     (allowFor [(''triage'', \<lparr>ph_allow = [], ph_entry = None\<rparr>)] ''triage'') = [\<lparr>t_slug = ''phase_set'', t_tags = []\<rparr>]"
    by code_simp
  show "\<lparr>t_slug = ''phase_set'', t_tags = []\<rparr> \<in> set (visibleIn [\<lparr>t_slug = ''exec'', t_tags = []\<rparr>, \<lparr>t_slug = ''phase_set'', t_tags = []\<rparr>]
     (allowFor [(''triage'', \<lparr>ph_allow = [], ph_entry = None\<rparr>)] ''triage''))"
    by (rule phase_set_always_visible) (simp_all add: PHASE_SET_def)
qed

text \<open>The introspection surface and the runtime agree: a tool reports exactly the phases that show it, and
  the catalogue keeps its order in every phase.\<close>

theorem phasesFor_visible:
  "(spec \<in> set specs \<and> phase \<in> set (phasesFor phases spec) \<longleftrightarrow>
     phase \<in> set (map fst phases) \<and> spec \<in> set (visibleIn specs (allowFor phases phase))) \<and>
   subseq (visibleIn specs allow) specs"
  by (auto simp: phasesFor_def visibleIn_def)

text \<open>A phase map whose every entry matches something shows in each phase at least one tool per entry.\<close>

theorem unmatchedAllows_complete:
  assumes "unmatchedAllows phases specs = []" "(phase, config) \<in> set phases" "entry \<in> set (ph_allow config)" "entry \<noteq> PHASE_SET"
  shows "\<exists>spec \<in> set specs. allowMatches entry spec"
proof -
  have "filter (\<lambda>entry. entry \<noteq> PHASE_SET \<and> \<not> list_ex (allowMatches entry) specs) (ph_allow config) = []"
    using assms(1,2) unfolding unmatchedAllows_def by fastforce
  with assms(3,4) show ?thesis by (auto simp: filter_empty_conv list_ex_iff)
qed

end
