(* ===== verification/Text_Tools.thy ===== *)
theory Text_Tools
  imports Prelude
begin

text \<open>
  \<open>packages/core/src/nearest.ts\<close>, the suggestion of error messages, and \<open>packages/core/src/text.ts\<close>, the string
  helpers that stay linear on hostile input. The edit distance is shown to be the least number of one-character
  edits, the comment stripper to do what its regular expression did.
\<close>

section \<open>Edit distance\<close>

text \<open>\<open>previous[j] ?? 0\<close>.\<close>

definition at0 :: "nat list \<Rightarrow> nat \<Rightarrow> nat" where
  "at0 row j = (if j < length row then row ! j else 0)"

definition next_cell :: "char \<Rightarrow> string \<Rightarrow> nat list \<Rightarrow> nat \<Rightarrow> nat list \<Rightarrow> nat list" where
  "next_cell c b previous j current =
     (let substitution = at0 previous (j - 1) + (if c = b ! (j - 1) then 0 else 1);
          insertion = at0 current (j - 1) + 1;
          deletion = at0 previous j + 1
      in current @ [min substitution (min insertion deletion)])"

definition next_row :: "string \<Rightarrow> string \<Rightarrow> nat \<Rightarrow> nat list \<Rightarrow> nat list" where
  "next_row a b i previous = fold (next_cell (a ! (i - 1)) b previous) [1..<length b + 1] [i]"

definition distance :: "string \<Rightarrow> string \<Rightarrow> nat" where
  "distance a b =
     (let final = fold (next_row a b) [1..<length a + 1] [0..<length b + 1]
      in if length b < length final then final ! length b else max (length a) (length b))"

section \<open>The nearest candidate\<close>

fun nearest_loop :: "string \<Rightarrow> string list \<Rightarrow> (string \<times> nat) option \<Rightarrow> (string \<times> nat) option" where
  "nearest_loop word [] best = best"
| "nearest_loop word (candidate # rest) best =
     (let score = distance word candidate in
      nearest_loop word rest
        (case best of None \<Rightarrow> Some (candidate, score)
         | Some (c, bestScore) \<Rightarrow> if score < bestScore then Some (candidate, score) else best))"

definition nearest :: "string \<Rightarrow> string list \<Rightarrow> string option" where
  "nearest word candidates =
     (case nearest_loop word candidates None of
        None \<Rightarrow> None
      | Some (best, bestScore) \<Rightarrow> if bestScore \<le> max 2 (length word div 3) then Some best else None)"

section \<open>Comments and slashes\<close>

fun find_sub :: "string \<Rightarrow> string \<Rightarrow> nat option" where
  "find_sub p [] = (if p = [] then Some 0 else None)"
| "find_sub p (c # s) = (if starts_with p (c # s) then Some 0 else map_option Suc (find_sub p s))"

text \<open>\<open>text.indexOf(p, from)\<close>.\<close>

definition indexOf :: "string \<Rightarrow> string \<Rightarrow> nat \<Rightarrow> nat option" where
  "indexOf text p from' = map_option ((+) from') (find_sub p (drop from' text))"

lemma find_sub_Some: "find_sub p s = Some i \<Longrightarrow> i + length p \<le> length s \<and> take (length p) (drop i s) = p"
proof (induction s arbitrary: i)
  case (Cons c s)
  show ?case
  proof (cases "starts_with p (c # s)")
    case True
    then obtain r where r: "c # s = p @ r" by (auto simp: starts_with_iff)
    from True Cons.prems have "i = 0" by simp
    with r show ?thesis by (metis append_eq_conv_conj append_is_Nil_conv drop0 le_add1 length_append plus_nat.add_0)
  next
    case False
    with Cons show ?thesis by auto
  qed
qed (auto split: if_splits)

lemma indexOf_bound: "indexOf t p k = Some i \<Longrightarrow> k \<le> i \<and> (p \<noteq> [] \<longrightarrow> i + length p \<le> length t)"
  by (cases "k \<le> length t") (auto simp: indexOf_def dest!: find_sub_Some)

function strip_loop :: "string \<Rightarrow> string \<Rightarrow> string \<Rightarrow> nat \<Rightarrow> string" where
  "strip_loop text replacement out from' =
     (case indexOf text ''<!--'' from' of
        None \<Rightarrow> out @ drop from' text
      | Some opened \<Rightarrow>
          (case indexOf text ''-->'' (opened + 4) of
             None \<Rightarrow> out @ drop from' text
           | Some closed \<Rightarrow>
               strip_loop text replacement (out @ take (opened - from') (drop from' text) @ replacement) (closed + 3)))"
  by pat_completeness auto
termination
  by (relation "measure (\<lambda>(text, _, _, k). length text - k)") (auto dest!: indexOf_bound)

declare strip_loop.simps [simp del]

definition stripHtmlComments :: "string \<Rightarrow> string \<Rightarrow> string" where
  "stripHtmlComments text replacement = strip_loop text replacement [] 0"

function slash_end :: "string \<Rightarrow> nat \<Rightarrow> nat" where
  "slash_end value n = (if n > 0 \<and> value ! (n - 1) = CHR ''/'' then slash_end value (n - 1) else n)"
  by pat_completeness auto
termination
  by (relation "measure snd") auto

declare slash_end.simps [simp del]

definition trimTrailingSlashes :: "string \<Rightarrow> string" where
  "trimTrailingSlashes value = take (slash_end value (length value)) value"

section \<open>The comment stripper does what its expression did\<close>

text \<open>A global replacement of a comment's shortest match: at each position, a comment that closes is replaced and
  the scan goes on behind it, and any other code unit is kept.\<close>

function comments_replaced :: "string \<Rightarrow> string \<Rightarrow> string" where
  "comments_replaced r [] = []"
| "comments_replaced r (c # s) =
     (case (if starts_with ''<!--'' (c # s) then find_sub ''-->'' (drop 4 (c # s)) else None) of
        Some j \<Rightarrow> r @ comments_replaced r (drop (j + 7) (c # s))
      | None \<Rightarrow> c # comments_replaced r s)"
  by pat_completeness auto
termination
  by (relation "measure (length \<circ> snd)") auto

lemma find_sub_skip: "find_sub p s = Some i \<Longrightarrow> k \<le> i \<Longrightarrow> find_sub p (drop k s) = Some (i - k)"
proof (induction s arbitrary: i k)
  case (Cons c s)
  show ?case
  proof (cases k)
    case (Suc j)
    with Cons.prems have "\<not> starts_with p (c # s)" by auto
    with Cons.prems Suc obtain i' where "find_sub p s = Some i'" "i = Suc i'" by auto
    with Cons.IH [of i' j] Cons.prems(2) Suc show ?thesis by simp
  qed (use Cons.prems in simp)
qed (auto split: if_splits)

lemma find_sub_None_drop: "find_sub p s = None \<Longrightarrow> find_sub p (drop k s) = None"
proof (induction s arbitrary: k)
  case (Cons c s)
  then show ?case by (cases k) (auto split: if_splits)
qed simp

text \<open>Without an opening, or with nothing that closes the first one, everything is kept.\<close>

lemma no_comment: "find_sub ''<!--'' s = None \<Longrightarrow> comments_replaced r s = s"
  by (induction s) (auto split: if_splits)

lemma unclosed_comment:
  "find_sub ''<!--'' s = Some i \<Longrightarrow> find_sub ''-->'' (drop (i + 4) s) = None \<Longrightarrow> comments_replaced r s = s"
proof (induction s arbitrary: i)
  case (Cons c s)
  have later: "comments_replaced r s = s"
  proof (cases "starts_with ''<!--'' (c # s)")
    case True
    with Cons.prems have n: "find_sub ''-->'' (drop 3 s) = None" by (auto simp: numeral_eq_Suc)
    show ?thesis
    proof (cases "find_sub ''<!--'' s")
      case (Some i')
      have "find_sub ''-->'' (drop (i' + 4) s) = None" using find_sub_None_drop [OF n, of "i' + 1"] by (simp add: add.commute)
      with Some show ?thesis by (rule Cons.IH)
    qed (rule no_comment)
  next
    case False
    with Cons.prems(1) obtain i' where i': "find_sub ''<!--'' s = Some i'" "i = Suc i'" by auto
    have "drop (i + 4) (c # s) = drop (i' + 4) s" by (simp only: i'(2) add_Suc drop_Suc_Cons)
    with Cons.IH [OF i'(1)] Cons.prems(2) show ?thesis by (simp only:)
  qed
  have "(if starts_with ''<!--'' (c # s) then find_sub ''-->'' (drop 4 (c # s)) else None) = None"
    using Cons.prems by (auto simp del: drop_Suc_Cons split: if_splits)
  with later show ?case by (simp del: drop_Suc_Cons)
qed simp

lemma closed_comment:
  "find_sub ''<!--'' s = Some i \<Longrightarrow> find_sub ''-->'' (drop (i + 4) s) = Some j \<Longrightarrow>
   comments_replaced r s = take i s @ r @ comments_replaced r (drop (i + j + 7) s)"
proof (induction s arbitrary: i)
  case (Cons c s)
  show ?case
  proof (cases "starts_with ''<!--'' (c # s)")
    case True
    with Cons.prems have "i = 0" "find_sub ''-->'' (drop 4 (c # s)) = Some j" by auto
    with True show ?thesis by (simp del: drop_Suc_Cons)
  next
    case False
    with Cons.prems(1) obtain i' where i': "find_sub ''<!--'' s = Some i'" "i = Suc i'" by auto
    have d: "drop (i + 4) (c # s) = drop (i' + 4) s" "drop (i + j + 7) (c # s) = drop (i' + j + 7) s" by (simp_all only: i'(2) add_Suc drop_Suc_Cons)
    have "comments_replaced r (c # s) = c # comments_replaced r s" using False by (simp del: starts_with.simps drop_Suc_Cons)
    also have "\<dots> = c # take i' s @ r @ comments_replaced r (drop (i' + j + 7) s)"
      using Cons.IH [OF i'(1)] Cons.prems(2) unfolding d by simp
    finally show ?thesis unfolding d using i'(2) by simp
  qed
qed simp

lemma strip_loop_replaces: "strip_loop text r out k = out @ comments_replaced r (drop k text)"
proof (induction "text" r out k rule: strip_loop.induct)
  case (1 "text" r out k)
  show ?case
  proof (cases "indexOf text ''<!--'' k")
    case None
    then have "find_sub ''<!--'' (drop k text) = None" by (auto simp: indexOf_def)
    with None show ?thesis by (subst strip_loop.simps) (simp add: no_comment)
  next
    case (Some opened)
    then obtain i where i: "find_sub ''<!--'' (drop k text) = Some i" "opened = k + i" by (auto simp: indexOf_def)
    show ?thesis
    proof (cases "indexOf text ''-->'' (opened + 4)")
      case None
      then have "find_sub ''-->'' (drop (i + 4) (drop k text)) = None" using i by (auto simp: indexOf_def add_ac)
      with Some None i show ?thesis by (subst strip_loop.simps) (simp add: unclosed_comment)
    next
      case (Some closed)
      then obtain j where j: "find_sub ''-->'' (drop (i + 4) (drop k text)) = Some j" "closed = opened + 4 + j"
        using i by (auto simp: indexOf_def add_ac)
      have d: "drop (closed + 3) text = drop (i + j + 7) (drop k text)" using i j by (simp add: add_ac)
      note ih = "1.IH" [OF \<open>indexOf text ''<!--'' k = Some opened\<close> Some]
      have "strip_loop text r out k = strip_loop text r (out @ take (opened - k) (drop k text) @ r) (closed + 3)"
        using \<open>indexOf text ''<!--'' k = Some opened\<close> Some by (subst strip_loop.simps) simp
      with ih show ?thesis unfolding d closed_comment [OF i(1) j(1)] by (simp add: i(2))
    qed
  qed
qed

lemma slash_end_props:
  "n \<le> length v \<Longrightarrow> slash_end v n \<le> n \<and> drop (slash_end v n) (take n v) = replicate (n - slash_end v n) (CHR ''/'') \<and>
     (slash_end v n > 0 \<longrightarrow> v ! (slash_end v n - 1) \<noteq> CHR ''/'')"
proof (induction v n rule: slash_end.induct)
  case (1 v n)
  show ?case
  proof (cases "n > 0 \<and> v ! (n - 1) = CHR ''/''")
    case True
    then obtain m where m: "n = Suc m" "v ! m = CHR ''/''" by (cases n) auto
    have e: "slash_end v n = slash_end v m" using True m by (subst slash_end.simps) simp
    have ih: "slash_end v m \<le> m" "drop (slash_end v m) (take m v) = replicate (m - slash_end v m) (CHR ''/'')"
      "slash_end v m > 0 \<longrightarrow> v ! (slash_end v m - 1) \<noteq> CHR ''/''" using 1 True m by auto
    have "take n v = take m v @ [CHR ''/'']" using m "1.prems" by (simp add: take_Suc_conv_app_nth)
    then have "drop (slash_end v m) (take n v) = replicate (m - slash_end v m) (CHR ''/'') @ [CHR ''/'']" using ih(1,2) "1.prems" m by simp
    moreover have "n - slash_end v m = Suc (m - slash_end v m)" using ih(1) m by simp
    ultimately show ?thesis unfolding e using ih(1,3) m by (simp add: replicate_append_same)
  next
    case False
    then have "slash_end v n = n" by (subst slash_end.simps) auto
    with False show ?thesis by auto
  qed
qed

section \<open>The two rows compute the recurrence\<close>

fun lev :: "string \<Rightarrow> string \<Rightarrow> nat \<Rightarrow> nat \<Rightarrow> nat" where
  "lev a b 0 j = j"
| "lev a b (Suc i) 0 = Suc i"
| "lev a b (Suc i) (Suc j) =
     min (lev a b i j + (if a ! i = b ! j then 0 else 1)) (min (lev a b (Suc i) j + 1) (lev a b i (Suc j) + 1))"

lemma at0_map: "j < n \<Longrightarrow> at0 (map f [0..<n]) j = f j"
  by (simp add: at0_def)

lemma next_row_lev:
  assumes "previous = map (lev a b i) [0..<Suc (length b)]"
  shows "next_row a b (Suc i) previous = map (lev a b (Suc i)) [0..<Suc (length b)]"
proof -
  have "fold (next_cell (a ! i) b previous) [1..<Suc k] [Suc i] = map (lev a b (Suc i)) [0..<Suc k]" if "k \<le> length b" for k
    using that
  proof (induction k)
    case (Suc k)
    let ?c = "map (lev a b (Suc i)) [0..<Suc k]"
    have "fold (next_cell (a ! i) b previous) [1..<Suc (Suc k)] [Suc i] = next_cell (a ! i) b previous (Suc k) ?c"
      using Suc by simp
    also have "\<dots> = ?c @ [lev a b (Suc i) (Suc k)]"
      using Suc.prems at0_map [of k "Suc (length b)" "lev a b i"] at0_map [of "Suc k" "Suc (length b)" "lev a b i"]
        at0_map [of k "Suc k" "lev a b (Suc i)"]
      by (simp add: next_cell_def assms Let_def del: upt_Suc)
    finally show ?case by simp
  qed simp
  from this [of "length b"] show ?thesis by (simp add: next_row_def)
qed

lemma distance_lev: "distance a b = lev a b (length a) (length b)"
proof -
  have "fold (next_row a b) [1..<Suc k] [0..<length b + 1] = map (lev a b k) [0..<Suc (length b)]" for k
  proof (induction k)
    case 0
    have "map (lev a b 0) [0..<Suc (length b)] = map id [0..<Suc (length b)]" by (rule map_cong) simp_all
    then show ?case by simp
  next
    case (Suc k)
    have "fold (next_row a b) [1..<Suc (Suc k)] [0..<length b + 1] = next_row a b (Suc k) (map (lev a b k) [0..<Suc (length b)])"
      using Suc by simp
    then show ?case by (simp only: next_row_lev [OF refl])
  qed
  from this [of "length a"] show ?thesis by (simp add: distance_def Let_def nth_append)
qed

section \<open>The recurrence is the least cost of an alignment\<close>

inductive aligned :: "nat \<Rightarrow> string \<Rightarrow> string \<Rightarrow> bool" where
  Nil: "aligned 0 [] []"
| Keep: "aligned n u v \<Longrightarrow> aligned n (u @ [c]) (v @ [c])"
| Change: "aligned n u v \<Longrightarrow> aligned (Suc n) (u @ [c]) (v @ [d])"
| Insert: "aligned n u v \<Longrightarrow> aligned (Suc n) u (v @ [d])"
| Delete: "aligned n u v \<Longrightarrow> aligned (Suc n) (u @ [c]) v"

lemma aligned_inserts: "aligned (length v) [] v"
  by (induction v rule: rev_induct) (auto intro: aligned.intros)

lemma aligned_deletes: "aligned (length u) u []"
  by (induction u rule: rev_induct) (auto intro: aligned.intros)

lemma lev_aligned: "i \<le> length a \<Longrightarrow> j \<le> length b \<Longrightarrow> aligned (lev a b i j) (take i a) (take j b)"
proof (induction a b i j rule: lev.induct)
  case (1 a b j)
  with aligned_inserts [of "take j b"] show ?case by simp
next
  case (2 a b i)
  with aligned_deletes [of "take (Suc i) a"] show ?case by simp
next
  case (3 a b i j)
  let ?u = "take i a" and ?v = "take j b"
  have t: "take (Suc i) a = ?u @ [a ! i]" "take (Suc j) b = ?v @ [b ! j]" using 3 by (simp_all add: take_Suc_conv_app_nth)
  have d: "aligned (lev a b i j + (if a ! i = b ! j then 0 else 1)) (?u @ [a ! i]) (?v @ [b ! j])"
    using 3 aligned.Keep [of "lev a b i j" ?u ?v "a ! i"] aligned.Change [of "lev a b i j" ?u ?v "a ! i" "b ! j"] by auto
  have "aligned (Suc (lev a b (Suc i) j)) (take (Suc i) a) (?v @ [b ! j])" using 3 by (intro aligned.Insert) simp
  moreover have "aligned (Suc (lev a b i (Suc j))) (?u @ [a ! i]) (take (Suc j) b)" using 3 by (intro aligned.Delete) simp
  ultimately show ?case using d unfolding t by (auto simp: min_def)
qed

lemma lev_step: "lev a b (Suc i) j \<le> lev a b i j + 1" "lev a b i (Suc j) \<le> lev a b i j + 1"
proof -
  show "lev a b (Suc i) j \<le> lev a b i j + 1"
  proof (cases j)
    case 0
    then show ?thesis by (cases i) simp_all
  qed simp
  show "lev a b i (Suc j) \<le> lev a b i j + 1" by (cases i) simp_all
qed

lemma aligned_lev: "aligned n u v \<Longrightarrow> lev (u @ r) (v @ s) (length u) (length v) \<le> n"
proof (induction arbitrary: r s rule: aligned.induct)
  case (Keep n u v c)
  from Keep.IH [of "c # r" "c # s"] show ?case by simp
next
  case (Change n u v c d)
  from Change.IH [of "c # r" "d # s"] show ?case by (auto simp: min_le_iff_disj)
next
  case (Insert n u v d)
  from Insert.IH [of r "d # s"] lev_step(2) [of "u @ r" "v @ d # s" "length u" "length v"] show ?case by simp
next
  case (Delete n u v c)
  from Delete.IH [of "c # r" s] lev_step(1) [of "u @ c # r" "v @ s" "length u" "length v"] show ?case by simp
qed simp

lemma distance_least: "aligned (distance a b) a b" "aligned n a b \<Longrightarrow> distance a b \<le> n"
  using lev_aligned [of "length a" a "length b" b] aligned_lev [of n a b "[]" "[]"] by (simp_all add: distance_lev)

section \<open>An alignment is a sequence of one-character edits\<close>

text \<open>One edit: a character, or none, is replaced by a character, or none.\<close>

definition edit1 :: "string \<Rightarrow> string \<Rightarrow> bool" where
  "edit1 u v \<longleftrightarrow> (\<exists>p c d s. u = p @ c @ s \<and> v = p @ d @ s \<and> length c \<le> 1 \<and> length d \<le> 1)"

lemma edit1_refl: "edit1 u u"
  unfolding edit1_def by (intro exI [of _ "[]"] exI [of _ "u"]) simp

lemma edit1_append: "edit1 u v \<Longrightarrow> edit1 (u @ w) (v @ w)"
  unfolding edit1_def by (metis append.assoc)

lemma edits_append: "(edit1 ^^ n) u v \<Longrightarrow> (edit1 ^^ n) (u @ w) (v @ w)"
proof (induction n arbitrary: v)
  case (Suc n)
  then show ?case by (auto intro: edit1_append)
qed simp

lemma edits_more: "(edit1 ^^ n) u v \<Longrightarrow> n \<le> m \<Longrightarrow> (edit1 ^^ m) u v"
proof (induction m)
  case (Suc m)
  then show ?case by (cases "n = Suc m") (auto intro: edit1_refl)
qed simp

lemma edit1_last: "edit1 (u @ c) (u @ d)" if "length c \<le> 1" "length d \<le> 1"
  unfolding edit1_def using that by (metis append_Nil2)

lemma aligned_edits: "aligned n u v \<Longrightarrow> (edit1 ^^ n) u v"
proof (induction rule: aligned.induct)
  case (Keep n u v c)
  show ?case by (rule edits_append [OF Keep.IH])
next
  case (Change n u v c d)
  from edits_append [OF Change.IH, of "[c]"] edit1_last [of "[c]" "[d]" v] show ?case by auto
next
  case (Insert n u v d)
  from Insert.IH edit1_last [of "[]" "[d]" v] show ?case by auto
next
  case (Delete n u v c)
  from edits_append [OF Delete.IH, of "[c]"] edit1_last [of "[c]" "[]" v] show ?case by auto
qed simp

lemma aligned_append: "aligned n v w \<Longrightarrow> aligned m t u \<Longrightarrow> aligned (m + n) (t @ v) (u @ w)"
  by (induction rule: aligned.induct) (auto simp flip: append_assoc intro: aligned.intros)

lemma splitI:
  "u = u1 @ u2 \<Longrightarrow> aligned k u1 x \<Longrightarrow> aligned m u2 y \<Longrightarrow> k + m = n \<Longrightarrow>
   \<exists>u1 u2 k m. u = u1 @ u2 \<and> aligned k u1 x \<and> aligned m u2 y \<and> k + m = n"
  by blast

lemma aligned_split:
  "aligned n u v \<Longrightarrow> v = x @ y \<Longrightarrow> \<exists>u1 u2 k m. u = u1 @ u2 \<and> aligned k u1 x \<and> aligned m u2 y \<and> k + m = n"
proof (induction arbitrary: y rule: aligned.induct)
  case Nil
  then show ?case using aligned.Nil by force
next
  case (Keep n u v c)
  show ?case
  proof (cases y rule: rev_cases)
    case Nil
    then show ?thesis using aligned.Keep [OF Keep.hyps, of c] Keep.prems aligned.Nil by (intro splitI [of _ "u @ [c]" "[]" n _ 0]) simp_all
  next
    case (snoc y' e)
    then have "v = x @ y'" "e = c" using Keep.prems by auto
    from Keep.IH [OF this(1)] obtain u1 u2 k m where "u = u1 @ u2" "aligned k u1 x" "aligned m u2 y'" "k + m = n" by blast
    then show ?thesis using snoc \<open>e = c\<close> aligned.Keep [of m u2 y' c]
      by (intro splitI [of _ u1 "u2 @ [c]" k _ m]) simp_all
  qed
next
  case (Change n u v c d)
  show ?case
  proof (cases y rule: rev_cases)
    case Nil
    then show ?thesis using aligned.Change [OF Change.hyps, of c d] Change.prems aligned.Nil by (intro splitI [of _ "u @ [c]" "[]" "Suc n" _ 0]) simp_all
  next
    case (snoc y' e)
    then have "v = x @ y'" "e = d" using Change.prems by auto
    from Change.IH [OF this(1)] obtain u1 u2 k m where "u = u1 @ u2" "aligned k u1 x" "aligned m u2 y'" "k + m = n" by blast
    then show ?thesis using snoc \<open>e = d\<close> aligned.Change [of m u2 y' c d] by (intro splitI [of _ u1 "u2 @ [c]" k _ "Suc m"]) simp_all
  qed
next
  case (Insert n u v d)
  show ?case
  proof (cases y rule: rev_cases)
    case Nil
    then show ?thesis using aligned.Insert [OF Insert.hyps, of d] Insert.prems aligned.Nil by (intro splitI [of _ u "[]" "Suc n" _ 0]) simp_all
  next
    case (snoc y' e)
    then have "v = x @ y'" "e = d" using Insert.prems by auto
    from Insert.IH [OF this(1)] obtain u1 u2 k m where "u = u1 @ u2" "aligned k u1 x" "aligned m u2 y'" "k + m = n" by blast
    then show ?thesis using snoc \<open>e = d\<close> aligned.Insert [of m u2 y' d] by (intro splitI [of _ u1 "u2" k _ "Suc m"]) simp_all
  qed
next
  case (Delete n u v c)
  from Delete.IH [OF Delete.prems] obtain u1 u2 k m where "u = u1 @ u2" "aligned k u1 x" "aligned m u2 y" "k + m = n" by blast
  then show ?case using aligned.Delete [of m u2 y c] by (intro splitI [of _ u1 "u2 @ [c]" k _ "Suc m"]) simp_all
qed

lemma aligned_shorter: "aligned n u v \<Longrightarrow> length u \<le> n + length v"
  by (induction rule: aligned.induct) auto

lemma aligned_to_short: "length d \<le> 1 \<Longrightarrow> \<exists>n. aligned n u d \<and> n \<le> max 1 (length u)"
proof (cases u)
  case Nil
  assume "length d \<le> 1"
  then show ?thesis using aligned_inserts [of d] Nil by auto
next
  case (Cons c w)
  assume d: "length d \<le> 1"
  show ?thesis
  proof (cases d)
    case Nil
    with aligned_deletes [of u] show ?thesis by auto
  next
    case (Cons e t)
    then have "d = [e]" using d by simp
    moreover have "aligned 1 [c] [e]" using aligned.Change [OF aligned.Nil, of c e] by simp
    ultimately show ?thesis using aligned_append [OF aligned_deletes [of w]] \<open>u = c # w\<close> by fastforce
  qed
qed

lemma aligned_edit1:
  assumes "aligned n a b" "edit1 b b'"
  shows "\<exists>m \<le> Suc n. aligned m a b'"
proof -
  obtain p c d s where b: "b = p @ c @ s" "b' = p @ d @ s" "length c \<le> 1" "length d \<le> 1" using assms(2) by (auto simp: edit1_def)
  from aligned_split [OF assms(1) b(1)] obtain a1 a2 k m where 1: "a = a1 @ a2" "aligned k a1 p" "aligned m a2 (c @ s)" "k + m = n" by blast
  from aligned_split [OF 1(3) refl] obtain a3 a4 i j where 2: "a2 = a3 @ a4" "aligned i a3 c" "aligned j a4 s" "i + j = m" by blast
  from aligned_to_short [OF b(4)] obtain l where l: "aligned l a3 d" "l \<le> max 1 (length a3)" by blast
  have "aligned (k + (l + j)) a b'" unfolding 1(1) 2(1) b(2) by (intro aligned_append 1(2) 2(3) l(1))
  moreover have "l \<le> Suc i" using l(2) aligned_shorter [OF 2(2)] b(3) by simp
  ultimately show ?thesis using 1(4) 2(4) by (intro exI [of _ "k + (l + j)"]) simp
qed

lemma edits_distance: "(edit1 ^^ n) a b \<Longrightarrow> distance a b \<le> n"
proof (induction n arbitrary: b)
  case 0
  have "aligned 0 u u" for u by (induction u rule: rev_induct) (auto intro: aligned.intros)
  with 0 distance_least(2) [of 0 b b] show ?case by simp
next
  case (Suc n)
  then obtain b0 where b0: "(edit1 ^^ n) a b0" "edit1 b0 b" by auto
  from aligned_edit1 [OF distance_least(1) b0(2)] obtain m where "m \<le> Suc (distance a b0)" "aligned m a b" by blast
  with distance_least(2) [of m a b] Suc.IH [OF b0(1)] show ?case by linarith
qed

section \<open>Properties\<close>

text \<open>The distance two rows compute is the least number of one-character edits between two words.\<close>

theorem distance_edits: "distance a b \<le> n \<longleftrightarrow> (edit1 ^^ n) a b"
  using edits_distance edits_more [OF aligned_edits [OF distance_least(1)]] by blast

definition first_best :: "string \<Rightarrow> string list \<Rightarrow> string \<Rightarrow> bool" where
  "first_best word cs c \<longleftrightarrow> (\<exists>us vs. cs = us @ c # vs \<and> (\<forall>u \<in> set us. distance word c < distance word u) \<and>
     (\<forall>v \<in> set vs. distance word c \<le> distance word v))"

lemma first_bestI:
  "cs = us @ c # vs \<Longrightarrow> \<forall>u \<in> set us. distance word c < distance word u \<Longrightarrow> \<forall>v \<in> set vs. distance word c \<le> distance word v \<Longrightarrow>
   first_best word cs c"
  unfolding first_best_def by blast

lemma nearest_loop_best:
  "\<exists>c. nearest_loop word cs (Some (c0, distance word c0)) = Some (c, distance word c) \<and> first_best word (c0 # cs) c"
proof (induction cs arbitrary: c0)
  case Nil
  show ?case by (auto simp: first_best_def Cons_eq_append_conv)
next
  case (Cons x cs)
  show ?case
  proof (cases "distance word x < distance word c0")
    case True
    from Cons.IH [of x] obtain c us vs where c: "nearest_loop word cs (Some (x, distance word x)) = Some (c, distance word c)"
      "x # cs = us @ c # vs" "\<forall>u \<in> set us. distance word c < distance word u" "\<forall>v \<in> set vs. distance word c \<le> distance word v"
      by (auto simp: first_best_def)
    have "x \<in> set (us @ c # vs)" unfolding c(2) [symmetric] by simp
    then have "distance word c \<le> distance word x" using c(3,4) by auto
    with True c have "first_best word (c0 # x # cs) c"
      by (intro first_bestI [of _ "c0 # us" _ vs]) auto
    with True c(1) show ?thesis by auto
  next
    case False
    from Cons.IH [of c0] obtain c us vs where c: "nearest_loop word cs (Some (c0, distance word c0)) = Some (c, distance word c)"
      "c0 # cs = us @ c # vs" "\<forall>u \<in> set us. distance word c < distance word u" "\<forall>v \<in> set vs. distance word c \<le> distance word v"
      by (auto simp: first_best_def)
    have "first_best word (c0 # x # cs) c"
    proof (cases us)
      case Nil
      with c False show ?thesis by (intro first_bestI [of _ "[]" _ "x # cs"]) auto
    next
      case (Cons y us1)
      with c False show ?thesis by (intro first_bestI [of _ "c0 # x # us1" _ vs]) auto
    qed
    with False c(1) show ?thesis by auto
  qed
qed

text \<open>A suggestion is the first of the candidates at the least distance, and is made when that distance is at
  most 2 or a third of the word; without one, every candidate is farther.\<close>

theorem nearest_suggests:
  "(nearest word cs = Some c \<longleftrightarrow> first_best word cs c \<and> distance word c \<le> max 2 (length word div 3)) \<and>
   (nearest word cs = None \<longleftrightarrow> (\<forall>d \<in> set cs. max 2 (length word div 3) < distance word d))"
proof (cases cs)
  case Nil
  then show ?thesis by (simp add: nearest_def first_best_def)
next
  case (Cons c0 rest)
  have l: "nearest_loop word cs None = nearest_loop word rest (Some (c0, distance word c0))" by (simp add: Cons)
  obtain b where b: "nearest_loop word cs None = Some (b, distance word b)" "first_best word cs b"
    using nearest_loop_best [of word rest c0] by (auto simp: l Cons)
  have u: "first_best word cs d \<longleftrightarrow> d = b" for d
  proof
    assume "first_best word cs d"
    then obtain us vs us' vs' where e: "cs = us @ d # vs" "cs = us' @ b # vs'" "\<forall>u \<in> set us. distance word d < distance word u"
      "\<forall>v \<in> set vs. distance word d \<le> distance word v" "\<forall>u \<in> set us'. distance word b < distance word u"
      "\<forall>v \<in> set vs'. distance word b \<le> distance word v" using b(2) unfolding first_best_def by blast
    then have "us @ d # vs = us' @ b # vs'" by simp
    then consider ws where "us' = us @ ws" "d # vs = ws @ b # vs'" | ws where "us = us' @ ws" "b # vs' = ws @ d # vs"
      by (auto simp: append_eq_append_conv2)
    then show "d = b"
    proof cases
      case 1
      with e(4,5) show ?thesis by (cases ws) fastforce+
    next
      case 2
      with e(3,6) show ?thesis by (cases ws) fastforce+
    qed
  qed (simp add: b(2))
  have m: "distance word b \<le> distance word d" if "d \<in> set cs" for d using b(2) that unfolding first_best_def by fastforce
  have "b \<in> set cs" using b(2) by (auto simp: first_best_def)
  have n: "nearest word cs = (if distance word b \<le> max 2 (length word div 3) then Some b else None)" by (simp add: nearest_def b(1))
  show ?thesis
  proof (cases "distance word b \<le> max 2 (length word div 3)")
    case True
    then have "\<not> (\<forall>d \<in> set cs. max 2 (length word div 3) < distance word d)" using \<open>b \<in> set cs\<close> by (meson not_le)
    with True show ?thesis unfolding n u by auto
  next
    case False
    then have "max 2 (length word div 3) < distance word d" if "d \<in> set cs" for d using m [OF that] by linarith
    with False show ?thesis unfolding n u by auto
  qed
qed

text \<open>The loop over \<open>indexOf\<close> does what the quadratic expression it replaced did.\<close>

theorem stripHtmlComments_replaces: "stripHtmlComments str r = comments_replaced r str"
  by (simp add: stripHtmlComments_def strip_loop_replaces)

text \<open>What \<open>trimTrailingSlashes\<close> cuts off is slashes, and all of them.\<close>

theorem trimTrailingSlashes_exact:
  "\<exists>n. value = trimTrailingSlashes value @ replicate n (CHR ''/'') \<and> \<not> ends_with ''/'' (trimTrailingSlashes value)"
proof -
  let ?n = "slash_end value (length value)"
  note p = slash_end_props [of "length value" "value"]
  then have "value = take ?n value @ replicate (length value - ?n) (CHR ''/'')" by (metis append_take_drop_id order_refl take_all)
  moreover have "\<not> ends_with ''/'' (take ?n value)"
  proof (cases ?n)
    case (Suc k)
    then have "take ?n value = take k value @ [value ! k]" using p by (simp add: take_Suc_conv_app_nth)
    with p Suc show ?thesis by (auto simp: ends_with_def)
  qed (simp add: ends_with_def)
  ultimately show ?thesis unfolding trimTrailingSlashes_def by blast
qed

end
