(* ===== verification/Sse.thy ===== *)
theory Sse
  imports Trust
begin

text \<open>
  Server-sent events, from both ends: the parser of \<open>packages/core/src/model/sse.ts\<close>, which the HTTP client reads
  the server with, and the framing and teardown of \<open>packages/server/src/sse.ts\<close>. A chunk is text or bytes; the
  \<open>TextDecoder\<close>, with its state, and \<open>JSON.stringify\<close> are parameters.
\<close>

section \<open>Frames\<close>

record sse_event =
  s_event :: "string option"
  s_data :: string
  s_id :: "string option"
  s_retry :: "int option"

text \<open>\<open>frame.split(/\r\n|\n|\r/)\<close>.\<close>

fun split_lines :: "string \<Rightarrow> string list" where
  "split_lines [] = [[]]"
| "split_lines (c # s) =
     (if c = CR \<and> s \<noteq> [] \<and> hd s = NL then [] # split_lines (tl s)
      else if c = NL \<or> c = CR then [] # split_lines s
      else (case split_lines s of l # ls \<Rightarrow> (c # l) # ls | [] \<Rightarrow> [[c]]))"

text \<open>\<open>Number.parseInt(value, 10)\<close>: white space, a sign, and the digits before anything else.\<close>

definition parse_int :: "string \<Rightarrow> int option" where
  "parse_int s =
     (let t = trim_start s;
          neg = (t \<noteq> [] \<and> hd t = CHR ''-'');
          u = (if t \<noteq> [] \<and> (hd t = CHR ''-'' \<or> hd t = CHR ''+'') then tl t else t);
          ds = takeWhile is_digit u
      in if ds = [] then None else Some (if neg then - int (to_number ds) else int (to_number ds)))"

record frame_fields =
  f_data :: "string list"
  f_event :: "string option"
  f_id :: "string option"
  f_retry :: "int option"

definition no_fields :: frame_fields where
  "no_fields = \<lparr>f_data = [], f_event = None, f_id = None, f_retry = None\<rparr>"

definition parse_line :: "string \<Rightarrow> frame_fields \<Rightarrow> frame_fields" where
  "parse_line line f =
     (if line = [] \<or> starts_with '':'' line then f
      else
        (let colon = index_of (CHR '':'') line;
             field = (case colon of None \<Rightarrow> line | Some i \<Rightarrow> take i line);
             rest = (case colon of None \<Rightarrow> [] | Some i \<Rightarrow> drop (i + 1) line);
             value = (if starts_with '' '' rest then drop 1 rest else rest)
         in if field = ''data'' then f\<lparr>f_data := f_data f @ [value]\<rparr>
            else if field = ''event'' then f\<lparr>f_event := Some value\<rparr>
            else if field = ''id'' then f\<lparr>f_id := Some value\<rparr>
            else if field = ''retry'' then (case parse_int value of None \<Rightarrow> f | Some n \<Rightarrow> f\<lparr>f_retry := Some n\<rparr>)
            else f))"

definition parseFrame :: "string \<Rightarrow> sse_event option" where
  "parseFrame frame =
     (let f = fold parse_line (split_lines frame) no_fields in
      if f_data f = [] \<and> f_event f = None then None
      else Some \<lparr>s_event = f_event f, s_data = join_with [NL] (f_data f), s_id = f_id f, s_retry = f_retry f\<rparr>)"

section \<open>The stream\<close>

definition sep_len :: "string \<Rightarrow> nat" where
  "sep_len s =
     (if starts_with [CR, NL, CR, NL] s then 4
      else if starts_with [NL, NL] s \<or> starts_with [CR, CR] s then 2 else 0)"

text \<open>\<open>FRAME_SEPARATOR.exec(buffer)\<close>: where the leftmost separator starts, and how long it is.\<close>

fun find_sep :: "string \<Rightarrow> (nat \<times> nat) option" where
  "find_sep [] = None"
| "find_sep (c # s) =
     (if sep_len (c # s) \<noteq> 0 then Some (0, sep_len (c # s)) else map_option (\<lambda>(i, n). (Suc i, n)) (find_sep s))"

definition to_list :: "'a option \<Rightarrow> 'a list" where
  "to_list x = (case x of None \<Rightarrow> [] | Some a \<Rightarrow> [a])"

lemma find_sep_Some: "find_sep s = Some (i, n) \<Longrightarrow> 0 < n \<and> i < length s \<and> n = sep_len (drop i s)"
  by (induction s arbitrary: i) (auto split: if_splits)

text \<open>The inner loop: the events of every complete frame, and the text after the last separator.\<close>

function take_frames :: "string \<Rightarrow> sse_event list \<times> string" where
  "take_frames buffer =
     (case find_sep buffer of
        None \<Rightarrow> ([], buffer)
      | Some (i, n) \<Rightarrow>
          (let (es, rest) = take_frames (drop (i + n) buffer) in (to_list (parseFrame (take i buffer)) @ es, rest)))"
  by pat_completeness auto
termination
  by (relation "measure length") (auto dest!: find_sep_Some)

declare take_frames.simps [simp del]

datatype 'b chunk = Text string | Bytes 'b

text \<open>The outer loop. The decoder keeps what an incomplete sequence of bytes left; its last call flushes it.\<close>

fun parse_chunks :: "('d \<Rightarrow> 'b \<Rightarrow> string \<times> 'd) \<Rightarrow> ('d \<Rightarrow> string) \<Rightarrow> 'd \<Rightarrow> string \<Rightarrow> 'b chunk list \<Rightarrow> sse_event list" where
  "parse_chunks decode flush d buffer [] =
     (let buffer = buffer @ flush d in if trim buffer \<noteq> [] then to_list (parseFrame buffer) else [])"
| "parse_chunks decode flush d buffer (Text s # cs) =
     (let (es, rest) = take_frames (buffer @ s) in es @ parse_chunks decode flush d rest cs)"
| "parse_chunks decode flush d buffer (Bytes b # cs) =
     (let (s, d') = decode d b; (es, rest) = take_frames (buffer @ s) in es @ parse_chunks decode flush d' rest cs)"

definition parseSSE :: "('d \<Rightarrow> 'b \<Rightarrow> string \<times> 'd) \<Rightarrow> ('d \<Rightarrow> string) \<Rightarrow> 'd \<Rightarrow> 'b chunk list \<Rightarrow> sse_event list" where
  "parseSSE decode flush d cs = parse_chunks decode flush d [] cs"

section \<open>Encoding\<close>

text \<open>The payload of a frame is its data, when that is a string, and otherwise what \<open>JSON.stringify\<close> makes of it.\<close>

record 'v sse_frame =
  fr_event :: "string option"
  fr_data :: "string + 'v"
  fr_id :: "string option"

definition payload :: "('v \<Rightarrow> string) \<Rightarrow> 'v sse_frame \<Rightarrow> string" where
  "payload stringify fr = (case fr_data fr of Inl s \<Rightarrow> s | Inr v \<Rightarrow> stringify v)"

definition frame_lines :: "('v \<Rightarrow> string) \<Rightarrow> 'v sse_frame \<Rightarrow> string list" where
  "frame_lines stringify fr =
     (case fr_event fr of None \<Rightarrow> [] | Some e \<Rightarrow> [''event: '' @ e]) @
     (case fr_id fr of None \<Rightarrow> [] | Some i \<Rightarrow> [''id: '' @ i]) @
     map (\<lambda>line. ''data: '' @ line) (split_on NL (payload stringify fr))"

definition encodeFrame :: "('v \<Rightarrow> string) \<Rightarrow> 'v sse_frame \<Rightarrow> string" where
  "encodeFrame stringify fr = join_with [NL] (frame_lines stringify fr) @ [NL, NL]"

definition PING :: string where "PING = '': ping'' @ [NL, NL]"

section \<open>The response stream\<close>

text \<open>The closure variables of \<open>sseResponse\<close>; \<open>torn\<close> counts the calls of the teardown, \<open>sent\<close> is what was enqueued.
  Enqueueing fails when the consumer is gone, which the steps take as an argument.\<close>

record stream =
  closed :: bool
  has_teardown :: bool
  heartbeat :: bool
  torn :: nat
  sent :: "string list"

definition new_stream :: stream where
  "new_stream = \<lparr>closed = False, has_teardown = False, heartbeat = False, torn = 0, sent = []\<rparr>"

definition end_stream :: "stream \<Rightarrow> stream" where
  "end_stream st =
     (if closed st then st
      else st\<lparr>closed := True, heartbeat := False, torn := torn st + (if has_teardown st then 1 else 0), has_teardown := False\<rparr>)"

definition send_frame :: "('v \<Rightarrow> string) \<Rightarrow> bool \<Rightarrow> 'v sse_frame \<Rightarrow> stream \<Rightarrow> stream" where
  "send_frame stringify gone fr st =
     (if closed st then st else if gone then end_stream st else st\<lparr>sent := sent st @ [encodeFrame stringify fr]\<rparr>)"

definition beat :: "bool \<Rightarrow> stream \<Rightarrow> stream" where
  "beat gone st =
     (if closed st \<or> \<not> heartbeat st then st else if gone then end_stream st else st\<lparr>sent := sent st @ [PING]\<rparr>)"

definition cancel_stream :: "stream \<Rightarrow> stream" where
  "cancel_stream st =
     (if closed st then st
      else st\<lparr>closed := True, heartbeat := False, torn := torn st + (if has_teardown st then 1 else 0), has_teardown := False\<rparr>)"

datatype 'v stream_event = Send bool "'v sse_frame" | Close | Abort | Cancel | Beat bool

fun stream_event_step :: "('v \<Rightarrow> string) \<Rightarrow> stream \<Rightarrow> 'v stream_event \<Rightarrow> stream" where
  "stream_event_step stringify st (Send gone fr) = send_frame stringify gone fr st"
| "stream_event_step stringify st Close = end_stream st"
| "stream_event_step stringify st Abort = end_stream st"
| "stream_event_step stringify st Cancel = cancel_stream st"
| "stream_event_step stringify st (Beat gone) = beat gone st"

text \<open>The source's \<open>start\<close> may send and close before it returns; a stream closed by then tears down at once.\<close>

definition start_stream :: "('v \<Rightarrow> string) \<Rightarrow> 'v stream_event list \<Rightarrow> bool \<Rightarrow> stream" where
  "start_stream stringify script returns =
     (let st = foldl (stream_event_step stringify) new_stream script in
      if closed st then st\<lparr>torn := torn st + (if returns then 1 else 0)\<rparr>
      else st\<lparr>has_teardown := returns, heartbeat := True\<rparr>)"

definition stream_inv :: "nat \<Rightarrow> stream \<Rightarrow> bool" where
  "stream_inv n st \<longleftrightarrow> torn st + (if has_teardown st then 1 else 0) = n \<and> (closed st \<longrightarrow> \<not> has_teardown st \<and> \<not> heartbeat st)"

lemma stream_step_inv: "stream_inv n st \<Longrightarrow> stream_inv n (stream_event_step stringify st e)"
  by (cases e) (auto simp: stream_inv_def send_frame_def end_stream_def cancel_stream_def beat_def)

lemma stream_steps_inv: "stream_inv n st \<Longrightarrow> stream_inv n (foldl (stream_event_step stringify) st es)"
  by (induction es arbitrary: st) (simp_all add: stream_step_inv)

lemma stream_start_inv: "stream_inv (if returns then 1 else 0) (start_stream stringify script returns)"
proof -
  have "stream_inv 0 (foldl (stream_event_step stringify) new_stream script)"
    by (rule stream_steps_inv) (simp add: stream_inv_def new_stream_def)
  then show ?thesis by (auto simp: start_stream_def stream_inv_def Let_def split: if_splits)
qed

lemma closed_step: "closed st \<Longrightarrow> stream_event_step stringify st e = st"
  by (cases e) (simp_all add: send_frame_def end_stream_def cancel_stream_def beat_def)

lemma closed_steps: "closed st \<Longrightarrow> foldl (stream_event_step stringify) st es = st"
  by (induction es) (simp_all add: closed_step)

section \<open>Where the chunks are cut does not matter\<close>

lemma CR_not_NL [simp]: "CR \<noteq> NL" "NL \<noteq> CR" by (simp_all add: CR_def NL_def)

text \<open>A separator stays one when text is appended.\<close>

lemma sep_len_append: "sep_len s \<noteq> 0 \<Longrightarrow> sep_len (s @ t) = sep_len s"
  by (cases s; cases "tl s"; cases "tl (tl s)"; cases "tl (tl (tl s))") (auto simp: sep_len_def split: if_splits)

lemma no_sep_before:
  assumes "sep_len (c # s) = 0" "find_sep s = Some p"
  shows "sep_len (c # s @ t) = 0"
proof -
  obtain a b r where s: "s = a # b # r"
    using assms(2) by (cases s; cases "tl s") (auto simp: sep_len_def split: if_splits)
  have "find_sep [NL, CR] = None" by (simp add: sep_len_def)
  with assms s show ?thesis by (cases r) (auto simp: sep_len_def split: if_splits)
qed

lemma find_sep_append: "find_sep s = Some p \<Longrightarrow> find_sep (s @ t) = Some p"
proof (induction s arbitrary: p)
  case (Cons c s)
  show ?case
  proof (cases "sep_len (c # s) = 0")
    case True
    with Cons.prems obtain q where "find_sep s = Some q" "p = (Suc (fst q), snd q)" by (auto simp: case_prod_beta)
    with Cons.IH [of q] no_sep_before [OF True, of q t] show ?thesis by (simp add: case_prod_beta)
  next
    case False
    with Cons.prems sep_len_append [of "c # s" t] show ?thesis by simp
  qed
qed simp

lemma take_frames_append:
  "take_frames (s @ t) = (let (es, rest) = take_frames s; (es', rest') = take_frames (rest @ t) in (es @ es', rest'))"
proof (induction s rule: take_frames.induct)
  case (1 s)
  show ?case
  proof (cases "find_sep s")
    case None
    then have "take_frames s = ([], s)" by (subst take_frames.simps) simp
    then show ?thesis by (simp add: case_prod_beta)
  next
    case (Some p)
    obtain i n where p: "p = (i, n)" by (cases p)
    with Some have b: "i < length s" "n = sep_len (drop i s)" "0 < n" using find_sep_Some by blast+
    have "i + n \<le> length s" using b by (cases "drop i s"; cases "tl (drop i s)"; cases "tl (tl (drop i s))"; cases "tl (tl (tl (drop i s)))")
        (auto simp: sep_len_def split: if_splits dest!: arg_cong [of _ _ length])
    then have d: "drop (i + n) (s @ t) = drop (i + n) s @ t" "take i (s @ t) = take i s" by simp_all
    have ts: "take_frames s = (let (es, rest) = take_frames (drop (i + n) s) in (to_list (parseFrame (take i s)) @ es, rest))"
      by (subst take_frames.simps) (simp only: Some p option.case prod.case)
    have "take_frames (s @ t) = (let (es, rest) = take_frames (drop (i + n) s @ t) in (to_list (parseFrame (take i s)) @ es, rest))"
      by (subst take_frames.simps) (simp only: find_sep_append [OF Some, of t] p option.case prod.case d)
    also have "\<dots> = (let (es, rest) = take_frames s; (es', rest') = take_frames (rest @ t) in (es @ es', rest'))"
      using "1.IH" [OF Some p [symmetric]] unfolding ts by (simp add: case_prod_beta Let_def)
    finally show ?thesis .
  qed
qed

fun decoded :: "('d \<Rightarrow> 'b \<Rightarrow> string \<times> 'd) \<Rightarrow> ('d \<Rightarrow> string) \<Rightarrow> 'd \<Rightarrow> 'b chunk list \<Rightarrow> string" where
  "decoded decode flush d [] = flush d"
| "decoded decode flush d (Text s # cs) = s @ decoded decode flush d cs"
| "decoded decode flush d (Bytes b # cs) = fst (decode d b) @ decoded decode flush (snd (decode d b)) cs"

definition parse_text :: "string \<Rightarrow> sse_event list" where
  "parse_text s = (let (es, rest) = take_frames s in es @ (if trim rest \<noteq> [] then to_list (parseFrame rest) else []))"

lemma find_sep_rest: "find_sep (snd (take_frames s)) = None"
proof (induction s rule: take_frames.induct)
  case (1 s)
  show ?case
  proof (cases "find_sep s")
    case None
    then show ?thesis by (subst take_frames.simps) simp
  next
    case (Some p)
    obtain i n where p: "p = (i, n)" by (cases p)
    with "1.IH" [OF Some p [symmetric]] Some show ?thesis by (subst take_frames.simps) (simp add: case_prod_beta)
  qed
qed

lemma find_sep_plain: "find_sep s = None \<Longrightarrow> \<forall>c \<in> set t. c \<noteq> CR \<and> c \<noteq> NL \<Longrightarrow> find_sep (s @ t) = None"
proof (induction s)
  case Nil
  then show ?case by (induction t) (auto simp: sep_len_def split: if_splits)
next
  case (Cons c s)
  have "sep_len (c # s @ t) = 0"
  proof (rule ccontr)
    assume "sep_len (c # s @ t) \<noteq> 0"
    then show False using Cons.prems
      by (cases s; cases "tl s"; cases "tl (tl s)"; cases t) (auto simp: sep_len_def split: if_splits)
  qed
  with Cons show ?case by (simp split: if_splits)
qed

lemma parse_chunks_text:
  "\<forall>d. \<forall>c \<in> set (flush d). c \<noteq> CR \<and> c \<noteq> NL \<Longrightarrow> find_sep buffer = None \<Longrightarrow> parse_chunks decode flush d buffer cs = parse_text (buffer @ decoded decode flush d cs)"
proof (induction decode flush d buffer cs rule: parse_chunks.induct)
  case (1 decode flush d buffer)
  have "find_sep (buffer @ flush d) = None" by (rule find_sep_plain [OF 1(2)]) (use 1(1) in blast)
  then have "take_frames (buffer @ flush d) = ([], buffer @ flush d)" by (subst take_frames.simps) simp
  then show ?case by (simp add: parse_text_def Let_def)
next
  case (2 decode flush d buffer s cs)
  from "2.IH" [OF refl prod.collapse "2.prems"(1) find_sep_rest] show ?case
    using take_frames_append [of "buffer @ s" "decoded decode flush d cs"]
    by (simp add: parse_text_def case_prod_beta Let_def)
next
  case (3 decode flush d buffer b cs)
  from "3.IH" [OF refl prod.collapse refl prod.collapse "3.prems"(1) find_sep_rest] show ?case
    using take_frames_append [of "buffer @ fst (decode d b)" "decoded decode flush (snd (decode d b)) cs"]
    by (simp add: parse_text_def case_prod_beta Let_def)
qed

section \<open>What the server frames, the client reads\<close>

definition frame_ok :: "('v \<Rightarrow> string) \<Rightarrow> 'v sse_frame \<Rightarrow> bool" where
  "frame_ok stringify fr \<longleftrightarrow>
     (\<forall>e. fr_event fr = Some e \<longrightarrow> CR \<notin> set e \<and> NL \<notin> set e) \<and> (\<forall>i. fr_id fr = Some i \<longrightarrow> CR \<notin> set i \<and> NL \<notin> set i) \<and>
     CR \<notin> set (payload stringify fr)"

definition frame_event :: "('v \<Rightarrow> string) \<Rightarrow> 'v sse_frame \<Rightarrow> sse_event" where
  "frame_event stringify fr = \<lparr>s_event = fr_event fr, s_data = payload stringify fr, s_id = fr_id fr, s_retry = None\<rparr>"

definition line_ok :: "string \<Rightarrow> bool" where
  "line_ok l \<longleftrightarrow> l \<noteq> [] \<and> CR \<notin> set l \<and> NL \<notin> set l"

lemma find_sep_lines:
  "ls \<noteq> [] \<Longrightarrow> \<forall>l \<in> set ls. line_ok l \<Longrightarrow> find_sep (join_with [NL] ls @ NL # NL # t) = Some (length (join_with [NL] ls), 2)"
proof (induction ls)
  case (Cons l ls)
  have skip: "find_sep (u @ v) = map_option (\<lambda>(i, n). (length u + i, n)) (find_sep v)" if "\<forall>c \<in> set u. c \<noteq> CR \<and> c \<noteq> NL" for u v
    using that
  proof (induction u)
    case Nil
    show ?case by (cases "find_sep v") auto
  next
    case (Cons c u)
    then have "sep_len (c # u @ v) = 0" by (auto simp: sep_len_def)
    with Cons show ?case by (cases "find_sep v") auto
  qed
  have l: "\<forall>c \<in> set l. c \<noteq> CR \<and> c \<noteq> NL" using Cons.prems by (auto simp: line_ok_def)
  show ?case
  proof (cases ls)
    case Nil
    with skip [OF l, of "NL # NL # t"] show ?thesis by (simp add: sep_len_def)
  next
    case (Cons l' ls')
    then obtain c r where "join_with [NL] ls = c # r" "c \<noteq> NL" "c \<noteq> CR"
      using \<open>\<forall>l \<in> set (l # ls). line_ok l\<close> by (cases l'; cases ls') (auto simp: line_ok_def)
    then have "sep_len (NL # join_with [NL] ls @ NL # NL # t) = 0" by (simp add: sep_len_def)
    with Cons.IH Cons.prems Cons skip [OF l, of "NL # join_with [NL] ls @ NL # NL # t"] show ?thesis by (simp add: join_with_Cons)
  qed
qed simp

lemma split_lines_no_CR: "CR \<notin> set s \<Longrightarrow> split_lines s = split_on NL s"
  by (induction s) (auto split: list.splits)

lemma frame_lines_ok:
  assumes "frame_ok stringify fr"
  shows "frame_lines stringify fr \<noteq> []" "\<forall>l \<in> set (frame_lines stringify fr). line_ok l"
proof -
  show "frame_lines stringify fr \<noteq> []" by (simp add: frame_lines_def)
  have "line_ok ''event: ''" "line_ok ''id: ''" "line_ok ''data: ''" by code_simp+
  moreover have "line_ok (u @ e)" if "line_ok u" "CR \<notin> set e" "NL \<notin> set e" for u e using that by (simp add: line_ok_def)
  ultimately have pre: "line_ok (''event: '' @ e)" "line_ok (''id: '' @ e)" "line_ok (''data: '' @ e)" if "CR \<notin> set e" "NL \<notin> set e" for e
    using that by blast+
  have "CR \<notin> set l \<and> NL \<notin> set l" if "l \<in> set (split_on NL (payload stringify fr))" for l
  proof -
    have "set l \<subseteq> set (payload stringify fr)" using split_on_part [OF that] by auto
    with split_on_pieces [OF that] assms show ?thesis by (auto simp: frame_ok_def)
  qed
  with pre assms show "\<forall>l \<in> set (frame_lines stringify fr). line_ok l"
    unfolding frame_lines_def frame_ok_def by (fastforce split: option.splits)
qed

lemma parse_field_lines:
  "parse_line (''event: '' @ v) f = f\<lparr>f_event := Some v\<rparr>" "parse_line (''id: '' @ v) f = f\<lparr>f_id := Some v\<rparr>"
  "parse_line (''data: '' @ v) f = f\<lparr>f_data := f_data f @ [v]\<rparr>"
  by (simp_all add: parse_line_def Let_def numeral_eq_Suc)

lemma parse_data_lines: "fold parse_line (map (\<lambda>line. ''data: '' @ line) ls) f = f\<lparr>f_data := f_data f @ ls\<rparr>"
  by (induction ls arbitrary: f) (simp_all add: parse_field_lines [simplified])

lemma parse_frame_lines:
  assumes "frame_ok stringify fr"
  shows "parseFrame (join_with [NL] (frame_lines stringify fr)) = Some (frame_event stringify fr)"
proof -
  note ok = frame_lines_ok [OF assms]
  have "CR \<notin> set (join_with [NL] ls)" if "\<forall>l \<in> set ls. line_ok l" for ls
    using that by (induction "[NL]" ls rule: join_with.induct) (auto simp: line_ok_def)
  then have "split_lines (join_with [NL] (frame_lines stringify fr)) = split_on NL (join_with [NL] (frame_lines stringify fr))"
    using ok(2) by (intro split_lines_no_CR) blast
  also have "\<dots> = frame_lines stringify fr" by (rule split_on_join_with) (use ok in \<open>auto simp: line_ok_def\<close>)
  finally have l: "split_lines (join_with [NL] (frame_lines stringify fr)) = frame_lines stringify fr" .
  have "fold parse_line (frame_lines stringify fr) no_fields =
      \<lparr>f_data = split_on NL (payload stringify fr), f_event = fr_event fr, f_id = fr_id fr, f_retry = None\<rparr>"
    unfolding frame_lines_def fold_append o_apply parse_data_lines
    by (cases "fr_event fr"; cases "fr_id fr") (simp_all add: parse_field_lines [simplified] no_fields_def)
  then show ?thesis by (simp add: parseFrame_def l frame_event_def join_split_on)
qed

datatype 'v item = Frame "'v sse_frame" | Heartbeat

fun item_text :: "('v \<Rightarrow> string) \<Rightarrow> 'v item \<Rightarrow> string" where
  "item_text stringify (Frame fr) = encodeFrame stringify fr"
| "item_text stringify Heartbeat = PING"

fun item_events :: "('v \<Rightarrow> string) \<Rightarrow> 'v item \<Rightarrow> sse_event list" where
  "item_events stringify (Frame fr) = [frame_event stringify fr]"
| "item_events stringify Heartbeat = []"

lemma take_lines:
  assumes "ls \<noteq> []" "\<forall>l \<in> set ls. line_ok l"
  shows "take_frames (join_with [NL] ls @ NL # NL # t) =
    (to_list (parseFrame (join_with [NL] ls)) @ fst (take_frames t), snd (take_frames t))"
  by (subst take_frames.simps) (simp add: find_sep_lines [OF assms] case_prod_beta)

lemma ping_parse: "parseFrame '': ping'' = None"
  by (simp add: parseFrame_def parse_line_def no_fields_def CR_def NL_def)

lemma take_item:
  assumes "\<forall>fr. i = Frame fr \<longrightarrow> frame_ok stringify fr"
  shows "take_frames (item_text stringify i @ t) = (item_events stringify i @ fst (take_frames t), snd (take_frames t))"
proof (cases i)
  case (Frame fr)
  then have ok: "frame_ok stringify fr" using assms by blast
  from take_lines [OF frame_lines_ok [OF ok], of t] parse_frame_lines [OF ok] Frame show ?thesis
    by (simp add: encodeFrame_def to_list_def)
next
  case Heartbeat
  have "line_ok '': ping''" by code_simp
  with take_lines [of "['': ping'']" t] Heartbeat ping_parse show ?thesis by (simp add: PING_def to_list_def)
qed

lemma parse_items:
  "\<forall>fr. Frame fr \<in> set items \<longrightarrow> frame_ok stringify fr \<Longrightarrow>
   take_frames (concat (map (item_text stringify) items)) = (concat (map (item_events stringify) items), [])"
proof (induction items)
  case Nil
  show ?case by (subst take_frames.simps) simp
next
  case (Cons i items)
  then show ?case using take_item [of i stringify "concat (map (item_text stringify) items)"] by simp
qed

section \<open>Properties\<close>

text \<open>C38. For frames whose payload holds no carriage return and whose name and id hold neither a carriage return nor a
  line feed: however the bytes are cut into chunks, and wherever heartbeats fall between frames, the parser of the
  client yields the frames the server sent, names, ids and payloads, line feeds of a payload included. What the
  decoder flushes at the end of the bytes is to hold no line break. Without the condition on payloads the text after
  a carriage return is lost (\<open>carriage_return_lost\<close>).\<close>

theorem sse_round_trip:
  assumes "\<forall>d. \<forall>c \<in> set (flush d). c \<noteq> CR \<and> c \<noteq> NL" "\<forall>fr. Frame fr \<in> set items \<longrightarrow> frame_ok stringify fr"
    "decoded decode flush d cs = concat (map (item_text stringify) items)"
  shows "parseSSE decode flush d cs = concat (map (item_events stringify) items)"
  using parse_chunks_text [OF assms(1), of "[]" decode d cs] parse_items [OF assms(2)] assms(3)
  by (simp add: parseSSE_def parse_text_def trim_def trim_start_def)

text \<open>What the parser yields depends on the decoded text alone, not on where the chunks of it end.\<close>

theorem chunking_independent:
  assumes "\<forall>d. \<forall>c \<in> set (flush d). c \<noteq> CR \<and> c \<noteq> NL" "decoded decode flush d cs = decoded decode flush d' cs'"
  shows "parseSSE decode flush d cs = parseSSE decode flush d' cs'"
  using parse_chunks_text [OF assms(1), of "[]" decode d cs] parse_chunks_text [OF assms(1), of "[]" decode d' cs'] assms(2) by (simp add: parseSSE_def)

text \<open>Over any history the source's teardown is called exactly once by the time the stream is closed and not before,
  whoever closed it and even if the source closed it while starting; after that nothing is sent and no timer is left.\<close>

theorem teardown_once:
  "let st = foldl (stream_event_step stringify) (start_stream stringify script returns) es in
   torn st = (if closed st \<and> returns then 1 else 0) \<and> (closed st \<longrightarrow> \<not> heartbeat st \<and> stream_event_step stringify st e = st)"
proof -
  let ?st = "foldl (stream_event_step stringify) (start_stream stringify script returns) es"
  have inv: "stream_inv (if returns then 1 else 0) ?st" by (rule stream_steps_inv [OF stream_start_inv])
  have "has_teardown st' = returns" if "\<not> closed st'" "st' = foldl (stream_event_step stringify) (start_stream stringify script returns) es'" for st' es'
    using that
  proof (induction es' arbitrary: st' rule: rev_induct)
    case Nil
    then show ?case by (auto simp: start_stream_def Let_def split: if_splits)
  next
    case (snoc x es')
    let ?s = "foldl (stream_event_step stringify) (start_stream stringify script returns) es'"
    have "\<not> closed ?s" using snoc.prems closed_step [of ?s stringify x] by auto
    from snoc.IH [OF this refl] snoc.prems \<open>\<not> closed ?s\<close> show ?case
      by (cases x) (auto simp: send_frame_def end_stream_def cancel_stream_def beat_def split: if_splits)
  qed
  from this [of ?st es] inv closed_step [of ?st stringify e] show ?thesis by (auto simp: stream_inv_def Let_def split: if_splits)
qed

theorem teardown_once_witness:
  "let st = start_stream (\<lambda>v. v) [] True; st' = foldl (stream_event_step (\<lambda>v. v)) st [Close, Cancel] in
   torn st = 0 \<and> closed st' \<and> torn st' = 1 \<and> stream_event_step (\<lambda>v. v) st' (Beat True :: string stream_event) = st'"
  using teardown_once [of "\<lambda>v. v" "[]" True "[Close, Cancel]" "Beat True"]
  by (simp add: Let_def start_stream_def new_stream_def end_stream_def cancel_stream_def)

definition demo_items :: "string item list" where
  "demo_items = [Heartbeat, Frame \<lparr>fr_event = Some ''a'', fr_data = Inl [CHR ''x'', NL, CHR ''y''], fr_id = Some ''1''\<rparr>]"

text \<open>Cut within the separator of the heartbeat.\<close>

definition demo_chunks :: "string chunk list" where
  "demo_chunks = [Bytes ('': ping'' @ [NL]), Text ([NL] @ ''event: a'' @ [NL] @ ''id: 1'' @ [NL] @ ''da''),
     Bytes (''ta: x'' @ [NL] @ ''data: y'' @ [NL, NL])]"

theorem sse_round_trip_witness:
  "parseSSE (\<lambda>d b. (b, d)) (\<lambda>_. []) () demo_chunks =
     [\<lparr>s_event = Some ''a'', s_data = [CHR ''x'', NL, CHR ''y''], s_id = Some ''1'', s_retry = None\<rparr>]"
proof -
  have "decoded (\<lambda>d b. (b, d)) (\<lambda>_. []) () demo_chunks = concat (map (item_text id) demo_items)" by code_simp
  moreover have "\<forall>fr. Frame fr \<in> set demo_items \<longrightarrow> frame_ok id fr"
  proof -
    have "CR \<notin> set ''a1xy'' \<and> NL \<notin> set ''a1''" by code_simp
    then show ?thesis by (simp add: demo_items_def frame_ok_def payload_def)
  qed
  ultimately have "parseSSE (\<lambda>d b. (b, d)) (\<lambda>_. []) () demo_chunks = concat (map (item_events id) demo_items)"
    by (intro sse_round_trip) simp_all
  also have "\<dots> = [\<lparr>s_event = Some ''a'', s_data = [CHR ''x'', NL, CHR ''y''], s_id = Some ''1'', s_retry = None\<rparr>]" by code_simp
  finally show ?thesis .
qed

theorem chunking_independent_witness:
  "parseSSE (\<lambda>d b. (b, d)) (\<lambda>_. []) () demo_chunks = parseSSE (\<lambda>d b. (b, d)) (\<lambda>_. []) () [Text (concat (map (item_text id) demo_items))]"
proof (rule chunking_independent)
  show "decoded (\<lambda>d b. (b, d)) (\<lambda>_. []) () demo_chunks = decoded (\<lambda>d b. (b, d)) (\<lambda>_. []) () [Text (concat (map (item_text id) demo_items))]"
    by code_simp
qed simp

text \<open>A string payload is split at line feeds only, but read back at carriage returns too: what follows one is lost.\<close>

theorem carriage_return_lost:
  "parseSSE (\<lambda>d (b :: string). (b, d)) (\<lambda>_. []) ()
     [Text (encodeFrame id \<lparr>fr_event = None, fr_data = Inl [CHR ''x'', CR, CHR ''y''], fr_id = None\<rparr>)] =
     [\<lparr>s_event = None, s_data = ''x'', s_id = None, s_retry = None\<rparr>]"
  by code_simp

end
