(* ===== verification/Number64.thy ===== *)
theory Number64
  imports Prelude Complex_Main "HOL-Library.Log_Nat"
begin

text \<open>
  JavaScript numbers where the sources really compute with fractions: the calibration of the token
  estimator and the thresholds of the compaction ladder. A number is the rational a binary64 value
  denotes, and \<open>round64\<close> is the rounding to nearest, ties to even, that IEEE 754 applies to the exact
  result of every \<open>+ - * /\<close> and of a decimal literal: 53 significant bits. The range of the exponent is
  not bounded, so overflow to infinity and subnormal numbers are outside the model; the modelled values
  are ratios between one half and two and token counts below \<open>2 ^ 53\<close>.
\<close>

named_theorems num_simps \<open>exact cases of the binary64 rounding\<close>

section \<open>Definitions\<close>

text \<open>The exponent of the leading bit of a positive rational.\<close>

definition exponent :: "rat \<Rightarrow> int" where
  "exponent x =
     (let p = fst (quotient_of x); q = snd (quotient_of x); k = bitlen p - bitlen q
      in if 2 powi k \<le> x then k else k - 1)"

text \<open>Round to the nearest integer, ties to even.\<close>

definition nearest_even :: "rat \<Rightarrow> int" where
  "nearest_even x =
     (let n = \<lfloor>x\<rfloor>; d = x - of_int n
      in if d < 1 / 2 \<or> (d = 1 / 2 \<and> even n) then n else n + 1)"

text \<open>The value of the last place of the binary64 values around \<open>x\<close>.\<close>

definition ulp :: "rat \<Rightarrow> rat" where
  "ulp x = 2 powi (exponent \<bar>x\<bar> - 52)"

definition round64 :: "rat \<Rightarrow> rat" where
  "round64 x = (if x = 0 then 0 else of_int (nearest_even (x / ulp x)) * ulp x)"

text \<open>\<open>Math.ceil\<close> and \<open>Math.floor\<close> are exact on binary64 values.\<close>

definition is_num64 :: "rat \<Rightarrow> bool" where
  "is_num64 x \<longleftrightarrow> round64 x = x"

section \<open>Rounding to an integer\<close>

lemma nearest_even_of_int [simp]: "nearest_even (of_int n) = n"
  by (simp add: nearest_even_def)

lemma nearest_even_mono: assumes "x \<le> y" shows "nearest_even x \<le> nearest_even y"
proof -
  have f: "\<lfloor>x\<rfloor> \<le> \<lfloor>y\<rfloor>" using assms by (rule floor_mono)
  show ?thesis
  proof (cases "\<lfloor>x\<rfloor> = \<lfloor>y\<rfloor>")
    case True
    with assms show ?thesis by (auto simp: nearest_even_def Let_def)
  next
    case False
    with f have "\<lfloor>x\<rfloor> + 1 \<le> \<lfloor>y\<rfloor>" by simp
    then show ?thesis by (auto simp: nearest_even_def Let_def)
  qed
qed

lemma nearest_even_minus: "nearest_even (- x) = - nearest_even x"
proof (cases "x = of_int \<lfloor>x\<rfloor>")
  case True
  then obtain n :: int where "x = of_int n" by blast
  then show ?thesis by (metis nearest_even_of_int of_int_minus)
next
  case False
  then have fl: "\<lfloor>- x\<rfloor> = - \<lfloor>x\<rfloor> - 1"
    by (metis add.commute ceiling_altdef ceiling_def diff_conv_add_uminus minus_add_distrib minus_minus)
  show ?thesis unfolding nearest_even_def Let_def fl by (auto simp: field_simps)
qed

section \<open>The exponent\<close>

lemma bitlen_powi: assumes "0 < p" shows "2 powi (bitlen p - 1) \<le> (of_int p :: rat)" "(of_int p :: rat) < 2 powi bitlen p"
proof -
  have b: "2 ^ nat (bitlen p - 1) \<le> p \<and> p < 2 ^ nat (bitlen p)" using assms by (rule bitlen_bounds)
  have "0 < bitlen p" using assms bitlen_nonneg [of p] bitlen_eq_zero_iff [of p] by linarith
  then have e: "(2::rat) powi (bitlen p - 1) = of_int (2 ^ nat (bitlen p - 1))" "(2::rat) powi bitlen p = of_int (2 ^ nat (bitlen p))"
    by (simp_all add: power_int_def)
  show "2 powi (bitlen p - 1) \<le> (of_int p :: rat)" unfolding e using b by linarith
  show "(of_int p :: rat) < 2 powi bitlen p" unfolding e using b by linarith
qed

lemma exponent_bounds:
  assumes "0 < x" shows "2 powi exponent x \<le> x" "x < 2 powi (exponent x + 1)"
proof -
  obtain p q where pq: "quotient_of x = (p, q)" by fastforce
  have q: "0 < q" using pq by (rule quotient_of_denom_pos)
  have x: "x = of_int p / of_int q" using pq by (rule quotient_of_div)
  have p: "0 < p" using assms x q by (simp add: zero_less_divide_iff)
  let ?k = "bitlen p - bitlen q"
  have up: "x < 2 powi (?k + 1)"
  proof -
    have "of_int p < (2::rat) powi bitlen p" using p by (rule bitlen_powi)
    also have "\<dots> = 2 powi (?k + 1) * 2 powi (bitlen q - 1)" by (simp flip: power_int_add)
    also have "\<dots> \<le> 2 powi (?k + 1) * of_int q" using bitlen_powi(1) [OF q] by (intro mult_left_mono) simp_all
    finally show ?thesis using q by (simp add: x divide_less_eq)
  qed
  have low: "2 powi (?k - 1) \<le> x"
  proof -
    have "2 powi (?k - 1) * of_int q \<le> 2 powi (?k - 1) * (2 powi bitlen q :: rat)"
      using bitlen_powi(2) [OF q] by (intro mult_left_mono) simp_all
    also have "\<dots> = 2 powi (bitlen p - 1)" by (simp add: algebra_simps flip: power_int_add)
    also have "\<dots> \<le> of_int p" using p by (rule bitlen_powi)
    finally show ?thesis using q by (simp add: x le_divide_eq)
  qed
  show "2 powi exponent x \<le> x" using low by (simp add: exponent_def pq Let_def)
  show "x < 2 powi (exponent x + 1)" using up by (simp add: exponent_def pq Let_def)
qed

lemma exponent_mono: assumes "0 < x" "x \<le> y" shows "exponent x \<le> exponent y"
proof (rule ccontr)
  assume "\<not> exponent x \<le> exponent y"
  then have "(2::rat) powi (exponent y + 1) \<le> 2 powi exponent x" by (intro power_int_increasing) auto
  with exponent_bounds(1) [of x] exponent_bounds(2) [of y] assms show False by linarith
qed

lemma ulp_pos [simp]: "0 < ulp x"
  by (simp add: ulp_def)

lemma ulp_minus [simp]: "ulp (- x) = ulp x"
  by (simp add: ulp_def)

section \<open>The rounding\<close>

lemma round64_zero [simp]: "round64 0 = 0"
  by (simp add: round64_def)

lemma round64_minus: "round64 (- x) = - round64 x"
  by (simp add: round64_def nearest_even_minus)

text \<open>Within a binade the scaled value has its leading bit at position 52.\<close>

lemma scaled_bounds:
  assumes "0 < x" shows "2 ^ 52 \<le> x / ulp x" "x / ulp x < 2 ^ 53"
proof -
  have p: "(2::rat) powi exponent x = 2 ^ 52 * ulp x"
    using assms by (simp add: ulp_def power_int_diff)
  have "(2::rat) powi (exponent x + 1) = 2 ^ 53 * ulp x"
    using assms by (simp add: ulp_def power_int_diff power_int_add)
  with p exponent_bounds [OF assms] show "2 ^ 52 \<le> x / ulp x" "x / ulp x < 2 ^ 53"
    by (simp_all add: le_divide_eq divide_less_eq)
qed

lemma round64_bounds:
  assumes "0 < x" shows "2 powi exponent x \<le> round64 x" "round64 x \<le> 2 powi (exponent x + 1)"
proof -
  let ?s = "x / ulp x"
  have "nearest_even (of_int (2 ^ 52)) \<le> nearest_even ?s" "nearest_even ?s \<le> nearest_even (of_int (2 ^ 53))"
    using scaled_bounds [OF assms] by (auto intro!: nearest_even_mono simp del: nearest_even_of_int)
  then have n: "2 ^ 52 \<le> nearest_even ?s" "nearest_even ?s \<le> 2 ^ 53" by (simp_all only: nearest_even_of_int)
  then have "(2 ^ 52 :: rat) \<le> of_int (nearest_even ?s)" "of_int (nearest_even ?s) \<le> (2 ^ 53 :: rat)"
    by (metis of_int_le_iff of_int_numeral of_int_power)+
  then have "2 ^ 52 * ulp x \<le> round64 x" "round64 x \<le> 2 ^ 53 * ulp x"
    using assms by (simp_all add: round64_def)
  then show "2 powi exponent x \<le> round64 x" "round64 x \<le> 2 powi (exponent x + 1)"
    using assms by (simp_all add: ulp_def power_int_diff power_int_add)
qed

lemma round64_mono_pos: assumes "0 < x" "x \<le> y" shows "round64 x \<le> round64 y"
proof (cases "exponent x = exponent y")
  case True
  then have u: "ulp x = ulp y" using assms by (simp add: ulp_def)
  have "nearest_even (x / ulp x) \<le> nearest_even (y / ulp y)"
    using assms by (intro nearest_even_mono) (simp add: u divide_right_mono less_imp_le)
  then show ?thesis using assms by (simp add: round64_def u)
next
  case False
  then have "exponent x + 1 \<le> exponent y" using exponent_mono [OF assms] by simp
  then have "(2::rat) powi (exponent x + 1) \<le> 2 powi exponent y" by (intro power_int_increasing) auto
  with round64_bounds(2) [of x] round64_bounds(1) [of y] assms show ?thesis by linarith
qed

lemma round64_pos: "0 < x \<Longrightarrow> 0 < round64 x"
  using round64_bounds(1) [of x] by (meson less_le_trans zero_less_numeral zero_less_power_int)

lemma round64_nonneg: "0 \<le> x \<Longrightarrow> 0 \<le> round64 x"
  using round64_pos [of x] by (cases "x = 0") auto

theorem round64_mono: assumes "x \<le> y" shows "round64 x \<le> round64 y"
proof -
  consider "0 < x" | "x \<le> 0" "0 \<le> y" | "y < 0" using assms by linarith
  then show ?thesis
  proof cases
    case 1 then show ?thesis using assms by (rule round64_mono_pos)
  next
    case 2
    with round64_nonneg [of "- x"] round64_nonneg [of y] show ?thesis by (simp add: round64_minus)
  next
    case 3
    with round64_mono_pos [of "- y" "- x"] assms show ?thesis by (simp add: round64_minus)
  qed
qed

text \<open>A value with at most 53 significant bits is not changed.\<close>

lemma round64_exact:
  assumes "\<bar>m\<bar> \<le> 2 ^ 53" shows "round64 (of_int m * 2 powi e) = of_int m * 2 powi e"
proof -
  have pos: "round64 (of_int m * 2 powi e) = of_int m * 2 powi e" if m: "0 < m" "m \<le> 2 ^ 53" for m
  proof (cases "m = 2 ^ 53")
    case True
    then have x: "of_int m * 2 powi e = (2::rat) powi (e + 53)" by (simp add: power_int_add)
    let ?x = "(2::rat) powi (e + 53)"
    have k: "exponent ?x = e + 53"
    proof (rule antisym)
      have "(2::rat) powi exponent ?x \<le> 2 powi (e + 53)" by (rule exponent_bounds) simp
      then show "exponent ?x \<le> e + 53" by (metis linorder_not_le not_less one_less_numeral_iff power_int_strict_increasing semiring_norm(76))
      have "(2::rat) powi (e + 53) < 2 powi (exponent ?x + 1)" by (rule exponent_bounds) simp
      then have "e + 53 < exponent ?x + 1" by (metis linorder_not_le not_less one_le_numeral power_int_increasing)
      then show "e + 53 \<le> exponent ?x" by simp
    qed
    from round64_bounds(1) [of ?x] k have "?x \<le> round64 ?x" by simp
    have p52: "2 ^ 52 * 2 powi (e + 1) = (2::rat) powi (e + 53)" by (simp add: power_int_add)
    have u: "ulp ?x = 2 powi (e + 1)" using k by (simp add: ulp_def add.commute)
    have "?x / ulp ?x = of_int (2 ^ 52)" unfolding u by (simp add: power_int_add)
    then have "round64 ?x = of_int (nearest_even (of_int (2 ^ 52))) * ulp ?x" by (simp only: round64_def) simp
    also have "\<dots> = 2 ^ 52 * ulp ?x" by (simp only: nearest_even_of_int) simp
    also have "\<dots> = ?x" unfolding u using p52 by simp
    finally show ?thesis unfolding x .
  next
    case False
    let ?x = "(of_int m :: rat) * 2 powi e"
    have x0: "0 < ?x" using m by simp
    have "of_int m < (of_int (2 ^ 53) :: rat)" using m False by (simp only: of_int_less_iff)
    then have "?x < 2 ^ 53 * 2 powi e" by (intro mult_strict_right_mono) simp_all
    then have "?x < 2 powi (e + 53)" by (simp add: power_int_add mult.commute)
    moreover have "2 powi exponent ?x \<le> ?x" using x0 by (rule exponent_bounds)
    ultimately have "(2::rat) powi exponent ?x < 2 powi (e + 53)" by linarith
    then have "exponent ?x < e + 53" by (metis linorder_not_le not_less one_le_numeral power_int_increasing)
    moreover define k where "k = exponent ?x"
    ultimately have "e = k - 52 + int (nat (e - k + 52))" by simp
    then obtain j :: nat where j: "e = k - 52 + int j" ..
    have "(2::rat) powi e = 2 ^ j * 2 powi (k - 52)" unfolding j by (simp add: power_int_add)
    moreover have "ulp ?x = 2 powi (k - 52)" using x0 by (simp add: ulp_def k_def)
    ultimately have "?x = of_int m * 2 ^ j * ulp ?x" by simp
    then have "?x / ulp ?x = of_int (m * 2 ^ j)"
      by (metis less_irrefl nonzero_eq_divide_eq of_int_mult of_int_numeral of_int_power ulp_pos)
    then have "round64 ?x = of_int (m * 2 ^ j) * ulp ?x" using x0 by (simp add: round64_def del: of_int_mult)
    with \<open>?x / ulp ?x = of_int (m * 2 ^ j)\<close> show ?thesis by (metis nonzero_eq_divide_eq less_irrefl ulp_pos)
  qed
  consider "m = 0" | "0 < m" | "m < 0" by linarith
  then show ?thesis
  proof cases
    case 1 then show ?thesis by simp
  next
    case 2 with pos assms show ?thesis by simp
  next
    case 3
    with pos [of "- m"] assms have "round64 (- (of_int m * 2 powi e)) = - (of_int m * 2 powi e)" by simp
    then show ?thesis by (simp add: round64_minus)
  qed
qed

lemma round64_int: assumes "\<bar>n\<bar> \<le> 2 ^ 53" shows "round64 (of_int n) = of_int n"
  using round64_exact [OF assms, of 0] by simp

lemma round64_form: "\<exists>m e. \<bar>m\<bar> \<le> 2 ^ 53 \<and> round64 x = of_int m * 2 powi e"
proof -
  have pos: "\<exists>m e. \<bar>m\<bar> \<le> 2 ^ 53 \<and> round64 x = of_int m * 2 powi e" if "0 < x" for x
  proof (intro exI conjI)
    have "nearest_even 0 \<le> nearest_even (x / ulp x)" "nearest_even (x / ulp x) \<le> nearest_even (of_int (2 ^ 53))"
      using scaled_bounds [OF that] by (auto intro!: nearest_even_mono simp del: nearest_even_of_int)
    then show "\<bar>nearest_even (x / ulp x)\<bar> \<le> 2 ^ 53" using nearest_even_of_int [of 0] by (simp only: nearest_even_of_int of_int_0)
    show "round64 x = of_int (nearest_even (x / ulp x)) * 2 powi (exponent \<bar>x\<bar> - 52)"
      using that by (simp add: round64_def ulp_def)
  qed
  consider "x = 0" | "0 < x" | "x < 0" by linarith
  then show ?thesis
  proof cases
    case 1 then show ?thesis by (intro exI [of _ 0]) simp
  next
    case 2 then show ?thesis by (rule pos)
  next
    case 3
    then obtain m e where "\<bar>m\<bar> \<le> 2 ^ 53" "round64 (- x) = of_int m * 2 powi e" using pos [of "- x"] by auto
    then show ?thesis by (intro exI [of _ "- m"] exI [of _ e]) (simp add: round64_minus minus_equation_iff)
  qed
qed

text \<open>A binary64 value is a fixed point; the rounding of any value is one.\<close>

lemma round64_idem [num_simps]: "round64 (round64 x) = round64 x"
  using round64_form [of x] round64_exact by metis

text \<open>Taking an integer off a larger binary64 value is exact.\<close>

lemma round64_diff_exact:
  assumes c: "round64 c = c" and f: "0 \<le> f" "of_int f \<le> c" and small: "c < 2 ^ 53"
  shows "round64 (c - of_int f) = c - of_int f"
proof (cases "c \<le> 0")
  case True
  with f have "c = 0" "f = 0" by (auto simp: order_antisym_conv)
  then show ?thesis by simp
next
  case False
  then have c0: "0 < c" by simp
  have e: "exponent c \<le> 52"
  proof (rule ccontr)
    assume "\<not> exponent c \<le> 52"
    then have "(2::rat) powi 53 \<le> 2 powi exponent c" by (intro power_int_increasing) auto
    with exponent_bounds(1) [OF c0] small show False by simp
  qed
  let ?u = "2 powi (exponent c - 52) :: rat"
  let ?m = "nearest_even (c / ulp c)"
  obtain j :: nat where j: "exponent c - 52 = - int j" using e by (metis diff_le_0_iff_le int_minus minus_minus neg_0_le_iff_le nonneg_int_cases)
  have one: "(of_int f :: rat) = of_int (f * 2 ^ j) * ?u"
    unfolding j by (simp add: power_int_minus)
  have cm: "c = of_int ?m * ?u" using c c0 by (simp add: round64_def ulp_def)
  have d: "c - of_int f = of_int (?m - f * 2 ^ j) * ?u" using cm one by (simp add: algebra_simps)
  have up: "0 < ?u" by simp
  have "0 \<le> of_int (?m - f * 2 ^ j) * ?u" using f d by (metis diff_ge_0_iff_ge)
  then have lo: "0 \<le> ?m - f * 2 ^ j" using up by (metis linorder_not_le mult_neg_pos not_less of_int_less_0_iff)
  have "?m \<le> nearest_even (of_int (2 ^ 53))"
    using scaled_bounds [OF c0] by (intro nearest_even_mono) (simp add: less_imp_le)
  then have "?m \<le> 2 ^ 53" by (simp only: nearest_even_of_int)
  moreover have "0 \<le> f * 2 ^ j" using f by simp
  ultimately have "\<bar>?m - f * 2 ^ j\<bar> \<le> 2 ^ 53" using lo by linarith
  then show ?thesis unfolding d by (rule round64_exact)
qed

end
