(* ===== verification/Tokens.thy ===== *)
theory Tokens
  imports Trust Number64
begin

text \<open>
  The token estimator (\<open>context/tokens.ts\<close>), its calibration against what the endpoint charged and the
  pressure computed from it (\<open>context/budget.ts\<close>), and the walk that takes ranked entries while they fit
  (\<open>context/activate.ts\<close>). Token counts are integers; every other number is a binary64 value, so each
  arithmetic operation on one is followed by \<open>round64\<close>.
\<close>

section \<open>Estimation\<close>

definition CHARS_PER_TOKEN :: rat where "CHARS_PER_TOKEN = round64 (38 / 10)"
definition MESSAGE_OVERHEAD_TOKENS :: int where "MESSAGE_OVERHEAD_TOKENS = 4"

definition newlines :: "string \<Rightarrow> int" where
  "newlines text = int (length (filter (\<lambda>c. c = NL) text))"

definition estimateTokens :: "string \<Rightarrow> int" where
  "estimateTokens text =
     (if text = [] then 0 else \<lceil>round64 (of_nat (length text) / CHARS_PER_TOKEN)\<rceil> + newlines text)"

definition estimateMessageTokens :: "string \<Rightarrow> int" where
  "estimateMessageTokens content = estimateTokens content + MESSAGE_OVERHEAD_TOKENS"

section \<open>Calibration\<close>

record calibration =
  ratio :: rat
  samples :: nat

definition UNCALIBRATED :: calibration where
  "UNCALIBRATED = \<lparr>ratio = 1, samples = 0\<rparr>"

definition RATIO_MIN :: rat where "RATIO_MIN = 1 / 2"
definition RATIO_MAX :: rat where "RATIO_MAX = 2"
definition EMA_ALPHA :: rat where "EMA_ALPHA = round64 (6 / 10)"

definition comparableEstimate :: "int \<Rightarrow> int \<Rightarrow> int" where
  "comparableEstimate assembledTotal wireTokens = assembledTotal + wireTokens"

record observation =
  estimated :: int
  reported :: int

definition combine :: "calibration \<Rightarrow> rat \<Rightarrow> calibration" where
  "combine current r =
     (if samples current = 0 then \<lparr>ratio = r, samples = 1\<rparr>
      else \<lparr>ratio = round64 (round64 (r * EMA_ALPHA) + round64 (ratio current * round64 (1 - EMA_ALPHA))),
            samples = samples current + 1\<rparr>)"

definition observe :: "calibration \<Rightarrow> observation \<Rightarrow> calibration" where
  "observe current sample =
     (if estimated sample \<le> 0 \<or> reported sample \<le> 0 then current
      else (let r = round64 (of_int (reported sample) / of_int (estimated sample))
            in if r < RATIO_MIN \<or> r > RATIO_MAX then current else combine current r))"

definition corrected :: "calibration \<Rightarrow> int \<Rightarrow> int" where
  "corrected c est = (if samples c = 0 then est else \<lceil>round64 (of_int est * ratio c)\<rceil>)"

datatype pressure_source = Reported | Corrected | Estimated

record pressure =
  p_tokens :: int
  p_budget :: int
  fraction :: rat
  p_source :: pressure_source

definition promptBudget :: "int \<Rightarrow> int \<Rightarrow> int" where
  "promptBudget window reserveOutput = max 1 (window - reserveOutput)"

definition pressureOf :: "int \<Rightarrow> int \<Rightarrow> pressure_source \<Rightarrow> pressure" where
  "pressureOf tokens budget source =
     \<lparr>p_tokens = tokens, p_budget = budget,
      fraction = (if budget \<le> 0 then 0 else round64 (of_int tokens / of_int budget)), p_source = source\<rparr>"

definition projectedPressure :: "int \<Rightarrow> int \<Rightarrow> int \<Rightarrow> calibration \<Rightarrow> pressure" where
  "projectedPressure est window reserveOutput c =
     pressureOf (corrected c est) (promptBudget window reserveOutput)
       (if samples c = 0 then Estimated else Corrected)"

definition measuredPressure :: "int \<Rightarrow> int \<Rightarrow> int \<Rightarrow> pressure" where
  "measuredPressure rep window reserveOutput = pressureOf rep (promptBudget window reserveOutput) Reported"

definition observationBudget :: "int option \<Rightarrow> int \<Rightarrow> int" where
  "observationBudget configured window =
     (case configured of Some n \<Rightarrow> n
      | None \<Rightarrow> min 32000 (max 2000 \<lfloor>round64 (of_int window * (1 / 4))\<rfloor>))"

section \<open>Activation\<close>

text \<open>\<open>limits.maxActive\<close> and the optional \<open>limits.budget\<close>; \<open>tokens\<close> reads the cost of an entry.\<close>

fun activate_loop :: "('a \<Rightarrow> int) \<Rightarrow> int \<Rightarrow> int option \<Rightarrow> 'a list \<Rightarrow> int \<Rightarrow> 'a list \<Rightarrow> 'a list" where
  "activate_loop tokens maxActive budget active spent [] = active"
| "activate_loop tokens maxActive budget active spent (entry # rest) =
     (if int (length active) \<ge> maxActive then active
      else if (case budget of None \<Rightarrow> False | Some b \<Rightarrow> spent + tokens entry > b) then active
      else activate_loop tokens maxActive budget (active @ [entry]) (spent + tokens entry) rest)"

definition activate :: "('a \<Rightarrow> int) \<Rightarrow> int \<Rightarrow> int option \<Rightarrow> 'a list \<Rightarrow> 'a list" where
  "activate tokens maxActive budget ranked =
     (if maxActive \<le> 0 then [] else activate_loop tokens maxActive budget [] 0 ranked)"

section \<open>The estimate is exact\<close>

lemma round64_3_8: "CHARS_PER_TOKEN = 4278419646001971 / 2 ^ 50"
  unfolding CHARS_PER_TOKEN_def by code_simp

definition tokens_of_length :: "int \<Rightarrow> int" where
  "tokens_of_length n = - ((- 5 * n) div 19)"

text \<open>\<open>3.8\<close> is not a binary64 value and the divisor used is a little smaller; no length up to \<open>2 ^ 40\<close> notices.\<close>

lemma ceiling_multiple:
  assumes "0 < k" "k < 2 ^ 45" defines "x \<equiv> (of_int k :: rat) * 2 ^ 50 * 19 / (19 * 2 ^ 50 - 1)"
  shows "round64 x = of_int k"
proof -
  have x: "of_int k \<le> x" "0 < x" using assms(1) by (simp_all add: x_def field_simps)
  let ?e = "exponent x"
  have up: "x < 2 powi (?e + 1)" and low: "2 powi ?e \<le> x" using exponent_bounds x by blast+
  have "(of_int k :: rat) < of_int (2 ^ 45)" using assms(2) by (simp only: of_int_less_iff)
  then have "x < 2 powi 52" by (simp add: x_def field_simps)
  with low have "(2::rat) powi ?e < 2 powi 52" by linarith
  then have "?e < 52" by (metis linorder_not_le not_less one_le_numeral power_int_increasing)
  then obtain j :: nat where j: "?e = 52 - int j" by (metis diff_diff_eq2 add_diff_cancel_left' less_imp_le nonneg_int_cases diff_ge_0_iff_ge)
  have u: "ulp x = 1 / 2 ^ j" using x j by (simp add: ulp_def power_int_minus divide_inverse)
  have k53: "(of_int k :: rat) * 2 ^ j < 2 ^ 53"
  proof -
    have "(of_int k :: rat) < 2 powi (53 - int j)" using x up j by simp
    then show ?thesis by (simp add: power_int_diff field_simps)
  qed
  have s: "x / ulp x = of_int (k * 2 ^ j) + of_int (k * 2 ^ j) / (19 * 2 ^ 50 - 1)"
    unfolding u by (simp add: x_def field_simps)
  have d0: "0 \<le> (of_int (k * 2 ^ j) :: rat) / (19 * 2 ^ 50 - 1)" using assms(1) by simp
  have d1: "(of_int (k * 2 ^ j) :: rat) / (19 * 2 ^ 50 - 1) < 1 / 2" using k53 by simp
  from d0 d1 have "\<lfloor>x / ulp x\<rfloor> = k * 2 ^ j" unfolding s by linarith
  with d1 have "nearest_even (x / ulp x) = k * 2 ^ j" unfolding nearest_even_def Let_def by (simp add: s)
  with x u show ?thesis by (simp add: round64_def)
qed

lemma ceiling_exact:
  assumes "0 < n" "n < 2 ^ 40" shows "\<lceil>round64 (of_int n / CHARS_PER_TOKEN)\<rceil> = tokens_of_length n"
proof -
  let ?x = "(of_int n :: rat) / CHARS_PER_TOKEN"
  define q r where "q = (5 * n) div 19" and "r = (5 * n) mod 19"
  have n: "5 * n = 19 * q + r" "0 \<le> r" "r < 19" by (simp_all add: q_def r_def)
  have x: "?x = of_int (5 * n) * 2 ^ 50 / (19 * 2 ^ 50 - 1)" unfolding round64_3_8 by simp
  show ?thesis
  proof (cases "r = 0")
    case True
    with n have n19: "5 * n = 19 * q" by simp
    have "?x = of_int q * 2 ^ 50 * 19 / (19 * 2 ^ 50 - 1)" unfolding x n19 by simp
    moreover have "0 < q" "q < 2 ^ 45" using n19 assms by simp_all
    ultimately have "round64 ?x = of_int q" using ceiling_multiple by metis
    moreover have "tokens_of_length n = q" unfolding tokens_of_length_def using n19 by simp
    ultimately show ?thesis by simp
  next
    case False
    with n have r: "1 \<le> r" "r \<le> 18" by simp_all
    have q: "0 \<le> q" "q < 2 ^ 45" using n assms r by simp_all
    have "(of_int (64 * q + 1) :: rat) * 2 powi (- 6) \<le> ?x"
    proof -
      have "19 * (64 * q + 1) \<le> 64 * (5 * n)" unfolding n(1) using r by (simp add: algebra_simps)
      then have "(of_int (19 * (64 * q + 1)) :: rat) \<le> of_int (64 * (5 * n))" by (simp only: of_int_le_iff)
      moreover have "0 \<le> (of_int n :: rat)" using assms by simp
      ultimately show ?thesis unfolding x by (simp add: power_int_minus field_simps)
    qed
    then have "round64 (of_int (64 * q + 1) * 2 powi (- 6)) \<le> round64 ?x" by (rule round64_mono)
    moreover have "round64 (of_int (64 * q + 1) * 2 powi (- 6)) = (of_int (64 * q + 1) * 2 powi (- 6) :: rat)"
      using q by (intro round64_exact) simp
    ultimately have low: "of_int (64 * q + 1) * 2 powi (- 6) \<le> round64 ?x" by simp
    have "?x \<le> of_int (q + 1)"
    proof -
      have "(5 * n) * 2 ^ 50 \<le> (q + 1) * (19 * 2 ^ 50 - 1)" using n r q by simp
      then have "(of_int ((5 * n) * 2 ^ 50) :: rat) \<le> of_int ((q + 1) * (19 * 2 ^ 50 - 1))" by (simp only: of_int_le_iff)
      then show ?thesis unfolding x by (simp add: field_simps)
    qed
    then have "round64 ?x \<le> round64 (of_int (q + 1))" by (rule round64_mono)
    moreover have "round64 (of_int (q + 1)) = (of_int (q + 1) :: rat)" using q by (intro round64_int) simp
    ultimately have up: "round64 ?x \<le> of_int (q + 1)" by simp
    have "of_int q < round64 ?x" using low by (simp add: power_int_minus field_simps)
    with up have "\<lceil>round64 ?x\<rceil> = q + 1" by (simp add: ceiling_unique)
    moreover have "tokens_of_length n = q + 1"
    proof -
      have "- 5 * n = 19 * (- q - 1) + (19 - r)" using n by simp
      then have "(- 5 * n) div 19 = - q - 1" by (rule int_div_pos_eq) (use r in simp_all)
      then show ?thesis by (simp add: tokens_of_length_def)
    qed
    ultimately show ?thesis by simp
  qed
qed

lemma tokens_of_length_pos: "0 < n \<Longrightarrow> 0 < tokens_of_length n"
  by (simp add: tokens_of_length_def)

lemma newlines_nonneg: "0 \<le> newlines text"
  by (simp add: newlines_def)

text \<open>What the division in binary64 computes is the exact ceiling, for every text up to a terabyte.\<close>

theorem estimate_exact:
  assumes "length text < 2 ^ 40"
  shows "estimateTokens text = tokens_of_length (int (length text)) + newlines text"
proof (cases "text = []")
  case True
  then show ?thesis by (simp add: estimateTokens_def tokens_of_length_def newlines_def)
next
  case False
  have "int (length text) < 2 ^ 40" using assms by (metis of_nat_less_iff of_nat_numeral of_nat_power)
  with False ceiling_exact [of "int (length text)"] show ?thesis by (simp add: estimateTokens_def)
qed

lemma estimateTokens_code [code]:
  "estimateTokens text =
     (let n = int (length text) in
      if n < 1099511627776 then tokens_of_length n + newlines text
      else if text = [] then 0 else \<lceil>round64 (of_nat (length text) / CHARS_PER_TOKEN)\<rceil> + newlines text)"
proof (cases "length text < 2 ^ 40")
  case True
  then show ?thesis using estimate_exact [OF True] by (simp add: Let_def)
next
  case False
  then show ?thesis by (simp add: estimateTokens_def Let_def)
qed

theorem estimate_exact_witness:
  "estimateTokens ''four words of prose'' = 5"
  using estimate_exact [of "''four words of prose''"] by (simp add: tokens_of_length_def newlines_def NL_def char_of_def)

lemma estimate_nonneg: "0 \<le> estimateTokens text"
proof -
  have "0 \<le> (of_nat (length text) :: rat) / CHARS_PER_TOKEN" by (simp add: round64_3_8)
  then have "0 \<le> round64 (of_nat (length text) / CHARS_PER_TOKEN)" by (rule round64_nonneg)
  then show ?thesis using newlines_nonneg [of "text"] by (simp add: estimateTokens_def)
qed

lemma message_tokens_pos: "0 < estimateMessageTokens text"
  using estimate_nonneg [of "text"] by (simp add: estimateMessageTokens_def MESSAGE_OVERHEAD_TOKENS_def)

section \<open>Calibration stays in its band\<close>

definition calibration_ok :: "calibration \<Rightarrow> bool" where
  "calibration_ok c \<longleftrightarrow> (if samples c = 0 then ratio c = 1 else RATIO_MIN \<le> ratio c \<and> ratio c \<le> RATIO_MAX)"

lemma ema_weights:
  "round64 (1 / 2 * EMA_ALPHA) = 1 / 2 * EMA_ALPHA" "round64 (2 * EMA_ALPHA) = 2 * EMA_ALPHA"
  "round64 (1 / 2 * round64 (1 - EMA_ALPHA)) = 1 / 2 * (1 - EMA_ALPHA)"
  "round64 (2 * round64 (1 - EMA_ALPHA)) = 2 * (1 - EMA_ALPHA)"
  "0 < EMA_ALPHA" "0 < round64 (1 - EMA_ALPHA)"
  unfolding EMA_ALPHA_def by code_simp+

lemma round64_half_two: "round64 (1 / 2) = 1 / 2" "round64 2 = 2"
  by code_simp+

lemma combine_band:
  assumes "1 / 2 \<le> r" "r \<le> 2" "1 / 2 \<le> c" "c \<le> 2"
  defines "w \<equiv> round64 (round64 (r * EMA_ALPHA) + round64 (c * round64 (1 - EMA_ALPHA)))"
  shows "1 / 2 \<le> w" "w \<le> 2"
proof -
  note pos = ema_weights(5,6)
  have "round64 (1 / 2 * EMA_ALPHA) \<le> round64 (r * EMA_ALPHA)" "round64 (r * EMA_ALPHA) \<le> round64 (2 * EMA_ALPHA)"
    using assms pos by (auto intro!: round64_mono mult_right_mono)
  then have a: "1 / 2 * EMA_ALPHA \<le> round64 (r * EMA_ALPHA)" "round64 (r * EMA_ALPHA) \<le> 2 * EMA_ALPHA"
    by (simp_all only: ema_weights)
  have "round64 (1 / 2 * round64 (1 - EMA_ALPHA)) \<le> round64 (c * round64 (1 - EMA_ALPHA))"
    "round64 (c * round64 (1 - EMA_ALPHA)) \<le> round64 (2 * round64 (1 - EMA_ALPHA))"
    using assms pos by (auto intro!: round64_mono mult_right_mono)
  then have b: "1 / 2 * (1 - EMA_ALPHA) \<le> round64 (c * round64 (1 - EMA_ALPHA))"
    "round64 (c * round64 (1 - EMA_ALPHA)) \<le> 2 * (1 - EMA_ALPHA)"
    by (simp_all only: ema_weights)
  from a b have "1 / 2 \<le> round64 (r * EMA_ALPHA) + round64 (c * round64 (1 - EMA_ALPHA))"
    "round64 (r * EMA_ALPHA) + round64 (c * round64 (1 - EMA_ALPHA)) \<le> 2" by (simp_all add: algebra_simps)
  then have "round64 (1 / 2) \<le> w" "w \<le> round64 2" unfolding w_def by (auto intro: round64_mono)
  then show "1 / 2 \<le> w" "w \<le> 2" by (simp_all only: round64_half_two)
qed

lemma observe_ok: "calibration_ok c \<Longrightarrow> calibration_ok (observe c s)"
  using combine_band [of "round64 (of_int (reported s) / of_int (estimated s))" "ratio c"]
  by (auto simp: calibration_ok_def observe_def combine_def Let_def RATIO_MIN_def RATIO_MAX_def not_le)

text \<open>The observations that teach something.\<close>

definition plausible :: "observation \<Rightarrow> bool" where
  "plausible s \<longleftrightarrow> 0 < estimated s \<and> 0 < reported s \<and>
     RATIO_MIN \<le> round64 (of_int (reported s) / of_int (estimated s)) \<and>
     round64 (of_int (reported s) / of_int (estimated s)) \<le> RATIO_MAX"

lemma observe_plausible: "\<not> plausible s \<Longrightarrow> observe c s = c"
  by (auto simp: plausible_def observe_def Let_def not_less not_le)

lemma observe_samples: "samples (observe c s) = samples c + (if plausible s then 1 else 0)"
  by (auto simp: plausible_def observe_def Let_def combine_def not_less not_le)

text \<open>Whatever the endpoint reports, in any order, the learned ratio stays between one half and two in binary64
  arithmetic, and the sample count is the number of plausible observations; the implausible ones change nothing.\<close>

theorem calibration_band:
  "calibration_ok (foldl observe UNCALIBRATED ss) \<and>
   samples (foldl observe UNCALIBRATED ss) = length (filter plausible ss) \<and>
   foldl observe UNCALIBRATED ss = foldl observe UNCALIBRATED (filter plausible ss)"
proof -
  have ok: "calibration_ok c \<Longrightarrow> calibration_ok (foldl observe c ss)" for c
    by (induction ss arbitrary: c) (simp_all add: observe_ok)
  have n: "samples (foldl observe c ss) = samples c + length (filter plausible ss)" for c
    by (induction ss arbitrary: c) (simp_all add: observe_samples)
  have f: "foldl observe c ss = foldl observe c (filter plausible ss)" for c
    by (induction ss arbitrary: c) (simp_all add: observe_plausible)
  show ?thesis
  proof (intro conjI)
    show "calibration_ok (foldl observe UNCALIBRATED ss)" by (rule ok) (simp add: calibration_ok_def UNCALIBRATED_def)
    show "samples (foldl observe UNCALIBRATED ss) = length (filter plausible ss)"
      unfolding n by (simp add: UNCALIBRATED_def)
  qed (rule f)
qed

text \<open>So the correction is never off by more than a factor of two.\<close>

theorem corrected_bounds:
  assumes "calibration_ok c" "0 \<le> est" "est \<le> 2 ^ 52"
  shows "est \<le> 2 * corrected c est \<and> corrected c est \<le> 2 * est"
proof (cases "samples c = 0")
  case True
  with assms show ?thesis by (simp add: corrected_def)
next
  case False
  with assms(1) have r: "1 / 2 \<le> ratio c" "ratio c \<le> 2" by (simp_all add: calibration_ok_def RATIO_MIN_def RATIO_MAX_def)
  have e: "0 \<le> (of_int est :: rat)" using assms by simp
  have "of_int est * (1 / 2) \<le> of_int est * ratio c" "of_int est * ratio c \<le> of_int est * 2"
    using mult_left_mono [OF r(1) e] mult_left_mono [OF r(2) e] by simp_all
  then have "round64 (of_int est * 2 powi - 1) \<le> round64 (of_int est * ratio c)"
    "round64 (of_int est * ratio c) \<le> round64 (of_int (est * 2))"
    by (auto intro!: round64_mono simp: power_int_minus)
  moreover have "round64 (of_int est * 2 powi - 1) = (of_int est * 2 powi - 1 :: rat)" using assms by (intro round64_exact) simp
  moreover have "round64 (of_int (est * 2)) = (of_int (est * 2) :: rat)" using assms by (intro round64_int) simp
  ultimately have "of_int est / 2 \<le> round64 (of_int est * ratio c)" "round64 (of_int est * ratio c) \<le> of_int (est * 2)"
    by (simp_all add: power_int_minus)
  with False show ?thesis by (simp add: corrected_def) linarith
qed

section \<open>Budgets\<close>

lemma promptBudget_pos: "1 \<le> promptBudget window reserveOutput"
  by (simp add: promptBudget_def)

text \<open>The default ceiling of one observation: a quarter of the window, between 2,000 and 32,000.\<close>

theorem observation_budget:
  assumes "\<bar>window\<bar> \<le> 2 ^ 53"
  shows "observationBudget None window = min 32000 (max 2000 (window div 4))"
proof -
  have p: "(2::rat) powi - 2 = 1 / 4" by (simp add: power_int_minus)
  have "round64 (of_int window * 2 powi - 2) = (of_int window * 2 powi - 2 :: rat)" using assms by (rule round64_exact)
  then have "round64 (of_int window * (1 / 4)) = (of_int window * (1 / 4) :: rat)" unfolding p .
  moreover have "\<lfloor>of_int window / 4 :: rat\<rfloor> = window div 4" using floor_divide_of_int_eq [of window 4, where 'a = rat] by simp
  ultimately show ?thesis by (simp only: observationBudget_def option.case) simp
qed

section \<open>Activation takes the longest prefix that fits\<close>

definition fits :: "('a \<Rightarrow> int) \<Rightarrow> int \<Rightarrow> int option \<Rightarrow> 'a list \<Rightarrow> bool" where
  "fits tokens maxActive budget xs \<longleftrightarrow>
     int (length xs) \<le> maxActive \<and> (case budget of None \<Rightarrow> True | Some b \<Rightarrow> xs = [] \<or> sum_list (map tokens xs) \<le> b)"

lemma activate_loop_prefix:
  "\<exists>n \<le> length ranked. activate_loop tokens maxActive budget active spent ranked = active @ take n ranked \<and>
     (0 < n \<longrightarrow> int (length active + n) \<le> maxActive \<and>
        (case budget of None \<Rightarrow> True | Some b \<Rightarrow> spent + sum_list (map tokens (take n ranked)) \<le> b)) \<and>
     (n < length ranked \<longrightarrow> int (length active + n) \<ge> maxActive \<or>
        (case budget of None \<Rightarrow> False | Some b \<Rightarrow> spent + sum_list (map tokens (take (Suc n) ranked)) > b))"
proof (induction tokens maxActive budget active spent ranked rule: activate_loop.induct)
  case (1 tokens maxActive budget active spent)
  then show ?case by simp
next
  case (2 tokens maxActive budget active spent entry rest)
  show ?case
  proof (cases "int (length active) \<ge> maxActive \<or> (case budget of None \<Rightarrow> False | Some b \<Rightarrow> spent + tokens entry > b)")
    case True
    then show ?thesis by (intro exI [of _ 0]) (auto split: option.splits)
  next
    case False
    with 2 obtain n where n: "n \<le> length rest"
      "activate_loop tokens maxActive budget (active @ [entry]) (spent + tokens entry) rest = (active @ [entry]) @ take n rest"
      "0 < n \<longrightarrow> int (length (active @ [entry]) + n) \<le> maxActive \<and>
        (case budget of None \<Rightarrow> True | Some b \<Rightarrow> spent + tokens entry + sum_list (map tokens (take n rest)) \<le> b)"
      "n < length rest \<longrightarrow> int (length (active @ [entry]) + n) \<ge> maxActive \<or>
        (case budget of None \<Rightarrow> False | Some b \<Rightarrow> spent + tokens entry + sum_list (map tokens (take (Suc n) rest)) > b)"
      by auto
    from False have s: "activate_loop tokens maxActive budget active spent (entry # rest) =
        activate_loop tokens maxActive budget (active @ [entry]) (spent + tokens entry) rest" by auto
    show ?thesis unfolding s using n False
      by (intro exI [of _ "Suc n"]) (cases n; auto simp: add.assoc split: option.splits)
  qed
qed

text \<open>The activated entries are a prefix of the ranking that respects both limits, and the next entry was left out only
  because the count was reached or it would have passed the budget: nothing is skipped over.\<close>

theorem activate_longest_prefix:
  "\<exists>n \<le> length ranked. activate tokens maxActive budget ranked = take n ranked \<and>
     fits tokens (max 0 maxActive) budget (take n ranked) \<and>
     (n < length ranked \<longrightarrow> int n \<ge> maxActive \<or>
        (\<exists>b. budget = Some b \<and> sum_list (map tokens (take (Suc n) ranked)) > b))"
proof (cases "maxActive \<le> 0")
  case True
  then show ?thesis by (intro exI [of _ 0]) (auto simp: activate_def fits_def split: option.splits)
next
  case False
  with activate_loop_prefix [of ranked tokens maxActive budget "[]" 0] show ?thesis
    by (auto simp: activate_def fits_def split: option.splits)
qed

end
