(* ===== verification/Ids.thy ===== *)
theory Ids
  imports Prelude "HOL-Library.Word"
begin

text \<open>
  Identities derived from content (\<open>ids.ts\<close>): the 32-bit FNV-1a hash as a word, JavaScript's
  \<open>toString(radix)\<close> and \<open>padStart\<close>, and the id built from them.
\<close>

unbundle bit_operations_syntax

definition digit_char :: "nat \<Rightarrow> char" where
  "digit_char d = char_of (if d < 10 then 48 + d else 87 + d)"

text \<open>\<open>n.toString(radix)\<close> of a natural number, radix 2 to 36.\<close>

function radix_str :: "nat \<Rightarrow> nat \<Rightarrow> string" where
  "radix_str r n =
     (if n < r \<or> r < 2 then [digit_char n] else radix_str r (n div r) @ [digit_char (n mod r)])"
  by pat_completeness auto
termination
  by (relation "measure snd") (auto intro: div_less_dividend)

declare radix_str.simps [simp del]

definition pad_start :: "nat \<Rightarrow> char \<Rightarrow> string \<Rightarrow> string" where
  "pad_start n c s = replicate (n - length s) c @ s"

definition fnv_step :: "32 word \<Rightarrow> char \<Rightarrow> 32 word" where
  "fnv_step h c = (h XOR of_nat (char_code c)) * 0x01000193"

definition fnv_hash :: "string \<Rightarrow> 32 word" where
  "fnv_hash s = foldl fnv_step 0x811c9dc5 s"

definition fnv1a :: "string \<Rightarrow> string" where
  "fnv1a s = pad_start 8 (CHR ''0'') (radix_str 16 (unat (fnv_hash s)))"

definition derivedId :: "string \<Rightarrow> string \<Rightarrow> string" where
  "derivedId pre s = pre @ ''_'' @ radix_str 36 (length s) @ ''_'' @ fnv1a s"

section \<open>Reading a radix string back\<close>

definition char_digit :: "char \<Rightarrow> nat" where
  "char_digit c = (if char_code c < 58 then char_code c - 48 else char_code c - 87)"

definition radix_val :: "nat \<Rightarrow> string \<Rightarrow> nat" where
  "radix_val r s = foldl (\<lambda>n c. r * n + char_digit c) 0 s"

lemma char_digit_char: "d < 36 \<Longrightarrow> char_digit (digit_char d) = d"
  by (simp add: char_digit_def digit_char_def of_char_of)

lemma radix_round_trip: "2 \<le> r \<Longrightarrow> r \<le> 36 \<Longrightarrow> radix_val r (radix_str r n) = n"
proof (induction r n rule: radix_str.induct)
  case (1 r n)
  show ?case
  proof (cases "n < r")
    case True
    with 1 show ?thesis by (simp add: radix_str.simps [of r n] radix_val_def char_digit_char)
  next
    case False
    with 1 have ih: "radix_val r (radix_str r (n div r)) = n div r" by simp
    have "n mod r < 36" using 1(2,3) by (meson less_le_trans mod_less_divisor zero_less_numeral less_le_trans)
    with 1 False ih show ?thesis by (simp add: radix_str.simps [of r n] radix_val_def char_digit_char)
  qed
qed

lemma length_radix: "2 \<le> r \<Longrightarrow> n < r ^ k \<Longrightarrow> 0 < k \<Longrightarrow> length (radix_str r n) \<le> k"
proof (induction r n arbitrary: k rule: radix_str.induct)
  case (1 r n)
  show ?case
  proof (cases "n < r")
    case True
    with 1 show ?thesis by (simp add: radix_str.simps [of r n])
  next
    case False
    with 1 obtain k' where k: "k = Suc k'" "0 < k'" by (cases k; cases "k - 1") auto
    with 1 have "n div r < r ^ k'" by (simp add: div_less_iff_less_mult mult.commute)
    with 1 False k show ?thesis by (simp add: radix_str.simps [of r n])
  qed
qed

lemma length_fnv1a: "length (fnv1a s) = 8"
proof -
  have "unat (fnv_hash s) < 2 ^ LENGTH(32)" by (rule unsigned_less)
  then have "unat (fnv_hash s) < 16 ^ 8" by simp
  then have "length (radix_str 16 (unat (fnv_hash s))) \<le> 8" by (intro length_radix) simp_all
  then show ?thesis by (simp add: fnv1a_def pad_start_def)
qed

definition id_char :: "char \<Rightarrow> bool" where
  "id_char c \<longleftrightarrow> is_digit c \<or> is_lower c"

lemma id_char_digit: "d < 36 \<Longrightarrow> id_char (digit_char d)"
  by (simp add: id_char_def is_digit_def is_lower_def digit_char_def of_char_of)

lemma radix_chars: "2 \<le> r \<Longrightarrow> r \<le> 36 \<Longrightarrow> list_all id_char (radix_str r n)"
proof (induction r n rule: radix_str.induct)
  case (1 r n)
  have "n mod r < 36" using 1(2,3) by (meson less_le_trans mod_less_divisor zero_less_numeral)
  with 1 show ?case by (cases "n < r") (simp_all add: radix_str.simps [of r n] id_char_digit)
qed

lemma fnv_chars: "list_all id_char (fnv1a s)"
  using radix_chars [of 16 "unat (fnv_hash s)"]
  by (auto simp: fnv1a_def pad_start_def list_all_iff id_char_def is_digit_def)

lemma radix_val_zeros: "radix_val r (replicate k (CHR ''0'') @ s) = radix_val r s"
  by (induction k) (simp_all add: radix_val_def char_digit_def)

lemma fnv_val: "radix_val 16 (fnv1a s) = unat (fnv_hash s)"
  by (simp add: fnv1a_def pad_start_def radix_val_zeros radix_round_trip)

lemma underscore_split:
  assumes "list_all id_char a" "list_all id_char b" "a @ ''_'' @ x = b @ ''_'' @ y"
  shows "a = b \<and> x = y"
proof -
  have "takeWhile id_char (a @ ''_'' @ x) = a" "takeWhile id_char (b @ ''_'' @ y) = b"
    using assms(1,2) by (simp_all add: list_all_iff id_char_def is_digit_def is_lower_def)
  with assms(3) show ?thesis by auto
qed

text \<open>Two texts share an id under one prefix exactly when they have the same length and the same hash, and
  every character after the prefix is a digit, a lower-case letter or the separator.\<close>

theorem derived_id_collision:
  "(derivedId p a = derivedId p b \<longleftrightarrow> length a = length b \<and> fnv_hash a = fnv_hash b) \<and>
   list_all (\<lambda>c. id_char c \<or> c = CHR ''_'') (drop (length p) (derivedId p a))"
proof
  have r: "list_all id_char (radix_str 36 n)" for n by (rule radix_chars) simp_all
  show "derivedId p a = derivedId p b \<longleftrightarrow> length a = length b \<and> fnv_hash a = fnv_hash b"
  proof
    assume "derivedId p a = derivedId p b"
    then have "radix_str 36 (length a) @ ''_'' @ fnv1a a = radix_str 36 (length b) @ ''_'' @ fnv1a b"
      by (simp add: derivedId_def)
    then have eq: "radix_str 36 (length a) = radix_str 36 (length b)" "fnv1a a = fnv1a b"
      using underscore_split [OF r r] by blast+
    have "length a = length b"
      using arg_cong [OF eq(1), of "radix_val 36"] by (simp add: radix_round_trip)
    moreover have "fnv_hash a = fnv_hash b"
      using arg_cong [OF eq(2), of "radix_val 16"] by (simp add: fnv_val word_unat_eq_iff)
    ultimately show "length a = length b \<and> fnv_hash a = fnv_hash b" ..
  next
    assume "length a = length b \<and> fnv_hash a = fnv_hash b"
    then show "derivedId p a = derivedId p b" by (simp add: derivedId_def fnv1a_def)
  qed
  show "list_all (\<lambda>c. id_char c \<or> c = CHR ''_'') (drop (length p) (derivedId p a))"
    using r [of "length a"] fnv_chars [of a] by (auto simp: derivedId_def list_all_iff)
qed

end
