(* ===== verification/Compaction.thy ===== *)
theory Compaction
  imports Tokens Ids
begin

text \<open>
  The five stages of context compaction (\<open>context/compaction/stages.ts\<close>) as functions on the history.

  A JavaScript \<open>Map\<close> keyed by message index is an association list in insertion order. The horizontal
  ellipsis and the em dash of the markers lie outside the modelled range of code units; \<open>ELLIPSIS\<close> and
  \<open>EM_DASH\<close> stand for them, one unit each. Histories are lists, so the index guards
  \<open>message === undefined\<close> of the source never fire. Fields of a message that no modelled function reads or writes
  (\<open>tainted\<close>, \<open>thinking\<close>) are left out.
\<close>

definition ELLIPSIS :: char where "ELLIPSIS = char_of (133 :: nat)"
definition EM_DASH :: char where "EM_DASH = char_of (151 :: nat)"

section \<open>Messages\<close>

datatype msg_role = System | User | Assistant | Tool
datatype msg_origin = Observation | Call | Repair | Digest

record tool_call_request =
  tc_id :: string
  tc_name :: string
  tc_arguments :: string

record message =
  m_role :: msg_role
  m_content :: string
  m_calls :: "tool_call_request list option"
  m_call_id :: "string option"
  m_origin :: "msg_origin option"
  m_breakpoint :: bool
  m_turn_input :: bool
  m_images :: "string list"

definition plain_message :: "msg_role \<Rightarrow> string \<Rightarrow> message" where
  "plain_message r c = \<lparr>m_role = r, m_content = c, m_calls = None, m_call_id = None, m_origin = None,
     m_breakpoint = False, m_turn_input = False, m_images = []\<rparr>"

text \<open>\<open>JSON.stringify\<close> of a string and of the calls of a message.\<close>

definition json_char :: "char \<Rightarrow> string" where
  "json_char c =
     (let n = char_code c in
      if c = CHR 0x22 then [CHR 0x5C, CHR 0x22] else if c = CHR 0x5C then [CHR 0x5C, CHR 0x5C]
      else if n = 8 then [CHR 0x5C, CHR ''b''] else if n = 9 then [CHR 0x5C, CHR ''t'']
      else if n = 10 then [CHR 0x5C, CHR ''n''] else if n = 12 then [CHR 0x5C, CHR ''f'']
      else if n = 13 then [CHR 0x5C, CHR ''r'']
      else if n < 32 then CHR 0x5C # CHR ''u'' # pad_start 4 (CHR ''0'') (radix_str 16 n)
      else [c])"

definition json_string :: "string \<Rightarrow> string" where
  "json_string s = CHR 0x22 # concat (map json_char s) @ [CHR 0x22]"

definition json_field :: "string \<Rightarrow> string \<Rightarrow> string" where
  "json_field k v = json_string k @ '':'' @ json_string v"

definition json_call :: "tool_call_request \<Rightarrow> string" where
  "json_call t = ''{'' @ join_with '','' [json_field ''id'' (tc_id t), json_field ''name'' (tc_name t),
     json_field ''arguments'' (tc_arguments t)] @ ''}''"

definition json_calls :: "tool_call_request list \<Rightarrow> string" where
  "json_calls ts = ''['' @ join_with '','' (map json_call ts) @ '']''"

section \<open>Cost, kind and displaced content\<close>

definition calls_cost :: "message \<Rightarrow> int" where
  "calls_cost m = (case m_calls m of None \<Rightarrow> 0 | Some ts \<Rightarrow> if ts = [] then 0 else estimateTokens (json_calls ts))"

definition cost :: "message \<Rightarrow> int" where
  "cost m = estimateMessageTokens (m_content m) + calls_cost m"

definition historyTokens :: "message list \<Rightarrow> int" where
  "historyTokens history = foldl (\<lambda>sum m. sum + cost m) 0 history"

definition isObservation :: "message \<Rightarrow> bool" where
  "isObservation m \<longleftrightarrow> m_origin m = Some Observation \<or> m_role m = Tool"

definition isTurnStart :: "message \<Rightarrow> bool" where
  "isTurnStart m \<longleftrightarrow> m_role m = User \<and> \<not> isObservation m"

text \<open>\<open>/^OBSERVATION ([^\s\<^bold>-]+)/\<close>, the dash being the em dash.\<close>

definition slugOf :: "message \<Rightarrow> string option" where
  "slugOf m =
     (if starts_with ''OBSERVATION '' (m_content m)
      then (let slug = takeWhile (\<lambda>c. \<not> is_space c \<and> c \<noteq> EM_DASH) (drop 12 (m_content m))
            in if slug = [] then None else Some slug)
      else None)"

record displaced =
  d_id :: string
  d_slug :: "string option"
  d_content :: string
  d_tokens :: int

type_synonym displaced_map = "(nat \<times> displaced) list"

text \<open>\<open>Map.set\<close>: an existing key keeps its place.\<close>

fun map_set :: "'k \<Rightarrow> 'v \<Rightarrow> ('k \<times> 'v) list \<Rightarrow> ('k \<times> 'v) list" where
  "map_set k v [] = [(k, v)]"
| "map_set k v ((k', v') # kvs) = (if k = k' then (k, v) # kvs else (k', v') # map_set k v kvs)"

definition artifactId :: "string \<Rightarrow> trust \<Rightarrow> string" where
  "artifactId content t = derivedId (artifactPrefix t) content"

definition displacedId :: "string \<Rightarrow> string" where
  "displacedId content = artifactId content (if holdsUntrusted content then Untrusted else Trusted)"

definition displacementFor :: "displaced_map \<Rightarrow> nat \<Rightarrow> message \<Rightarrow> int \<Rightarrow> displaced" where
  "displacementFor known i m tokens =
     (case map_of known i of Some d \<Rightarrow> d
      | None \<Rightarrow> \<lparr>d_id = displacedId (m_content m), d_slug = slugOf m, d_content = m_content m, d_tokens = tokens\<rparr>)"

record stage_input =
  si_history :: "message list"
  si_target :: int
  si_tail :: int
  si_displaced :: displaced_map

record outcome =
  o_messages :: "message list"
  o_displaced :: displaced_map
  o_tokens :: int
  o_changed :: bool

definition unchanged :: "stage_input \<Rightarrow> outcome" where
  "unchanged si = \<lparr>o_messages = si_history si, o_displaced = si_displaced si,
     o_tokens = historyTokens (si_history si), o_changed = False\<rparr>"

definition tailStart :: "stage_input \<Rightarrow> nat" where
  "tailStart si = nat (max 0 (int (length (si_history si)) - max 0 (si_tail si)))"

section \<open>Trim\<close>

definition TRIM_HEADER :: string where
  "TRIM_HEADER = ''Earlier requests, verbatim. The replies and tool output between them were dropped to fit the ''
     @ ''context window and cannot be retrieved.''"

definition digestMessage :: "string \<Rightarrow> message" where
  "digestMessage t = (plain_message User t)\<lparr>m_origin := Some Digest\<rparr>"

definition droppable :: "message \<Rightarrow> bool" where
  "droppable m \<longleftrightarrow> \<not> isTurnStart m \<and> m_origin m \<noteq> Some Digest"

text \<open>The removal loop over the droppable indices.\<close>

fun trim_loop :: "message list \<Rightarrow> int \<Rightarrow> nat list \<Rightarrow> int \<Rightarrow> nat list \<Rightarrow> nat list" where
  "trim_loop history target removed tokens [] = removed"
| "trim_loop history target removed tokens (i # is) =
     (if tokens \<le> target then removed
      else trim_loop history target (removed @ [i]) (tokens - cost (history ! i)) is)"

text \<open>The rebuilding loop, from index \<open>i\<close> with the messages pushed so far.\<close>

fun rebuild :: "nat list \<Rightarrow> displaced_map \<Rightarrow> nat \<Rightarrow> message list \<Rightarrow> message list \<Rightarrow> displaced_map \<Rightarrow>
    message list \<times> displaced_map" where
  "rebuild removed known i [] msgs disp = (msgs, disp)"
| "rebuild removed known i (m # ms) msgs disp =
     (if i \<in> set removed then rebuild removed known (Suc i) ms msgs disp
      else rebuild removed known (Suc i) ms (msgs @ [m])
             (case map_of known i of Some d \<Rightarrow> map_set (length msgs) d disp | None \<Rightarrow> disp))"

definition trim_stage :: "stage_input \<Rightarrow> outcome" where
  "trim_stage si =
     (let history = si_history si;
          candidates = filter (\<lambda>i. droppable (history ! i)) [0..<tailStart si]
      in if candidates = [] then unchanged si
         else
           (let header = digestMessage TRIM_HEADER;
                removed = trim_loop history (si_target si) [] (historyTokens history + cost header) candidates
            in if removed = [] then unchanged si
               else
                 (let (msgs, disp) = rebuild removed (si_displaced si) 0 history [header] []
                  in \<lparr>o_messages = msgs, o_displaced = disp, o_tokens = historyTokens msgs, o_changed = True\<rparr>)))"

section \<open>Snip and micro\<close>

definition SNIP_KEEP_TOKENS :: int where "SNIP_KEEP_TOKENS = 400"
definition SNIP_HEAD_SHARE :: rat where "SNIP_HEAD_SHARE = round64 (2 / 3)"
definition SNIP_FLOOR_TOKENS :: int where "SNIP_FLOOR_TOKENS = 200"

text \<open>How many lines, from the front of a list, fit a budget.\<close>

fun fit_lines :: "int \<Rightarrow> int \<Rightarrow> string list \<Rightarrow> nat" where
  "fit_lines budget tokens [] = 0"
| "fit_lines budget tokens (l # ls) =
     (if tokens + estimateTokens l > budget then 0 else Suc (fit_lines budget (tokens + estimateTokens l) ls))"

definition cut_marker :: "nat \<Rightarrow> string \<Rightarrow> string" where
  "cut_marker removed ident =
     [ELLIPSIS] @ '' '' @ nat_str removed @ '' line'' @ (if removed = 1 then '''' else ''s'') @ '' cut by compaction '' @ [EM_DASH] @
     '' the whole observation is still readable with artifact_read('' @ [CHR 0x22] @ ident @ [CHR 0x22] @ '') '' @ [ELLIPSIS]"

definition cutMiddle :: "string \<Rightarrow> string \<Rightarrow> string" where
  "cutMiddle content ident =
     (let lines = split_on NL content;
          headBudget = \<lfloor>round64 (of_int SNIP_KEEP_TOKENS * SNIP_HEAD_SHARE)\<rfloor>;
          tailBudget = SNIP_KEEP_TOKENS - headBudget;
          head = fit_lines headBudget 0 lines;
          tail = fit_lines tailBudget 0 (rev (drop head lines));
          removed = length lines - head - tail
      in if removed \<le> 0 then content
         else join_with [NL] (take head lines @ [cut_marker removed ident] @ drop (length lines - tail) lines))"

text \<open>
  The loop of \<open>snip\<close> and \<open>micro\<close> over the compactable messages while the target is not met; \<open>body\<close> is what
  each does to one message, \<open>None\<close> for its \<open>continue\<close>s.
\<close>

definition displace_at :: "nat \<Rightarrow> displaced \<Rightarrow> string \<Rightarrow> outcome \<Rightarrow> outcome" where
  "displace_at i entry c st =
     (let m = o_messages st ! i; m' = m\<lparr>m_content := c\<rparr>
      in \<lparr>o_messages = (o_messages st)[i := m'], o_displaced = map_set i entry (o_displaced st),
          o_tokens = o_tokens st - (cost m - cost m'), o_changed = True\<rparr>)"

function pass :: "(displaced_map \<Rightarrow> nat \<Rightarrow> message \<Rightarrow> (displaced \<times> string) option) \<Rightarrow> nat \<Rightarrow> int \<Rightarrow> nat \<Rightarrow> outcome \<Rightarrow> outcome" where
  "pass body limit target i st =
     (if i < limit \<and> o_tokens st > target
      then pass body limit target (Suc i)
             (case body (o_displaced st) i (o_messages st ! i) of
                None \<Rightarrow> st
              | Some (entry, c) \<Rightarrow> displace_at i entry c st)
      else st)"
  by pat_completeness auto
termination
  by (relation "measure (\<lambda>(b, limit, t, i, st). limit - i)") auto

declare pass.simps [simp del]

definition run_pass :: "(displaced_map \<Rightarrow> nat \<Rightarrow> message \<Rightarrow> (displaced \<times> string) option) \<Rightarrow> stage_input \<Rightarrow> outcome" where
  "run_pass body si =
     (let out = pass body (tailStart si) (si_target si) 0 (unchanged si)
      in if o_changed out then out else unchanged si)"

definition snip_body :: "displaced_map \<Rightarrow> nat \<Rightarrow> message \<Rightarrow> (displaced \<times> string) option" where
  "snip_body known i m =
     (if \<not> isObservation m then None
      else (let before = cost m in
            if before \<le> SNIP_FLOOR_TOKENS then None
            else (let entry = displacementFor known i m before;
                      cut = cutMiddle (m_content m) (d_id entry)
                  in if cut = m_content m then None else Some (entry, cut))))"

definition snip :: "stage_input \<Rightarrow> outcome" where
  "snip = run_pass snip_body"

definition pointer :: "displaced \<Rightarrow> string" where
  "pointer d =
     (let what = (case d_slug d of None \<Rightarrow> ''observation'' | Some s \<Rightarrow> s @ '' observation'')
      in ''[compacted '' @ what @ '', '' @ nat_str (nat (d_tokens d)) @ '' tokens '' @ [EM_DASH] @
         '' read it in full with artifact_read('' @ [CHR 0x22] @ d_id d @ [CHR 0x22] @ '')]'')"

definition micro_body :: "displaced_map \<Rightarrow> nat \<Rightarrow> message \<Rightarrow> (displaced \<times> string) option" where
  "micro_body known i m =
     (if \<not> isObservation m then None
      else (let before = cost m;
                entry = displacementFor known i m before;
                replaced = pointer entry
            in if estimateMessageTokens replaced \<ge> before then None else Some (entry, replaced)))"

definition micro :: "stage_input \<Rightarrow> outcome" where
  "micro = run_pass micro_body"

section \<open>Collapse and reset\<close>

definition COLLAPSE_KEEP_TURNS :: nat where "COLLAPSE_KEEP_TURNS = 2"

text \<open>\<open>[...new Set(xs)]\<close>.\<close>

definition first_uniq :: "'a list \<Rightarrow> 'a list" where
  "first_uniq xs = rev (remdups (rev xs))"

text \<open>\<open>s.replace(/\s+/g, " ")\<close>.\<close>

fun squeeze :: "string \<Rightarrow> string" where
  "squeeze [] = []"
| "squeeze (c # s) =
     (if is_space c then (case s of d # r \<Rightarrow> if is_space d then squeeze s else CHR '' '' # squeeze s | [] \<Rightarrow> '' '')
      else c # squeeze s)"

definition plural :: "nat \<Rightarrow> string" where
  "plural n = (if n = 1 then '''' else ''s'')"

definition mechanicalDigest :: "message list \<Rightarrow> string" where
  "mechanicalDigest ms =
     (let people = length (filter isTurnStart ms);
          obs = filter isObservation ms;
          slugs = first_uniq (map the (filter (\<lambda>s. s \<noteq> None) (map slugOf obs)))
      in join_with [NL]
           ([''Earlier in this conversation: '' @ nat_str people @ '' message'' @ plural people @ '' from the person and '' @
             nat_str (length obs) @ '' tool result'' @ plural (length obs) @ ''.''] @
            (if slugs = [] then [] else [''Tools used: '' @ join_with '', '' slugs @ ''.'']) @
            (case find isTurnStart ms of None \<Rightarrow> [] | Some m \<Rightarrow> [''It opened with: '' @ squeeze (take 200 (m_content m))]) @
            [''That detail was dropped to stay inside the context window. Ask the person rather than guessing at anything it covered.'']))"

definition DIGEST_SPINE_HEADER :: string where
  "DIGEST_SPINE_HEADER = ''Earlier requests, verbatim. What happened in response is summarised above.''"

definition requestSpine :: "message list \<Rightarrow> nat \<Rightarrow> string \<Rightarrow> message list" where
  "requestSpine history until header =
     (let requests = filter isTurnStart (take until history)
      in if requests = [] then [] else digestMessage header # requests)"

definition digested :: "stage_input \<Rightarrow> string \<Rightarrow> nat \<Rightarrow> outcome" where
  "digested si digest n =
     (let msgs = digestMessage digest # requestSpine (si_history si) n DIGEST_SPINE_HEADER @ drop n (si_history si);
          tokens = historyTokens msgs
      in if tokens \<ge> historyTokens (si_history si) then unchanged si
         else \<lparr>o_messages = msgs, o_displaced = [], o_tokens = tokens, o_changed = True\<rparr>)"

definition collapse :: "stage_input \<Rightarrow> string \<Rightarrow> outcome" where
  "collapse si digest =
     (let boundaries = filter (\<lambda>i. isTurnStart (si_history si ! i)) [0..<tailStart si]
      in if length boundaries \<le> COLLAPSE_KEEP_TURNS then unchanged si
         else digested si digest (boundaries ! (length boundaries - COLLAPSE_KEEP_TURNS)))"

definition reset :: "stage_input \<Rightarrow> string \<Rightarrow> outcome" where
  "reset si digest =
     (if tailStart si = 0 then unchanged si else digested si digest (tailStart si))"

section \<open>Sums over histories\<close>

lemma historyTokens_sum: "historyTokens h = sum_list (map cost h)"
proof -
  have "foldl (\<lambda>sum m. sum + cost m) n h = n + sum_list (map cost h)" for n
    by (induction h arbitrary: n) (simp_all add: add.assoc)
  then show ?thesis by (simp add: historyTokens_def)
qed

lemma historyTokens_simps [simp]:
  "historyTokens [] = 0" "historyTokens (m # h) = cost m + historyTokens h"
  "historyTokens (h @ h') = historyTokens h + historyTokens h'"
  by (simp_all add: historyTokens_sum)

lemma calls_cost_nonneg: "0 \<le> calls_cost m"
  by (simp add: calls_cost_def estimate_nonneg split: option.split)

lemma cost_pos: "0 < cost m"
  using message_tokens_pos [of "m_content m"] calls_cost_nonneg [of m] by (simp add: cost_def)

lemma historyTokens_update:
  "i < length h \<Longrightarrow> historyTokens (h[i := m]) = historyTokens h - cost (h ! i) + cost m"
  by (induction h arbitrary: i) (auto split: nat.split simp: nth_Cons')

lemma sum_nths: "sum_list (map f (nths xs A)) = (\<Sum>i<length xs. if i \<in> A then f (xs ! i) else (0::int))"
proof (induction xs arbitrary: A)
  case Nil
  then show ?case by simp
next
  case (Cons x xs)
  have "(\<Sum>i<length (x # xs). if i \<in> A then f ((x # xs) ! i) else 0) =
      (if 0 \<in> A then f x else 0) + (\<Sum>i<length xs. if Suc i \<in> A then f (xs ! i) else 0)"
    by (simp add: sum.lessThan_Suc_shift del: sum.lessThan_Suc cong: if_cong)
  with Cons.IH [of "{j. Suc j \<in> A}"] show ?case by (simp add: nths_Cons)
qed

lemma filter_nths:
  "(\<And>i. i < length xs \<Longrightarrow> i \<notin> A \<Longrightarrow> \<not> P (xs ! i)) \<Longrightarrow> filter P (nths xs A) = filter P xs"
proof (induction xs arbitrary: A)
  case Nil
  then show ?case by simp
next
  case (Cons x xs)
  have "filter P (nths xs {j. Suc j \<in> A}) = filter P xs" using Cons.prems by (intro Cons.IH) force
  with Cons.prems [of 0] show ?case by (auto simp: nths_Cons)
qed

lemma nths_cong: "(\<And>i. i < length xs \<Longrightarrow> i \<in> A \<longleftrightarrow> i \<in> B) \<Longrightarrow> nths xs A = nths xs B"
  unfolding nths_def by (intro arg_cong [where f = "map fst"] filter_cong) (auto simp: set_zip)

lemma nths_suffix:
  assumes "\<And>i. n \<le> i \<Longrightarrow> i < length xs \<Longrightarrow> i \<in> A" shows "\<exists>pre. nths xs A = pre @ drop n xs"
proof (cases "n \<le> length xs")
  case True
  have "nths xs A = nths (take n xs) A @ nths (drop n xs) {j. j + length (take n xs) \<in> A}"
    by (metis append_take_drop_id nths_append)
  moreover have "nths (drop n xs) {j. j + length (take n xs) \<in> A} = drop n xs"
    using assms True by (intro nths_all) auto
  ultimately show ?thesis by simp
qed auto

section \<open>What every stage keeps\<close>

text \<open>The person's own messages: turn starts that the runtime did not write as a digest or its header.\<close>

definition said :: "message list \<Rightarrow> message list" where
  "said h = filter (\<lambda>m. isTurnStart m \<and> m_origin m \<noteq> Some Digest) h"

lemma said_append [simp]: "said (a @ b) = said a @ said b"
  by (simp add: said_def)

lemma said_digest [simp]: "said (digestMessage t # h) = said h"
  by (simp add: said_def digestMessage_def)

lemma said_turn_starts: "said (filter isTurnStart h) = said h"
  by (simp add: said_def)

text \<open>A stage is sound on its input when its token figure is the cost of its messages, the protected tail is unaltered at the
  end of them, and every message of the person is still there, in order.\<close>

definition stage_sound :: "stage_input \<Rightarrow> outcome \<Rightarrow> bool" where
  "stage_sound si out \<longleftrightarrow>
     o_tokens out = historyTokens (o_messages out) \<and>
     (\<exists>pre. o_messages out = pre @ drop (tailStart si) (si_history si)) \<and>
     said (o_messages out) = said (si_history si) \<and>
     (\<not> o_changed out \<longrightarrow> o_messages out = si_history si \<and> o_displaced out = si_displaced si)"

lemma unchanged_simps [simp]:
  "o_messages (unchanged si) = si_history si" "o_displaced (unchanged si) = si_displaced si"
  "o_tokens (unchanged si) = historyTokens (si_history si)" "\<not> o_changed (unchanged si)"
  by (simp_all add: unchanged_def)

lemma unchanged_sound [simp]: "stage_sound si (unchanged si)"
  unfolding stage_sound_def by (auto intro: exI [of _ "take (tailStart si) (si_history si)"])

lemma tailStart_le: "tailStart si \<le> length (si_history si)"
  by (simp add: tailStart_def)

subsection \<open>The pass of snip and micro\<close>

lemma displace_at_simps [simp]:
  "o_messages (displace_at i d c st) = (o_messages st)[i := (o_messages st ! i)\<lparr>m_content := c\<rparr>]"
  "o_displaced (displace_at i d c st) = map_set i d (o_displaced st)"
  "o_tokens (displace_at i d c st) = o_tokens st - (cost (o_messages st ! i) - cost ((o_messages st ! i)\<lparr>m_content := c\<rparr>))"
  "o_changed (displace_at i d c st)"
  by (simp_all add: displace_at_def Let_def)

lemma map_of_map_update [simp]: "map_of (map_set k v kvs) j = (if j = k then Some v else map_of kvs j)"
  by (induction kvs rule: map_set.induct) auto

lemma pass_go:
  "i < limit \<and> o_tokens st > target \<Longrightarrow> pass body limit target i st =
     pass body limit target (Suc i)
       (case body (o_displaced st) i (o_messages st ! i) of None \<Rightarrow> st | Some (d, c) \<Rightarrow> displace_at i d c st)"
  by (subst pass.simps) (rule if_P)

lemma pass_stop: "\<not> (i < limit \<and> o_tokens st > target) \<Longrightarrow> pass body limit target i st = st"
  by (subst pass.simps) (rule if_not_P)

lemma pass_skip:
  "body (o_displaced st) i (o_messages st ! i) = None \<Longrightarrow> pass body limit target i st = pass body limit target (Suc i) st"
  by (cases "i < limit \<and> o_tokens st > target") (simp_all add: pass_go pass_stop)

lemma pass_hit:
  "i < limit \<Longrightarrow> o_tokens st > target \<Longrightarrow> body (o_displaced st) i (o_messages st ! i) = Some (d, c) \<Longrightarrow>
   pass body limit target i st = pass body limit target (Suc i) (displace_at i d c st)"
  by (simp add: pass_go)

lemma pass_rule:
  assumes step: "\<And>i st. P i st \<Longrightarrow> i < limit \<Longrightarrow> o_tokens st > target \<Longrightarrow>
      P (Suc i) (case body (o_displaced st) i (o_messages st ! i) of None \<Rightarrow> st | Some (d, c) \<Rightarrow> displace_at i d c st)"
    and start: "P i st"
  shows "\<exists>j. P j (pass body limit target i st) \<and> (limit \<le> j \<or> o_tokens (pass body limit target i st) \<le> target)"
  using start
proof (induction "limit - i" arbitrary: i st rule: less_induct)
  case less
  show ?case
  proof (cases "i < limit \<and> o_tokens st > target")
    case True
    then have "limit - Suc i < limit - i" by auto
    from less(1) [OF this step [OF less(2)]] True show ?thesis by (simp only: pass_go)
  next
    case False
    with less(2) show ?thesis by (intro exI [of _ i]) (auto simp: pass_stop)
  qed
qed

text \<open>A body is faithful when it touches observations only.\<close>

definition kept_shape :: "message \<Rightarrow> message \<Rightarrow> bool" where
  "kept_shape m m' \<longleftrightarrow> m' = m \<or> isObservation m \<and> (\<exists>c. m' = m\<lparr>m_content := c\<rparr>)"

lemma isObservation_content [simp]: "isObservation (m\<lparr>m_content := c\<rparr>) = isObservation m"
  by (simp add: isObservation_def)

lemma isTurnStart_content [simp]: "isTurnStart (m\<lparr>m_content := c\<rparr>) = isTurnStart m"
  by (simp add: isTurnStart_def)

lemma said_kept: "list_all2 kept_shape h h' \<Longrightarrow> said h' = said h"
  by (induction h h' rule: list_all2_induct) (auto simp: said_def kept_shape_def isTurnStart_def)

definition observations_only :: "(displaced_map \<Rightarrow> nat \<Rightarrow> message \<Rightarrow> (displaced \<times> string) option) \<Rightarrow> bool" where
  "observations_only body \<longleftrightarrow> (\<forall>disp i m r. body disp i m = Some r \<longrightarrow> isObservation m)"

lemma snip_observations [simp]: "observations_only snip_body"
  by (auto simp: observations_only_def snip_body_def)

lemma micro_observations [simp]: "observations_only micro_body"
  by (auto simp: observations_only_def micro_body_def)

lemma list_all2_update_right:
  "list_all2 P xs ys \<Longrightarrow> i < length ys \<Longrightarrow> P (xs ! i) y \<Longrightarrow> list_all2 P xs (ys[i := y])"
  by (simp add: list_all2_conv_all_nth nth_list_update)

lemma run_pass_sound:
  assumes "observations_only body" shows "stage_sound si (run_pass body si)"
proof -
  let ?h = "si_history si" and ?n = "tailStart si"
  define P where "P = (\<lambda>(i::nat) (st::outcome). list_all2 kept_shape ?h (o_messages st) \<and> drop ?n (o_messages st) = drop ?n ?h \<and>
    o_tokens st = historyTokens (o_messages st))"
  have "P (Suc i) (case body (o_displaced st) i (o_messages st ! i) of None \<Rightarrow> st | Some (d, c) \<Rightarrow> displace_at i d c st)"
    if "P i st" "i < ?n" for i and st :: outcome
  proof (cases "body (o_displaced st) i (o_messages st ! i)")
    case None
    with that show ?thesis by (simp add: P_def)
  next
    case (Some r)
    then obtain d c where r: "body (o_displaced st) i (o_messages st ! i) = Some (d, c)" by (cases r) auto
    then have obs: "isObservation (o_messages st ! i)" using assms unfolding observations_only_def by blast
    have all: "list_all2 kept_shape ?h (o_messages st)" using that by (simp add: P_def)
    have len: "i < length (o_messages st)" using that tailStart_le [of si] list_all2_lengthD [OF all] by simp
    have "kept_shape (?h ! i) (o_messages st ! i)" using all len by (simp add: list_all2_conv_all_nth)
    then have "kept_shape (?h ! i) ((o_messages st ! i)\<lparr>m_content := c\<rparr>)" using obs by (auto simp: kept_shape_def)
    with all len have "list_all2 kept_shape ?h ((o_messages st)[i := (o_messages st ! i)\<lparr>m_content := c\<rparr>])"
      by (intro list_all2_update_right)
    with that len r show ?thesis by (simp add: P_def historyTokens_update)
  qed
  moreover have "P 0 (unchanged si)" by (simp add: P_def list_all2_refl kept_shape_def)
  ultimately obtain j where "P j (pass body ?n (si_target si) 0 (unchanged si))"
    using pass_rule [of P ?n "si_target si" body 0 "unchanged si"] by blast
  then show ?thesis
    unfolding run_pass_def stage_sound_def Let_def P_def
    by (auto simp: said_kept intro: exI [of _ "take ?n x" for x]) (metis append_take_drop_id)+
qed

subsection \<open>Trim\<close>

lemma trim_loop_take:
  "\<exists>k \<le> length is. trim_loop h target removed tokens is = removed @ take k is \<and>
     (tokens - sum_list (map (\<lambda>i. cost (h ! i)) (take k is)) \<le> target \<or> k = length is)"
proof (induction "is" arbitrary: removed tokens)
  case Nil
  then show ?case by simp
next
  case (Cons i "is")
  show ?case
  proof (cases "tokens \<le> target")
    case True
    then show ?thesis by (intro exI [of _ 0]) simp
  next
    case False
    obtain k where "k \<le> length is" "trim_loop h target (removed @ [i]) (tokens - cost (h ! i)) is = (removed @ [i]) @ take k is"
      "tokens - cost (h ! i) - sum_list (map (\<lambda>i. cost (h ! i)) (take k is)) \<le> target \<or> k = length is"
      using Cons.IH [of "removed @ [i]" "tokens - cost (h ! i)"] by blast
    with False show ?thesis by (intro exI [of _ "Suc k"]) (auto simp: algebra_simps)
  qed
qed

lemma rebuild_messages:
  "fst (rebuild removed known i ms msgs disp) = msgs @ nths ms {j. i + j \<notin> set removed}"
proof (induction removed known i ms msgs disp rule: rebuild.induct)
  case (2 removed known i m ms msgs disp)
  then show ?case by (auto simp: nths_Cons)
qed simp

lemma sum_nths_removed:
  assumes "distinct removed" "set removed \<subseteq> {..<length h}"
  shows "historyTokens (nths h {j. j \<notin> set removed}) = historyTokens h - sum_list (map (\<lambda>i. cost (h ! i)) removed)"
proof -
  have s: "sum_list (map (\<lambda>i. cost (h ! i)) removed) = (\<Sum>i<length h. if i \<in> set removed then cost (h ! i) else 0)"
    using assms by (simp add: sum_list_distinct_conv_sum_set sum.inter_restrict [symmetric] Int_absorb1)
  have "(\<Sum>i<length h. if i \<notin> set removed then cost (h ! i) else 0) + (\<Sum>i<length h. if i \<in> set removed then cost (h ! i) else 0) =
      (\<Sum>i<length h. cost (h ! i))"
    by (simp flip: sum.distrib) (rule sum.cong, auto)
  moreover have "historyTokens h = (\<Sum>i<length h. cost (h ! i))" using sum_nths [of cost h UNIV] by (simp add: historyTokens_sum nths_all)
  ultimately show ?thesis by (simp add: historyTokens_sum sum_nths s)
qed

text \<open>The shape of a trim that changed something.\<close>

lemma trim_shape:
  assumes "o_changed (trim_stage si)"
  defines "candidates \<equiv> filter (\<lambda>i. droppable (si_history si ! i)) [0..<tailStart si]"
  shows "\<exists>k. 0 < k \<and> k \<le> length candidates \<and>
     o_messages (trim_stage si) = digestMessage TRIM_HEADER # nths (si_history si) {j. j \<notin> set (take k candidates)} \<and>
     o_tokens (trim_stage si) = historyTokens (o_messages (trim_stage si)) \<and>
     (o_tokens (trim_stage si) \<le> si_target si \<or> k = length candidates) \<and>
     trim_stage si = \<lparr>o_messages = fst (rebuild (take k candidates) (si_displaced si) 0 (si_history si) [digestMessage TRIM_HEADER] []),
       o_displaced = snd (rebuild (take k candidates) (si_displaced si) 0 (si_history si) [digestMessage TRIM_HEADER] []),
       o_tokens = o_tokens (trim_stage si), o_changed = True\<rparr>"
proof -
  let ?h = "si_history si" and ?hd = "digestMessage TRIM_HEADER"
  let ?r = "trim_loop ?h (si_target si) [] (historyTokens ?h + cost ?hd) candidates"
  have ne: "candidates \<noteq> []" "?r \<noteq> []"
    using assms(1) by (auto simp: trim_stage_def candidates_def Let_def split: if_splits)
  obtain k where k: "k \<le> length candidates" "?r = take k candidates"
    "historyTokens ?h + cost ?hd - sum_list (map (\<lambda>i. cost (?h ! i)) (take k candidates)) \<le> si_target si \<or> k = length candidates"
    using trim_loop_take [of candidates ?h "si_target si" "[]" "historyTokens ?h + cost ?hd"] by auto
  have "0 < k" using ne k by (cases k) auto
  let ?b = "rebuild (take k candidates) (si_displaced si) 0 ?h [?hd] []"
  have out: "trim_stage si = \<lparr>o_messages = fst ?b, o_displaced = snd ?b, o_tokens = historyTokens (fst ?b), o_changed = True\<rparr>"
    using ne k by (simp add: trim_stage_def candidates_def [symmetric] Let_def split_beta)
  have msgs: "fst ?b = ?hd # nths ?h {j. j \<notin> set (take k candidates)}" by (simp add: rebuild_messages)
  have "distinct (take k candidates)" "set (take k candidates) \<subseteq> {..<length ?h}"
    using tailStart_le [of si] by (auto simp: candidates_def dest: in_set_takeD)
  then have tok: "historyTokens (fst ?b) = historyTokens ?h + cost ?hd - sum_list (map (\<lambda>i. cost (?h ! i)) (take k candidates))"
    by (simp add: msgs sum_nths_removed)
  show ?thesis
  proof (intro exI [of _ k] conjI)
    show "0 < k" "k \<le> length candidates" by fact+
    show "o_messages (trim_stage si) = ?hd # nths ?h {j. j \<notin> set (take k candidates)}" by (simp add: out msgs)
    show "o_tokens (trim_stage si) \<le> si_target si \<or> k = length candidates" using k(3) tok by (simp add: out)
  qed (simp_all add: out)
qed

lemma trim_sound: "stage_sound si (trim_stage si)"
proof (cases "o_changed (trim_stage si)")
  case False
  then have "trim_stage si = unchanged si" by (auto simp: trim_stage_def Let_def split_beta split: if_splits)
  then show ?thesis by simp
next
  case True
  let ?h = "si_history si"
  let ?c = "filter (\<lambda>i. droppable (?h ! i)) [0..<tailStart si]"
  from trim_shape [OF True] obtain k where k: "o_messages (trim_stage si) = digestMessage TRIM_HEADER # nths ?h {j. j \<notin> set (take k ?c)}"
    "o_tokens (trim_stage si) = historyTokens (o_messages (trim_stage si))" by blast
  have "said (nths ?h {j. j \<notin> set (take k ?c)}) = said ?h"
    unfolding said_def by (rule filter_nths) (auto simp: droppable_def dest: in_set_takeD)
  moreover obtain pre where "nths ?h {j. j \<notin> set (take k ?c)} = pre @ drop (tailStart si) ?h"
  proof -
    have "i \<in> {j. j \<notin> set (take k ?c)}" if "tailStart si \<le> i" for i using that by (auto dest: in_set_takeD)
    then show thesis using nths_suffix [of "tailStart si" ?h "{j. j \<notin> set (take k ?c)}"] that by blast
  qed
  ultimately show ?thesis using k True
    by (auto simp: stage_sound_def intro: exI [of _ "digestMessage TRIM_HEADER # pre"])
qed

subsection \<open>The digesting stages\<close>

lemma said_spine: "said (requestSpine h n t) = said (take n h)"
proof -
  have "said (take n h) = said (filter isTurnStart (take n h))" by (simp add: said_turn_starts)
  then show ?thesis by (simp add: requestSpine_def Let_def del: filter_empty_conv)
qed

lemma digested_sound: "n \<le> tailStart si \<Longrightarrow> stage_sound si (digested si t n)"
proof -
  assume n: "n \<le> tailStart si"
  let ?h = "si_history si" and ?hd = "digestMessage t # requestSpine (si_history si) n DIGEST_SPINE_HEADER"
  have "drop (tailStart si) ?h = drop (tailStart si - n) (drop n ?h)" using n by simp
  then have tail: "?hd @ drop n ?h = (?hd @ take (tailStart si - n) (drop n ?h)) @ drop (tailStart si) ?h"
    by (simp only: append_assoc append_take_drop_id)
  have "said ?h = said (take n ?h) @ said (drop n ?h)" by (metis append_take_drop_id said_append)
  then have sd: "said (?hd @ drop n ?h) = said ?h" by (simp add: said_spine)
  show ?thesis
  proof (cases "historyTokens (?hd @ drop n ?h) \<ge> historyTokens ?h")
    case True
    then show ?thesis by (simp add: digested_def Let_def)
  next
    case False
    then have out: "digested si t n = \<lparr>o_messages = ?hd @ drop n ?h, o_displaced = [], o_tokens = historyTokens (?hd @ drop n ?h), o_changed = True\<rparr>"
      by (simp add: digested_def Let_def)
    show ?thesis unfolding out stage_sound_def using tail sd by (auto intro: exI [of _ "?hd @ take (tailStart si - n) (drop n ?h)"])
  qed
qed

lemma collapse_sound: "stage_sound si (collapse si t)"
proof -
  let ?b = "filter (\<lambda>i. isTurnStart (si_history si ! i)) [0..<tailStart si]"
  have "?b ! (length ?b - COLLAPSE_KEEP_TURNS) \<in> set ?b" if "\<not> length ?b \<le> COLLAPSE_KEEP_TURNS"
    using that by (intro nth_mem) (simp add: COLLAPSE_KEEP_TURNS_def)
  then show ?thesis
    by (auto simp: collapse_def Let_def intro!: digested_sound)
qed

lemma reset_sound: "stage_sound si (reset si t)"
  by (auto simp: reset_def intro: digested_sound)

lemma digested_shrinks: "o_changed (digested si t n) \<Longrightarrow> o_tokens (digested si t n) < historyTokens (si_history si)"
  by (auto simp: digested_def Let_def)

section \<open>The contract of a stage\<close>

text \<open>The protected tail as a list.\<close>

definition tail_of :: "int \<Rightarrow> message list \<Rightarrow> message list" where
  "tail_of p h = drop (nat (max 0 (int (length h) - max 0 p))) h"

lemma stage_tail: "drop (tailStart si) (si_history si) = tail_of (si_tail si) (si_history si)"
  by (simp add: tailStart_def tail_of_def)

lemma tail_of_stage:
  assumes "h' = pre @ tail_of p h" "nat (max 0 (int (length h) - max 0 p)) = 0 \<Longrightarrow> h' = h"
  shows "tail_of p h' = tail_of p h"
proof (cases "int (length h) \<le> max 0 p")
  case True
  then show ?thesis using assms(2) by simp
next
  case False
  then have "length (tail_of p h) = nat (max 0 p)" by (simp add: tail_of_def)
  then have "nat (max 0 (int (length (pre @ tail_of p h)) - max 0 p)) = length pre" by simp
  then show ?thesis unfolding assms(1) tail_of_def [of p "pre @ tail_of p h"] by simp
qed

text \<open>What the ladder relies on in every stage it runs: the stage is sound, and it leaves a wholly protected history alone.\<close>

locale compaction_stage =
  fixes run :: "stage_input \<Rightarrow> outcome"
  assumes sound: "stage_sound si (run si)"
    and idle: "tailStart si = 0 \<Longrightarrow> run si = unchanged si"
begin

lemma keeps:
  "tail_of (si_tail si) (o_messages (run si)) = tail_of (si_tail si) (si_history si) \<and>
   said (o_messages (run si)) = said (si_history si)"
proof
  obtain pre where "o_messages (run si) = pre @ tail_of (si_tail si) (si_history si)"
    using sound [of si] by (auto simp: stage_sound_def stage_tail)
  then show "tail_of (si_tail si) (o_messages (run si)) = tail_of (si_tail si) (si_history si)"
    using idle [of si] by (intro tail_of_stage) (auto simp: tailStart_def)
  show "said (o_messages (run si)) = said (si_history si)" using sound [of si] by (simp add: stage_sound_def)
qed

end

lemma empty_tail_unchanged:
  assumes "tailStart si = 0"
  shows "snip si = unchanged si" "micro si = unchanged si" "collapse si t = unchanged si" "reset si t = unchanged si" "trim_stage si = unchanged si"
proof -
  have "pass body 0 (si_target si) 0 (unchanged si) = unchanged si" for body by (rule pass_stop) simp
  with assms show "snip si = unchanged si" "micro si = unchanged si" "collapse si t = unchanged si" "reset si t = unchanged si"
    "trim_stage si = unchanged si"
    by (simp_all add: snip_def micro_def run_pass_def collapse_def reset_def trim_stage_def Let_def)
qed

interpretation snips: compaction_stage snip
  by unfold_locales (simp_all only: snip_def run_pass_sound snip_observations empty_tail_unchanged [unfolded snip_def])

interpretation micros: compaction_stage micro
  by unfold_locales (simp_all only: micro_def run_pass_sound micro_observations empty_tail_unchanged [unfolded micro_def])

interpretation trims: compaction_stage trim_stage
  by unfold_locales (simp_all add: empty_tail_unchanged trim_sound)

interpretation collapses: compaction_stage "\<lambda>si. collapse si digest" for digest
  by unfold_locales (simp_all add: empty_tail_unchanged collapse_sound)

interpretation resets: compaction_stage "\<lambda>si. reset si digest" for digest
  by unfold_locales (simp_all add: empty_tail_unchanged reset_sound)

text \<open>Every stage of the ladder, on any history: its token figure is the cost of the messages it returns, the protected
  tail ends them unaltered, every message the person wrote survives in order, and an outcome that reports no
  change is the input.\<close>

theorem stages_sound:
  "stage_sound si (snip si) \<and> stage_sound si (micro si) \<and> stage_sound si (collapse si digest) \<and>
   stage_sound si (reset si digest) \<and> stage_sound si (trim_stage si)"
  by (intro conjI snips.sound micros.sound collapses.sound resets.sound trims.sound)

section \<open>Displaced content can be found again\<close>

text \<open>\<open>m\<close> is the observation \<open>m0\<close> with its body cut or replaced, and it names the entry that holds the original text.\<close>

definition altered :: "displaced \<Rightarrow> message \<Rightarrow> message \<Rightarrow> bool" where
  "altered d m0 m \<longleftrightarrow> isObservation m0 \<and> d_content d = m_content m0 \<and> d_id d = displacedId (m_content m0) \<and>
     (m = m0\<lparr>m_content := pointer d\<rparr> \<or> m = m0\<lparr>m_content := cutMiddle (m_content m0) (d_id d)\<rparr>)"

definition aligned :: "nat \<Rightarrow> message list \<Rightarrow> message list \<Rightarrow> displaced_map \<Rightarrow> bool" where
  "aligned n h0 msgs disp \<longleftrightarrow> length msgs = length h0 \<and>
     (\<forall>i < length h0. case map_of disp i of None \<Rightarrow> msgs ! i = h0 ! i | Some d \<Rightarrow> i < n \<and> altered d (h0 ! i) (msgs ! i))"

definition resolved_at :: "message list \<Rightarrow> displaced option \<Rightarrow> message \<Rightarrow> bool" where
  "resolved_at h0 known m \<longleftrightarrow> m \<in> set h0 \<or> m_origin m = Some Digest \<or>
     (\<exists>d m0. known = Some d \<and> m0 \<in> set h0 \<and> altered d m0 m)"

definition resolved :: "message list \<Rightarrow> message list \<Rightarrow> displaced_map \<Rightarrow> bool" where
  "resolved h0 msgs disp \<longleftrightarrow> (\<forall>i < length msgs. resolved_at h0 (map_of disp i) (msgs ! i))"

lemma aligned_start [simp]: "aligned n h h []"
  by (simp add: aligned_def)

lemma aligned_cases:
  assumes "aligned n h0 msgs disp" "i < length h0"
  obtains (same) "map_of disp i = None" "msgs ! i = h0 ! i"
    | (changed) d c where "map_of disp i = Some d" "i < n" "altered d (h0 ! i) (msgs ! i)" "msgs ! i = (h0 ! i)\<lparr>m_content := c\<rparr>"
proof (cases "map_of disp i")
  case None
  with assms same show ?thesis by (auto simp: aligned_def dest!: spec [of _ i])
next
  case (Some d)
  with assms have "i < n" "altered d (h0 ! i) (msgs ! i)" by (auto simp: aligned_def dest!: spec [of _ i])
  with Some changed show ?thesis unfolding altered_def by metis
qed

lemma aligned_length: "aligned n h0 msgs disp \<Longrightarrow> length msgs = length h0"
  by (simp add: aligned_def)

lemma aligned_resolved: assumes "aligned n h0 msgs disp" shows "resolved h0 msgs disp"
  unfolding resolved_def
proof (intro allI impI)
  fix i assume "i < length msgs"
  then have i: "i < length h0" using assms by (simp add: aligned_length)
  from assms i show "resolved_at h0 (map_of disp i) (msgs ! i)"
    by (cases rule: aligned_cases) (use i in \<open>auto simp: resolved_at_def intro: bexI nth_mem\<close>)
qed

lemma aligned_step:
  assumes a: "aligned n h0 msgs disp" and i: "i < n" "n \<le> length h0"
    and new: "altered d (h0 ! i) ((h0 ! i)\<lparr>m_content := c\<rparr>)"
  shows "aligned n h0 (msgs[i := (msgs ! i)\<lparr>m_content := c\<rparr>]) (map_set i d disp)"
proof -
  have "i < length h0" using i by simp
  with a have "(msgs ! i)\<lparr>m_content := c\<rparr> = (h0 ! i)\<lparr>m_content := c\<rparr>"
    by (cases rule: aligned_cases) simp_all
  with a i new show ?thesis by (auto simp: aligned_def nth_list_update split: option.splits)
qed

lemma displacementFor_aligned:
  fixes t :: int
  assumes a: "aligned n h0 msgs disp" and i: "i < n" "n \<le> length h0" and obs: "isObservation (msgs ! i)"
  defines "d \<equiv> displacementFor disp i (msgs ! i) t"
  shows "isObservation (h0 ! i) \<and> d_content d = m_content (h0 ! i) \<and> d_id d = displacedId (m_content (h0 ! i))"
proof -
  have "i < length h0" using i by simp
  with a show ?thesis
    by (cases rule: aligned_cases) (use obs in \<open>simp_all add: d_def displacementFor_def altered_def\<close>)
qed

lemma run_pass_aligned:
  assumes "aligned (tailStart si) h0 (si_history si) (si_displaced si)"
    and "\<And>i (st :: outcome) d c. aligned (tailStart si) h0 (o_messages st) (o_displaced st) \<Longrightarrow> i < tailStart si \<Longrightarrow>
      (\<forall>j \<ge> i. map_of (o_displaced st) j = map_of (si_displaced si) j) \<Longrightarrow>
      body (o_displaced st) i (o_messages st ! i) = Some (d, c) \<Longrightarrow> altered d (h0 ! i) ((h0 ! i)\<lparr>m_content := c\<rparr>)"
  shows "aligned (tailStart si) h0 (o_messages (run_pass body si)) (o_displaced (run_pass body si))"
proof -
  let ?n = "tailStart si"
  define P where "P = (\<lambda>i (st::outcome). aligned ?n h0 (o_messages st) (o_displaced st) \<and>
    (\<forall>j \<ge> i. map_of (o_displaced st) j = map_of (si_displaced si) j))"
  have n: "?n \<le> length h0" using assms(1) tailStart_le [of si] by (simp add: aligned_def)
  have "P (Suc i) (case body (o_displaced st) i (o_messages st ! i) of None \<Rightarrow> st | Some (d, c) \<Rightarrow> displace_at i d c st)"
    if "P i st" "i < ?n" for i and st :: outcome
  proof (cases "body (o_displaced st) i (o_messages st ! i)")
    case None
    with that show ?thesis by (simp add: P_def)
  next
    case (Some r)
    then obtain d c where r: "body (o_displaced st) i (o_messages st ! i) = Some (d, c)" by (cases r) auto
    have "altered d (h0 ! i) ((h0 ! i)\<lparr>m_content := c\<rparr>)"
      by (rule assms(2) [of st i d c]) (use that r in \<open>simp_all add: P_def\<close>)
    with that n r aligned_step [of ?n h0 "o_messages st" "o_displaced st" i d c] show ?thesis by (simp add: P_def)
  qed
  moreover have "P 0 (unchanged si)" using assms(1) by (simp add: P_def)
  ultimately obtain j where "P j (pass body ?n (si_target si) 0 (unchanged si))"
    using pass_rule [of P ?n "si_target si" body 0 "unchanged si"] by blast
  with assms(1) show ?thesis by (simp add: run_pass_def Let_def P_def)
qed

lemma snip_aligned:
  assumes "si_displaced si = []"
  shows "aligned (tailStart si) (si_history si) (o_messages (snip si)) (o_displaced (snip si))"
  unfolding snip_def
proof (rule run_pass_aligned)
  fix i and st :: outcome and d c
  assume a: "aligned (tailStart si) (si_history si) (o_messages st) (o_displaced st)" "i < tailStart si"
    "\<forall>j \<ge> i. map_of (o_displaced st) j = map_of (si_displaced si) j"
    and b: "snip_body (o_displaced st) i (o_messages st ! i) = Some (d, c)"
  have fresh: "map_of (o_displaced st) i = None" using a assms by simp
  then have m: "o_messages st ! i = si_history si ! i"
    using a tailStart_le [of si] by (auto simp: aligned_def dest!: spec [of _ i])
  from b show "altered d (si_history si ! i) ((si_history si ! i)\<lparr>m_content := c\<rparr>)"
    by (auto simp: snip_body_def Let_def m fresh displacementFor_def altered_def split: if_splits)
qed (simp add: assms)

lemma micro_aligned:
  assumes "aligned (tailStart si) h0 (si_history si) (si_displaced si)"
  shows "aligned (tailStart si) h0 (o_messages (micro si)) (o_displaced (micro si))"
  unfolding micro_def
proof (rule run_pass_aligned [OF assms])
  fix i and st :: outcome and d c
  assume a: "aligned (tailStart si) h0 (o_messages st) (o_displaced st)" "i < tailStart si"
    and b: "micro_body (o_displaced st) i (o_messages st ! i) = Some (d, c)"
  have n: "tailStart si \<le> length h0" using assms tailStart_le [of si] by (simp add: aligned_def)
  have obs: "isObservation (o_messages st ! i)" and d: "d = displacementFor (o_displaced st) i (o_messages st ! i) (cost (o_messages st ! i))"
    and c: "c = pointer d"
    using b by (auto simp: micro_body_def Let_def split: if_splits)
  from displacementFor_aligned [OF a(1) a(2) n obs]
  show "altered d (h0 ! i) ((h0 ! i)\<lparr>m_content := c\<rparr>)" by (simp add: altered_def d c)
qed

lemma rebuild_resolved:
  assumes "resolved h0 msgs disp" "\<forall>j < length ms. resolved_at h0 (map_of known (i + j)) (ms ! j)"
    "\<forall>j \<ge> length msgs. map_of disp j = None"
  shows "case rebuild removed known i ms msgs disp of (msgs', disp') \<Rightarrow> resolved h0 msgs' disp'"
  using assms
proof (induction removed known i ms msgs disp rule: rebuild.induct)
  case (1 removed known i msgs disp)
  then show ?case by simp
next
  case (2 removed known i m ms msgs disp)
  have rest: "\<forall>j < length ms. resolved_at h0 (map_of known (Suc i + j)) (ms ! j)"
    using 2(4) by (auto dest: spec [of _ "Suc j" for j])
  show ?case
  proof (cases "i \<in> set removed")
    case True
    with 2 rest show ?thesis by simp
  next
    case False
    let ?disp = "case map_of known i of Some d \<Rightarrow> map_set (length msgs) d disp | None \<Rightarrow> disp"
    have "resolved_at h0 (map_of known i) m" using 2(4) by (auto dest: spec [of _ 0])
    moreover have "map_of ?disp (length msgs) = map_of known i" using 2(5) by (simp split: option.split)
    moreover have "map_of ?disp j = map_of disp j" if "j \<noteq> length msgs" for j using that by (simp split: option.split)
    ultimately have "resolved h0 (msgs @ [m]) ?disp"
      using 2(3) by (auto simp: resolved_def nth_append less_Suc_eq)
    moreover have "\<forall>j \<ge> length (msgs @ [m]). map_of ?disp j = None" using 2(5) by (simp split: option.split)
    ultimately show ?thesis using 2(2) [OF False _ rest] False by simp
  qed
qed

lemma trim_resolved:
  assumes "resolved h0 (si_history si) (si_displaced si)"
  shows "resolved h0 (o_messages (trim_stage si)) (o_displaced (trim_stage si))"
proof (cases "o_changed (trim_stage si)")
  case False
  with trim_sound [of si] assms show ?thesis by (simp add: stage_sound_def)
next
  case True
  have "resolved h0 [digestMessage TRIM_HEADER] []" by (simp add: resolved_def resolved_at_def digestMessage_def)
  from trim_shape [OF True] obtain r where
    out: "o_messages (trim_stage si) = fst (rebuild r (si_displaced si) 0 (si_history si) [digestMessage TRIM_HEADER] [])"
    "o_displaced (trim_stage si) = snd (rebuild r (si_displaced si) 0 (si_history si) [digestMessage TRIM_HEADER] [])"
    by (metis outcome.select_convs(1) outcome.select_convs(2))
  have "case rebuild r (si_displaced si) 0 (si_history si) [digestMessage TRIM_HEADER] [] of (m, d) \<Rightarrow> resolved h0 m d"
    using \<open>resolved h0 [digestMessage TRIM_HEADER] []\<close> assms by (intro rebuild_resolved) (simp_all add: resolved_def)
  then show ?thesis by (simp add: out split_beta)
qed

lemma reset_resolved:
  assumes a: "aligned (tailStart si) h0 (si_history si) (si_displaced si)"
  shows "resolved h0 (o_messages (reset si t)) (o_displaced (reset si t))"
proof (cases "o_changed (reset si t)")
  case False
  with reset_sound [of si t] aligned_resolved [OF a] show ?thesis by (simp add: stage_sound_def)
next
  case True
  let ?h = "si_history si" and ?n = "tailStart si"
  from True have out: "o_messages (reset si t) = digestMessage t # requestSpine ?h ?n DIGEST_SPINE_HEADER @ drop ?n ?h"
    "o_displaced (reset si t) = []" by (auto simp: reset_def digested_def Let_def split: if_splits)
  have keep: "?h ! i \<in> set h0" if i: "i < length ?h" "?n \<le> i \<or> isTurnStart (?h ! i)" for i
  proof -
    have "i < length h0" using i a by (simp add: aligned_length)
    with a show ?thesis
      by (cases rule: aligned_cases) (use i \<open>i < length h0\<close> in \<open>auto simp: altered_def isTurnStart_def\<close>)
  qed
  have "m \<in> set h0 \<or> m_origin m = Some Digest" if mem: "m \<in> set (o_messages (reset si t))" for m
  proof -
    consider "m = digestMessage t" | "m = digestMessage DIGEST_SPINE_HEADER" | "m \<in> set (filter isTurnStart (take ?n ?h))" | "m \<in> set (drop ?n ?h)"
      using mem unfolding out requestSpine_def Let_def by (auto split: if_splits)
    then show ?thesis
    proof cases
      case 3
      then obtain i where "i < length ?h" "m = ?h ! i" "isTurnStart m" by (auto simp: in_set_conv_nth)
      with keep show ?thesis by auto
    next
      case 4
      then obtain i where "i < length ?h - ?n" "m = ?h ! (?n + i)" by (auto simp: in_set_conv_nth)
      with keep [of "?n + i"] show ?thesis by auto
    qed (simp_all add: digestMessage_def)
  qed
  then show ?thesis using nth_mem unfolding resolved_def resolved_at_def by blast
qed

section \<open>How far each stage gets\<close>

text \<open>Observations carry no calls of their own: the transports put calls on assistant messages only.\<close>

definition plain_observations :: "message list \<Rightarrow> bool" where
  "plain_observations h \<longleftrightarrow> (\<forall>m \<in> set h. isObservation m \<longrightarrow> calls_cost m = 0)"

lemma calls_cost_content [simp]: "calls_cost (m\<lparr>m_content := c\<rparr>) = calls_cost m"
  by (simp add: calls_cost_def)

lemma micro_shrinks:
  assumes "plain_observations (si_history si)" "o_changed (micro si)"
  shows "o_tokens (micro si) < historyTokens (si_history si)"
proof -
  let ?n = "tailStart si"
  define P where "P = (\<lambda>(i::nat) (st::outcome). length (o_messages st) = length (si_history si) \<and> plain_observations (o_messages st) \<and>
    (if o_changed st then o_tokens st < historyTokens (si_history si) else o_tokens st = historyTokens (si_history si)))"
  have "P (Suc i) (case micro_body (o_displaced st) i (o_messages st ! i) of None \<Rightarrow> st | Some (d, c) \<Rightarrow> displace_at i d c st)"
    if st: "P i st" "i < ?n" for i and st :: outcome
  proof (cases "micro_body (o_displaced st) i (o_messages st ! i)")
    case None
    with st show ?thesis by (simp add: P_def)
  next
    case (Some r)
    then obtain d c where r: "micro_body (o_displaced st) i (o_messages st ! i) = Some (d, c)" by (cases r) auto
    let ?m = "o_messages st ! i"
    from r have c: "estimateMessageTokens c < cost ?m" "isObservation ?m" by (auto simp: micro_body_def Let_def split: if_splits)
    have "i < length (o_messages st)" using st tailStart_le [of si] by (simp add: P_def)
    then have "?m \<in> set (o_messages st)" by simp
    with st c have z: "calls_cost ?m = 0" by (simp add: P_def plain_observations_def)
    with c have "cost (?m\<lparr>m_content := c\<rparr>) < cost ?m" by (simp add: cost_def)
    moreover have "plain_observations ((o_messages st)[i := ?m\<lparr>m_content := c\<rparr>])"
      using st z by (auto simp: P_def plain_observations_def dest!: set_update_subset_insert [THEN subsetD])
    ultimately show ?thesis using st r by (simp add: P_def split: if_splits)
  qed
  moreover have "P 0 (unchanged si)" using assms(1) by (simp add: P_def)
  ultimately obtain j where "P j (pass micro_body ?n (si_target si) 0 (unchanged si))"
    using pass_rule [of P ?n "si_target si" micro_body 0 "unchanged si"] by blast
  with assms(2) show ?thesis by (auto simp: micro_def run_pass_def Let_def P_def split: if_splits)
qed

lemma collapse_shrinks: "o_changed (collapse si t) \<Longrightarrow> o_tokens (collapse si t) < historyTokens (si_history si)"
  by (auto simp: collapse_def Let_def digested_shrinks split: if_splits)

lemma reset_shrinks: "o_changed (reset si t) \<Longrightarrow> o_tokens (reset si t) < historyTokens (si_history si)"
  by (auto simp: reset_def digested_shrinks split: if_splits)

text \<open>A trim that changed anything either reached its target or left no working detail before the protected tail:
  there only the person's requests and digests remain.\<close>

theorem trim_reaches_target:
  assumes "o_changed (trim_stage si)"
  shows "historyTokens (o_messages (trim_stage si)) \<le> si_target si \<or>
    o_messages (trim_stage si) = digestMessage TRIM_HEADER #
      filter (\<lambda>m. \<not> droppable m) (take (tailStart si) (si_history si)) @ drop (tailStart si) (si_history si)"
proof -
  let ?h = "si_history si" and ?n = "tailStart si"
  let ?c = "filter (\<lambda>i. droppable (?h ! i)) [0..<?n]"
  from trim_shape [OF assms] obtain k where k: "k \<le> length ?c"
    "o_messages (trim_stage si) = digestMessage TRIM_HEADER # nths ?h {j. j \<notin> set (take k ?c)}"
    "o_tokens (trim_stage si) = historyTokens (o_messages (trim_stage si))"
    "o_tokens (trim_stage si) \<le> si_target si \<or> k = length ?c" by blast
  show ?thesis
  proof (cases "k = length ?c")
    case False
    with k show ?thesis by simp
  next
    case True
    then have "nths ?h {j. j \<notin> set (take k ?c)} = nths ?h {j. j < ?n \<longrightarrow> \<not> droppable (?h ! j)}" by simp
    also have "\<dots> = filter (\<lambda>m. \<not> droppable m) (take ?n ?h) @ drop ?n ?h"
    proof -
      have n: "length (take ?n ?h) = ?n" using tailStart_le [of si] by simp
      have "nths (take ?n ?h @ drop ?n ?h) {j. j < ?n \<longrightarrow> \<not> droppable (?h ! j)} =
          nths (take ?n ?h) {j. j < ?n \<longrightarrow> \<not> droppable (?h ! j)} @ drop ?n ?h"
        unfolding nths_append n by (simp add: nths_all)
      moreover have "nths (take ?n ?h) {j. j < ?n \<longrightarrow> \<not> droppable (?h ! j)} = filter (\<lambda>m. \<not> droppable m) (take ?n ?h)"
        unfolding filter_eq_nths using n by (intro nths_cong) simp
      ultimately show ?thesis by simp
    qed
    finally show ?thesis using k by simp
  qed
qed

text \<open>The explanation a trim puts in front is charged for, but nothing checks that it costs less than what was removed.\<close>

theorem trim_can_grow:
  fixes h :: "message list"
  defines "h \<equiv> [plain_message Assistant ''ok'', plain_message User ''hi'']"
  defines "out \<equiv> trim_stage \<lparr>si_history = h, si_target = 5, si_tail = 1, si_displaced = []\<rparr>"
  shows "o_changed out \<and> historyTokens h < o_tokens out"
proof -
  have n: "tailStart \<lparr>si_history = h, si_target = 5, si_tail = 1, si_displaced = []\<rparr> = 1" by (simp add: tailStart_def h_def)
  have e: "estimateTokens ''ok'' = 1" "estimateTokens ''hi'' = 1"
    by (simp_all add: estimate_exact tokens_of_length_def newlines_def NL_def char_of_def)
  have hd: "10 < estimateTokens TRIM_HEADER"
    by (simp add: estimate_exact TRIM_HEADER_def tokens_of_length_def newlines_def NL_def char_of_def)
  have c: "historyTokens h = 10" "cost (plain_message Assistant ''ok'') = 5" "cost (plain_message User ''hi'') = 5"
    by (simp_all add: h_def cost_def plain_message_def calls_cost_def estimateMessageTokens_def MESSAGE_OVERHEAD_TOKENS_def e)
  have hc: "10 < cost (digestMessage TRIM_HEADER)"
    using hd by (simp add: cost_def plain_message_def digestMessage_def calls_cost_def estimateMessageTokens_def MESSAGE_OVERHEAD_TOKENS_def)
  have d: "droppable (plain_message Assistant ''ok'')" by (simp add: droppable_def isTurnStart_def plain_message_def)
  have "out = \<lparr>o_messages = [digestMessage TRIM_HEADER, plain_message User ''hi''], o_displaced = [],
      o_tokens = historyTokens [digestMessage TRIM_HEADER, plain_message User ''hi''], o_changed = True\<rparr>"
    unfolding out_def trim_stage_def Let_def n using c hc d by (simp add: h_def)
  with c hc show ?thesis by simp
qed

theorem trim_reaches_target_witness:
  "let si = \<lparr>si_history = [plain_message Assistant ''ok'', plain_message User ''hi''], si_target = 5, si_tail = 1, si_displaced = []\<rparr> in
   historyTokens (o_messages (trim_stage si)) \<le> 5 \<or>
   o_messages (trim_stage si) = digestMessage TRIM_HEADER #
      filter (\<lambda>m. \<not> droppable m) (take (tailStart si) (si_history si)) @ drop (tailStart si) (si_history si)"
  unfolding Let_def
  using trim_reaches_target [of "\<lparr>si_history = [plain_message Assistant ''ok'', plain_message User ''hi''], si_target = 5,
      si_tail = 1, si_displaced = []\<rparr>"] trim_can_grow
  by simp

end
