(* ===== verification/Ladder.thy ===== *)
theory Ladder
  imports Compaction
begin

text \<open>
  The compaction ladder (\<open>context/compaction/ladder.ts\<close>): which stages run and how far each aims, the
  validation of its thresholds (\<open>manifest/validate.ts\<close>) and the protected tail the turn loop passes
  (\<open>loop/turn.ts\<close>). The compactor is a model call, so \<open>summarise\<close> is a parameter: absent, or a function
  whose \<open>None\<close> is a rejection.
\<close>

datatype stage = Snip | Micro | Collapse | Reset | Trim

definition STAGE_ORDER :: "stage list" where
  "STAGE_ORDER = [Snip, Micro, Collapse, Reset, Trim]"

definition FLOOR_MARGIN :: rat where "FLOOR_MARGIN = round64 (5 / 100)"

type_synonym thresholds = "stage \<Rightarrow> rat"

record stage_record =
  sr_stage :: stage
  sr_before :: int
  sr_after :: int
  sr_changed :: bool

record ladder_input =
  l_history :: "message list"
  l_tail :: int
  l_budget :: int
  l_fixed :: int
  l_thresholds :: thresholds
  l_calibration :: calibration
  l_summarise :: "(message list \<Rightarrow> string option) option"

datatype digest_source = Model | Mechanical

record ladder_result =
  r_history :: "message list"
  r_displaced :: "displaced list"
  r_stages :: "stage_record list"
  r_before :: rat
  r_after :: rat
  r_fellShort :: bool
  r_source :: "digest_source option"

definition fractionOf :: "ladder_input \<Rightarrow> message list \<Rightarrow> rat" where
  "fractionOf li history =
     (if l_budget li \<le> 0 then 0
      else round64 (of_int (corrected (l_calibration li) (l_fixed li + historyTokens history)) / of_int (l_budget li)))"

definition estimatedCeiling :: "ladder_input \<Rightarrow> rat \<Rightarrow> rat" where
  "estimatedCeiling li level =
     (let r = (if samples (l_calibration li) = 0 then 1 else ratio (l_calibration li));
          charged = round64 (level * of_int (l_budget li))
      in if r \<le> 0 then charged else round64 (charged / r))"

definition historyTargetFor :: "ladder_input \<Rightarrow> rat \<Rightarrow> int" where
  "historyTargetFor li level = max 0 \<lfloor>round64 (estimatedCeiling li level - of_int (l_fixed li))\<rfloor>"

definition deepestStage :: "thresholds \<Rightarrow> rat \<Rightarrow> (stage \<times> nat) option" where
  "deepestStage thr level =
     foldl (\<lambda>found (i, s). if level > thr s then Some (s, i) else found) None (enumerate 0 STAGE_ORDER)"

definition targetFraction :: "thresholds \<Rightarrow> nat \<Rightarrow> rat" where
  "targetFraction thr deepest =
     (if deepest = 0 then max 0 (round64 (thr (STAGE_ORDER ! 0) - FLOOR_MARGIN)) else thr (STAGE_ORDER ! (deepest - 1)))"

definition digestFor :: "ladder_input \<Rightarrow> message list \<Rightarrow> string \<times> digest_source" where
  "digestFor li ms =
     (case l_summarise li of
        None \<Rightarrow> (mechanicalDigest ms, Mechanical)
      | Some f \<Rightarrow> (case f ms of
            Some t \<Rightarrow> if Prelude.trim t = [] then (mechanicalDigest ms, Mechanical) else (t, Model)
          | None \<Rightarrow> (mechanicalDigest ms, Mechanical)))"

record ladder_state =
  s_history :: "message list"
  s_displaced :: displaced_map
  s_stages :: "stage_record list"
  s_source :: "digest_source option"

definition stage_in :: "ladder_input \<Rightarrow> int \<Rightarrow> ladder_state \<Rightarrow> stage_input" where
  "stage_in li target st =
     \<lparr>si_history = s_history st, si_target = target, si_tail = l_tail li, si_displaced = s_displaced st\<rparr>"

definition digest_span :: "ladder_input \<Rightarrow> ladder_state \<Rightarrow> message list" where
  "digest_span li st = take (nat (max 0 (int (length (s_history st)) - max 0 (l_tail li)))) (s_history st)"

definition run_stage :: "ladder_input \<Rightarrow> int \<Rightarrow> stage \<Rightarrow> ladder_state \<Rightarrow> outcome \<times> digest_source option" where
  "run_stage li target s st =
     (let si = stage_in li target st; (t, src) = digestFor li (digest_span li st) in
      case s of
        Trim \<Rightarrow> (trim_stage si, s_source st)
      | Snip \<Rightarrow> (snip si, s_source st)
      | Micro \<Rightarrow> (micro si, s_source st)
      | Collapse \<Rightarrow> (collapse si t, Some src)
      | Reset \<Rightarrow> (reset si t, Some src))"

definition after_stage :: "stage \<Rightarrow> ladder_state \<Rightarrow> outcome \<times> digest_source option \<Rightarrow> ladder_state" where
  "after_stage s st r =
     (case r of (out, src) \<Rightarrow>
        \<lparr>s_history = o_messages out, s_displaced = o_displaced out,
         s_stages = s_stages st @ [\<lparr>sr_stage = s, sr_before = historyTokens (s_history st), sr_after = o_tokens out, sr_changed = o_changed out\<rparr>],
         s_source = src\<rparr>)"

fun ladder_loop :: "ladder_input \<Rightarrow> int \<Rightarrow> stage list \<Rightarrow> ladder_state \<Rightarrow> ladder_state" where
  "ladder_loop li target [] st = st"
| "ladder_loop li target (s # ss) st =
     (if historyTokens (s_history st) \<le> target then st
      else ladder_loop li target ss (after_stage s st (run_stage li target s st)))"

definition start_state :: "ladder_input \<Rightarrow> ladder_state" where
  "start_state li = \<lparr>s_history = l_history li, s_displaced = [], s_stages = [], s_source = None\<rparr>"

definition runLadder :: "ladder_input \<Rightarrow> ladder_result" where
  "runLadder li =
     (let before = fractionOf li (l_history li) in
      case deepestStage (l_thresholds li) before of
        None \<Rightarrow> \<lparr>r_history = l_history li, r_displaced = [], r_stages = [], r_before = before, r_after = before,
                 r_fellShort = False, r_source = None\<rparr>
      | Some (_, deepest) \<Rightarrow>
          let target = historyTargetFor li (targetFraction (l_thresholds li) deepest);
              st = ladder_loop li target (take (deepest + 1) STAGE_ORDER) (start_state li)
          in \<lparr>r_history = s_history st, r_displaced = map snd (s_displaced st), r_stages = s_stages st, r_before = before,
              r_after = fractionOf li (s_history st), r_fellShort = historyTokens (s_history st) > target, r_source = s_source st\<rparr>)"

section \<open>Validation of the thresholds\<close>

definition LEGACY_ORDER :: "stage list" where
  "LEGACY_ORDER = [Trim, Snip, Micro, Collapse, Reset]"

fun ascendsIn :: "thresholds \<Rightarrow> stage list \<Rightarrow> bool" where
  "ascendsIn thr (a # b # order) = (\<not> thr b \<le> thr a \<and> ascendsIn thr (b # order))"
| "ascendsIn thr order = True"

text \<open>The codes of the errors with the stage of their \<open>field\<close>, \<open>None\<close> for the whole block.\<close>

fun not_ascending :: "thresholds \<Rightarrow> stage list \<Rightarrow> (string \<times> stage option) list" where
  "not_ascending thr (a # b # order) =
     (if thr b > thr a then [] else [(''manifest_thresholds_not_ascending'', Some b)]) @ not_ascending thr (b # order)"
| "not_ascending thr order = []"

definition validateThresholds :: "thresholds \<Rightarrow> (string \<times> stage option) list" where
  "validateThresholds thr =
     (let found = map (\<lambda>s. (''manifest_threshold_range'', Some s)) (filter (\<lambda>s. \<not> (thr s > 0 \<and> thr s < 1)) STAGE_ORDER) in
      if found = [] \<and> \<not> ascendsIn thr STAGE_ORDER
      then (if ascendsIn thr LEGACY_ORDER then [(''manifest_thresholds_legacy_order'', None)]
            else not_ascending thr STAGE_ORDER)
      else found)"

section \<open>The protected tail of a turn\<close>

definition turn_tail :: "nat \<Rightarrow> message list \<Rightarrow> int" where
  "turn_tail initialHistoryLength history = int (length history) - int initialHistoryLength"

section \<open>Which stages run and where they aim\<close>

lemma stage_all: "(\<forall>s. P s) \<longleftrightarrow> P Snip \<and> P Micro \<and> P Collapse \<and> P Reset \<and> P Trim"
  by (metis stage.exhaust)

text \<open>Cross the thresholds of a ladder whose manifest was accepted.\<close>

lemma validate_ok:
  "validateThresholds thr = [] \<longleftrightarrow> (\<forall>s. 0 < thr s \<and> thr s < 1) \<and>
     thr Snip < thr Micro \<and> thr Micro < thr Collapse \<and> thr Collapse < thr Reset \<and> thr Reset < thr Trim"
proof -
  have all: "(\<forall>s. 0 < thr s \<and> thr s < 1) \<longleftrightarrow> (\<forall>s \<in> set STAGE_ORDER. 0 < thr s \<and> thr s < 1)"
  proof (intro iffI allI)
    fix s assume "\<forall>s \<in> set STAGE_ORDER. 0 < thr s \<and> thr s < 1"
    then show "0 < thr s \<and> thr s < 1" by (cases s) (simp_all add: STAGE_ORDER_def)
  qed simp
  show ?thesis unfolding all
    by (auto simp: validateThresholds_def Let_def filter_empty_conv STAGE_ORDER_def LEGACY_ORDER_def not_le)
qed

lemma deepest_cases:
  "deepestStage thr p =
     (if p > thr Trim then Some (Trim, 4) else if p > thr Reset then Some (Reset, 3) else if p > thr Collapse then Some (Collapse, 2)
      else if p > thr Micro then Some (Micro, 1) else if p > thr Snip then Some (Snip, 0) else None)"
  by (simp add: deepestStage_def STAGE_ORDER_def)

lemma deepest_index: "deepestStage thr p = Some (s, i) \<Longrightarrow> i < length STAGE_ORDER \<and> STAGE_ORDER ! i = s \<and> thr s < p"
  by (auto simp: deepest_cases STAGE_ORDER_def split: if_splits)

lemma below_margin: assumes "0 < x" "x < 1" shows "round64 (x - FLOOR_MARGIN) < x"
proof -
  have m: "1 / 64 \<le> FLOOR_MARGIN" unfolding FLOOR_MARGIN_def by code_simp
  define k where "k = \<lceil>64 * x\<rceil> - 1"
  have k: "of_int k < 64 * x" "64 * x \<le> of_int k + 1" unfolding k_def by linarith+
  have "0 \<le> k" "k \<le> 63" unfolding k_def using assms by (simp_all add: ceiling_le_iff)
  then have "round64 (of_int k * 2 powi - 6) = (of_int k * 2 powi - 6 :: rat)" by (intro round64_exact) simp
  moreover have "(2::rat) powi - 6 = 1 / 64" by (simp add: power_int_minus)
  ultimately have z: "round64 (of_int k / 64) = (of_int k / 64 :: rat)" by simp
  have "x - FLOOR_MARGIN \<le> of_int k / 64" using k(2) m by linarith
  then have "round64 (x - FLOOR_MARGIN) \<le> of_int k / 64" using round64_mono z by metis
  also have "\<dots> < x" using k by simp
  finally show ?thesis .
qed

text \<open>With thresholds the manifest check accepts, a stage is authorised exactly when the pressure has crossed its own
  threshold, and the level aimed at is below the threshold of the deepest stage that fired and not below zero: one rung down.\<close>

theorem authorised_stages:
  assumes "validateThresholds thr = []"
  shows "(case deepestStage thr p of
       None \<Rightarrow> \<forall>s. p \<le> thr s
     | Some (d, i) \<Rightarrow> (\<forall>s. s \<in> set (take (i + 1) STAGE_ORDER) \<longleftrightarrow> p > thr s) \<and>
         0 \<le> targetFraction thr i \<and> targetFraction thr i < thr d \<and> (\<forall>s. thr s < thr d \<longrightarrow> 0 < i \<and> thr s \<le> targetFraction thr i))"
proof -
  have thr: "thr Snip < thr Micro" "thr Micro < thr Collapse" "thr Collapse < thr Reset" "thr Reset < thr Trim" "0 < thr Snip" "thr Snip < 1"
    using assms by (auto simp: validate_ok)
  then have floor: "max 0 (round64 (thr Snip - FLOOR_MARGIN)) < thr Snip" using below_margin by simp
  consider "p > thr Trim" | "\<not> p > thr Trim" "p > thr Reset" | "\<not> p > thr Reset" "p > thr Collapse"
    | "\<not> p > thr Collapse" "p > thr Micro" | "\<not> p > thr Micro" "p > thr Snip" | "\<not> p > thr Snip" by blast
  then show ?thesis
    by cases (use thr floor in \<open>simp add: deepest_cases targetFraction_def STAGE_ORDER_def stage_all\<close>)+
qed

text \<open>The default thresholds of the manifest.\<close>

definition demo_thresholds :: thresholds where
  "demo_thresholds s = (case s of Snip \<Rightarrow> 6 / 10 | Micro \<Rightarrow> 7 / 10 | Collapse \<Rightarrow> 8 / 10 | Reset \<Rightarrow> 88 / 100 | Trim \<Rightarrow> 95 / 100)"

theorem authorised_stages_witness:
  "deepestStage demo_thresholds (75 / 100) = Some (Micro, 1) \<and>
   (\<forall>s. s \<in> {Snip, Micro} \<longleftrightarrow> 75 / 100 > demo_thresholds s) \<and> targetFraction demo_thresholds 1 < demo_thresholds Micro"
proof -
  have v: "validateThresholds demo_thresholds = []" unfolding validate_ok by (simp add: stage_all demo_thresholds_def)
  have d: "deepestStage demo_thresholds (75 / 100) = Some (Micro, 1)" by (simp add: deepest_cases demo_thresholds_def)
  have "set (take (1 + 1) STAGE_ORDER) = {Snip, Micro}" by (simp add: STAGE_ORDER_def eval_nat_numeral)
  with authorised_stages [OF v, of "75 / 100"] d show ?thesis by simp
qed

section \<open>What a run keeps\<close>

lemma run_stage_sound: "stage_sound (stage_in li target st) (fst (run_stage li target s st))"
  by (cases s) (simp_all add: run_stage_def Let_def split_beta snips.sound micros.sound trims.sound collapses.sound resets.sound)

lemma after_stage_simps [simp]:
  "s_history (after_stage s st r) = o_messages (fst r)" "s_displaced (after_stage s st r) = o_displaced (fst r)"
  "s_source (after_stage s st r) = snd r"
  "s_stages (after_stage s st r) = s_stages st @ [\<lparr>sr_stage = s, sr_before = historyTokens (s_history st),
     sr_after = o_tokens (fst r), sr_changed = o_changed (fst r)\<rparr>]"
  by (simp_all add: after_stage_def split_beta)

lemma stage_keeps:
  "tail_of (l_tail li) (o_messages (fst (run_stage li target s st))) = tail_of (l_tail li) (s_history st) \<and>
   said (o_messages (fst (run_stage li target s st))) = said (s_history st)"
  using snips.keeps [of "stage_in li target st"] micros.keeps [of "stage_in li target st"] trims.keeps [of "stage_in li target st"]
    collapses.keeps [of "stage_in li target st"] resets.keeps [of "stage_in li target st"]
  by (cases s) (simp_all add: run_stage_def Let_def split_beta stage_in_def [of li target st])

lemma loop_keeps:
  "tail_of (l_tail li) (s_history (ladder_loop li target ss st)) = tail_of (l_tail li) (s_history st) \<and>
   said (s_history (ladder_loop li target ss st)) = said (s_history st)"
  by (induction ss arbitrary: st) (simp_all add: stage_keeps)

text \<open>C25. Whatever the compactor answers, a run of the ladder keeps every message the person wrote, in order, and leaves the
  protected tail at the end of the history unaltered.\<close>

theorem ladder_keeps:
  "said (r_history (runLadder li)) = said (l_history li) \<and>
   tail_of (l_tail li) (r_history (runLadder li)) = tail_of (l_tail li) (l_history li)"
  by (auto simp: runLadder_def Let_def loop_keeps start_state_def split: option.split)

section \<open>The records of a run\<close>

text \<open>Each record starts where the previous one ended, and every stage started above the target.\<close>

fun chained :: "int \<Rightarrow> int \<Rightarrow> stage_record list \<Rightarrow> int \<Rightarrow> bool" where
  "chained target n [] m = (n = m)"
| "chained target n (r # rs) m = (sr_before r = n \<and> n > target \<and> chained target (sr_after r) rs m)"

lemma chained_snoc: "chained target n (rs @ [r]) m \<longleftrightarrow> (chained target n rs (sr_before r) \<and> sr_before r > target \<and> sr_after r = m)"
  by (induction rs arbitrary: n) auto

lemma loop_records:
  fixes li :: ladder_input and ss :: "stage list"
  assumes "chained target n (s_stages st) (historyTokens (s_history st))"
  defines "out \<equiv> ladder_loop li target ss st"
  shows "\<exists>k \<le> length ss. map sr_stage (s_stages out) = map sr_stage (s_stages st) @ take k ss \<and>
    chained target n (s_stages out) (historyTokens (s_history out)) \<and> (k < length ss \<longrightarrow> historyTokens (s_history out) \<le> target)"
  using assms(1) unfolding out_def
proof (induction ss arbitrary: st)
  case Nil
  then show ?case by simp
next
  case (Cons s ss)
  show ?case
  proof (cases "historyTokens (s_history st) \<le> target")
    case True
    with Cons.prems show ?thesis by (intro exI [of _ 0]) simp
  next
    case False
    let ?st = "after_stage s st (run_stage li target s st)"
    have "o_tokens (fst (run_stage li target s st)) = historyTokens (o_messages (fst (run_stage li target s st)))"
      using run_stage_sound [of li target st s] by (simp add: stage_sound_def)
    with Cons.prems False have "chained target n (s_stages ?st) (historyTokens (s_history ?st))" by (simp add: chained_snoc)
    from Cons.IH [OF this] obtain k where k: "k \<le> length ss"
      "map sr_stage (s_stages (ladder_loop li target ss ?st)) = map sr_stage (s_stages ?st) @ take k ss"
      "chained target n (s_stages (ladder_loop li target ss ?st)) (historyTokens (s_history (ladder_loop li target ss ?st)))"
      "k < length ss \<longrightarrow> historyTokens (s_history (ladder_loop li target ss ?st)) \<le> target" by blast
    with False show ?thesis by (intro exI [of _ "Suc k"]) simp
  qed
qed

text \<open>A run reports exactly the stages it ran: they are the first ones of the fixed order up to the deepest authorised,
  each started above the target with the cost the previous one left, a run that stopped before the deepest one has met the
  target, and \<open>fellShort\<close> says it has not.\<close>

theorem ladder_records:
  "case deepestStage (l_thresholds li) (fractionOf li (l_history li)) of
     None \<Rightarrow> r_stages (runLadder li) = [] \<and> r_history (runLadder li) = l_history li \<and> \<not> r_fellShort (runLadder li)
   | Some (d, i) \<Rightarrow>
       (let target = historyTargetFor li (targetFraction (l_thresholds li) i); res = runLadder li in
        \<exists>k \<le> i + 1. map sr_stage (r_stages res) = take k STAGE_ORDER \<and>
          chained target (historyTokens (l_history li)) (r_stages res) (historyTokens (r_history res)) \<and>
          (r_fellShort res \<longleftrightarrow> historyTokens (r_history res) > target) \<and> (k < i + 1 \<longrightarrow> \<not> r_fellShort res))"
proof (cases "deepestStage (l_thresholds li) (fractionOf li (l_history li))")
  case None
  then show ?thesis by (simp add: runLadder_def Let_def)
next
  case (Some p)
  then obtain d i where p: "deepestStage (l_thresholds li) (fractionOf li (l_history li)) = Some (d, i)" by (cases p) auto
  let ?t = "historyTargetFor li (targetFraction (l_thresholds li) i)"
  let ?ss = "take (i + 1) STAGE_ORDER" and ?n = "historyTokens (l_history li)"
  let ?out = "ladder_loop li ?t ?ss (start_state li)"
  have len: "length ?ss = i + 1" using deepest_index [OF p] by simp
  have s0: "s_stages (start_state li) = []" by (simp add: start_state_def)
  have "chained ?t ?n (s_stages (start_state li)) (historyTokens (s_history (start_state li)))" by (simp add: start_state_def)
  from loop_records [OF this, of ?ss li] obtain k where k: "k \<le> i + 1"
    "map sr_stage (s_stages ?out) = take k ?ss" "chained ?t ?n (s_stages ?out) (historyTokens (s_history ?out))"
    "k < i + 1 \<longrightarrow> historyTokens (s_history ?out) \<le> ?t"
    unfolding len s0 list.map append_Nil by blast
  have "take k ?ss = take k STAGE_ORDER" using k(1) by (simp add: min_def)
  with k have "k \<le> i + 1 \<and> map sr_stage (s_stages ?out) = take k STAGE_ORDER \<and>
      chained ?t ?n (s_stages ?out) (historyTokens (s_history ?out)) \<and> (k < i + 1 \<longrightarrow> \<not> historyTokens (s_history ?out) > ?t)"
    by (simp only: not_less)
  moreover have "runLadder li = \<lparr>r_history = s_history ?out, r_displaced = map snd (s_displaced ?out), r_stages = s_stages ?out,
      r_before = fractionOf li (l_history li), r_after = fractionOf li (s_history ?out),
      r_fellShort = historyTokens (s_history ?out) > ?t, r_source = s_source ?out\<rparr>"
    by (simp add: runLadder_def p Let_def)
  ultimately show ?thesis by (simp only: p option.case prod.case Let_def ladder_result.simps) blast
qed

section \<open>Displaced content across a run\<close>

fun next_stage :: "stage \<Rightarrow> stage" where
  "next_stage Snip = Micro" | "next_stage Micro = Collapse" | "next_stage Collapse = Reset" | "next_stage Reset = Trim"
| "next_stage Trim = Trim"

fun consecutive :: "stage \<Rightarrow> stage list \<Rightarrow> bool" where
  "consecutive s [] = True"
| "consecutive s (x # xs) = (x = s \<and> consecutive (next_stage s) xs)"

definition head_length :: "ladder_input \<Rightarrow> nat" where
  "head_length li = nat (max 0 (int (length (l_history li)) - max 0 (l_tail li)))"

text \<open>What holds of a state when a stage is about to run.\<close>

definition ready :: "ladder_input \<Rightarrow> stage \<Rightarrow> ladder_state \<Rightarrow> bool" where
  "ready li s st \<longleftrightarrow>
     (case s of
        Snip \<Rightarrow> s_history st = l_history li \<and> s_displaced st = []
      | Trim \<Rightarrow> resolved (l_history li) (s_history st) (s_displaced st)
      | _ \<Rightarrow> aligned (head_length li) (l_history li) (s_history st) (s_displaced st))"

lemma ready_resolved: "ready li s st \<Longrightarrow> resolved (l_history li) (s_history st) (s_displaced st)"
  using aligned_start [of "head_length li" "l_history li"] by (cases s) (auto simp: ready_def intro: aligned_resolved)

lemma stage_in_simps [simp]:
  "si_history (stage_in li target st) = s_history st" "si_displaced (stage_in li target st) = s_displaced st"
  by (simp_all add: stage_in_def)

lemma aligned_tailStart:
  "aligned n (l_history li) (s_history st) disp \<Longrightarrow> tailStart (stage_in li target st) = head_length li"
  by (simp add: tailStart_def stage_in_def head_length_def aligned_length)

lemma ready_step:
  assumes r: "ready li s st" and ok: "s = Collapse \<longrightarrow> \<not> o_changed (fst (run_stage li target s st))"
  shows "ready li (next_stage s) (after_stage s st (run_stage li target s st))"
proof -
  let ?si = "stage_in li target st"
  have t: "aligned n (l_history li) (s_history st) disp \<Longrightarrow> tailStart ?si = head_length li" for n disp
    by (rule aligned_tailStart)
  show ?thesis
  proof (cases s)
    case Snip
    with r have h: "s_history st = l_history li" "s_displaced st = []" by (simp_all add: ready_def)
    then have "tailStart ?si = head_length li" by (intro t [of 0 "[]"]) simp
    with Snip h snip_aligned [of ?si] show ?thesis by (simp add: ready_def run_stage_def Let_def split_beta)
  next
    case Micro
    with r have a: "aligned (head_length li) (l_history li) (s_history st) (s_displaced st)" by (simp add: ready_def)
    with Micro micro_aligned [of ?si "l_history li"] t [OF a] show ?thesis by (simp add: ready_def run_stage_def Let_def split_beta)
  next
    case Collapse
    with ok run_stage_sound [of li target st s] have "o_messages (fst (run_stage li target s st)) = s_history st"
      "o_displaced (fst (run_stage li target s st)) = s_displaced st" by (simp_all add: stage_sound_def)
    with Collapse r show ?thesis by (simp add: ready_def)
  next
    case Reset
    with r have a: "aligned (head_length li) (l_history li) (s_history st) (s_displaced st)" by (simp add: ready_def)
    with Reset reset_resolved [of ?si "l_history li"] t [OF a] show ?thesis by (simp add: ready_def run_stage_def Let_def split_beta)
  next
    case Trim
    with r trim_resolved [of "l_history li" ?si] show ?thesis by (simp add: ready_def run_stage_def Let_def split_beta)
  qed
qed

lemma loop_stages_grow: "set (s_stages st) \<subseteq> set (s_stages (ladder_loop li target ss st))"
proof (induction ss arbitrary: st)
  case (Cons s ss)
  from Cons.IH [of "after_stage s st (run_stage li target s st)"] show ?case by auto
qed simp

definition no_collapse :: "stage_record list \<Rightarrow> bool" where
  "no_collapse rs \<longleftrightarrow> (\<forall>r \<in> set rs. sr_stage r = Collapse \<longrightarrow> \<not> sr_changed r)"

lemma loop_resolved:
  assumes "ready li s st" "consecutive s ss" "no_collapse (s_stages (ladder_loop li target ss st))"
  shows "resolved (l_history li) (s_history (ladder_loop li target ss st)) (s_displaced (ladder_loop li target ss st))"
  using assms
proof (induction ss arbitrary: s st)
  case Nil
  then show ?case by (simp add: ready_resolved)
next
  case (Cons x ss)
  show ?case
  proof (cases "historyTokens (s_history st) \<le> target")
    case True
    with Cons.prems show ?thesis by (simp add: ready_resolved)
  next
    case False
    let ?st = "after_stage x st (run_stage li target x st)"
    have x: "x = s" "consecutive (next_stage s) ss" using Cons.prems by simp_all
    have rec: "no_collapse (s_stages (ladder_loop li target ss ?st))" using Cons.prems False by simp
    then have "no_collapse (s_stages ?st)" using loop_stages_grow [of ?st li target ss] by (auto simp: no_collapse_def)
    then have "x = Collapse \<longrightarrow> \<not> o_changed (fst (run_stage li target x st))" by (simp add: no_collapse_def)
    then have "ready li (next_stage s) ?st" using Cons.prems(1) x ready_step [of li s st target] by simp
    from Cons.IH [OF this x(2) rec] False show ?thesis by simp
  qed
qed

lemma consecutive_order: "consecutive Snip (take n STAGE_ORDER)"
  by (simp add: STAGE_ORDER_def take_Cons split: nat.split)

text \<open>C26. Unless \<open>collapse\<close> changed the history, every message a run leaves is one it was given, a digest the run wrote, or
  an observation whose text names the id of a displaced entry that is handed over to be stored and holds the observation's
  original text.\<close>

theorem artifacts_resolve:
  assumes "no_collapse (r_stages (runLadder li))" "m \<in> set (r_history (runLadder li))"
  shows "m \<in> set (l_history li) \<or> m_origin m = Some Digest \<or>
    (\<exists>d \<in> set (r_displaced (runLadder li)). \<exists>m0 \<in> set (l_history li). altered d m0 m)"
proof (cases "deepestStage (l_thresholds li) (fractionOf li (l_history li))")
  case None
  with assms show ?thesis by (simp add: runLadder_def Let_def)
next
  case (Some p)
  then obtain s i where p: "deepestStage (l_thresholds li) (fractionOf li (l_history li)) = Some (s, i)" by (cases p) auto
  define out where "out = ladder_loop li (historyTargetFor li (targetFraction (l_thresholds li) i)) (take (i + 1) STAGE_ORDER) (start_state li)"
  have run: "r_stages (runLadder li) = s_stages out" "r_history (runLadder li) = s_history out"
    "r_displaced (runLadder li) = map snd (s_displaced out)"
    by (simp_all add: runLadder_def p Let_def out_def)
  have "resolved (l_history li) (s_history out) (s_displaced out)"
    unfolding out_def
  proof (rule loop_resolved)
    show "ready li Snip (start_state li)" by (simp add: ready_def start_state_def)
    show "consecutive Snip (take (i + 1) STAGE_ORDER)" by (rule consecutive_order)
    show "no_collapse (s_stages (ladder_loop li (historyTargetFor li (targetFraction (l_thresholds li) i)) (take (i + 1) STAGE_ORDER) (start_state li)))"
      using assms(1) unfolding run out_def .
  qed
  moreover obtain j where "j < length (s_history out)" "m = s_history out ! j" using assms(2) by (auto simp: run in_set_conv_nth)
  ultimately have "resolved_at (l_history li) (map_of (s_displaced out) j) m" by (simp add: resolved_def)
  then show ?thesis
    unfolding resolved_at_def run by (auto dest: map_of_SomeD intro: rev_bexI [of "(j, d)" for d])
       (metis (no_types, lifting) image_eqI map_of_SomeD snd_conv)
qed

section \<open>Where the code falls short of its comments\<close>

text \<open>A history with one displaced observation among the turns \<open>collapse\<close> keeps.\<close>

definition demo_observation :: message where
  "demo_observation = (plain_message Tool (replicate 140 (CHR ''x'')))\<lparr>m_origin := Some Observation\<rparr>"

definition demo_history :: "message list" where
  "demo_history = [plain_message User ''a'', plain_message Assistant (replicate 300 (CHR ''y'')), plain_message User ''b'',
     demo_observation, plain_message User ''c'']"

definition demo_input :: ladder_input where
  "demo_input = \<lparr>l_history = demo_history, l_tail = 0, l_budget = 163, l_fixed = 0, l_thresholds = demo_thresholds,
     l_calibration = UNCALIBRATED, l_summarise = Some (\<lambda>ms. Some ''d'')\<rparr>"

lemma demo_cost: "map cost demo_history = [5, 83, 5, 41, 5]"
  by code_simp

text \<open>The entry \<open>micro\<close> displaces.\<close>

definition demo_entry :: displaced where
  "demo_entry = displacementFor [] 3 demo_observation (cost demo_observation)"

lemma demo_entry: "d_slug demo_entry = None" "d_tokens demo_entry = 41" "d_id demo_entry = derivedId ''obs'' (replicate 140 (CHR ''x''))"
proof -
  have c: "cost demo_observation = 41" using demo_cost by (simp add: demo_history_def)
  have u: "\<not> holdsUntrusted (replicate 140 (CHR ''x''))" by code_simp
  have "slugOf demo_observation = None" by code_simp
  with c u show "d_slug demo_entry = None" "d_tokens demo_entry = 41" "d_id demo_entry = derivedId ''obs'' (replicate 140 (CHR ''x''))"
    by (simp_all add: demo_entry_def displacementFor_def displacedId_def artifactId_def artifactPrefix_def demo_observation_def plain_message_def)
qed

lemma demo_pointer: "estimateMessageTokens (pointer demo_entry) = 28"
proof -
  have r: "radix_str 36 140 = ''3w''" by code_simp
  have n: "nat_str 41 = ''41''" by code_simp
  have "\<forall>c \<in> set (fnv1a s). c \<noteq> NL" for s
    using fnv_chars [of s] by (auto simp: list_all_iff id_char_def is_digit_def is_lower_def NL_def)
  then have nl: "newlines (fnv1a s) = 0" for s by (simp add: newlines_def filter_empty_conv)
  have na: "newlines (a @ b) = newlines a + newlines b" for a b by (simp add: newlines_def)
  let ?pre = "''[compacted observation, 41 tokens '' @ [EM_DASH] @ '' read it in full with artifact_read('' @ [CHR 0x22] @ ''obs_3w_''"
  let ?post = "[CHR 0x22] @ '')]''"
  have p: "pointer demo_entry = ?pre @ fnv1a (replicate 140 (CHR ''x'')) @ ?post"
    by (simp add: pointer_def demo_entry derivedId_def n r Let_def)
  have "newlines ?pre = 0" "newlines ?post = 0" by (simp_all add: newlines_def NL_def EM_DASH_def char_of_def)
  then have "newlines (pointer demo_entry) = 0" unfolding p na nl by simp
  moreover have "length (pointer demo_entry) = 90" unfolding p by (simp add: length_fnv1a)
  ultimately show ?thesis
    by (simp add: estimateMessageTokens_def MESSAGE_OVERHEAD_TOKENS_def estimate_exact tokens_of_length_def)
qed

lemma demo_target: "deepestStage demo_thresholds (round64 (139 / 163)) = Some (Collapse, 2)"
  "historyTargetFor demo_input (targetFraction demo_thresholds 2) = 114"
  unfolding demo_input_def by code_simp+

definition demo_micro :: "message list" where
  "demo_micro = demo_history[3 := demo_observation\<lparr>m_content := pointer demo_entry\<rparr>]"

definition demo_collapsed :: "message list" where
  "demo_collapsed = digestMessage ''d'' # digestMessage DIGEST_SPINE_HEADER # plain_message User ''a'' # drop 2 demo_micro"

lemma demo_costs:
  "historyTokens demo_history = 139" "historyTokens demo_micro = 126" "historyTokens demo_collapsed = 72"
proof -
  have c: "cost (plain_message User ''a'') = 5" "cost (plain_message Assistant (replicate 300 (CHR ''y''))) = 83"
    "cost (plain_message User ''b'') = 5" "cost demo_observation = 41" "cost (plain_message User ''c'') = 5"
    using demo_cost by (simp_all add: demo_history_def)
  have p: "cost (demo_observation\<lparr>m_content := pointer demo_entry\<rparr>) = 28"
    by (simp add: cost_def demo_pointer) (simp add: calls_cost_def demo_observation_def plain_message_def)
  have d: "cost (digestMessage ''d'') = 5" "cost (digestMessage DIGEST_SPINE_HEADER) = 24" by code_simp+
  show "historyTokens demo_history = 139" "historyTokens demo_micro = 126" "historyTokens demo_collapsed = 72"
    by (simp_all add: demo_collapsed_def demo_micro_def demo_history_def c p d)
qed

lemma demo_kinds:
  "\<not> isObservation (plain_message User t)" "\<not> isObservation (plain_message Assistant t)" "isObservation demo_observation"
  "isTurnStart (plain_message User t)" "\<not> isTurnStart (plain_message Assistant t)" "\<not> isTurnStart demo_observation"
  by (simp_all add: isTurnStart_def isObservation_def plain_message_def demo_observation_def)

text \<open>The three stages of the run; \<open>snip\<close> leaves the short observation alone.\<close>

definition demo_in :: "message list \<Rightarrow> displaced_map \<Rightarrow> stage_input" where
  "demo_in h disp = \<lparr>si_history = h, si_target = 114, si_tail = 0, si_displaced = disp\<rparr>"

lemma demo_stages:
  "snip (demo_in demo_history []) = unchanged (demo_in demo_history [])"
  "micro (demo_in demo_history []) = \<lparr>o_messages = demo_micro, o_displaced = [(3, demo_entry)], o_tokens = 126, o_changed = True\<rparr>"
  "collapse (demo_in demo_micro [(3, demo_entry)]) ''d'' = \<lparr>o_messages = demo_collapsed, o_displaced = [], o_tokens = 72, o_changed = True\<rparr>"
proof -
  let ?s = "unchanged (demo_in demo_history [])"
  have n: "tailStart (demo_in h disp) = length h" for h disp by (simp add: tailStart_def demo_in_def)
  have l: "length demo_history = 5" "length demo_micro = 5" by (simp_all add: demo_history_def demo_micro_def)
  have s: "si_history (demo_in h disp) = h" "si_displaced (demo_in h disp) = disp" "si_target (demo_in h disp) = 114" for h disp
    by (simp_all add: demo_in_def)
  have obs: "cost demo_observation = 41" using demo_cost by (simp add: demo_history_def)
  have nth: "demo_history ! 0 = plain_message User ''a''" "demo_history ! Suc 0 = plain_message Assistant (replicate 300 (CHR ''y''))"
    "demo_history ! 2 = plain_message User ''b''" "demo_history ! 3 = demo_observation" "demo_history ! 4 = plain_message User ''c''"
    by (simp_all add: demo_history_def)
  have idx: "i = 0 \<or> i = 1 \<or> i = 2 \<or> i = 3 \<or> i = 4" if "i < 5" for i :: nat using that by auto
  have "snip_body [] i (demo_history ! i) = None" if "i < 5" for i
    using idx [OF that] by (elim disjE) (simp_all add: snip_body_def demo_kinds Let_def nth obs SNIP_FLOOR_TOKENS_def)
  then have "pass snip_body 5 114 i ?s = ?s" if "i \<le> 5" for i using that
  proof (induction "5 - i" arbitrary: i)
    case 0
    then show ?case by (simp add: pass_stop)
  next
    case (Suc k)
    then have i: "i < 5" "k = 5 - Suc i" by simp_all
    with Suc have "pass snip_body 5 114 (Suc i) ?s = ?s" by simp
    moreover have "snip_body (o_displaced ?s) i (o_messages ?s ! i) = None" using Suc.prems(1) i by (simp add: s)
    ultimately show ?case by (simp add: pass_skip)
  qed
  from this [of 0] show "snip (demo_in demo_history []) = ?s" by (simp add: snip_def run_pass_def n l s Let_def)
  have skip: "pass micro_body 5 114 i st = pass micro_body 5 114 (Suc i) st"
    if "\<not> isObservation (o_messages st ! i)" for i st using that by (intro pass_skip) (simp add: micro_body_def)
  have hit: "micro_body [] 3 demo_observation = Some (demo_entry, pointer demo_entry)"
    using demo_pointer obs by (simp add: micro_body_def demo_kinds Let_def demo_entry_def)
  have at: "displace_at 3 demo_entry (pointer demo_entry) ?s =
      \<lparr>o_messages = demo_micro, o_displaced = [(3, demo_entry)], o_tokens = 126, o_changed = True\<rparr>"
  proof -
    have "cost (demo_observation\<lparr>m_content := pointer demo_entry\<rparr>) = 28"
      by (simp add: cost_def demo_pointer) (simp add: calls_cost_def demo_observation_def plain_message_def)
    then show ?thesis by (simp add: displace_at_def Let_def s nth demo_micro_def obs demo_costs)
  qed
  have "pass micro_body 5 114 0 ?s = pass micro_body 5 114 (Suc 3) (displace_at 3 demo_entry (pointer demo_entry) ?s)"
  proof -
    have "pass micro_body 5 114 0 ?s = pass micro_body 5 114 (Suc (Suc (Suc 0))) ?s"
      by (simp add: skip s nth demo_kinds numeral_2_eq_2 [symmetric])
    also have "\<dots> = pass micro_body 5 114 3 ?s" by (simp add: eval_nat_numeral)
    also have "\<dots> = pass micro_body 5 114 (Suc 3) (displace_at 3 demo_entry (pointer demo_entry) ?s)"
      by (rule pass_hit) (simp_all add: s nth hit demo_costs)
    finally show ?thesis .
  qed
  also have "\<dots> = \<lparr>o_messages = demo_micro, o_displaced = [(3, demo_entry)], o_tokens = 126, o_changed = True\<rparr>"
    unfolding at by (subst skip) (simp_all add: demo_micro_def nth demo_kinds pass_stop)
  finally show "micro (demo_in demo_history []) = \<lparr>o_messages = demo_micro, o_displaced = [(3, demo_entry)], o_tokens = 126, o_changed = True\<rparr>"
    by (simp add: micro_def run_pass_def n l s Let_def)
  have b: "filter (\<lambda>i. isTurnStart (demo_micro ! i)) [0..<5] = [0, 2, 4]"
  proof -
    have u: "[0..<5] = [0, 1, 2, 3, 4::nat]" by code_simp
    have m: "demo_micro = [plain_message User ''a'', plain_message Assistant (replicate 300 (CHR ''y'')), plain_message User ''b'',
       demo_observation\<lparr>m_content := pointer demo_entry\<rparr>, plain_message User ''c'']"
      by (simp add: demo_micro_def demo_history_def eval_nat_numeral)
    show ?thesis unfolding u m by (simp add: demo_kinds)
  qed
  have "filter isTurnStart (take 2 demo_micro) = [plain_message User ''a'']"
    by (simp add: demo_micro_def demo_history_def demo_kinds eval_nat_numeral)
  then have spine: "requestSpine demo_micro 2 DIGEST_SPINE_HEADER = [digestMessage DIGEST_SPINE_HEADER, plain_message User ''a'']"
    by (simp add: requestSpine_def)
  show "collapse (demo_in demo_micro [(3, demo_entry)]) ''d'' = \<lparr>o_messages = demo_collapsed, o_displaced = [], o_tokens = 72, o_changed = True\<rparr>"
    using demo_costs(3) by (simp add: collapse_def Let_def n l s b COLLAPSE_KEEP_TURNS_def digested_def spine demo_collapsed_def [symmetric] demo_costs)
qed

lemma demo_fraction: "fractionOf demo_input demo_history = round64 (139 / 163)"
  by (simp add: fractionOf_def demo_input_def demo_costs corrected_def UNCALIBRATED_def)

lemma demo_fields: "l_history demo_input = demo_history" "l_thresholds demo_input = demo_thresholds" "l_fixed demo_input = 0"
  by (simp_all add: demo_input_def)

lemma demo_run:
  "r_history (runLadder demo_input) = demo_collapsed" "r_displaced (runLadder demo_input) = []" "\<not> r_fellShort (runLadder demo_input)"
  "demo_observation\<lparr>m_content := pointer demo_entry\<rparr> \<in> set demo_collapsed"
  "altered demo_entry demo_observation (demo_observation\<lparr>m_content := pointer demo_entry\<rparr>)"
proof -
  let ?st0 = "start_state demo_input"
  have in0: "stage_in demo_input 114 st = demo_in (s_history st) (s_displaced st)" for st
    by (simp add: stage_in_def demo_in_def demo_input_def)
  have st0: "s_history ?st0 = demo_history" "s_displaced ?st0 = []" by (simp_all add: start_state_def demo_input_def)
  define st1 where "st1 = after_stage Snip ?st0 (run_stage demo_input 114 Snip ?st0)"
  have st1: "s_history st1 = demo_history" "s_displaced st1 = []"
    unfolding st1_def by (simp_all add: run_stage_def Let_def split_beta in0 st0 demo_stages) (simp_all add: demo_in_def)
  define st2 where "st2 = after_stage Micro st1 (run_stage demo_input 114 Micro st1)"
  have st2: "s_history st2 = demo_micro" "s_displaced st2 = [(3, demo_entry)]"
    unfolding st2_def by (simp_all add: run_stage_def Let_def split_beta in0 st1 demo_stages)
  have dig: "digestFor demo_input ms = (''d'', Model)" for ms
    by (simp add: digestFor_def demo_input_def Prelude.trim_def trim_start_def trim_end_def is_space_def)
  define st3 where "st3 = after_stage Collapse st2 (run_stage demo_input 114 Collapse st2)"
  have st3: "s_history st3 = demo_collapsed" "s_displaced st3 = []"
    unfolding st3_def by (simp_all add: run_stage_def Let_def split_beta in0 st2 dig demo_stages)
  have "ladder_loop demo_input 114 [Snip, Micro, Collapse] ?st0 = st3"
    by (simp add: st0 demo_costs st1_def [symmetric] st1 st2_def [symmetric] st2 st3_def [symmetric])
  moreover have "take (2 + 1) STAGE_ORDER = [Snip, Micro, Collapse]" by (simp add: STAGE_ORDER_def eval_nat_numeral)
  ultimately show "r_history (runLadder demo_input) = demo_collapsed" "r_displaced (runLadder demo_input) = []"
    "\<not> r_fellShort (runLadder demo_input)"
    using demo_fraction demo_target st3 demo_costs by (simp_all add: runLadder_def Let_def demo_fields)
  show "demo_observation\<lparr>m_content := pointer demo_entry\<rparr> \<in> set demo_collapsed"
    by (simp add: demo_collapsed_def demo_micro_def demo_history_def eval_nat_numeral)
  show "altered demo_entry demo_observation (demo_observation\<lparr>m_content := pointer demo_entry\<rparr>)"
    by (simp add: altered_def demo_kinds) (simp add: demo_entry_def displacementFor_def)
qed

text \<open>\<open>collapse\<close> keeps its newest turns with the pointers \<open>micro\<close> has just left in them and forgets the entries those
  pointers name: in this run nothing is handed over to be stored, and the history tells the model to read an artifact by an
  id that is stored nowhere.\<close>

theorem collapse_strands_pointer:
  "let res = runLadder demo_input in
   r_displaced res = [] \<and> (\<exists>m \<in> set (r_history res). altered demo_entry demo_observation m) \<and> \<not> r_fellShort res"
  using demo_run by (auto simp: Let_def)

text \<open>The pointer stage and both digest stages shrink the history whenever they change it.\<close>

theorem shrinking_stages:
  assumes "plain_observations (si_history si)"
  shows "(o_changed (micro si) \<longrightarrow> historyTokens (o_messages (micro si)) < historyTokens (si_history si)) \<and>
    (o_changed (collapse si t) \<longrightarrow> historyTokens (o_messages (collapse si t)) < historyTokens (si_history si)) \<and>
    (o_changed (reset si t) \<longrightarrow> historyTokens (o_messages (reset si t)) < historyTokens (si_history si))"
  using micro_shrinks [OF assms] collapse_shrinks [of si t] reset_shrinks [of si t] run_pass_sound [of micro_body si]
    collapse_sound [of si t] reset_sound [of si t]
  by (auto simp: stage_sound_def micro_def)

theorem shrinking_stages_witness:
  "o_changed (micro (demo_in demo_history [])) \<and>
   historyTokens (o_messages (micro (demo_in demo_history []))) < historyTokens demo_history"
proof -
  have "plain_observations (si_history (demo_in demo_history []))"
    by (auto simp: demo_in_def plain_observations_def demo_history_def demo_observation_def plain_message_def calls_cost_def)
  from shrinking_stages [OF this, of "''d''"] show ?thesis by (simp add: demo_stages) (simp add: demo_in_def)
qed

text \<open>The same history in a larger window: only the first two stages are authorised.\<close>

definition roomy_input :: ladder_input where
  "roomy_input = demo_input\<lparr>l_budget := 190\<rparr>"

lemma roomy_target: "deepestStage demo_thresholds (round64 (139 / 190)) = Some (Micro, 1)"
  "historyTargetFor roomy_input (targetFraction demo_thresholds 1) = 114"
  unfolding roomy_input_def demo_input_def by code_simp+

theorem artifacts_resolve_witness:
  "\<exists>d \<in> set (r_displaced (runLadder roomy_input)). \<exists>m0 \<in> set demo_history.
     altered d m0 (demo_observation\<lparr>m_content := pointer demo_entry\<rparr>)"
proof -
  have in0: "stage_in roomy_input 114 st = demo_in (s_history st) (s_displaced st)" for st
    by (simp add: stage_in_def demo_in_def demo_input_def roomy_input_def)
  let ?st0 = "start_state roomy_input"
  have f: "l_history roomy_input = demo_history" "l_thresholds roomy_input = demo_thresholds"
    by (simp_all add: roomy_input_def demo_fields)
  have st0: "s_history ?st0 = demo_history" "s_displaced ?st0 = []" "s_stages ?st0 = []" by (simp_all add: start_state_def f)
  define st1 where "st1 = after_stage Snip ?st0 (run_stage roomy_input 114 Snip ?st0)"
  have st1: "s_history st1 = demo_history" "s_displaced st1 = []" "no_collapse (s_stages st1)"
    unfolding st1_def by (simp_all add: run_stage_def Let_def split_beta in0 st0 demo_stages no_collapse_def) (simp_all add: demo_in_def)
  define st2 where "st2 = after_stage Micro st1 (run_stage roomy_input 114 Micro st1)"
  have st2: "s_history st2 = demo_micro" "s_displaced st2 = [(3, demo_entry)]" "no_collapse (s_stages st2)"
    using st1(3) unfolding st2_def by (simp_all add: run_stage_def Let_def split_beta in0 st1 demo_stages no_collapse_def)
  have "ladder_loop roomy_input 114 [Snip, Micro] ?st0 = st2"
    by (simp add: st0 demo_costs st1_def [symmetric] st1 st2_def [symmetric])
  moreover have "take (1 + 1) STAGE_ORDER = [Snip, Micro]" by (simp add: STAGE_ORDER_def eval_nat_numeral)
  moreover have "fractionOf roomy_input demo_history = round64 (139 / 190)"
    by (simp add: fractionOf_def roomy_input_def demo_input_def demo_costs corrected_def UNCALIBRATED_def)
  ultimately have run: "r_history (runLadder roomy_input) = demo_micro" "r_stages (runLadder roomy_input) = s_stages st2"
    using roomy_target st2 by (simp_all add: runLadder_def Let_def f)
  let ?m = "demo_observation\<lparr>m_content := pointer demo_entry\<rparr>"
  have "?m \<in> set (r_history (runLadder roomy_input))"
    unfolding run by (simp add: demo_micro_def demo_history_def eval_nat_numeral)
  with artifacts_resolve [of roomy_input ?m] run st2 f
  have "?m \<in> set demo_history \<or> m_origin ?m = Some Digest \<or>
    (\<exists>d \<in> set (r_displaced (runLadder roomy_input)). \<exists>m0 \<in> set demo_history. altered d m0 ?m)" by simp
  moreover have "m_origin ?m \<noteq> Some Digest" by (simp add: demo_observation_def)
  moreover have "?m \<notin> set demo_history"
  proof
    assume "?m \<in> set demo_history"
    then have "cost ?m \<in> {5, 83, 41}" using demo_cost by (auto simp: demo_history_def)
    moreover have "cost ?m = 28"
      by (simp add: cost_def demo_pointer) (simp add: calls_cost_def demo_observation_def plain_message_def)
    ultimately show False by simp
  qed
  ultimately show ?thesis by blast
qed

theorem ladder_records_witness:
  "\<exists>k \<le> 3. map sr_stage (r_stages (runLadder demo_input)) = take k STAGE_ORDER \<and>
     chained 114 139 (r_stages (runLadder demo_input)) 72 \<and> \<not> r_fellShort (runLadder demo_input)"
proof -
  have "deepestStage (l_thresholds demo_input) (fractionOf demo_input (l_history demo_input)) = Some (Collapse, 2)"
    using demo_target by (simp add: demo_fields demo_fraction)
  moreover have "historyTargetFor demo_input (targetFraction (l_thresholds demo_input) 2) = 114"
    using demo_target by (simp add: demo_fields)
  ultimately show ?thesis
    using ladder_records [of demo_input] demo_run(1,3) by (auto simp: demo_costs demo_fields Let_def eval_nat_numeral)
qed

section \<open>What the turn loop and the spine do with digests\<close>

text \<open>The turn loop measures its own trace against the length the history had when the turn began. Once a run of the
  ladder has shortened that history by \<open>k\<close> messages to \<open>h\<close>, a later step protects only what the trace exceeds \<open>k\<close> by: of
  a trace of at most \<open>k\<close> messages, nothing.\<close>

theorem trace_protection_lost:
  "tail_of (turn_tail (length h + k) (h @ trace)) (h @ trace) = drop k trace"
proof (cases "k \<le> length trace")
  case True
  then have "nat (max 0 (int (length (h @ trace)) - max 0 (turn_tail (length h + k) (h @ trace)))) = length h + k"
    by (simp add: turn_tail_def)
  then show ?thesis by (simp add: tail_of_def)
next
  case False
  then have "nat (max 0 (int (length (h @ trace)) - max 0 (turn_tail (length h + k) (h @ trace)))) = length h + length trace"
    by (simp add: turn_tail_def)
  with False show ?thesis by (simp add: tail_of_def)
qed

lemma digest_is_turn_start: "isTurnStart (digestMessage t)"
  by (simp add: isTurnStart_def isObservation_def digestMessage_def plain_message_def)

text \<open>An earlier digest is kept as if it were a request, so digests accumulate in front of one another, and the mechanical
  digest counts it as a message from the person.\<close>

theorem digests_accumulate:
  "requestSpine (digestMessage t # h) (Suc n) header = digestMessage header # digestMessage t # filter isTurnStart (take n h)"
  by (simp add: requestSpine_def digest_is_turn_start)

end
