(* ===== verification/Scopes.thy ===== *)
theory Scopes
  imports Prelude
begin

text \<open>
  Which memory a turn may read and how shared memory is named (\<open>memory/scopes.ts\<close>, and the session sources of
  \<open>memory/conversation.ts\<close>). A scope is its string, as in the source.
\<close>

section \<open>Names\<close>

definition SESSION_SOURCE_PREFIX :: string where "SESSION_SOURCE_PREFIX = ''session:''"
definition SCOPE_SOURCE_PREFIX :: string where "SCOPE_SOURCE_PREFIX = ''scope:''"

definition isSessionSource :: "string \<Rightarrow> bool" where
  "isSessionSource source = starts_with SESSION_SOURCE_PREFIX source"

definition isScopeSource :: "string \<Rightarrow> bool" where
  "isScopeSource source = starts_with SCOPE_SOURCE_PREFIX source"

definition noteSource :: "string \<Rightarrow> string \<Rightarrow> string" where
  "noteSource scope noteId = SCOPE_SOURCE_PREFIX @ scope @ ''/'' @ noteId"

text \<open>\<open>rest.slice(0, rest.lastIndexOf("/"))\<close>.\<close>

definition scopeOfSource :: "string \<Rightarrow> string option" where
  "scopeOfSource source =
     (if \<not> isScopeSource source then None
      else (case index_of (CHR ''/'') (rev (drop (length SCOPE_SOURCE_PREFIX) source)) of
              None \<Rightarrow> None
            | Some i \<Rightarrow> Some (take (length source - length SCOPE_SOURCE_PREFIX - 1 - i) (drop (length SCOPE_SOURCE_PREFIX) source))))"

definition describeScope :: "string \<Rightarrow> string" where
  "describeScope scope =
     (if scope = ''space'' then ''the team's shared memory''
      else if starts_with ''owner:'' scope then ''the notes '' @ drop 6 scope @ '' shares with their agents''
      else if starts_with ''project:'' scope then ''project '' @ drop 8 scope @ [CHR 0x27] @ ''s shared memory''
      else if starts_with ''agents:'' scope then ''what '' @ drop 7 scope @ [CHR 0x27] @ ''s agents remember, shared among them''
      else scope)"

definition parseScope :: "string \<Rightarrow> string option" where
  "parseScope v =
     (if v = ''space'' then Some ''space''
      else (case split_on (CHR '':'') v of
              kind # rest \<Rightarrow>
                (let sid = join_with '':'' rest in
                 if sid = [] then None
                 else if kind = ''owner'' then Some (''owner:'' @ sid)
                 else if kind = ''project'' then Some (''project:'' @ sid)
                 else if kind = ''agents'' then Some (''agents:'' @ sid)
                 else None)
            | [] \<Rightarrow> None))"

definition scopeCorpus :: "string \<Rightarrow> string" where
  "scopeCorpus scope = ''~'' @ scope"

section \<open>The reading plan\<close>

datatype conversation_kind = Room | Dm

record read_input =
  ri_standingInFor :: "string option"
  ri_askedFor :: "string option"
  ri_conversation :: "(conversation_kind \<times> string) option"
  ri_owner :: "string option"
  ri_projects :: "string list"
  ri_shared :: "bool option"

record read_plan =
  rp_private :: bool
  rp_scopes :: "string list"
  rp_owner :: "string option"
  rp_pool :: "string option"

definition owner_scope :: "string option \<Rightarrow> string list" where
  "owner_scope own = (case own of None \<Rightarrow> [] | Some p \<Rightarrow> [''owner:'' @ p])"

definition readPlan :: "read_input \<Rightarrow> read_plan" where
  "readPlan ri =
     (if ri_askedFor ri \<noteq> None \<and> (ri_owner ri = None \<or> ri_askedFor ri \<noteq> ri_owner ri)
      then \<lparr>rp_private = False,
            rp_scopes = owner_scope (ri_owner ri) @ [''space''] @
              (if ri_owner ri = None then map (\<lambda>i. ''project:'' @ i) (ri_projects ri) else []),
            rp_owner = ri_owner ri, rp_pool = None\<rparr>
      else (case ri_standingInFor ri of
         Some p \<Rightarrow> \<lparr>rp_private = False, rp_scopes = [''owner:'' @ p, ''space''], rp_owner = ri_owner ri, rp_pool = None\<rparr>
       | None \<Rightarrow>
           (let shared = owner_scope (ri_owner ri) @ [''space''] @ map (\<lambda>i. ''project:'' @ i) (ri_projects ri);
                ownDm = (case ri_conversation ri of Some (Dm, author) \<Rightarrow> ri_owner ri = Some author | _ \<Rightarrow> False);
                isPrivate = (ri_conversation ri = None \<or> ownDm);
                pool = (case ri_owner ri of
                          Some p \<Rightarrow> if isPrivate \<and> ri_shared ri \<noteq> Some False then Some (''agents:'' @ p) else None
                        | None \<Rightarrow> None)
            in \<lparr>rp_private = isPrivate,
                rp_scopes = (case pool of None \<Rightarrow> shared | Some q \<Rightarrow> shared @ [q]),
                rp_owner = ri_owner ri, rp_pool = pool\<rparr>)))"

section \<open>Naming is unambiguous\<close>

lemma index_of_middle: "x \<notin> set xs \<Longrightarrow> index_of x (xs @ x # ys) = Some (length xs)"
  by (induction xs) auto

text \<open>A note's source names its scope, whatever the scope is, when the note's id has no slash.\<close>

theorem note_scope_round_trip:
  assumes "CHR ''/'' \<notin> set noteId" shows "scopeOfSource (noteSource scope noteId) = Some scope"
proof -
  have "rev (drop (length SCOPE_SOURCE_PREFIX) (noteSource scope noteId)) = rev noteId @ CHR ''/'' # rev scope"
    by (simp add: noteSource_def)
  then have "index_of (CHR ''/'') (rev (drop (length SCOPE_SOURCE_PREFIX) (noteSource scope noteId))) = Some (length noteId)"
    using index_of_middle [of "CHR ''/''" "rev noteId" "rev scope"] assms by simp
  then show ?thesis by (simp add: scopeOfSource_def isScopeSource_def) (simp add: noteSource_def)
qed

lemma join_split: "join_with [c] (split_on c s) = s"
proof (induction s)
  case (Cons x s)
  obtain w ws where w: "split_on c s = w # ws" by (cases "split_on c s") simp_all
  with Cons show ?case by (cases ws) auto
qed simp

text \<open>A scope that parses is the text it was parsed from.\<close>

theorem parse_scope_identity: "parseScope v = Some s \<Longrightarrow> s = v"
proof -
  assume s: "parseScope v = Some s"
  obtain k r where kr: "split_on (CHR '':'') v = k # r" by (cases "split_on (CHR '':'') v") (auto simp: split_on_not_Nil)
  have v: "v = join_with '':'' (k # r)" using join_split [of "CHR '':''" v] kr by simp
  show ?thesis
  proof (cases "v = ''space''")
    case True
    with s show ?thesis by (simp add: parseScope_def)
  next
    case False
    with s kr have "r \<noteq> []" by (auto simp: parseScope_def Let_def split: if_splits)
    then have "v = k @ '':'' @ join_with '':'' r" using v by (cases r) simp_all
    with s kr False show ?thesis by (auto simp: parseScope_def Let_def split: if_splits)
  qed
qed

section \<open>Who reads what\<close>

text \<open>The turn is one in which private memory may be read: nobody is stood in for, nobody but the owner asked, and either no
  conversation is involved or it is the owner's own direct message.\<close>

definition private_turn :: "read_input \<Rightarrow> bool" where
  "private_turn ri \<longleftrightarrow>
     ri_standingInFor ri = None \<and>
     (ri_askedFor ri = None \<or> ri_owner ri \<noteq> None \<and> ri_askedFor ri = ri_owner ri) \<and>
     (case ri_conversation ri of None \<Rightarrow> True | Some (k, author) \<Rightarrow> k = Dm \<and> ri_owner ri = Some author)"

text \<open>A teammate's turn for somebody other than the owner.\<close>

definition turn_for_other :: "read_input \<Rightarrow> bool" where
  "turn_for_other ri = (case ri_askedFor ri of None \<Rightarrow> False
     | Some p \<Rightarrow> (case ri_owner ri of None \<Rightarrow> True | Some q \<Rightarrow> p \<noteq> q))"

lemma turn_for_other_iff:
  "turn_for_other ri \<longleftrightarrow> ri_askedFor ri \<noteq> None \<and> (ri_owner ri = None \<or> ri_askedFor ri \<noteq> ri_owner ri)"
  by (auto simp: turn_for_other_def split: option.splits)

lemma readPlan_scopes:
  "rp_private (readPlan ri) = private_turn ri \<and>
   rp_pool (readPlan ri) = (if private_turn ri \<and> ri_shared ri \<noteq> Some False then map_option (\<lambda>p. ''agents:'' @ p) (ri_owner ri) else None) \<and>
   {p. ''agents:'' @ p \<in> set (rp_scopes (readPlan ri))} =
     (if private_turn ri \<and> ri_shared ri \<noteq> Some False then set_option (ri_owner ri) else {}) \<and>
   {p. ''owner:'' @ p \<in> set (rp_scopes (readPlan ri))} =
     (if ri_askedFor ri \<noteq> None \<and> (ri_owner ri = None \<or> ri_askedFor ri \<noteq> ri_owner ri) \<or> ri_standingInFor ri = None
      then set_option (ri_owner ri) else set_option (ri_standingInFor ri)) \<and>
   {p. ''project:'' @ p \<in> set (rp_scopes (readPlan ri))} =
     (if ri_askedFor ri \<noteq> None \<and> (ri_owner ri = None \<or> ri_askedFor ri \<noteq> ri_owner ri)
      then (if ri_owner ri = None then set (ri_projects ri) else {})
      else if ri_standingInFor ri = None then set (ri_projects ri) else {})"
  by (intro conjI; auto simp: readPlan_def private_turn_def owner_scope_def Let_def split: option.splits prod.splits conversation_kind.splits if_splits)

text \<open>C31. Private memory is read in exactly the turns described above; the pool of a person's agents only in such a turn of an
  agent of that person that takes part in it; another person's notes only while standing in for them; and project notes never
  while standing in, nor for somebody else unless the agent belongs to nobody.\<close>

theorem read_plan_confined:
  "rp_private (readPlan ri) = private_turn ri \<and>
   rp_pool (readPlan ri) = (if private_turn ri \<and> ri_shared ri \<noteq> Some False then map_option (\<lambda>p. ''agents:'' @ p) (ri_owner ri) else None) \<and>
   {p. ''agents:'' @ p \<in> set (rp_scopes (readPlan ri))} =
     (if private_turn ri \<and> ri_shared ri \<noteq> Some False then set_option (ri_owner ri) else {}) \<and>
   {p. ''owner:'' @ p \<in> set (rp_scopes (readPlan ri))} =
     (if turn_for_other ri \<or> ri_standingInFor ri = None
      then set_option (ri_owner ri) else set_option (ri_standingInFor ri)) \<and>
   {p. ''project:'' @ p \<in> set (rp_scopes (readPlan ri))} =
     (if turn_for_other ri
      then (if ri_owner ri = None then set (ri_projects ri) else {})
      else if ri_standingInFor ri = None then set (ri_projects ri) else {})"
  unfolding turn_for_other_iff by (rule readPlan_scopes)

end
