(* ===== verification/Assemble.thy ===== *)
theory Assemble
  imports Compaction Scopes "HOL-Library.Multiset"
begin

text \<open>
  The assembly of the prompt (\<open>context/assemble.ts\<close>) from the slots of \<open>context/blocks.ts\<close>. An absent optional field of the input is \<open>None\<close>, an absent list is
  empty, an absent \<open>protectedTail\<close> is 0 and an absent \<open>traceAfterInput\<close> is \<open>False\<close>: the source treats each pair alike.
\<close>

section \<open>Slots and blocks\<close>

datatype slot_name = S_identity | S_tools | S_config | S_examples | S_volatile | S_skill | S_knowledge | S_digest | S_history
  | S_reminder | S_memory | S_note | S_input | S_error

fun SLOT :: "slot_name \<Rightarrow> nat" where
  "SLOT S_identity = 0" | "SLOT S_tools = 1" | "SLOT S_config = 2" | "SLOT S_examples = 3" | "SLOT S_volatile = 4"
| "SLOT S_skill = 5" | "SLOT S_knowledge = 6" | "SLOT S_digest = 7" | "SLOT S_history = 8" | "SLOT S_reminder = 9"
| "SLOT S_memory = 10" | "SLOT S_note = 11" | "SLOT S_input = 12" | "SLOT S_error = 13"

record context_block =
  b_slot :: nat
  b_role :: msg_role
  b_content :: string
  b_pinned :: bool
  b_tokens :: int
  b_label :: string
  b_message :: "message option"

definition VOLATILE_END :: string where
  "VOLATILE_END = ''That is everything I already know; the person's message follows separately.''"
definition REMINDER_END :: string where
  "REMINDER_END = ''End of my restated instructions; the person's message follows separately.''"
definition MEMORY_END :: string where
  "MEMORY_END = ''End of the remembered excerpt; the person's message follows separately.''"
definition NOTE_HEADER :: string where
  "NOTE_HEADER = ''From the application this conversation runs in, about the next message. The person did not write this.''"
definition REMINDER_HEADER :: string where
  "REMINDER_HEADER = ''From my own instructions, restated each turn so I keep them in mind. The person did not write this.''"
definition VOLATILE_HEADER :: string where
  "VOLATILE_HEADER = ''What I already know, carried from before this conversation and kept current. '' @
     ''Not a transcript '' @ [EM_DASH] @ '' these are standing facts about the person I work for and my own working notes. '' @
     ''If they ask what I know or remember about them, this is the answer.''"

definition skillHeader :: "string \<Rightarrow> string" where
  "skillHeader name = ''The '' @ name @ '' procedure applies to what I have just been asked, so I am following it. '' @
     ''These are steps to carry out, not background '' @ [EM_DASH] @ '' where they are specific, they outrank my '' @ ''general approach.''"

section \<open>Assembly\<close>

record passage =
  p_source :: string
  p_at :: string
  p_text :: string
  p_because :: "string option"

record skill_entry =
  k_name :: string
  k_content :: string
  k_role :: msg_role

record knowledge_entry =
  n_name :: string
  n_content :: string

record assemble_input =
  ai_identity :: string
  ai_volatile :: "string option"
  ai_examples :: "string option"
  ai_config :: "string option"
  ai_skills :: "skill_entry list"
  ai_knowledge :: "knowledge_entry list"
  ai_memory :: "passage list"
  ai_reminder :: "string option"
  ai_tools :: "context_block list"
  ai_history :: "message list"
  ai_tail :: int
  ai_trace_after :: bool
  ai_input :: string
  ai_note :: "string option"
  ai_images :: "string list"
  ai_error :: "string option"
  ai_window :: int
  ai_reserve :: int

record assembled =
  ac_blocks :: "context_block list"
  ac_messages :: "message list"
  ac_total :: int
  ac_budget :: int
  ac_dropped :: int

definition IMAGE_TOKENS :: int where "IMAGE_TOKENS = 1600"

definition block :: "slot_name \<Rightarrow> msg_role \<Rightarrow> string \<Rightarrow> bool \<Rightarrow> string \<Rightarrow> context_block" where
  "block slot r content pinned label =
     \<lparr>b_slot = SLOT slot, b_role = r, b_content = content, b_pinned = pinned,
      b_tokens = estimateMessageTokens content, b_label = label, b_message = None\<rparr>"

definition messageCost :: "message \<Rightarrow> int" where
  "messageCost m =
     (case m_calls m of
        None \<Rightarrow> estimateMessageTokens (m_content m)
      | Some ts \<Rightarrow> if ts = [] then estimateMessageTokens (m_content m)
                   else estimateMessageTokens (m_content m) + estimateTokens (json_calls ts))"

definition blank :: "string \<Rightarrow> bool" where
  "blank s \<longleftrightarrow> Prelude.trim s = []"

text \<open>\<open>field !== undefined && field.trim() !== ""\<close>.\<close>

definition given :: "string option \<Rightarrow> (string \<Rightarrow> context_block) \<Rightarrow> context_block list" where
  "given field f = (case field of None \<Rightarrow> [] | Some s \<Rightarrow> if blank s then [] else [f s])"

definition NLNL :: string where "NLNL = [NL, NL]"

definition provenance :: "passage \<Rightarrow> string" where
  "provenance p =
     (if isSessionSource (p_source p)
      then ''From a different, earlier conversation ('' @ drop (length SESSION_SOURCE_PREFIX) (p_source p) @ ''), on '' @ p_at p @
           ''. It is not part of this conversation: use it as background, and do not continue its task unless asked to:''
      else (case scopeOfSource (p_source p) of
              Some scope \<Rightarrow> ''From '' @ describeScope scope @ '', noted '' @ p_at p @ '':''
            | None \<Rightarrow> ''From '' @ p_source p @ '', learned '' @ p_at p @ '':''))"

definition because_line :: "passage \<Rightarrow> string" where
  "because_line p =
     (case p_because p of None \<Rightarrow> []
      | Some b \<Rightarrow> if blank b then [] else [NL] @ ''Found via the earlier reply: '' @ Prelude.trim b)"

definition memory_block :: "passage \<Rightarrow> context_block" where
  "memory_block p = block S_memory User
     (''# Remembered'' @ NLNL @ provenance p @ because_line p @ NLNL @ p_text p @ NLNL @ MEMORY_END) False (''memory:'' @ p_source p)"

definition input_block :: "assemble_input \<Rightarrow> context_block" where
  "input_block ai =
     (let plain = block S_input User (ai_input ai) True ''input'' in
      if ai_images ai = [] then plain
      else plain\<lparr>b_tokens := b_tokens plain + IMAGE_TOKENS * int (length (ai_images ai)),
                 b_message := Some ((plain_message User (ai_input ai))\<lparr>m_images := ai_images ai\<rparr>)\<rparr>)"

text \<open>The array \<open>pinned\<close>, in the order of its pushes.\<close>

definition pinned_blocks :: "assemble_input \<Rightarrow> context_block list" where
  "pinned_blocks ai =
     (if blank (ai_identity ai) then [] else [block S_identity System (ai_identity ai) True ''identity'']) @
     ai_tools ai @
     given (ai_config ai) (\<lambda>c. block S_config System c True ''configuration'') @
     given (ai_examples ai) (\<lambda>c. block S_examples User c True ''workspace-examples'') @
     given (ai_volatile ai) (\<lambda>c. block S_volatile User (VOLATILE_HEADER @ NLNL @ c @ NLNL @ VOLATILE_END) True ''workspace-volatile'') @
     map (\<lambda>k. block S_skill (k_role k) (skillHeader (k_name k) @ NLNL @ k_content k) False (''skill:'' @ k_name k))
       (filter (\<lambda>k. \<not> blank (k_content k)) (ai_skills ai)) @
     map (\<lambda>n. block S_knowledge System (n_content n) False (''knowledge:'' @ n_name n))
       (filter (\<lambda>n. \<not> blank (n_content n)) (ai_knowledge ai)) @
     map memory_block (filter (\<lambda>p. \<not> blank (p_text p)) (ai_memory ai)) @
     given (ai_reminder ai) (\<lambda>c. block S_reminder User (REMINDER_HEADER @ NLNL @ c @ NLNL @ REMINDER_END) True ''workspace-reminder'') @
     (case ai_note ai of None \<Rightarrow> [] | Some n \<Rightarrow> if n = [] then [] else [block S_note System (NOTE_HEADER @ NLNL @ n) True ''note'']) @
     [input_block ai] @
     (case ai_error ai of None \<Rightarrow> [] | Some e \<Rightarrow> if e = [] then [] else [block S_error System (''Last error: '' @ e) True ''last-error''])"

definition block_tokens :: "context_block list \<Rightarrow> int" where
  "block_tokens bs = foldl (\<lambda>sum b. sum + b_tokens b) 0 bs"

definition tail_from :: "assemble_input \<Rightarrow> nat" where
  "tail_from ai =
     nat (max 0 (int (length (ai_history ai)) - max 0 (min (ai_tail ai) (int (length (ai_history ai))))))"

text \<open>The walk from the newest message; \<open>i\<close> messages are left, and the result holds what is kept and how many were dropped.\<close>

fun keep_walk :: "message list \<Rightarrow> nat \<Rightarrow> nat \<Rightarrow> int \<Rightarrow> message list \<Rightarrow> message list \<times> nat" where
  "keep_walk h tailFrom 0 remaining kept = (kept, 0)"
| "keep_walk h tailFrom (Suc i) remaining kept =
     (let m = h ! i; c = messageCost m in
      if c > remaining \<and> i < tailFrom then (kept, i + 1)
      else keep_walk h tailFrom i (remaining - c) (m # kept))"

text \<open>The rescue of the person's requests from the dropped range, newest first.\<close>

fun rescue :: "int \<Rightarrow> int \<Rightarrow> message list \<Rightarrow> message list \<Rightarrow> message list" where
  "rescue ceil spent [] rescued = rescued"
| "rescue ceil spent (m # ms) rescued =
     (if spent + messageCost m > ceil then rescued else rescue ceil (spent + messageCost m) ms (m # rescued))"

definition history_block :: "message \<Rightarrow> context_block" where
  "history_block m = (block S_history (m_role m) (m_content m) False ''history'')\<lparr>b_tokens := messageCost m, b_message := Some m\<rparr>"

definition in_slot :: "slot_name \<Rightarrow> context_block list \<Rightarrow> context_block list" where
  "in_slot s bs = filter (\<lambda>b. b_slot b = SLOT s) bs"

definition ordered_blocks :: "context_block list \<Rightarrow> context_block list \<Rightarrow> context_block list \<Rightarrow> context_block list" where
  "ordered_blocks pinned prior trace =
     in_slot S_identity pinned @ in_slot S_tools pinned @ in_slot S_config pinned @ in_slot S_examples pinned @
     in_slot S_volatile pinned @ in_slot S_skill pinned @ in_slot S_knowledge pinned @ prior @
     in_slot S_reminder pinned @ in_slot S_memory pinned @ in_slot S_note pinned @ in_slot S_input pinned @ trace @
     in_slot S_error pinned"

text \<open>The index the last block with \<open>P\<close> has, counted from \<open>i\<close>.\<close>

fun last_index :: "('a \<Rightarrow> bool) \<Rightarrow> nat \<Rightarrow> 'a list \<Rightarrow> nat option" where
  "last_index P i [] = None"
| "last_index P i (x # xs) =
     (case last_index P (i + 1) xs of Some j \<Rightarrow> Some j | None \<Rightarrow> if P x then Some i else None)"

definition plain_of :: "context_block \<Rightarrow> message" where
  "plain_of b =
     (let plain = (case b_message b of Some m \<Rightarrow> m | None \<Rightarrow> plain_message (b_role b) (b_content b)) in
      if b_slot b = SLOT S_input then plain\<lparr>m_turn_input := True\<rparr> else plain)"

definition messagesOf :: "context_block list \<Rightarrow> message list" where
  "messagesOf blocks =
     (let lastStatic = last_index (\<lambda>b. b_slot b \<le> SLOT S_examples) 0 blocks;
          skill = last_index (\<lambda>b. b_slot b = SLOT S_skill) 0 blocks
      in map (\<lambda>(i, b). if lastStatic = Some i \<or> skill = Some i then (plain_of b)\<lparr>m_breakpoint := True\<rparr> else plain_of b)
           (enumerate 0 blocks))"

text \<open>Which messages of the history go in: those rescued and those kept, and how many were lost.\<close>

definition select_history :: "assemble_input \<Rightarrow> message list \<times> int" where
  "select_history ai =
     (let budget = max 1 (ai_window ai - ai_reserve ai);
          pinnedTokens = block_tokens (pinned_blocks ai);
          (kept, dropped) = keep_walk (ai_history ai) (tail_from ai) (length (ai_history ai)) (budget - pinnedTokens) [];
          spent = pinnedTokens + foldl (\<lambda>sum m. sum + messageCost m) 0 kept;
          rescued = rescue (max budget (ai_window ai)) spent (rev (filter isTurnStart (take dropped (ai_history ai)))) []
      in (rescued @ kept, int dropped - int (length rescued)))"

definition assembleContext :: "assemble_input \<Rightarrow> assembled result" where
  "assembleContext ai =
     (let budget = max 1 (ai_window ai - ai_reserve ai);
          pinned = pinned_blocks ai;
          (kept, dropped) = select_history ai;
          historyBlocks = map history_block kept;
          traceCount = (if ai_trace_after ai then nat (min (int (length historyBlocks)) (max 0 (ai_tail ai))) else 0);
          prior = take (length historyBlocks - traceCount) historyBlocks;
          trace = drop (length historyBlocks - traceCount) historyBlocks;
          blocks = ordered_blocks pinned prior trace
      in if length blocks \<noteq> length pinned + length historyBlocks then Inl ''Error''
         else Inr \<lparr>ac_blocks = blocks, ac_messages = messagesOf blocks, ac_total = block_tokens blocks,
                   ac_budget = budget, ac_dropped = dropped\<rparr>)"

definition reassemble :: "context_block list \<Rightarrow> int \<Rightarrow> int \<Rightarrow> assembled" where
  "reassemble blocks budget dropped =
     (let counted = map (\<lambda>b. if b_tokens b = estimateMessageTokens (b_content b) then b
                             else b\<lparr>b_tokens := estimateMessageTokens (b_content b)\<rparr>) blocks
      in \<lparr>ac_blocks = counted, ac_messages = messagesOf counted, ac_total = block_tokens counted,
          ac_budget = budget, ac_dropped = dropped\<rparr>)"

section \<open>Reports\<close>

record slot_row =
  sl_slot :: nat
  sl_label :: string
  sl_tokens :: int
  sl_pinned :: bool

fun add_slot :: "slot_row list \<Rightarrow> context_block \<Rightarrow> slot_row list" where
  "add_slot [] b = [\<lparr>sl_slot = b_slot b, sl_label = b_label b, sl_tokens = b_tokens b, sl_pinned = b_pinned b\<rparr>]"
| "add_slot (r # rs) b =
     (if sl_slot r = b_slot b then r\<lparr>sl_tokens := sl_tokens r + b_tokens b\<rparr> # rs else r # add_slot rs b)"

definition slotReport :: "context_block list \<Rightarrow> slot_row list" where
  "slotReport blocks = sort_key sl_slot (foldl add_slot [] blocks)"

definition historyKind :: "context_block \<Rightarrow> string" where
  "historyKind b =
     (let origin = Option.bind (b_message b) m_origin in
      if origin = Some Observation then ''tool results''
      else if origin = Some Call then ''tool calls''
      else if origin = Some Repair then ''repairs''
      else if origin = Some Digest then ''digests''
      else if b_role b = Tool then ''tool results''
      else if b_role b = User then ''what you said''
      else ''assistant replies'')"

record kind_row =
  kr_label :: string
  kr_tokens :: int
  kr_messages :: nat

fun add_kind :: "kind_row list \<Rightarrow> context_block \<Rightarrow> kind_row list" where
  "add_kind [] b = [\<lparr>kr_label = historyKind b, kr_tokens = b_tokens b, kr_messages = 1\<rparr>]"
| "add_kind (r # rs) b =
     (if kr_label r = historyKind b then r\<lparr>kr_tokens := kr_tokens r + b_tokens b, kr_messages := kr_messages r + 1\<rparr> # rs
      else r # add_kind rs b)"

definition historyReport :: "context_block list \<Rightarrow> kind_row list" where
  "historyReport blocks =
     sort_key (\<lambda>r. - kr_tokens r) (foldl add_kind [] (filter (\<lambda>b. b_slot b = SLOT S_history) blocks))"

section \<open>Selecting the history\<close>

lemma messageCost_cost: "messageCost m = cost m"
  by (simp add: messageCost_def cost_def calls_cost_def split: option.split)

lemma foldl_cost: "foldl (\<lambda>sum m. sum + messageCost m) n ms = n + historyTokens ms"
  by (induction ms arbitrary: n) (simp_all add: messageCost_cost)

lemma block_tokens_sum: "block_tokens bs = sum_list (map b_tokens bs)"
proof -
  have "foldl (\<lambda>sum b. sum + b_tokens b) n bs = n + sum_list (map b_tokens bs)" for n
    by (induction bs arbitrary: n) simp_all
  then show ?thesis by (simp add: block_tokens_def)
qed

lemma tail_from_le: "tail_from ai \<le> length (ai_history ai)"
  by (simp add: tail_from_def)


lemma keep_walk_spec:
  assumes "i \<le> length h" "kept = drop i h"
  shows "\<exists>d \<le> i. keep_walk h tf i rem kept = (drop d h, d) \<and> (d \<noteq> 0 \<longrightarrow> d \<le> tf)"
  using assms
proof (induction h tf i rem kept rule: keep_walk.induct)
  case (1 h tf rem kept)
  then show ?case by simp
next
  case (2 h tf i rem kept)
  show ?case
  proof (cases "messageCost (h ! i) > rem \<and> i < tf")
    case True
    with 2 show ?thesis by (intro exI [of _ "Suc i"]) (simp add: Let_def)
  next
    case False
    have "h ! i # kept = drop i h" using 2(2,3) by (simp add: Cons_nth_drop_Suc)
    with 2(1) [OF refl refl] False 2(2) obtain d where "d \<le> i"
      "keep_walk h tf i (rem - messageCost (h ! i)) (h ! i # kept) = (drop d h, d)" "d \<noteq> 0 \<longrightarrow> d \<le> tf" by auto
    with False show ?thesis by (intro exI [of _ d]) (auto simp: Let_def)
  qed
qed

text \<open>The kept messages fit what was left, unless the protected tail alone does not.\<close>

lemma keep_walk_cost:
  assumes "i \<le> length h" "kept = drop i h" "rem = rem0 - historyTokens kept" "i < tf \<longrightarrow> historyTokens kept \<le> rem0"
  shows "historyTokens (fst (keep_walk h tf i rem kept)) \<le> max rem0 (historyTokens (drop tf h))"
  using assms
proof (induction h tf i rem kept rule: keep_walk.induct)
  case (1 h tf rem kept)
  then show ?case by (cases "tf = 0") auto
next
  case (2 h tf i rem kept)
  show ?case
  proof (cases "messageCost (h ! i) > rem \<and> i < tf")
    case True
    then have "Suc i < tf \<or> Suc i = tf" by auto
    with True 2(3-5) show ?thesis by (auto simp: Let_def)
  next
    case False
    have k: "h ! i # kept = drop i h" using 2(2,3) by (simp add: Cons_nth_drop_Suc)
    have "cost (h ! i) + historyTokens kept = historyTokens (drop i h)" by (simp flip: k)
    then have "historyTokens (fst (keep_walk h tf i (rem - messageCost (h ! i)) (h ! i # kept))) \<le> max rem0 (historyTokens (drop tf h))"
      by (intro 2(1) [OF refl refl]) (use False 2(2,4) k in \<open>auto simp: messageCost_cost\<close>)
    with False show ?thesis by (auto simp: Let_def)
  qed
qed

lemma rescue_spec:
  "\<exists>k \<le> length ms. rescue c spent ms acc = rev (take k ms) @ acc \<and>
     (spent + historyTokens (take k ms) \<le> max spent c) \<and> (k < length ms \<longrightarrow> spent + historyTokens (take (Suc k) ms) > c)"
proof (induction ms arbitrary: spent acc)
  case Nil
  then show ?case by simp
next
  case (Cons m ms)
  show ?case
  proof (cases "spent + messageCost m > c")
    case True
    then show ?thesis by (intro exI [of _ 0]) (simp add: messageCost_cost)
  next
    case False
    obtain k where "k \<le> length ms" "rescue c (spent + messageCost m) ms (m # acc) = rev (take k ms) @ m # acc"
      "spent + messageCost m + historyTokens (take k ms) \<le> max (spent + messageCost m) c"
      "k < length ms \<longrightarrow> spent + messageCost m + historyTokens (take (Suc k) ms) > c"
      using Cons.IH [of "spent + messageCost m" "m # acc"] by blast
    with False show ?thesis by (intro exI [of _ "Suc k"]) (auto simp: messageCost_cost algebra_simps)
  qed
qed

lemma historyTokens_pos: "ms \<noteq> [] \<Longrightarrow> 0 < historyTokens ms"
proof (induction ms)
  case (Cons m ms)
  then show ?case using cost_pos [of m] by (cases "ms = []") (simp_all add: historyTokens_sum)
qed simp

text \<open>The selected history: some of the person's requests from the dropped part, then everything after it.\<close>

lemma select_history_spec:
  fixes ai :: assemble_input
  defines "budget \<equiv> max 1 (ai_window ai - ai_reserve ai)" and "pt \<equiv> block_tokens (pinned_blocks ai)"
  shows "\<exists>d k. d \<le> tail_from ai \<and> k \<le> length (filter isTurnStart (take d (ai_history ai))) \<and>
    select_history ai = (drop k (filter isTurnStart (take d (ai_history ai))) @ drop d (ai_history ai),
      int d - int (length (filter isTurnStart (take d (ai_history ai))) - k)) \<and>
    pt + historyTokens (drop d (ai_history ai)) \<le> max budget (pt + historyTokens (drop (tail_from ai) (ai_history ai))) \<and>
    (drop k (filter isTurnStart (take d (ai_history ai))) \<noteq> [] \<longrightarrow>
       pt + historyTokens (fst (select_history ai)) \<le> max budget (ai_window ai))"
proof -
  let ?h = "ai_history ai" and ?tf = "tail_from ai"
  obtain d where d: "d \<le> length ?h" "keep_walk ?h ?tf (length ?h) (budget - pt) [] = (drop d ?h, d)" "d \<noteq> 0 \<longrightarrow> d \<le> ?tf"
    using keep_walk_spec [of "length ?h" ?h "[]" ?tf "budget - pt"] by auto
  have kc: "historyTokens (drop d ?h) \<le> max (budget - pt) (historyTokens (drop ?tf ?h))"
    using keep_walk_cost [of "length ?h" ?h "[]" "budget - pt" "budget - pt" ?tf] d(2) tail_from_le [of ai] by simp
  let ?req = "filter isTurnStart (take d ?h)"
  obtain j where j: "j \<le> length ?req"
    "rescue (max budget (ai_window ai)) (pt + historyTokens (drop d ?h)) (rev ?req) [] = rev (take j (rev ?req))"
    "pt + historyTokens (drop d ?h) + historyTokens (take j (rev ?req)) \<le> max (pt + historyTokens (drop d ?h)) (max budget (ai_window ai))"
    using rescue_spec [of "rev ?req" "max budget (ai_window ai)" "pt + historyTokens (drop d ?h)" "[]"] by auto
  have r: "rev (take j (rev ?req)) = drop (length ?req - j) ?req" by (simp add: take_rev)
  have sum_rev: "historyTokens (rev xs) = historyTokens xs" for xs
    by (simp add: historyTokens_sum sum_list_rev flip: rev_map)
  have sel: "select_history ai = (drop (length ?req - j) ?req @ drop d ?h, int d - int (length ?req - (length ?req - j)))"
    using d(2) j(1,2) r by (simp add: select_history_def Let_def budget_def [symmetric] pt_def [symmetric] foldl_cost)
  have tk: "historyTokens (drop (length ?req - j) ?req) = historyTokens (take j (rev ?req))"
    using r sum_rev by metis
  have "pt + historyTokens (fst (select_history ai)) \<le> max budget (ai_window ai)" if "drop (length ?req - j) ?req \<noteq> []"
  proof -
    have "0 < historyTokens (take j (rev ?req))"
      unfolding tk [symmetric] by (rule historyTokens_pos [OF that])
    with j(3) tk sel show ?thesis by (simp add: max_def split: if_splits)
  qed
  moreover have "pt + historyTokens (drop d ?h) \<le> max budget (pt + historyTokens (drop ?tf ?h))" using kc by linarith
  moreover have "d \<le> ?tf" using d(3) by (cases "d = 0") auto
  ultimately show ?thesis using sel by (intro exI [of _ d] exI [of _ "length ?req - j"]) simp
qed

section \<open>The blocks\<close>

definition emitted :: "nat set" where
  "emitted = {0, 1, 2, 3, 4, 5, 6, 9, 10, 11, 12, 13}"

lemma in_slot_simps [simp]:
  "in_slot s [] = []" "in_slot s (as @ bs) = in_slot s as @ in_slot s bs"
  "in_slot s (b # bs) = (if b_slot b = SLOT s then b # in_slot s bs else in_slot s bs)"
  by (simp_all add: in_slot_def)

lemma ordered_length:
  "length (ordered_blocks p a b) = length (filter (\<lambda>x. b_slot x \<in> emitted) p) + length a + length b"
  by (induction p) (auto simp: ordered_blocks_def emitted_def)


lemma block_slot [simp]: "b_slot (block s r c p l) = SLOT s"
  by (simp add: block_def)

lemma input_block_slot [simp]: "b_slot (input_block ai) = SLOT S_input"
  by (simp add: input_block_def Let_def)

lemma given_slot: "b \<in> set (given f (\<lambda>c. block s r (g c) p l)) \<Longrightarrow> b_slot b = SLOT s"
  by (auto simp: given_def split: option.splits if_splits)

lemma in_slot_given:
  "in_slot t (given f (\<lambda>c. block s r (g c) p l)) = (if SLOT s = SLOT t then given f (\<lambda>c. block s r (g c) p l) else [])"
  by (simp add: given_def split: option.split)

lemma in_slot_map:
  "in_slot t (map (\<lambda>x. block s (r x) (c x) p (l x)) xs) = (if SLOT s = SLOT t then map (\<lambda>x. block s (r x) (c x) p (l x)) xs else [])"
  by (induction xs) auto

lemma memory_block_slot [simp]: "b_slot (memory_block p) = SLOT S_memory"
  by (simp add: memory_block_def)

lemma in_slot_memory: "in_slot t (map memory_block xs) = (if SLOT S_memory = SLOT t then map memory_block xs else [])"
  by (induction xs) auto

lemma history_block_simps [simp]:
  "b_slot (history_block m) = SLOT S_history" "b_tokens (history_block m) = messageCost m" "b_message (history_block m) = Some m"
  by (simp_all add: history_block_def)

lemma emitted_simps [simp]:
  "0 \<in> emitted" "Suc 0 \<in> emitted" "2 \<in> emitted" "3 \<in> emitted" "4 \<in> emitted" "5 \<in> emitted" "6 \<in> emitted"
  "9 \<in> emitted" "10 \<in> emitted" "11 \<in> emitted" "12 \<in> emitted" "13 \<in> emitted"
  by (simp_all add: emitted_def)

lemma list_all_given: "(\<And>c. P (f c)) \<Longrightarrow> list_all P (given field f)"
  by (simp add: given_def split: option.split)

lemma pinned_slots:
  "list_all (\<lambda>b. b_slot b \<in> emitted) (pinned_blocks ai) \<longleftrightarrow> list_all (\<lambda>b. b_slot b \<in> emitted) (ai_tools ai)"
proof -
  have g: "list_all (\<lambda>b. b_slot b \<in> emitted) (given field (\<lambda>c. block s r (g c) p l))" if "SLOT s \<in> emitted" for field s r g p l
    using that by (intro list_all_given) simp
  have m: "list_all (\<lambda>b. b_slot b \<in> emitted) (map f xs)" if "\<And>x. b_slot (f x) \<in> emitted" for f and xs :: "'x list"
    using that by (simp add: list_all_iff)
  show ?thesis
    unfolding pinned_blocks_def list_all_append
    by (simp add: g [where g = "\<lambda>c. c"] g m split: option.split)
qed

lemma pinned_filter:
  "length (filter (\<lambda>x. b_slot x \<in> emitted) (pinned_blocks ai)) = length (pinned_blocks ai) \<longleftrightarrow> (\<forall>b \<in> set (ai_tools ai). b_slot b \<in> emitted)"
proof -
  have "set (ai_tools ai) \<subseteq> set (pinned_blocks ai)" by (auto simp: pinned_blocks_def)
  moreover have "length (filter P xs) = length xs \<longleftrightarrow> (\<forall>x \<in> set xs. P x)" for P and xs :: "context_block list"
    by (metis filter_True length_filter_less less_irrefl)
  ultimately show ?thesis using pinned_slots [of ai] by (simp add: list_all_iff)
qed

definition trace_count :: "assemble_input \<Rightarrow> nat \<Rightarrow> nat" where
  "trace_count ai n = (if ai_trace_after ai then nat (min (int n) (max 0 (ai_tail ai))) else 0)"

lemma assemble_unfold:
  fixes ai :: assemble_input
  defines "hb \<equiv> map history_block (fst (select_history ai))"
  defines "bs \<equiv> ordered_blocks (pinned_blocks ai) (take (length hb - trace_count ai (length hb)) hb) (drop (length hb - trace_count ai (length hb)) hb)"
  shows "assembleContext ai =
    (if \<forall>b \<in> set (ai_tools ai). b_slot b \<in> emitted
     then Inr \<lparr>ac_blocks = bs, ac_messages = messagesOf bs, ac_total = block_tokens bs,
        ac_budget = max 1 (ai_window ai - ai_reserve ai), ac_dropped = snd (select_history ai)\<rparr>
     else Inl ''Error'')"
proof -
  have "length bs = length (filter (\<lambda>x. b_slot x \<in> emitted) (pinned_blocks ai)) + length hb"
    by (simp add: bs_def ordered_length)
  then have "length bs \<noteq> length (pinned_blocks ai) + length hb \<longleftrightarrow> \<not> (\<forall>b \<in> set (ai_tools ai). b_slot b \<in> emitted)"
    using pinned_filter [of ai] by simp
  moreover have "assembleContext ai =
      (if length bs \<noteq> length (pinned_blocks ai) + length hb then Inl ''Error''
       else Inr \<lparr>ac_blocks = bs, ac_messages = messagesOf bs, ac_total = block_tokens bs,
        ac_budget = max 1 (ai_window ai - ai_reserve ai), ac_dropped = snd (select_history ai)\<rparr>)"
    unfolding assembleContext_def Let_def split_beta bs_def hb_def trace_count_def ..
  ultimately show ?thesis by (simp only: if_not_P if_P not_not split: if_split) blast
qed

text \<open>Assembly fails exactly when a tool block has a slot the ordering does not list.\<close>

theorem assembly_total: "assembleContext ai = Inl e \<longleftrightarrow> e = ''Error'' \<and> (\<exists>b \<in> set (ai_tools ai). b_slot b \<notin> emitted)"
  by (auto simp: assemble_unfold)


text \<open>What an assembly leaves out of the history is what it reports, the protected tail is whole at the end of what it
  keeps, and everything kept before is contiguous but for requests of the person from further back.\<close>

theorem history_selection:
  assumes "assembleContext ai = Inr c"
  shows "\<exists>old d. fst (select_history ai) = old @ drop d (ai_history ai) \<and> d \<le> tail_from ai \<and>
    (\<exists>k. old = drop k (filter isTurnStart (take d (ai_history ai)))) \<and>
    ac_dropped c = int (length (ai_history ai)) - int (length (fst (select_history ai)))"
proof -
  from select_history_spec [of ai] obtain d k where d: "d \<le> tail_from ai" "k \<le> length (filter isTurnStart (take d (ai_history ai)))"
    "select_history ai = (drop k (filter isTurnStart (take d (ai_history ai))) @ drop d (ai_history ai),
      int d - int (length (filter isTurnStart (take d (ai_history ai))) - k))" by blast
  have "d \<le> length (ai_history ai)" using d(1) tail_from_le [of ai] by simp
  moreover have "ac_dropped c = snd (select_history ai)" using assms by (auto simp: assemble_unfold split: if_splits)
  ultimately show ?thesis using d by (intro exI [of _ "drop k (filter isTurnStart (take d (ai_history ai)))"] exI [of _ d]) auto
qed

section \<open>The cached prefix\<close>

definition static_blocks :: "assemble_input \<Rightarrow> context_block list" where
  "static_blocks ai = in_slot S_identity (pinned_blocks ai) @ in_slot S_tools (pinned_blocks ai) @ in_slot S_config (pinned_blocks ai) @
     in_slot S_examples (pinned_blocks ai)"

lemma static_explicit:
  "static_blocks ai =
     (if blank (ai_identity ai) then [] else [block S_identity System (ai_identity ai) True ''identity'']) @
     in_slot S_identity (ai_tools ai) @ in_slot S_tools (ai_tools ai) @ in_slot S_config (ai_tools ai) @
     given (ai_config ai) (\<lambda>c. block S_config System c True ''configuration'') @ in_slot S_examples (ai_tools ai) @
     given (ai_examples ai) (\<lambda>c. block S_examples User c True ''workspace-examples'')"
  unfolding static_blocks_def pinned_blocks_def
  by (simp add: in_slot_given [where g = "\<lambda>c. c"] in_slot_given in_slot_map in_slot_memory split: option.split)

lemma static_agree:
  assumes "ai_identity a = ai_identity b" "ai_tools a = ai_tools b" "ai_config a = ai_config b" "ai_examples a = ai_examples b"
  shows "static_blocks a = static_blocks b"
  by (simp add: static_explicit assms)

lemma static_slots: "b \<in> set (static_blocks ai) \<Longrightarrow> b_slot b \<le> SLOT S_examples"
  by (auto simp: static_blocks_def in_slot_def)

lemma last_index_append:
  "last_index P i (xs @ ys) = (case last_index P (i + length xs) ys of Some j \<Rightarrow> Some j | None \<Rightarrow> last_index P i xs)"
  by (induction xs arbitrary: i) (simp_all split: option.split)

lemma last_index_none: "(\<And>x. x \<in> set xs \<Longrightarrow> \<not> P x) \<Longrightarrow> last_index P i xs = None"
  by (induction xs arbitrary: i) simp_all

lemma last_index_all: "(\<And>x. x \<in> set xs \<Longrightarrow> P x) \<Longrightarrow> last_index P i xs = (if xs = [] then None else Some (i + length xs - 1))"
  by (induction xs arbitrary: i) auto

lemma last_index_range: "last_index P i xs = Some j \<Longrightarrow> i \<le> j \<and> j < i + length xs"
  by (induction xs arbitrary: i) (fastforce split: option.splits if_splits)+

text \<open>The messages of the static blocks, with the breakpoint on the last of them.\<close>

definition static_messages :: "context_block list \<Rightarrow> message list" where
  "static_messages st = (if st = [] then [] else map plain_of (butlast st) @ [(plain_of (last st))\<lparr>m_breakpoint := True\<rparr>])"

lemma messagesOf_static:
  assumes st: "\<And>b. b \<in> set st \<Longrightarrow> b_slot b \<le> SLOT S_examples" and rest: "\<And>b. b \<in> set rest \<Longrightarrow> b_slot b > SLOT S_examples"
  shows "take (length st) (messagesOf (st @ rest)) = static_messages st"
proof -
  have ls: "last_index (\<lambda>b. b_slot b \<le> SLOT S_examples) 0 (st @ rest) = (if st = [] then None else Some (length st - 1))"
    using st rest by (simp add: last_index_append last_index_none last_index_all not_le del: SLOT.simps)
  have sk: "last_index (\<lambda>b. b_slot b = SLOT S_skill) 0 (st @ rest) = Some i \<Longrightarrow> length st \<le> i" for i
  proof -
    have "last_index (\<lambda>b. b_slot b = SLOT S_skill) 0 st = None" using st by (intro last_index_none) force
    then show "last_index (\<lambda>b. b_slot b = SLOT S_skill) 0 (st @ rest) = Some i \<Longrightarrow> length st \<le> i"
      by (auto simp: last_index_append split: option.splits dest: last_index_range)
  qed
  show ?thesis
  proof (rule nth_equalityI)
    show l: "length (take (length st) (messagesOf (st @ rest))) = length (static_messages st)"
      by (simp add: messagesOf_def Let_def static_messages_def)
    fix i assume "i < length (take (length st) (messagesOf (st @ rest)))"
    then have i: "i < length st" by (simp add: messagesOf_def Let_def)
    have "last_index (\<lambda>b. b_slot b = SLOT S_skill) 0 (st @ rest) \<noteq> Some i" using sk [of i] i by auto
    with i ls have "messagesOf (st @ rest) ! i = (if i = length st - 1 then (plain_of (st ! i))\<lparr>m_breakpoint := True\<rparr> else plain_of (st ! i))"
      by (auto simp: messagesOf_def Let_def nth_enumerate_eq nth_append)
    with i show "take (length st) (messagesOf (st @ rest)) ! i = static_messages st ! i"
      by (auto simp: static_messages_def nth_append nth_butlast last_conv_nth)
  qed
qed

lemma messages_prefix:
  assumes "assembleContext ai = Inr c"
  shows "take (length (static_blocks ai)) (ac_messages c) = static_messages (static_blocks ai)"
proof -
  let ?hb = "map history_block (fst (select_history ai))"
  let ?n = "length ?hb - trace_count ai (length ?hb)"
  define rest where "rest = in_slot S_volatile (pinned_blocks ai) @ in_slot S_skill (pinned_blocks ai) @ in_slot S_knowledge (pinned_blocks ai) @
    take ?n ?hb @ in_slot S_reminder (pinned_blocks ai) @ in_slot S_memory (pinned_blocks ai) @ in_slot S_note (pinned_blocks ai) @
    in_slot S_input (pinned_blocks ai) @ drop ?n ?hb @ in_slot S_error (pinned_blocks ai)"
  have "ac_messages c = messagesOf (static_blocks ai @ rest)"
    using assms by (auto simp: assemble_unfold ordered_blocks_def static_blocks_def rest_def split: if_splits)
  moreover have "b_slot b > SLOT S_examples" if "b \<in> set rest" for b
    using that by (auto simp: rest_def in_slot_def dest!: in_set_takeD in_set_dropD)
  ultimately show ?thesis using messagesOf_static [of "static_blocks ai" rest, OF static_slots] by simp
qed

text \<open>C28. The cached prefix depends on nothing but the static tier: two assemblies with the same identity, tool blocks,
  configuration and examples open with the same messages, byte for byte and with the same breakpoint, whatever the
  history, memory, input and errors are.\<close>

theorem static_prefix:
  assumes "assembleContext a = Inr ca" "assembleContext b = Inr cb"
    and "ai_identity a = ai_identity b" "ai_tools a = ai_tools b" "ai_config a = ai_config b" "ai_examples a = ai_examples b"
  shows "take (length (static_blocks a)) (ac_messages ca) = take (length (static_blocks a)) (ac_messages cb) \<and>
    (static_blocks a \<noteq> [] \<longrightarrow> m_breakpoint (ac_messages ca ! (length (static_blocks a) - 1)))"
proof -
  have st: "static_blocks b = static_blocks a" using static_agree [OF assms(3-6)] by simp
  have pa: "take (length (static_blocks a)) (ac_messages ca) = static_messages (static_blocks a)" using messages_prefix [OF assms(1)] .
  have pb: "take (length (static_blocks a)) (ac_messages cb) = static_messages (static_blocks a)" using messages_prefix [OF assms(2)] st by simp
  have "m_breakpoint (ac_messages ca ! (length (static_blocks a) - 1))" if ne: "static_blocks a \<noteq> []"
  proof -
    have "ac_messages ca ! (length (static_blocks a) - 1) = take (length (static_blocks a)) (ac_messages ca) ! (length (static_blocks a) - 1)"
      using ne by simp
    also have "\<dots> = static_messages (static_blocks a) ! (length (static_blocks a) - 1)" by (simp only: pa)
    finally show ?thesis using ne by (simp add: static_messages_def nth_append)
  qed
  with pa pb show ?thesis by simp
qed

section \<open>Each step only appends\<close>

lemma kept_all:
  assumes "assembleContext ai = Inr c" "ac_dropped c = 0" shows "fst (select_history ai) = ai_history ai"
proof -
  from select_history_spec [of ai] obtain d k where d: "d \<le> tail_from ai" "k \<le> length (filter isTurnStart (take d (ai_history ai)))"
    "select_history ai = (drop k (filter isTurnStart (take d (ai_history ai))) @ drop d (ai_history ai),
      int d - int (length (filter isTurnStart (take d (ai_history ai))) - k))" by blast
  have "d \<le> length (ai_history ai)" using d(1) tail_from_le [of ai] by simp
  then have n: "length (take d (ai_history ai)) = d" by simp
  have "snd (select_history ai) = 0" using assms by (auto simp: assemble_unfold split: if_splits)
  with d(2,3) have "length (filter isTurnStart (take d (ai_history ai))) - k = d" by simp
  moreover have le: "length (filter isTurnStart (take d (ai_history ai))) \<le> d" using length_filter_le [of isTurnStart "take d (ai_history ai)"] n by simp
  ultimately have "length (filter isTurnStart (take d (ai_history ai))) = d" "k = 0 \<or> d = 0" by auto
  then have "filter isTurnStart (take d (ai_history ai)) = take d (ai_history ai)"
    using n by (metis filter_True length_filter_less less_irrefl)
  moreover have "drop k (filter isTurnStart (take d (ai_history ai))) = filter isTurnStart (take d (ai_history ai))"
    using \<open>k = 0 \<or> d = 0\<close> by auto
  moreover note n
  ultimately show ?thesis using d(3) by simp
qed

lemma messagesOf_history: "messagesOf (bs @ map history_block ms) = messagesOf bs @ ms"
proof -
  have "last_index P i (bs @ map history_block ms) = last_index P i bs" if "\<And>m. \<not> P (history_block m)" for P i
  proof -
    have "last_index P (i + length bs) (map history_block ms) = None" using that by (intro last_index_none) auto
    then show ?thesis by (simp add: last_index_append)
  qed
  then have ls: "last_index (\<lambda>b. b_slot b \<le> SLOT S_examples) 0 (bs @ map history_block ms) = last_index (\<lambda>b. b_slot b \<le> SLOT S_examples) 0 bs"
    and sk: "last_index (\<lambda>b. b_slot b = SLOT S_skill) 0 (bs @ map history_block ms) = last_index (\<lambda>b. b_slot b = SLOT S_skill) 0 bs" by simp_all
  have p: "plain_of (history_block m) = m" for m by (simp add: plain_of_def Let_def)
  have "map (\<lambda>(i, b). if last_index P 0 bs = Some i \<or> last_index Q 0 bs = Some i then (plain_of b)\<lparr>m_breakpoint := True\<rparr> else plain_of b)
      (enumerate (length bs) (map history_block ms)) = ms" for P Q
    by (rule nth_equalityI) (auto simp: nth_enumerate_eq p dest: last_index_range)
  then show ?thesis unfolding messagesOf_def Let_def ls sk by (simp add: enumerate_append_eq)
qed

text \<open>C29. With the trace after the input, a step only appends: when the history of the turn grows by the messages of a step and
  nothing had to be dropped, the next prompt is the previous one followed by exactly those messages.\<close>

theorem steps_append:
  assumes "assembleContext ai = Inr c" "assembleContext (ai\<lparr>ai_history := ai_history ai @ new, ai_tail := ai_tail ai + int (length new)\<rparr>) = Inr c'"
    and "ac_dropped c = 0" "ac_dropped c' = 0" "ai_trace_after ai" "0 \<le> ai_tail ai" "ai_tail ai \<le> int (length (ai_history ai))"
    and "ai_error ai = None" "\<forall>b \<in> set (ai_tools ai). b_slot b = SLOT S_tools"
  shows "ac_messages c' = ac_messages c @ new"
proof -
  let ?ai = "ai\<lparr>ai_history := ai_history ai @ new, ai_tail := ai_tail ai + int (length new)\<rparr>"
  let ?h = "ai_history ai" and ?p = "pinned_blocks ai"
  have pin: "pinned_blocks ?ai = ?p" by (simp add: pinned_blocks_def input_block_def Let_def)
  have sel: "fst (select_history ai) = ?h" "fst (select_history ?ai) = ?h @ new"
    using kept_all [OF assms(1,3)] kept_all [OF assms(2,4)] by simp_all
  let ?hb = "map history_block ?h" and ?nb = "map history_block new"
  define j where "j = length ?h - nat (ai_tail ai)"
  have tc: "trace_count ai (length ?h) = nat (ai_tail ai)" "trace_count ?ai (length (?h @ new)) = nat (ai_tail ai) + length new"
    using assms(5-7) by (simp_all add: trace_count_def nat_add_distrib)
  have err: "in_slot S_error ?p = []"
    using assms(8,9) by (auto simp: pinned_blocks_def in_slot_given [where g = "\<lambda>c. c"] in_slot_given in_slot_map in_slot_memory in_slot_def [of _ "ai_tools ai"]
        split: option.split)
  have tools: "\<forall>b \<in> set (ai_tools ai). b_slot b \<in> emitted" using assms(9) by simp
  have "j \<le> length ?h" by (simp add: j_def)
  then have cut: "take j (?hb @ ?nb) = take j ?hb" "drop j (?hb @ ?nb) = drop j ?hb @ ?nb" by simp_all
  have lens: "length ?hb - trace_count ai (length ?hb) = j" "length (?hb @ ?nb) - trace_count ?ai (length (?hb @ ?nb)) = j"
    using tc by (simp_all add: j_def)
  have c: "ac_messages c = messagesOf (ordered_blocks ?p (take j ?hb) (drop j ?hb))"
    using assms(1) tools lens(1) by (auto simp: assemble_unfold sel)
  have c': "ac_messages c' = messagesOf (ordered_blocks ?p (take j ?hb) (drop j ?hb @ ?nb))"
    using assms(2) tools lens(2) cut by (auto simp: assemble_unfold sel pin)
  have "ordered_blocks ?p (take j ?hb) (drop j ?hb @ ?nb) = ordered_blocks ?p (take j ?hb) (drop j ?hb) @ ?nb"
    by (simp add: ordered_blocks_def err)
  with c c' show ?thesis by (simp add: messagesOf_history)
qed

section \<open>Reassembly\<close>

lemma ordered_sum:
  "sum_list (map f (ordered_blocks p a b)) = sum_list (map f (filter (\<lambda>x. b_slot x \<in> emitted) p)) + sum_list (map f a) + (sum_list (map f b) :: int)"
  by (induction p) (auto simp: ordered_blocks_def emitted_def)

definition recount :: "context_block \<Rightarrow> int" where
  "recount b = estimateMessageTokens (b_content b)"

lemma reassemble_total: "ac_total (reassemble bs n d) = sum_list (map recount bs)"
  by (simp add: reassemble_def Let_def block_tokens_sum comp_def recount_def [abs_def] if_distrib cong: if_cong)

lemma recount_block [simp]: "recount (block s r c p l) = b_tokens (block s r c p l)"
  by (simp add: recount_def block_def)

lemma last_index_map: "last_index P i (map f xs) = last_index (\<lambda>x. P (f x)) i xs"
  by (induction xs arbitrary: i) (simp_all split: option.split)

lemma messagesOf_recounted:
  "messagesOf (map (\<lambda>b. if b_tokens b = g b then b else b\<lparr>b_tokens := g b\<rparr>) bs) = messagesOf bs"
proof -
  let ?f = "\<lambda>b. if b_tokens b = g b then b else b\<lparr>b_tokens := g b\<rparr>"
  have s: "b_slot (?f b) = b_slot b" "plain_of (?f b) = plain_of b" for b by (simp_all add: plain_of_def Let_def split: option.split)
  have "enumerate 0 (map ?f bs) = map (map_prod id ?f) (enumerate 0 bs)"
    by (rule nth_equalityI) (auto simp: nth_enumerate_eq)
  then show ?thesis
    unfolding messagesOf_def Let_def last_index_map s by (simp only: map_map) (auto simp: s)
qed

definition uncounted :: "context_block \<Rightarrow> int" where
  "uncounted b = b_tokens b - recount b"

lemma uncounted_simps [simp]:
  "uncounted (block s r c p l) = 0" "uncounted (memory_block p') = 0" "uncounted (history_block m) = calls_cost m"
  "uncounted (input_block ai) = IMAGE_TOKENS * int (length (ai_images ai))"
  by (simp_all add: uncounted_def memory_block_def messageCost_cost cost_def input_block_def Let_def)
     (simp_all add: recount_def history_block_def block_def)

lemma uncounted_zero: "(\<And>x. x \<in> set xs \<Longrightarrow> uncounted x = 0) \<Longrightarrow> sum_list (map uncounted xs) = 0"
  by (induction xs) simp_all

lemma uncounted_pinned:
  assumes "\<forall>b \<in> set (ai_tools ai). uncounted b = 0"
  shows "sum_list (map uncounted (pinned_blocks ai)) = IMAGE_TOKENS * int (length (ai_images ai))"
proof -
  have g: "sum_list (map uncounted (given field (\<lambda>c. block s r (g c) p l))) = 0" for field s r g p l
    by (simp add: given_def split: option.split)
  have m: "sum_list (map uncounted (map (\<lambda>x. block s (r x) (c x) p (l x)) xs)) = 0" for s r c p l xs
    by (intro uncounted_zero) auto
  have mm: "sum_list (map uncounted (map memory_block xs)) = 0" for xs by (intro uncounted_zero) auto
  have "sum_list (map uncounted (ai_tools ai)) = 0" using assms by (intro uncounted_zero) simp
  then show ?thesis
    unfolding pinned_blocks_def map_append sum_list_append g g [where g = "\<lambda>c. c"] m mm by (simp split: option.split)
qed

text \<open>Recomputing every count from the content alone forgets the arguments of tool calls and the images: a middleware that
  changes nothing makes the total of the same messages smaller by exactly their cost.\<close>

theorem reassembly_undercounts:
  assumes "assembleContext ai = Inr c" "\<forall>b \<in> set (ai_tools ai). b_tokens b = estimateMessageTokens (b_content b)"
  defines "again \<equiv> reassemble (ac_blocks c) (ac_budget c) (ac_dropped c)"
  shows "ac_messages again = ac_messages c \<and>
    ac_total again = ac_total c - sum_list (map calls_cost (fst (select_history ai))) - IMAGE_TOKENS * int (length (ai_images ai))"
proof
  let ?hb = "map history_block (fst (select_history ai))" and ?p = "pinned_blocks ai"
  from assms(1) have ok: "\<forall>b \<in> set (ai_tools ai). b_slot b \<in> emitted" by (auto simp: assemble_unfold split: if_splits)
  obtain n where bs: "ac_blocks c = ordered_blocks ?p (take n ?hb) (drop n ?hb)" "ac_messages c = messagesOf (ac_blocks c)"
    "ac_total c = sum_list (map b_tokens (ac_blocks c))"
    using assms(1) ok by (auto simp: assemble_unfold block_tokens_sum)
  show "ac_messages again = ac_messages c"
    unfolding again_def bs(2) by (simp add: reassemble_def Let_def messagesOf_recounted)
  have all: "filter (\<lambda>x. b_slot x \<in> emitted) ?p = ?p" using ok pinned_slots [of ai] by (simp add: filter_id_conv list_all_iff)
  have "sum_list (map uncounted (ac_blocks c)) = sum_list (map uncounted ?p) + (sum_list (map uncounted (take n ?hb)) + sum_list (map uncounted (drop n ?hb)))"
    unfolding bs(1) ordered_sum all by simp
  also have "sum_list (map uncounted (take n ?hb)) + sum_list (map uncounted (drop n ?hb)) = sum_list (map uncounted ?hb)"
    by (metis append_take_drop_id map_append sum_list_append)
  also have "sum_list (map uncounted ?hb) = sum_list (map calls_cost (fst (select_history ai)))" by (simp add: comp_def)
  also have "sum_list (map uncounted ?p) = IMAGE_TOKENS * int (length (ai_images ai))"
    using assms(2) by (intro uncounted_pinned) (simp add: uncounted_def recount_def)
  finally have "sum_list (map uncounted (ac_blocks c)) = IMAGE_TOKENS * int (length (ai_images ai)) + sum_list (map calls_cost (fst (select_history ai)))" .
  moreover have "sum_list (map uncounted xs) = sum_list (map b_tokens xs) - sum_list (map recount xs)" for xs
    by (induction xs) (simp_all add: uncounted_def)
  ultimately show "ac_total again = ac_total c - sum_list (map calls_cost (fst (select_history ai))) - IMAGE_TOKENS * int (length (ai_images ai))"
    by (simp add: again_def reassemble_total bs(3))
qed

section \<open>Reports\<close>

lemma add_slot_total: "sum_list (map sl_tokens (add_slot rs b)) = sum_list (map sl_tokens rs) + b_tokens b"
  by (induction rs b rule: add_slot.induct) auto

lemma add_slot_slots: "set (map sl_slot (add_slot rs b)) = insert (b_slot b) (set (map sl_slot rs))"
  by (induction rs b rule: add_slot.induct) auto

lemma add_slot_distinct: "distinct (map sl_slot rs) \<Longrightarrow> distinct (map sl_slot (add_slot rs b))"
proof (induction rs b rule: add_slot.induct)
  case (2 r rs b)
  then show ?case using add_slot_slots [of rs b] by auto
qed simp

lemma sum_list_sort_key: "sum_list (map f (sort_key k xs)) = (sum_list (map f xs) :: int)"
proof -
  have "mset (map f (sort_key k xs)) = mset (map f xs)" by simp
  then show ?thesis by (metis sum_mset_sum_list)
qed

text \<open>The report by slot has one row for each slot in use, in slot order, and its rows add up to the prompt.\<close>

theorem slot_report:
  "map sl_slot (slotReport bs) = sorted_list_of_set (set (map b_slot bs)) \<and>
   sum_list (map sl_tokens (slotReport bs)) = block_tokens bs"
proof
  have total: "sum_list (map sl_tokens (foldl add_slot rs bs)) = sum_list (map sl_tokens rs) + block_tokens bs" for rs
    by (induction bs arbitrary: rs) (simp_all add: add_slot_total block_tokens_sum)
  have slots: "set (map sl_slot (foldl add_slot rs bs)) = set (map sl_slot rs) \<union> set (map b_slot bs)" for rs
    by (induction bs arbitrary: rs) (use add_slot_slots in \<open>auto\<close>)
  have dist: "distinct (map sl_slot rs) \<Longrightarrow> distinct (map sl_slot (foldl add_slot rs bs))" for rs
    by (induction bs arbitrary: rs) (simp_all add: add_slot_distinct)
  let ?r = "foldl add_slot [] bs"
  show "sum_list (map sl_tokens (slotReport bs)) = block_tokens bs"
    by (simp add: slotReport_def sum_list_sort_key total)
  show "map sl_slot (slotReport bs) = sorted_list_of_set (set (map b_slot bs))"
  proof (rule sorted_distinct_set_unique)
    have m: "mset (map sl_slot (slotReport bs)) = mset (map sl_slot ?r)" by (simp add: slotReport_def)
    show "sorted (map sl_slot (slotReport bs))" by (simp add: slotReport_def sorted_sort_key)
    show "distinct (map sl_slot (slotReport bs))" using mset_eq_imp_distinct_iff [OF m] dist [of "[]"] by simp
    show "set (map sl_slot (slotReport bs)) = set (sorted_list_of_set (set (map b_slot bs)))"
      using mset_eq_setD [OF m] slots [of "[]"] by simp
  qed simp_all
qed

section \<open>A concrete prompt\<close>

definition demo_prompt :: "message list \<Rightarrow> int \<Rightarrow> assemble_input" where
  "demo_prompt h t = \<lparr>ai_identity = ''I am Ada.'', ai_volatile = None, ai_examples = None, ai_config = None, ai_skills = [],
     ai_knowledge = [], ai_memory = [], ai_reminder = None, ai_tools = [], ai_history = h, ai_tail = t, ai_trace_after = True,
     ai_input = ''go on'', ai_note = None, ai_images = [], ai_error = None, ai_window = 60, ai_reserve = 10\<rparr>"

definition demo_turn :: "message list" where
  "demo_turn = [plain_message User ''hi'', plain_message Assistant ''calling'', plain_message User ''result'']"

lemma demo_select:
  "select_history (demo_prompt demo_turn 1) = (demo_turn, 0)"
  "select_history (demo_prompt (demo_turn @ [plain_message Assistant ''done'']) 2) = (demo_turn @ [plain_message Assistant ''done''], 0)"
  "block_tokens (pinned_blocks (demo_prompt demo_turn 1)) = 13"
  "historyTokens demo_turn = 17"
  by code_simp+

lemma demo_assembled:
  "\<exists>c. assembleContext (demo_prompt h t) = Inr c \<and> ac_dropped c = snd (select_history (demo_prompt h t)) \<and> ac_budget c = 50"
  by (simp add: assemble_unfold demo_prompt_def)


text \<open>The comment says that neither of the two may pass the window; the protected tail does.\<close>

theorem tail_passes_window:
  "\<exists>ai c. assembleContext ai = Inr c \<and> ai_window ai = 20 \<and> ac_total c = 30"
proof -
  let ?ai = "(demo_prompt demo_turn 3)\<lparr>ai_window := 20\<rparr>"
  have "map_sum id ac_total (assembleContext ?ai) = Inr 30" by code_simp
  then obtain c where "assembleContext ?ai = Inr c" "ac_total c = 30" by (cases "assembleContext ?ai") auto
  then show ?thesis by (intro exI [of _ ?ai] exI [of _ c]) simp
qed

theorem static_prefix_witness:
  "\<exists>ca cb. assembleContext (demo_prompt demo_turn 1) = Inr ca \<and> assembleContext (demo_prompt [] 0) = Inr cb \<and>
     take 1 (ac_messages ca) = take 1 (ac_messages cb) \<and> m_breakpoint (ac_messages ca ! 0)"
proof -
  obtain ca cb where c: "assembleContext (demo_prompt demo_turn 1) = Inr ca" "assembleContext (demo_prompt [] 0) = Inr cb"
    using demo_assembled by blast
  have "\<not> blank ''I am Ada.''" by (simp add: blank_def Prelude.trim_def trim_start_def trim_end_def is_space_def)
  then have "length (static_blocks (demo_prompt demo_turn 1)) = 1"
    by (simp add: static_explicit demo_prompt_def given_def)
  with static_prefix [OF c] c show ?thesis by (auto simp: demo_prompt_def)
qed

theorem steps_append_witness:
  "\<exists>c c'. assembleContext (demo_prompt demo_turn 1) = Inr c \<and>
     assembleContext (demo_prompt (demo_turn @ [plain_message Assistant ''done'']) 2) = Inr c' \<and>
     ac_messages c' = ac_messages c @ [plain_message Assistant ''done'']"
proof -
  obtain c where c: "assembleContext (demo_prompt demo_turn 1) = Inr c" "ac_dropped c = 0"
    using demo_assembled [of demo_turn 1] by (auto simp: demo_select)
  obtain c' where c': "assembleContext (demo_prompt (demo_turn @ [plain_message Assistant ''done'']) 2) = Inr c'" "ac_dropped c' = 0"
    using demo_assembled [of "demo_turn @ [plain_message Assistant ''done'']" 2] by (auto simp: demo_select)
  have "demo_prompt (demo_turn @ [plain_message Assistant ''done'']) 2 =
      (demo_prompt demo_turn 1)\<lparr>ai_history := ai_history (demo_prompt demo_turn 1) @ [plain_message Assistant ''done''],
        ai_tail := ai_tail (demo_prompt demo_turn 1) + int (length [plain_message Assistant ''done''])\<rparr>"
    by (simp add: demo_prompt_def)
  from steps_append [OF c(1) c'(1) [unfolded this] c(2) c'(2)] c c' show ?thesis
    by (auto simp: demo_prompt_def demo_turn_def)
qed

theorem history_selection_witness:
  "\<exists>c. assembleContext (demo_prompt demo_turn 1) = Inr c \<and> ac_dropped c = int (length demo_turn) - int (length demo_turn)"
proof -
  obtain c where c: "assembleContext (demo_prompt demo_turn 1) = Inr c" using demo_assembled by blast
  from history_selection [OF c] have "ac_dropped c = int (length demo_turn) - int (length demo_turn)"
    by (auto simp: demo_select) (auto simp: demo_prompt_def)
  with c show ?thesis by blast
qed

end
