(* ===== verification/Coerce.thy ===== *)
theory Coerce
  imports Number64
begin

text \<open>
  \<open>packages/core/src/tools/coerce.ts\<close>: what a model wrote, text of a line-oriented dialect or JSON, against the fields
  a tool declares. A value is JSON, its numbers the rationals of binary64. \<open>String(number)\<close> and \<open>Number(text)\<close> follow
  ECMAScript; \<open>JSON.parse\<close> is an argument, \<open>None\<close> where it throws. The messages of field errors are reduced to
  their kind.
\<close>

section \<open>Numbers and text\<close>

text \<open>The decimal exponent \<open>n\<close> of a positive number, \<open>10 ^ (n - 1) \<le> x < 10 ^ n\<close>; 324 places reach every number.\<close>

fun lead_zeros :: "nat \<Rightarrow> rat \<Rightarrow> nat" where
  "lead_zeros 0 x = 0"
| "lead_zeros (Suc f) x = (if 1 \<le> x * 10 then 0 else Suc (lead_zeros f (x * 10)))"

definition dec_exponent :: "rat \<Rightarrow> int" where
  "dec_exponent x = (if 1 \<le> x then int (length (nat_str (nat \<lfloor>x\<rfloor>))) else - int (lead_zeros 324 x))"

text \<open>The digits \<open>s\<close> of \<open>k\<close> places that read back as \<open>x\<close>, the closest ones, the even ones of two.\<close>

definition digits_of :: "rat \<Rightarrow> int \<Rightarrow> nat \<Rightarrow> nat option" where
  "digits_of x n k =
     (let scale = 10 powi (n - int k); lo = nat \<lfloor>x / scale\<rfloor>;
          ok = (\<lambda>s. 0 < s \<and> round64 (of_nat s * scale) = x);
          d = x / scale - of_nat lo
      in if ok lo \<and> ok (lo + 1) then Some (if d < 1 / 2 \<or> d = 1 / 2 \<and> even lo then lo else lo + 1)
         else if ok lo then Some lo else if ok (lo + 1) then Some (lo + 1) else None)"

fun shortest_digits :: "rat \<Rightarrow> int \<Rightarrow> nat list \<Rightarrow> (nat \<times> nat) option" where
  "shortest_digits x n [] = None"
| "shortest_digits x n (k # ks) =
     (case digits_of x n k of Some s \<Rightarrow> Some (k, s) | None \<Rightarrow> shortest_digits x n ks)"

definition place_digits :: "int \<Rightarrow> nat \<Rightarrow> nat \<Rightarrow> string" where
  "place_digits n k s =
     (let ds = nat_str s; e = n - 1
      in if int k \<le> n \<and> n \<le> 21 then ds @ replicate (nat n - k) (CHR ''0'')
         else if 0 < n \<and> n \<le> 21 then take (nat n) ds @ ''.'' @ drop (nat n) ds
         else if -6 < n \<and> n \<le> 0 then ''0.'' @ replicate (nat (- n)) (CHR ''0'') @ ds
         else (if k = 1 then ds else take 1 ds @ ''.'' @ drop 1 ds) @ ''e'' @
              (if 0 \<le> e then ''+'' else ''-'') @ nat_str (nat \<bar>e\<bar>))"

definition positive_str :: "rat \<Rightarrow> string" where
  "positive_str x =
     (let n = dec_exponent x
      in case shortest_digits x n [1..<18] of
           None \<Rightarrow> []
         | Some (k, s) \<Rightarrow> if s = 10 ^ k then place_digits (n + 1) 1 1 else place_digits n k s)"

definition num_str :: "rat \<Rightarrow> string" where
  "num_str x = (if x = 0 then ''0'' else if x < 0 then ''-'' @ positive_str (- x) else positive_str x)"

text \<open>\<open>/(?<=\d)[,_](?=\d)/g\<close> removed; the first argument is the character before.\<close>

fun drop_separators :: "char option \<Rightarrow> string \<Rightarrow> string" where
  "drop_separators prev [] = []"
| "drop_separators prev (c # s) =
     (if (c = CHR '','' \<or> c = CHR ''_'') \<and> (case prev of None \<Rightarrow> False | Some p \<Rightarrow> is_digit p) \<and>
         (case s of [] \<Rightarrow> False | d # _ \<Rightarrow> is_digit d)
      then drop_separators (Some c) s else c # drop_separators (Some c) s)"

definition sign_of :: "string \<Rightarrow> rat \<times> string" where
  "sign_of t = (case t of c # r \<Rightarrow> if c = CHR ''-'' then (-1, r) else if c = CHR ''+'' then (1, r) else (1, t) | [] \<Rightarrow> (1, []))"

definition exponent_of :: "string \<Rightarrow> int option" where
  "exponent_of t =
     (case t of [] \<Rightarrow> Some 0
      | e # r \<Rightarrow> if e = CHR ''e'' \<or> e = CHR ''E''
                 then (case sign_of r of (g, ds) \<Rightarrow> if all_digits ds then Some ((if g < 0 then -1 else 1) * int (to_number ds)) else None)
                 else None)"

text \<open>The text where \<open>NUMERIC\<close> matches, as \<open>Number\<close> reads it; \<open>None\<close> for the others and for an infinite one.\<close>

definition number_text :: "string \<Rightarrow> rat option" where
  "number_text t =
     (case sign_of t of (g, u) \<Rightarrow>
        (let ip = takeWhile is_digit u; r = dropWhile is_digit u;
             fp = (case r of c # q \<Rightarrow> if c = CHR ''.'' then takeWhile is_digit q else [] | [] \<Rightarrow> []);
             rest = (if fp = [] then r else drop (1 + length fp) r)
         in if ip = [] \<and> fp = [] then None
            else (case exponent_of rest of
                None \<Rightarrow> None
              | Some e \<Rightarrow>
                  (let v = round64 (g * of_nat (to_number (ip @ fp)) * 10 powi (e - int (length fp)))
                   in if \<bar>v\<bar> < 2 ^ 1024 then Some v else None))))"

section \<open>Values and schemas\<close>

datatype json =
    J_null | J_bool bool | J_num rat | J_str string | J_arr "json list" | J_obj "(string \<times> json) list"

datatype jtype = Ty_string | Ty_number | Ty_integer | Ty_boolean | Ty_array | Ty_object

text \<open>A union holds the types of plain values only.\<close>

datatype node_type = One jtype | Union "jtype list"

datatype node = Node (n_type: node_type) (n_enum: "json list") (n_items: "node option") (n_default: "json option")

record tool_parameters =
  tp_properties :: "(string \<times> node) list"
  tp_required :: "string list"

fun js_string :: "json \<Rightarrow> string" where
  "js_string J_null = ''null''"
| "js_string (J_bool b) = (if b then ''true'' else ''false'')"
| "js_string (J_num x) = num_str x"
| "js_string (J_str s) = s"
| "js_string (J_arr xs) = join_with '','' (map (\<lambda>x. if x = J_null then [] else js_string x) xs)"
| "js_string (J_obj ps) = ''[object Object]''"

section \<open>Converting one value\<close>

datatype conv_error = E_text | E_number | E_whole | E_boolean | E_object | E_type | E_union | E_list | E_repeated nat | E_enum

type_synonym conv = "conv_error + json"

definition TRUTHY :: "string list" where
  "TRUTHY = [''true'', ''yes'', ''y'', ''1'', ''on'', ''enabled'']"

definition FALSY :: "string list" where
  "FALSY = [''false'', ''no'', ''n'', ''0'', ''off'', ''disabled'']"

definition whole :: "rat \<Rightarrow> bool" where
  "whole x \<longleftrightarrow> of_int \<lfloor>x\<rfloor> = x"

definition raw_number :: "json \<Rightarrow> rat option" where
  "raw_number v = (case v of J_num x \<Rightarrow> Some x | J_str s \<Rightarrow> number_text (drop_separators None (trim s)) | _ \<Rightarrow> None)"

text \<open>The switch of \<open>convertScalar\<close> on a single type.\<close>

definition scalar_as :: "(string \<Rightarrow> json option) \<Rightarrow> jtype \<Rightarrow> json \<Rightarrow> conv" where
  "scalar_as jparse ty v =
     (case ty of
        Ty_string \<Rightarrow> (case v of J_str s \<Rightarrow> Inr v | J_num x \<Rightarrow> Inr (J_str (js_string v)) | J_bool b \<Rightarrow> Inr (J_str (js_string v))
                      | _ \<Rightarrow> Inl E_text)
      | Ty_number \<Rightarrow> (case raw_number v of None \<Rightarrow> Inl E_number | Some x \<Rightarrow> Inr (J_num x))
      | Ty_integer \<Rightarrow> (case raw_number v of None \<Rightarrow> Inl E_number
                       | Some x \<Rightarrow> if whole x then Inr (J_num x) else Inl E_whole)
      | Ty_boolean \<Rightarrow> (case v of
            J_bool b \<Rightarrow> Inr v
          | J_num x \<Rightarrow> if x = 0 \<or> x = 1 then Inr (J_bool (x = 1)) else Inl E_boolean
          | J_str s \<Rightarrow> if to_lower (trim s) \<in> set TRUTHY then Inr (J_bool True)
                       else if to_lower (trim s) \<in> set FALSY then Inr (J_bool False) else Inl E_boolean
          | _ \<Rightarrow> Inl E_boolean)
      | Ty_object \<Rightarrow> (case v of
            J_obj ps \<Rightarrow> Inr v
          | J_str s \<Rightarrow> if starts_with ''{'' (trim s)
                       then (case jparse s of Some (J_obj ps) \<Rightarrow> Inr (J_obj ps) | _ \<Rightarrow> Inl E_object) else Inl E_object
          | _ \<Rightarrow> Inl E_object)
      | Ty_array \<Rightarrow> Inl E_type)"

definition own_type :: "jtype list \<Rightarrow> json \<Rightarrow> jtype option" where
  "own_type types v =
     (case v of J_str _ \<Rightarrow> Some Ty_string | J_bool _ \<Rightarrow> Some Ty_boolean
      | J_num x \<Rightarrow> Some (if whole x \<and> Ty_integer \<in> set types then Ty_integer else Ty_number) | _ \<Rightarrow> None)"

fun first_conversion :: "(string \<Rightarrow> json option) \<Rightarrow> jtype list \<Rightarrow> json \<Rightarrow> json option" where
  "first_conversion jparse [] v = None"
| "first_conversion jparse (t # ts) v =
     (if t = Ty_string then first_conversion jparse ts v
      else (case scalar_as jparse t v of Inr w \<Rightarrow> Some w | Inl _ \<Rightarrow> first_conversion jparse ts v))"

definition convertUnion :: "(string \<Rightarrow> json option) \<Rightarrow> jtype list \<Rightarrow> json \<Rightarrow> conv" where
  "convertUnion jparse types v =
     (if (case own_type types v of None \<Rightarrow> False | Some t \<Rightarrow> t \<in> set types) then Inr v
      else (case first_conversion jparse types v of
          Some w \<Rightarrow> Inr w
        | None \<Rightarrow> if Ty_string \<in> set types then scalar_as jparse Ty_string v else Inl E_union))"

definition convertScalar :: "(string \<Rightarrow> json option) \<Rightarrow> node \<Rightarrow> json \<Rightarrow> conv" where
  "convertScalar jparse nd v = (case n_type nd of Union ts \<Rightarrow> convertUnion jparse ts v | One t \<Rightarrow> scalar_as jparse t v)"

definition convertOne :: "(string \<Rightarrow> json option) \<Rightarrow> node \<Rightarrow> json \<Rightarrow> conv" where
  "convertOne jparse nd v =
     (case convertScalar jparse nd v of
        Inl e \<Rightarrow> Inl e
      | Inr w \<Rightarrow> if n_enum nd = [] then Inr w
                 else (case find (\<lambda>c. to_lower (js_string c) = trim (to_lower (js_string w))) (n_enum nd) of
                         Some c \<Rightarrow> Inr c | None \<Rightarrow> Inl E_enum))"

text \<open>\<open>/^[-*+]\s+/\<close> removed.\<close>

definition drop_bullet :: "string \<Rightarrow> string" where
  "drop_bullet s = (case s of
     b # c # r \<Rightarrow> if b \<in> set ''-*+'' \<and> is_space c then dropWhile is_space r else s | _ \<Rightarrow> s)"

definition json_list :: "(string \<Rightarrow> json option) \<Rightarrow> string \<Rightarrow> json list option" where
  "json_list jparse t = (case jparse t of Some (J_arr xs) \<Rightarrow> Some xs | _ \<Rightarrow> None)"

definition splitList :: "(string \<Rightarrow> json option) \<Rightarrow> string \<Rightarrow> node_type \<Rightarrow> json list" where
  "splitList jparse value item =
     (let t = trim value;
          parts = map J_str (filter (\<lambda>p. p \<noteq> []) (map (\<lambda>p. drop_bullet (trim p))
                    (if CHR 0x0A \<in> set t then split_on (CHR 0x0A) t else split_on (CHR '','') t)))
      in if t = [] then []
         else (case (if item = One Ty_object \<and> \<not> starts_with ''['' t then json_list jparse (''['' @ t @ '']'') else None) of
            Some xs \<Rightarrow> xs
          | None \<Rightarrow> (case (if starts_with ''['' t then json_list jparse t else None) of Some xs \<Rightarrow> xs | None \<Rightarrow> parts)))"

fun convert_items :: "(string \<Rightarrow> json option) \<Rightarrow> node \<Rightarrow> json list \<Rightarrow> conv_error + json list" where
  "convert_items jparse nd [] = Inr []"
| "convert_items jparse nd (v # vs) =
     (case convertOne jparse nd v of
        Inl e \<Rightarrow> Inl e
      | Inr w \<Rightarrow> (case convert_items jparse nd vs of Inl e \<Rightarrow> Inl e | Inr ws \<Rightarrow> Inr (w # ws)))"

definition item_node :: "node \<Rightarrow> node" where
  "item_node nd = (case n_items nd of None \<Rightarrow> Node (One Ty_string) [] None None | Some i \<Rightarrow> i)"

definition convert :: "(string \<Rightarrow> json option) \<Rightarrow> node \<Rightarrow> json \<Rightarrow> conv" where
  "convert jparse nd v =
     (if n_type nd = One Ty_array
      then (case (case v of J_arr xs \<Rightarrow> Some xs | J_str s \<Rightarrow> Some (splitList jparse s (n_type (item_node nd))) | _ \<Rightarrow> None) of
              None \<Rightarrow> Inl E_list
            | Some items \<Rightarrow> (case convert_items jparse (item_node nd) items of Inl e \<Rightarrow> Inl e | Inr ws \<Rightarrow> Inr (J_arr ws)))
      else (case v of J_arr xs \<Rightarrow> Inl (E_repeated (length xs)) | _ \<Rightarrow> convertOne jparse nd v))"

section \<open>Converting the arguments\<close>

datatype field_problem = F_unknown | F_ambiguous | F_value conv_error | F_missing

type_synonym field_error = "string \<times> field_problem"

definition normaliseKey :: "string \<Rightarrow> string" where
  "normaliseKey key = filter (\<lambda>c. \<not> (is_space c \<or> c = CHR ''_'' \<or> c = CHR ''.'' \<or> c = CHR ''-'')) (to_lower key)"

record coercing =
  co_errors :: "field_error list"
  co_args :: "string \<rightharpoonup> json"
  co_seen :: "string list"

definition field_candidates :: "tool_parameters \<Rightarrow> string \<Rightarrow> string list" where
  "field_candidates spec key = filter (\<lambda>n. normaliseKey n = normaliseKey key) (map fst (tp_properties spec))"

definition blank_value :: "json \<Rightarrow> bool" where
  "blank_value v = (case v of J_str s \<Rightarrow> trim s = [] | _ \<Rightarrow> False)"

definition coerce_written :: "(string \<Rightarrow> json option) \<Rightarrow> tool_parameters \<Rightarrow> coercing \<Rightarrow> string \<times> json \<Rightarrow> coercing" where
  "coerce_written jparse spec co kv =
     (case kv of (key, v) \<Rightarrow>
       (case field_candidates spec key of
          [] \<Rightarrow> co\<lparr>co_errors := co_errors co @ [(key, F_unknown)]\<rparr>
        | [name] \<Rightarrow>
            (case map_of (tp_properties spec) name of
               None \<Rightarrow> co
             | Some nd \<Rightarrow>
                 if blank_value v then co
                 else (let co1 = co\<lparr>co_seen := name # co_seen co\<rparr>
                   in case convert jparse nd v of
                        Inr w \<Rightarrow> co1\<lparr>co_args := (co_args co1)(name \<mapsto> w)\<rparr>
                      | Inl e \<Rightarrow> co1\<lparr>co_errors := co_errors co1 @ [(name, F_value e)]\<rparr>))
        | _ \<Rightarrow> co\<lparr>co_errors := co_errors co @ [(key, F_ambiguous)]\<rparr>))"

definition coerce_absent :: "tool_parameters \<Rightarrow> coercing \<Rightarrow> string \<times> node \<Rightarrow> coercing" where
  "coerce_absent spec co p =
     (case p of (name, nd) \<Rightarrow>
        if name \<in> set (co_seen co) then co
        else if name \<in> set (tp_required spec) then co\<lparr>co_errors := co_errors co @ [(name, F_missing)]\<rparr>
        else (case n_default nd of None \<Rightarrow> co | Some d \<Rightarrow> co\<lparr>co_args := (co_args co)(name \<mapsto> d)\<rparr>))"

definition coerceArgs :: "(string \<Rightarrow> json option) \<Rightarrow> tool_parameters \<Rightarrow> (string \<times> json) list \<Rightarrow> field_error list + (string \<rightharpoonup> json)" where
  "coerceArgs jparse spec raw =
     (let start = \<lparr>co_errors = [], co_args = Map.empty, co_seen = []\<rparr>;
          written = foldl (coerce_written jparse spec) start raw;
          co = foldl (coerce_absent spec) written (tp_properties spec)
      in if co_errors co \<noteq> [] then Inl (co_errors co) else Inr (co_args co))"

section \<open>Converted values have the declared type\<close>

definition of_type :: "jtype \<Rightarrow> json \<Rightarrow> bool" where
  "of_type t v = (case v of
     J_str _ \<Rightarrow> t = Ty_string | J_bool _ \<Rightarrow> t = Ty_boolean | J_obj _ \<Rightarrow> t = Ty_object
   | J_num x \<Rightarrow> t = Ty_number \<or> t = Ty_integer \<and> whole x | _ \<Rightarrow> False)"

definition conforms_one :: "node \<Rightarrow> json \<Rightarrow> bool" where
  "conforms_one nd v =
     (if n_enum nd \<noteq> [] then v \<in> set (n_enum nd)
      else (case n_type nd of One t \<Rightarrow> of_type t v | Union ts \<Rightarrow> list_ex (\<lambda>t. of_type t v) ts))"

definition conforms :: "node \<Rightarrow> json \<Rightarrow> bool" where
  "conforms nd v =
     (if n_type nd = One Ty_array then (case v of J_arr xs \<Rightarrow> list_all (conforms_one (item_node nd)) xs | _ \<Rightarrow> False)
      else conforms_one nd v)"

lemma scalar_as_type: "scalar_as jparse t v = Inr w \<Longrightarrow> of_type t w"
  by (auto simp: scalar_as_def of_type_def split: jtype.splits json.splits option.splits if_splits)

lemma first_conversion_type: "first_conversion jparse ts v = Some w \<Longrightarrow> list_ex (\<lambda>t. of_type t w) ts"
  by (induction ts) (auto dest: scalar_as_type split: if_splits sum.splits)

lemma own_type_of: "own_type ts v = Some t \<Longrightarrow> of_type t v"
  by (auto simp: own_type_def of_type_def split: json.splits if_splits)

lemma convertUnion_type: "convertUnion jparse ts v = Inr w \<Longrightarrow> list_ex (\<lambda>t. of_type t w) ts"
  using own_type_of [of ts v] scalar_as_type [of jparse Ty_string v w] first_conversion_type [of jparse ts v w]
  by (auto simp: convertUnion_def list_ex_iff split: if_splits option.splits)

lemma convertScalar_type:
  "convertScalar jparse nd v = Inr w \<Longrightarrow> (case n_type nd of One t \<Rightarrow> of_type t w | Union ts \<Rightarrow> list_ex (\<lambda>t. of_type t w) ts)"
  by (auto simp: convertScalar_def dest: scalar_as_type convertUnion_type split: node_type.splits)

lemma convertOne_conforms: "convertOne jparse nd v = Inr w \<Longrightarrow> conforms_one nd w"
  using convertScalar_type [of jparse nd v]
  by (auto simp: convertOne_def conforms_one_def find_Some_iff split: sum.splits if_splits option.splits)

lemma convert_items_conform: "convert_items jparse nd vs = Inr ws \<Longrightarrow> list_all (conforms_one nd) ws"
  by (induction vs arbitrary: ws) (auto dest: convertOne_conforms split: sum.splits)

lemma convert_conforms: "convert jparse nd v = Inr w \<Longrightarrow> conforms nd w"
  using convert_items_conform convertOne_conforms
  by (auto simp: convert_def conforms_def split: if_splits option.splits sum.splits json.splits)

section \<open>What coercion answers\<close>

definition last_written :: "tool_parameters \<Rightarrow> (string \<times> json) list \<Rightarrow> string \<Rightarrow> json option" where
  "last_written spec raw n =
     (case filter (\<lambda>(k, v). \<not> blank_value v \<and> field_candidates spec k = [n]) raw of [] \<Rightarrow> None | xs \<Rightarrow> Some (snd (last xs)))"

definition written_problem :: "(string \<Rightarrow> json option) \<Rightarrow> tool_parameters \<Rightarrow> string \<times> json \<Rightarrow> field_error list" where
  "written_problem jparse spec kv =
     (case kv of (key, v) \<Rightarrow> (case field_candidates spec key of
          [] \<Rightarrow> [(key, F_unknown)]
        | [name] \<Rightarrow> (if blank_value v then [] else (case map_of (tp_properties spec) name of None \<Rightarrow> []
             | Some nd \<Rightarrow> (case convert jparse nd v of Inl e \<Rightarrow> [(name, F_value e)] | Inr _ \<Rightarrow> [])))
        | _ \<Rightarrow> [(key, F_ambiguous)]))"

definition problems :: "(string \<Rightarrow> json option) \<Rightarrow> tool_parameters \<Rightarrow> (string \<times> json) list \<Rightarrow> field_error list" where
  "problems jparse spec raw =
     concat (map (written_problem jparse spec) raw) @
     map (\<lambda>(n, _). (n, F_missing))
       (filter (\<lambda>(n, _). last_written spec raw n = None \<and> n \<in> set (tp_required spec)) (tp_properties spec))"

definition written_value :: "(string \<Rightarrow> json option) \<Rightarrow> tool_parameters \<Rightarrow> (string \<times> json) list \<Rightarrow> string \<Rightarrow> json option" where
  "written_value jparse spec raw n =
     (case (last_written spec raw n, map_of (tp_properties spec) n) of
        (Some v, Some nd) \<Rightarrow> (case convert jparse nd v of Inr w \<Rightarrow> Some w | Inl _ \<Rightarrow> None) | _ \<Rightarrow> None)"

definition coerced :: "(string \<Rightarrow> json option) \<Rightarrow> tool_parameters \<Rightarrow> (string \<times> json) list \<Rightarrow> string \<Rightarrow> json option" where
  "coerced jparse spec raw n =
     (if last_written spec raw n \<noteq> None then written_value jparse spec raw n
      else (case map_of (tp_properties spec) n of
              None \<Rightarrow> None | Some nd \<Rightarrow> if n \<in> set (tp_required spec) then None else n_default nd))"

lemma last_written_snoc:
  "last_written spec (raw @ [(k, v)]) n = (if \<not> blank_value v \<and> field_candidates spec k = [n] then Some v else last_written spec raw n)"
  by (cases "filter (\<lambda>(k, v). \<not> blank_value v \<and> field_candidates spec k = [n]) raw") (simp_all add: last_written_def)

lemma candidate_property: "field_candidates spec k = [n] \<Longrightarrow> \<exists>nd. map_of (tp_properties spec) n = Some nd"
proof -
  assume "field_candidates spec k = [n]"
  then have "n \<in> set (field_candidates spec k)" by simp
  then have "n \<in> fst ` set (tp_properties spec)" by (auto simp: field_candidates_def)
  then show ?thesis by (metis domD dom_map_of_conv_image_fst)
qed

text \<open>After the first loop, when nothing was refused.\<close>

lemma written_errors:
  "co_errors (foldl (coerce_written jparse spec) co raw) = co_errors co @ concat (map (written_problem jparse spec) raw)"
proof (induction raw arbitrary: co)
  case Nil
  then show ?case by simp
next
  case (Cons kv raw)
  obtain k v where kv: "kv = (k, v)" by (cases kv)
  have "co_errors (coerce_written jparse spec co kv) = co_errors co @ written_problem jparse spec kv"
    by (auto simp: kv coerce_written_def written_problem_def Let_def split: list.split option.split sum.split)
  then show ?case by (simp add: Cons.IH)
qed

definition start :: coercing where
  "start = \<lparr>co_errors = [], co_args = Map.empty, co_seen = []\<rparr>"

lemma written_seen:
  "n \<in> set (co_seen (foldl (coerce_written jparse spec) start raw)) \<longleftrightarrow> last_written spec raw n \<noteq> None"
proof (induction raw rule: rev_induct)
  case Nil
  then show ?case by (simp add: start_def last_written_def)
next
  case (snoc kv raw)
  obtain k v where kv: "kv = (k, v)" by (cases kv)
  show ?case
  proof (cases "\<exists>m. field_candidates spec k = [m]")
    case True
    then obtain m nd where m: "field_candidates spec k = [m]" "map_of (tp_properties spec) m = Some nd" using candidate_property by blast
    with snoc show ?thesis by (auto simp: kv coerce_written_def last_written_snoc Let_def split: sum.split)
  next
    case False
    with snoc show ?thesis by (auto simp: kv coerce_written_def last_written_snoc split: list.split)
  qed
qed

lemma written_args:
  assumes "concat (map (written_problem jparse spec) raw) = []"
  shows "co_args (foldl (coerce_written jparse spec) start raw) = written_value jparse spec raw"
  using assms
proof (induction raw rule: rev_induct)
  case Nil
  then show ?case by (auto simp: start_def written_value_def last_written_def)
next
  case (snoc kv raw)
  obtain k v where kv: "kv = (k, v)" by (cases kv)
  from snoc.prems have p: "written_problem jparse spec (k, v) = []" and
    ih: "co_args (foldl (coerce_written jparse spec) start raw) = written_value jparse spec raw"
    using snoc.IH by (simp_all add: kv)
  from p obtain m where m: "field_candidates spec k = [m]"
    by (auto simp: written_problem_def split: list.splits)
  then obtain nd where nd: "map_of (tp_properties spec) m = Some nd" using candidate_property by blast
  obtain co where co: "foldl (coerce_written jparse spec) start raw = co" by simp
  have args: "co_args (coerce_written jparse spec co (k, v)) n = written_value jparse spec (raw @ [(k, v)]) n" for n
  proof (cases "blank_value v")
    case True
    with m nd ih show ?thesis by (simp add: co coerce_written_def written_value_def last_written_snoc)
  next
    case False
    with p m nd obtain w where w: "convert jparse nd v = Inr w" by (auto simp: written_problem_def split: sum.splits)
    with False m nd ih show ?thesis
      by (simp add: co coerce_written_def written_value_def last_written_snoc Let_def)
  qed
  show ?case by (rule ext) (simp add: kv co args)
qed

lemma absent_errors:
  "co_errors (foldl (coerce_absent spec) co ps) = co_errors co @ map (\<lambda>(n, _). (n, F_missing))
     (filter (\<lambda>(n, _). n \<notin> set (co_seen co) \<and> n \<in> set (tp_required spec)) ps)"
proof (induction ps arbitrary: co)
  case Nil
  then show ?case by simp
next
  case (Cons p ps)
  obtain n nd where p: "p = (n, nd)" by (cases p)
  have seen: "co_seen (coerce_absent spec co p) = co_seen co"
    by (simp add: p coerce_absent_def split: option.split)
  show ?case by (simp add: Cons.IH seen) (simp add: p coerce_absent_def split: option.split)
qed

lemma absent_args:
  assumes "distinct (map fst ps)"
  shows "co_args (foldl (coerce_absent spec) co ps) n =
     (case map_of ps n of
        None \<Rightarrow> co_args co n
      | Some nd \<Rightarrow> if n \<in> set (co_seen co) \<or> n \<in> set (tp_required spec) \<or> n_default nd = None then co_args co n else n_default nd)"
  using assms
proof (induction ps arbitrary: co)
  case Nil
  then show ?case by simp
next
  case (Cons p ps)
  obtain m nd where p: "p = (m, nd)" by (cases p)
  have seen: "co_seen (coerce_absent spec co p) = co_seen co"
    by (simp add: p coerce_absent_def split: option.split)
  have "map_of ps m = None" using Cons.prems by (simp add: p map_of_eq_None_iff)
  then show ?case
    using Cons.prems
    by (auto simp: Cons.IH seen p) (auto simp: coerce_absent_def split: option.split)
qed

lemma coerceArgs_eq:
  assumes "distinct (map fst (tp_properties spec))"
  shows "coerceArgs jparse spec raw =
     (if problems jparse spec raw = [] then Inr (coerced jparse spec raw) else Inl (problems jparse spec raw))"
proof -
  let ?w = "foldl (coerce_written jparse spec) start raw"
  let ?c = "foldl (coerce_absent spec) ?w (tp_properties spec)"
  have e: "co_errors ?c = problems jparse spec raw"
    by (simp add: absent_errors written_errors problems_def written_seen) (simp add: start_def)
  have r: "coerceArgs jparse spec raw = (if co_errors ?c \<noteq> [] then Inl (co_errors ?c) else Inr (co_args ?c))"
    by (simp add: coerceArgs_def start_def Let_def)
  have "co_args ?c = coerced jparse spec raw" if none: "problems jparse spec raw = []"
  proof
    fix n
    have w: "co_args ?w = written_value jparse spec raw" using none by (intro written_args) (simp add: problems_def)
    have seen: "n \<in> set (co_seen ?w) \<longleftrightarrow> last_written spec raw n \<noteq> None" by (rule written_seen)
    have "written_value jparse spec raw n = None" if "last_written spec raw n = None \<or> map_of (tp_properties spec) n = None"
      using that by (auto simp: written_value_def split: option.split)
    then show "co_args ?c n = coerced jparse spec raw n"
      unfolding absent_args [OF assms] w seen coerced_def by (auto split: option.split)
  qed
  with e r show ?thesis by simp
qed

text \<open>C35. Coercion refuses exactly when there is a problem and then reports all of them, in order: a key that names no
  field or several, a value that does not convert, a required field left out or blank_value. Otherwise every field has its last
  value that is not blank_value, converted, or its default.\<close>

theorem coerceArgs_spec:
  assumes "distinct (map fst (tp_properties spec))"
  shows "coerceArgs jparse spec raw =
     (if problems jparse spec raw = [] then Inr (coerced jparse spec raw) else Inl (problems jparse spec raw))"
  by (rule coerceArgs_eq [OF assms])

definition send_spec :: tool_parameters where
  "send_spec = \<lparr>tp_properties = [(''to'', Node (One Ty_string) [] None None), (''urgent'', Node (One Ty_boolean) [] None (Some (J_bool False))),
     (''tags'', Node (One Ty_array) [] None None)], tp_required = [''to'']\<rparr>"

definition send_raw :: "(string \<times> json) list" where
  "send_raw = [(''t-o'', J_str ''ann''), (''urgent_'', J_str ''yes''), (''tags'', J_arr [J_str ''a''])]"

lemmas coerce_simps = field_candidates_def normaliseKey_def to_lower_def lower_char_def is_upper_def is_space_def blank_value_def
  trim_def trim_start_def trim_end_def convert_def convertOne_def convertScalar_def scalar_as_def item_node_def
  TRUTHY_def FALSY_def Let_def

lemma send_names: "distinct (map fst (tp_properties send_spec))"
  by (simp add: send_spec_def)

lemma send_problems: "problems jparse send_spec send_raw = []"
  by (simp add: problems_def send_spec_def send_raw_def written_problem_def last_written_def coerce_simps)

lemma send_coerced:
  "coerced jparse send_spec send_raw ''to'' = Some (J_str ''ann'')" "coerced jparse send_spec send_raw ''urgent'' = Some (J_bool True)"
  by (simp_all add: coerced_def written_value_def send_spec_def send_raw_def last_written_def coerce_simps)

theorem coerceArgs_spec_witness:
  "\<exists>args. coerceArgs (\<lambda>_. None) send_spec send_raw = Inr args \<and> args ''to'' = Some (J_str ''ann'') \<and> args ''urgent'' = Some (J_bool True)"
  using coerceArgs_spec [OF send_names, of "\<lambda>_. None" send_raw] by (simp add: send_problems send_coerced)

lemma coerceArgs_ok:
  assumes "distinct (map fst (tp_properties spec))" "coerceArgs jparse spec raw = Inr args"
  shows "problems jparse spec raw = []" "args = coerced jparse spec raw"
proof -
  have "coerceArgs jparse spec raw =
     (if problems jparse spec raw = [] then Inr (coerced jparse spec raw) else Inl (problems jparse spec raw))"
    by (rule coerceArgs_eq [OF assms(1)])
  with assms(2) show "problems jparse spec raw = []" "args = coerced jparse spec raw" by (auto split: if_splits)
qed

lemma last_written_mem:
  assumes "last_written spec raw n = Some v" shows "\<exists>k. (k, v) \<in> set raw \<and> \<not> blank_value v \<and> field_candidates spec k = [n]"
proof -
  let ?f = "filter (\<lambda>(k, v). \<not> blank_value v \<and> field_candidates spec k = [n]) raw"
  have "?f \<noteq> []" "v = snd (last ?f)" using assms by (auto simp: last_written_def simp del: filter_eq_Cons_iff split: list.splits)
  then obtain k where k: "(k, v) \<in> set ?f" using last_in_set [of ?f] by (metis prod.collapse)
  then show ?thesis by (auto simp only: set_filter mem_Collect_eq prod.case)
qed

text \<open>C36. Arguments that coercion accepts name declared fields only, hold every required one, and each value has the
  declared type or is one of the listed values, items of lists included, or is the field's default.\<close>

theorem coerced_conforms:
  assumes "distinct (map fst (tp_properties spec))" "coerceArgs jparse spec raw = Inr args"
  shows "dom args \<subseteq> fst ` set (tp_properties spec) \<and> set (tp_required spec) \<inter> fst ` set (tp_properties spec) \<subseteq> dom args \<and>
    (\<forall>n nd w. map_of (tp_properties spec) n = Some nd \<longrightarrow> args n = Some w \<longrightarrow> conforms nd w \<or> n_default nd = Some w)"
proof (intro conjI subsetI allI impI)
  note ok = coerceArgs_ok [OF assms]
  fix n assume "n \<in> dom args"
  then obtain w where "coerced jparse spec raw n = Some w" using ok(2) by auto
  then have "map_of (tp_properties spec) n \<noteq> None" by (auto simp: coerced_def written_value_def split: if_splits option.splits)
  then show "n \<in> fst ` set (tp_properties spec)" by (simp add: map_of_eq_None_iff)
next
  note ok = coerceArgs_ok [OF assms]
  fix n assume n: "n \<in> set (tp_required spec) \<inter> fst ` set (tp_properties spec)"
  then obtain nd0 where "(n, nd0) \<in> set (tp_properties spec)" by auto
  with n ok(1) have "last_written spec raw n \<noteq> None" by (auto simp: problems_def filter_empty_conv)
  then obtain v where v: "last_written spec raw n = Some v" by blast
  then obtain k where k: "(k, v) \<in> set raw" "\<not> blank_value v" "field_candidates spec k = [n]" using last_written_mem by blast
  obtain nd where nd: "map_of (tp_properties spec) n = Some nd" using candidate_property [OF k(3)] by blast
  from k(1) ok(1) have "written_problem jparse spec (k, v) = []" by (auto simp: problems_def)
  with k(2,3) nd obtain w where "convert jparse nd v = Inr w" by (auto simp: written_problem_def split: sum.splits)
  with v nd have "coerced jparse spec raw n = Some w" by (simp add: coerced_def written_value_def)
  with ok(2) show "n \<in> dom args" by auto
next
  note ok = coerceArgs_ok [OF assms]
  fix n nd w assume "map_of (tp_properties spec) n = Some nd" "args n = Some w"
  with ok(2) show "conforms nd w \<or> n_default nd = Some w"
    by (auto simp: coerced_def written_value_def split: if_splits option.splits sum.splits dest: convert_conforms)
qed

theorem coerced_conforms_witness:
  "\<exists>args. coerceArgs (\<lambda>_. None) send_spec send_raw = Inr args \<and> ''to'' \<in> dom args \<and> dom args \<subseteq> {''to'', ''urgent'', ''tags''}"
proof -
  have e: "coerceArgs (\<lambda>_. None) send_spec send_raw = Inr (coerced (\<lambda>_. None) send_spec send_raw)"
    by (simp add: coerceArgs_eq [OF send_names] send_problems)
  from coerced_conforms [OF send_names e] e show ?thesis by (auto simp: send_spec_def)
qed

text \<open>A value that already has a declared plain type passes unchanged, lists of such values included, so JSON
  arguments that conform to the schema are not reinterpreted.\<close>

theorem conforming_unchanged:
  assumes "conforms nd v" "n_enum nd = []" "n_enum (item_node nd) = []"
  shows "convert jparse nd v = Inr v"
proof -
  have typed: "scalar_as jparse t x = Inr x" if "of_type t x" for t x
    using that by (cases x) (auto simp: scalar_as_def of_type_def raw_number_def)
  have first: "first_conversion jparse ts x = Some x" if "x = J_obj ps" "Ty_object \<in> set ts" for ts x ps
    using that by (induction ts) (auto simp: scalar_as_def raw_number_def split: jtype.split)
  have union: "convertUnion jparse ts x = Inr x" if "list_ex (\<lambda>t. of_type t x) ts" for ts x
  proof (cases x)
    case (J_obj ps)
    with that have "Ty_object \<in> set ts" by (auto simp: list_ex_iff of_type_def)
    with first J_obj show ?thesis by (simp add: convertUnion_def own_type_def)
  qed (use that in \<open>auto simp: convertUnion_def own_type_def list_ex_iff of_type_def\<close>)
  have one: "convertOne jparse m x = Inr x" if "conforms_one m x" "n_enum m = []" for m x
    using that typed union by (auto simp: convertOne_def convertScalar_def conforms_one_def split: node_type.splits)
  have items: "convert_items jparse m xs = Inr xs" if "list_all (conforms_one m) xs" "n_enum m = []" for m xs
    using that one by (induction xs) simp_all
  show ?thesis
  proof (cases "n_type nd = One Ty_array")
    case True
    with assms items show ?thesis by (auto simp: convert_def conforms_def split: json.splits)
  next
    case False
    then have "conforms_one nd v" using assms(1) by (simp add: conforms_def)
    moreover have "\<nexists>xs. v = J_arr xs"
      using calculation assms(2) by (auto simp: conforms_one_def of_type_def list_ex_iff split: node_type.splits)
    ultimately show ?thesis using one [OF _ assms(2)] False by (auto simp: convert_def split: json.splits)
  qed
qed

theorem conforming_unchanged_witness:
  "convert (\<lambda>_. None) (Node (One Ty_array) [] (Some (Node (Union [Ty_string, Ty_number]) [] None None)) None)
     (J_arr [J_str ''1,000'', J_num 5]) = Inr (J_arr [J_str ''1,000'', J_num 5])"
  by (rule conforming_unchanged) (simp_all add: conforms_def conforms_one_def item_node_def of_type_def)

section \<open>Findings\<close>

text \<open>A field declared as a list of lists cannot be filled with anything but the empty list.\<close>

theorem nested_list_refused:
  "n_type nd = One Ty_array \<Longrightarrow> n_items nd = Some inner \<Longrightarrow> n_type inner = One Ty_array \<Longrightarrow>
   convert jparse nd (J_arr (x # xs)) = Inl E_type"
  by (simp add: convert_def item_node_def convertOne_def convertScalar_def scalar_as_def)

text \<open>A field written twice in two spellings keeps the second value, and nothing is reported.\<close>

theorem two_spellings_last_wins:
  "\<exists>args. coerceArgs jparse send_spec [(''to'', J_str ''ann''), (''t_o'', J_str ''bob'')] = Inr args \<and> args ''to'' = Some (J_str ''bob'')"
proof -
  have "problems jparse send_spec [(''to'', J_str ''ann''), (''t_o'', J_str ''bob'')] = []"
    by (simp add: problems_def send_spec_def written_problem_def last_written_def coerce_simps)
  moreover have "coerced jparse send_spec [(''to'', J_str ''ann''), (''t_o'', J_str ''bob'')] ''to'' = Some (J_str ''bob'')"
    by (simp add: coerced_def written_value_def send_spec_def last_written_def coerce_simps)
  ultimately show ?thesis by (simp add: coerceArgs_eq [OF send_names])
qed

end
