(* ===== verification/Registry.thy ===== *)
theory Registry
  imports Trust Coerce Phases
begin

text \<open>
  \<open>packages/core/src/tools/registry.ts\<close>: the catalogue of an agent's tools, resolved once from the providers its manifest
  names. A provider is what it answers: \<open>pv_resolve\<close>, \<open>pv_refused\<close>, \<open>pv_explain\<close> and \<open>pv_available\<close> are the functions
  of the interface \<open>ToolProvider\<close>, code outside this file. A handler is named by a number. A warning is its code and the
  slugs it names.
\<close>

section \<open>Data\<close>

record tool =
  tl_slug :: string
  tl_provider :: string
  tl_mutating :: bool
  tl_alone :: bool
  tl_trust :: "trust option"
  tl_reason :: "string option"
  tl_policyArg :: "string option"
  tl_argIsPath :: bool
  tl_tags :: "string list"
  tl_notWhen :: "string option"
  tl_parameters :: tool_parameters
  tl_trustOf :: "((string \<rightharpoonup> json) \<Rightarrow> trust) option"
  tl_handler :: nat

record provider =
  pv_id :: string
  pv_resolve :: "string list \<Rightarrow> tool list"
  pv_refused :: "string list"
  pv_explain :: "string list \<Rightarrow> string option"
  pv_available :: "string list"

record registry =
  rg_tools :: "tool list"
  rg_dropped :: "string list"
  rg_warnings :: "(string \<times> string list) list"
  rg_notEnabled :: "(string \<times> bool) list"
  rg_providers :: "provider list"

datatype registry_error = Budget_exceeded nat nat | Slug_collision string "string list" | Unknown_at_runtime string

definition normaliseTool :: "string \<Rightarrow> string" where
  "normaliseTool slug = filter (\<lambda>c. \<not> (is_space c \<or> c = CHR ''_'' \<or> c = CHR ''.'' \<or> c = CHR ''-'')) (to_lower slug)"

definition tool_key :: "tool \<Rightarrow> string" where
  "tool_key t = normaliseTool (tl_slug t)"

section \<open>Lookup\<close>

text \<open>The two maps of the constructor are filled in order, so a later tool of the same name replaces an earlier one.\<close>

definition bySlug :: "tool list \<Rightarrow> string \<rightharpoonup> tool" where
  "bySlug ts = foldl (\<lambda>m t. m(tl_slug t \<mapsto> t)) Map.empty ts"

definition byNormalised :: "tool list \<Rightarrow> string \<rightharpoonup> tool" where
  "byNormalised ts = foldl (\<lambda>m t. m(tool_key t \<mapsto> t)) Map.empty ts"

definition has :: "registry \<Rightarrow> string \<Rightarrow> bool" where
  "has rg slug \<longleftrightarrow> bySlug (rg_tools rg) slug \<noteq> None \<or> byNormalised (rg_tools rg) (normaliseTool slug) \<noteq> None"

definition resolve_tool :: "registry \<Rightarrow> string \<Rightarrow> registry_error + tool" where
  "resolve_tool rg slug =
     (case bySlug (rg_tools rg) slug of
        Some t \<Rightarrow> Inr t
      | None \<Rightarrow> (case byNormalised (rg_tools rg) (normaliseTool slug) of Some t \<Rightarrow> Inr t | None \<Rightarrow> Inl (Unknown_at_runtime slug)))"

definition providerOf :: "registry \<Rightarrow> string \<Rightarrow> string option" where
  "providerOf rg slug =
     map_option tl_provider (case bySlug (rg_tools rg) slug of Some t \<Rightarrow> Some t | None \<Rightarrow> byNormalised (rg_tools rg) (normaliseTool slug))"

section \<open>Registries derived from one\<close>

definition base_tools :: "registry \<Rightarrow> tool list" where
  "base_tools rg = concat (map (\<lambda>t. case bySlug (rg_tools rg) (tl_slug t) of None \<Rightarrow> [] | Some b \<Rightarrow> [b]) (rg_tools rg))"

definition withTools :: "registry \<Rightarrow> tool list \<Rightarrow> registry" where
  "withTools rg extra = (if extra = [] then rg else rg\<lparr>rg_tools := base_tools rg @ extra\<rparr>)"

definition withSwapped :: "registry \<Rightarrow> (tool \<Rightarrow> tool option) \<Rightarrow> registry" where
  "withSwapped rg swap = rg\<lparr>rg_tools := map (\<lambda>t. case swap t of None \<Rightarrow> t | Some t' \<Rightarrow> t') (base_tools rg)\<rparr>"

definition phase_spec :: "tool \<Rightarrow> tool_spec" where
  "phase_spec t = \<lparr>t_slug = tl_slug t, t_tags = tl_tags t\<rparr>"

definition inPhase :: "registry \<Rightarrow> string list \<Rightarrow> registry" where
  "inPhase rg allow =
     (let kept = visibleIn (map phase_spec (rg_tools rg)) allow
      in if length kept = length (rg_tools rg) then rg
         else rg\<lparr>rg_tools := concat (map (\<lambda>s. case bySlug (rg_tools rg) (t_slug s) of None \<Rightarrow> [] | Some b \<Rightarrow> [b]) kept)\<rparr>)"

definition settle_trust :: "trust \<Rightarrow> tool \<Rightarrow> tool" where
  "settle_trust fallback t = (if tl_trust t = None then t\<lparr>tl_trust := Some fallback\<rparr> else t)"

text \<open>What \<open>resolveMore\<close> has found, in the order of insertion.\<close>

definition more_step :: "registry \<Rightarrow> (string \<times> tool) list \<Rightarrow> tool \<Rightarrow> (string \<times> tool) list" where
  "more_step rg found t =
     (if map_of found (tool_key t) \<noteq> None \<or> has rg (tl_slug t) then found else found @ [(tool_key t, settle_trust Untrusted t)])"

definition resolveMore :: "registry \<Rightarrow> string list \<Rightarrow> tool list" where
  "resolveMore rg slugs =
     (let wanted = filter (\<lambda>s. \<not> has rg s) slugs
      in if wanted = [] then []
         else map snd (foldl (\<lambda>found p. foldl (more_step rg) found (pv_resolve p wanted)) [] (rg_providers rg)))"

section \<open>Creation\<close>

record tool_budget =
  bu_max :: nat
  bu_reserve :: nat

definition DEFAULT_TOOL_BUDGET :: tool_budget where
  "DEFAULT_TOOL_BUDGET = \<lparr>bu_max = 24, bu_reserve = 6\<rparr>"

text \<open>\<open>applyBudget\<close>: tools are objects, told apart by their position.\<close>

definition applyBudget :: "tool list \<Rightarrow> tool_budget \<Rightarrow> tool list \<times> string list" where
  "applyBudget tools budget =
     (if length tools \<le> bu_max budget then (tools, [])
      else let placed = enumerate 0 tools;
               reads = filter (\<lambda>p. \<not> tl_mutating (snd p)) placed;
               writes = filter (\<lambda>p. tl_mutating (snd p)) placed;
               held = min (length writes) (bu_reserve budget);
               keptReads = take (bu_max budget - held) reads;
               keptWrites = take (bu_max budget - length keptReads) writes;
               kept = set (map fst (keptReads @ keptWrites))
           in (map snd (filter (\<lambda>p. fst p \<in> kept) placed), map (tl_slug \<circ> snd) (filter (\<lambda>p. fst p \<notin> kept) placed)))"

record reg_options =
  ro_pinned :: "string list"
  ro_local :: "string list"
  ro_budget :: "tool_budget option"
  ro_providers :: "provider list"

record resolving =
  rs_found :: "(string \<times> tool) list"
  rs_overrides :: "string list"
  rs_builtins :: "string list"

fun take_resolved :: "trust \<Rightarrow> tool list \<Rightarrow> resolving \<Rightarrow> registry_error + resolving" where
  "take_resolved fallback [] s = Inr s"
| "take_resolved fallback (t # ts) s =
     (case map_of (rs_found s) (tool_key t) of
        Some e \<Rightarrow> if tl_provider e \<noteq> tl_provider t then Inl (Slug_collision (tl_slug t) [tl_provider e, tl_provider t])
                  else take_resolved fallback ts s
      | None \<Rightarrow> take_resolved fallback ts
          (s\<lparr>rs_found := rs_found s @ [(tool_key t, settle_trust fallback t)],
             rs_overrides := rs_overrides s @
               (if fallback = Untrusted \<and> tl_trust t = Some Trusted \<and> (case tl_reason t of None \<Rightarrow> [] | Some r \<Rightarrow> r) = []
                then [tl_slug t] else []),
             rs_builtins := rs_builtins s @ (if fallback = Trusted then [tool_key t] else [])\<rparr>))"

fun take_providers :: "(provider \<times> string list \<times> trust) list \<Rightarrow> resolving \<Rightarrow> registry_error + resolving" where
  "take_providers [] s = Inr s"
| "take_providers ((p, slugs, fallback) # ps) s =
     (if slugs = [] then take_providers ps s
      else (case take_resolved fallback (pv_resolve p slugs) s of Inl e \<Rightarrow> Inl e | Inr s' \<Rightarrow> take_providers ps s'))"

text \<open>Manifest order first, then what a slug expanded into.\<close>

fun claim_order :: "(string \<times> tool) list \<Rightarrow> string list \<Rightarrow> string list \<Rightarrow> (string \<times> tool) list" where
  "claim_order found claimed [] = []"
| "claim_order found claimed (slug # slugs) =
     (let key = normaliseTool slug in
      case map_of found key of
        None \<Rightarrow> claim_order found claimed slugs
      | Some t \<Rightarrow> if key \<in> set claimed then claim_order found claimed slugs
                  else (key, t) # claim_order found (key # claimed) slugs)"

definition in_order :: "(string \<times> tool) list \<Rightarrow> string list \<Rightarrow> (string \<times> tool) list" where
  "in_order found requested =
     (let ordered = claim_order found [] requested
      in ordered @ filter (\<lambda>p. fst p \<notin> set (map fst ordered)) found)"

text \<open>What follows the last two underscores.\<close>

fun after_last :: "string \<Rightarrow> string option" where
  "after_last [] = None"
| "after_last (c # s) =
     (case after_last s of Some r \<Rightarrow> Some r | None \<Rightarrow> if starts_with ''__'' (c # s) then Some (drop 2 (c # s)) else None)"

definition pinned_names :: "string list \<Rightarrow> (string \<times> tool) list \<Rightarrow> string list" where
  "pinned_names builtins ps =
     concat (map (\<lambda>(k, t). if k \<in> set builtins then [] else
        (case after_last (tl_slug t) of None \<Rightarrow> [] | Some r \<Rightarrow> [normaliseTool r])) ps)"

definition is_shadowed :: "string list \<Rightarrow> (string \<times> tool) list \<Rightarrow> string \<times> tool \<Rightarrow> bool" where
  "is_shadowed builtins ps p \<longleftrightarrow> fst p \<in> set builtins \<and> fst p \<in> set (pinned_names builtins ps)"

definition warn_if :: "string \<Rightarrow> string list \<Rightarrow> (string \<times> string list) list" where
  "warn_if code slugs = (if slugs = [] then [] else [(code, slugs)])"

definition finish_registry :: "reg_options \<Rightarrow> string list \<Rightarrow> tool_budget \<Rightarrow> resolving \<Rightarrow> registry" where
  "finish_registry opts requested budget s =
     (let found = rs_found s; providers = ro_providers opts;
          refused = filter (\<lambda>r. map_of found (normaliseTool r) = None) (concat (map pv_refused providers));
          refusedSlugs = map normaliseTool refused;
          missing = filter (\<lambda>q. map_of found (normaliseTool q) = None \<and> normaliseTool q \<notin> set refusedSlugs) requested;
          explained = concat (map (\<lambda>p. case pv_explain p missing of None \<Rightarrow> [] | Some c \<Rightarrow> [c]) providers);
          resolvedAll = in_order found requested;
          all = filter (\<lambda>p. \<not> is_shadowed (rs_builtins s) resolvedAll p) resolvedAll;
          shadowed = filter (is_shadowed (rs_builtins s) resolvedAll) resolvedAll;
          offered = concat (map pv_available providers);
          (kept, dropped) = applyBudget (map snd all) budget
      in \<lparr>rg_tools = kept, rg_dropped = dropped,
          rg_warnings = map (\<lambda>r. (''tool_schema_unsupported'', [r])) refused @
            (if missing = [] then [] else (case explained of c # _ \<Rightarrow> [(c, missing)] | [] \<Rightarrow> [(''unknown_tool'', missing)])) @
            warn_if ''tool_builtin_shadowed'' (map (tl_slug \<circ> snd) shadowed) @
            warn_if ''tool_trust_overridden'' (rs_overrides s) @
            warn_if ''tool_budget_trimmed'' dropped @
            warn_if ''tool_missing_negative_guidance''
              (map tl_slug (filter (\<lambda>t. case tl_notWhen t of None \<Rightarrow> True | Some w \<Rightarrow> trim w = []) kept)),
          rg_notEnabled = map (\<lambda>q. (q, False))
              (filter (\<lambda>q. map_of found (normaliseTool q) = None \<and> normaliseTool q \<notin> set refusedSlugs) offered) @
            map (\<lambda>r. (r, True)) refused,
          rg_providers = providers\<rparr>)"

definition empty_registry :: registry where
  "empty_registry = \<lparr>rg_tools = [], rg_dropped = [], rg_warnings = [], rg_notEnabled = [], rg_providers = []\<rparr>"

definition create_registry :: "provider \<Rightarrow> reg_options \<Rightarrow> registry_error + registry" where
  "create_registry localProvider opts =
     (let budget = (case ro_budget opts of None \<Rightarrow> DEFAULT_TOOL_BUDGET | Some b \<Rightarrow> b);
          requested = ro_local opts @ ro_pinned opts
      in if requested = [] then Inr empty_registry
         else if length requested > bu_max budget then Inl (Budget_exceeded (length requested) (bu_max budget))
         else (case take_providers ((localProvider, requested, Trusted) # map (\<lambda>p. (p, ro_pinned opts, Untrusted)) (ro_providers opts))
                      \<lparr>rs_found = [], rs_overrides = [], rs_builtins = []\<rparr> of
            Inl e \<Rightarrow> Inl e
          | Inr s \<Rightarrow> Inr (finish_registry opts requested budget s)))"

section \<open>Lookup is sound\<close>

lemma fold_index: "foldl (\<lambda>m t. m(f t \<mapsto> t)) m0 ts = m0 ++ map_of (rev (map (\<lambda>t. (f t, t)) ts))"
  by (induction ts arbitrary: m0) (simp_all add: map_add_assoc)

lemma index_Some: "foldl (\<lambda>m t. m(f t \<mapsto> t)) Map.empty ts k = Some t \<Longrightarrow> t \<in> set ts \<and> f t = k"
  by (auto simp: fold_index dest: map_of_SomeD)

lemma index_None: "foldl (\<lambda>m t. m(f t \<mapsto> t)) Map.empty ts k = None \<longleftrightarrow> k \<notin> f ` set ts"
  by (auto simp: fold_index map_of_eq_None_iff image_iff)

lemma bySlug_Some: "bySlug ts s = Some t \<Longrightarrow> t \<in> set ts \<and> tl_slug t = s"
  unfolding bySlug_def by (rule index_Some)

lemma byNormalised_Some: "byNormalised ts s = Some t \<Longrightarrow> t \<in> set ts \<and> tool_key t = s"
  unfolding byNormalised_def by (rule index_Some)

lemma resolve_finds_facts:
  "(case resolve_tool rg slug of
      Inr t \<Rightarrow> has rg slug \<and> t \<in> set (rg_tools rg) \<and> tool_key t = normaliseTool slug \<and> (tl_slug t = slug \<or> slug \<notin> tl_slug ` set (rg_tools rg))
    | Inl e \<Rightarrow> \<not> has rg slug \<and> normaliseTool slug \<notin> tool_key ` set (rg_tools rg))"
proof (cases "bySlug (rg_tools rg) slug")
  case (Some t)
  with bySlug_Some [OF Some] show ?thesis by (auto simp: resolve_tool_def has_def tool_key_def)
next
  case None
  then have no: "slug \<notin> tl_slug ` set (rg_tools rg)" by (simp add: bySlug_def index_None)
  show ?thesis
  proof (cases "byNormalised (rg_tools rg) (normaliseTool slug)")
    case (Some t)
    with byNormalised_Some [OF Some] None no show ?thesis by (auto simp: resolve_tool_def has_def)
  next
    case none: None
    then have "normaliseTool slug \<notin> tool_key ` set (rg_tools rg)" by (simp add: byNormalised_def index_None)
    with None none show ?thesis by (simp add: resolve_tool_def has_def)
  qed
qed

text \<open>A slug resolves exactly if some tool of the catalogue has that name up to case and separators, and then to such a
  tool, the one of exactly that spelling where there is one.\<close>

theorem resolve_finds:
  "(case resolve_tool rg slug of
      Inr t \<Rightarrow> has rg slug \<and> t \<in> set (rg_tools rg) \<and> tool_key t = normaliseTool slug \<and> (tl_slug t = slug \<or> slug \<notin> tl_slug ` set (rg_tools rg))
    | Inl e \<Rightarrow> \<not> has rg slug \<and> normaliseTool slug \<notin> tool_key ` set (rg_tools rg))"
  by (rule resolve_finds_facts)

section \<open>The budget\<close>

lemma placed_distinct: "distinct (map fst (filter P (enumerate n xs)))"
  by (rule distinct_map_filter) simp

lemma kept_length:
  assumes "distinct (map fst placed)" "distinct (map fst xs)" "set xs \<subseteq> set placed"
  shows "length (filter (\<lambda>p. fst p \<in> set (map fst xs)) placed) = length xs"
proof -
  have "distinct (map fst (filter (\<lambda>p. fst p \<in> set (map fst xs)) placed))" using assms(1) by (rule distinct_map_filter)
  then have "length (filter (\<lambda>p. fst p \<in> set (map fst xs)) placed) = card (fst ` set (filter (\<lambda>p. fst p \<in> set (map fst xs)) placed))"
    by (metis distinct_card length_map set_map)
  also have "fst ` set (filter (\<lambda>p. fst p \<in> set (map fst xs)) placed) = fst ` set xs" using assms(3) by (auto simp: image_iff)
  also have "card (fst ` set xs) = length xs" using assms(2) by (metis distinct_card length_map set_map)
  finally show ?thesis .
qed

lemma subseq_map_filter: "subseq (map f (filter P xs)) (map f xs)"
  by (rule subseq_map) simp

lemma applyBudget_facts:
  fixes tools budget
  defines "kept \<equiv> fst (applyBudget tools budget)"
  shows "length kept = min (length tools) (bu_max budget) \<and> subseq kept tools \<and>
    min (min (length (filter tl_mutating tools)) (bu_reserve budget)) (bu_max budget) \<le> length (filter tl_mutating kept) \<and>
    length kept + length (snd (applyBudget tools budget)) = length tools"
proof (cases "length tools \<le> bu_max budget")
  case True
  then show ?thesis by (simp add: kept_def applyBudget_def)
next
  case False
  define placed where "placed = enumerate 0 tools"
  define reads where "reads = filter (\<lambda>p. \<not> tl_mutating (snd p)) placed"
  define writes where "writes = filter (\<lambda>p. tl_mutating (snd p)) placed"
  define held where "held = min (length writes) (bu_reserve budget)"
  define kr where "kr = take (bu_max budget - held) reads"
  define kw where "kw = take (bu_max budget - length kr) writes"
  define ks where "ks = set (map fst (kr @ kw))"
  have ap: "applyBudget tools budget =
     (map snd (filter (\<lambda>p. fst p \<in> ks) placed), map (tl_slug \<circ> snd) (filter (\<lambda>p. fst p \<notin> ks) placed))"
    unfolding applyBudget_def ks_def kw_def kr_def held_def writes_def reads_def placed_def Let_def using False by simp
  have dp: "distinct (map fst placed)" by (simp add: placed_def)
  have split: "length reads + length writes = length tools"
    using sum_length_filter_compl [of "\<lambda>p. tl_mutating (snd p)" placed] by (simp add: reads_def writes_def placed_def)
  have sub: "set kr \<subseteq> set reads" "set kw \<subseteq> set writes" by (auto simp: kr_def kw_def dest: in_set_takeD)
  have inj: "inj_on fst (set placed)" using dp by (simp add: distinct_map)
  have "distinct (map fst kr)" "distinct (map fst kw)"
    using placed_distinct [of _ 0 tools] by (simp_all add: kr_def kw_def reads_def writes_def placed_def take_map [symmetric])
  moreover have "fst ` set kr \<inter> fst ` set kw = {}"
  proof -
    have "set kr \<inter> set kw = {}" "set kr \<subseteq> set placed" "set kw \<subseteq> set placed" using sub by (auto simp: reads_def writes_def)
    then show ?thesis using inj_on_image_Int [OF inj] by (metis image_empty)
  qed
  ultimately have dk: "distinct (map fst (kr @ kw))" by simp
  have inp: "set (kr @ kw) \<subseteq> set placed" using sub by (auto simp: reads_def writes_def)
  have len: "length kept = length kr + length kw"
    using kept_length [OF dp dk inp] by (simp add: kept_def ap ks_def)
  moreover have "length kr + length kw = bu_max budget"
    using split False by (auto simp: kr_def kw_def held_def min_def)
  moreover have "length (filter tl_mutating kept) \<ge> length kw"
  proof -
    let ?m = "filter (\<lambda>p. tl_mutating (snd p)) (filter (\<lambda>p. fst p \<in> ks) placed)"
    have "set kw \<subseteq> set ?m" using sub(2) by (auto simp: ks_def writes_def)
    moreover have "distinct kw" using dk by (simp add: distinct_map)
    ultimately have "length kw \<le> length ?m" by (metis card_length card_mono distinct_card finite_set le_trans)
    also have "length ?m = length (filter tl_mutating kept)" by (simp add: kept_def ap filter_map o_def)
    finally show ?thesis .
  qed
  moreover have "length kw \<ge> min held (bu_max budget)"
    using split False by (auto simp: kr_def kw_def held_def min_def)
  moreover have "length (filter tl_mutating tools) = length writes"
  proof -
    have "filter tl_mutating (map snd placed) = map snd writes" by (simp add: writes_def filter_map o_def)
    then show ?thesis by (metis length_map map_snd_enumerate placed_def)
  qed
  moreover have "subseq kept tools"
    using subseq_map_filter [of snd "\<lambda>p. fst p \<in> ks" placed] by (simp add: kept_def ap placed_def)
  moreover have "length kept + length (snd (applyBudget tools budget)) = length tools"
    using sum_length_filter_compl [of "\<lambda>p. fst p \<in> ks" placed] by (simp add: kept_def ap placed_def)
  ultimately show ?thesis using False by (auto simp: held_def)
qed

text \<open>The budget keeps as many tools as fit, in their order, and for the mutating ones at least the reserved slots;
  a tool that is not kept is reported.\<close>

theorem applyBudget_spec:
  "length (fst (applyBudget tools budget)) = min (length tools) (bu_max budget) \<and> subseq (fst (applyBudget tools budget)) tools \<and>
   min (min (length (filter tl_mutating tools)) (bu_reserve budget)) (bu_max budget)
     \<le> length (filter tl_mutating (fst (applyBudget tools budget))) \<and>
   length (fst (applyBudget tools budget)) + length (snd (applyBudget tools budget)) = length tools"
  by (rule applyBudget_facts)

section \<open>Creation is sound\<close>

text \<open>What resolving has found: keys are distinct, and every tool came from a list some provider answered.\<close>

definition found_ok :: "(tool \<times> trust) set \<Rightarrow> resolving \<Rightarrow> bool" where
  "found_ok answers s \<longleftrightarrow> distinct (map fst (rs_found s)) \<and>
     (\<forall>p \<in> set (rs_found s). \<exists>r fallback. (r, fallback) \<in> answers \<and> p = (tool_key r, settle_trust fallback r))"

lemma settle_key [simp]: "tool_key (settle_trust f t) = tool_key t" "tl_slug (settle_trust f t) = tl_slug t"
  by (simp_all add: settle_trust_def tool_key_def)

lemma take_resolved_ok:
  assumes "take_resolved fallback ts s = Inr s'" "found_ok answers s" "(\<lambda>t. (t, fallback)) ` set ts \<subseteq> answers"
  shows "found_ok answers s' \<and> (\<exists>more. rs_found s' = rs_found s @ more) \<and> tool_key ` set ts \<subseteq> fst ` set (rs_found s')"
  using assms
proof (induction ts arbitrary: s)
  case (Cons t ts)
  show ?case
  proof (cases "map_of (rs_found s) (tool_key t)")
    case (Some e)
    with Cons.prems have 1: "take_resolved fallback ts s = Inr s'" by (simp split: if_splits)
    have "tool_key t \<in> fst ` set (rs_found s)" using map_of_SomeD [OF Some] by force
    moreover have "found_ok answers s' \<and> (\<exists>more. rs_found s' = rs_found s @ more) \<and> tool_key ` set ts \<subseteq> fst ` set (rs_found s')"
      using Cons.IH [OF 1 Cons.prems(2)] Cons.prems(3) by simp
    ultimately show ?thesis by auto
  next
    case None
    define s1 where "s1 = s\<lparr>rs_found := rs_found s @ [(tool_key t, settle_trust fallback t)],
       rs_overrides := rs_overrides s @
         (if fallback = Untrusted \<and> tl_trust t = Some Trusted \<and> (case tl_reason t of None \<Rightarrow> [] | Some r \<Rightarrow> r) = []
          then [tl_slug t] else []),
       rs_builtins := rs_builtins s @ (if fallback = Trusted then [tool_key t] else [])\<rparr>"
    from Cons.prems(1) None have 1: "take_resolved fallback ts s1 = Inr s'" by (simp add: s1_def)
    have "found_ok answers s1"
      using Cons.prems(2,3) None unfolding found_ok_def s1_def by (auto simp: map_of_eq_None_iff)
    from Cons.IH [OF 1 this] Cons.prems(3)
    have "found_ok answers s' \<and> (\<exists>more. rs_found s' = rs_found s1 @ more) \<and> tool_key ` set ts \<subseteq> fst ` set (rs_found s')" by simp
    moreover have "rs_found s1 = rs_found s @ [(tool_key t, settle_trust fallback t)]" by (simp add: s1_def)
    ultimately show ?thesis by auto
  qed
qed auto

lemma take_providers_ok:
  assumes "take_providers ps s = Inr s'" "found_ok answers s"
    and "\<forall>(p, slugs, f) \<in> set ps. (\<lambda>t. (t, f)) ` set (pv_resolve p slugs) \<subseteq> answers"
  shows "found_ok answers s' \<and> (\<exists>more. rs_found s' = rs_found s @ more)"
  using assms
proof (induction ps arbitrary: s)
  case (Cons a ps)
  obtain p slugs f where a: "a = (p, slugs, f)" by (cases a)
  show ?case
  proof (cases "slugs = []")
    case True
    with Cons.prems a have 1: "take_providers ps s = Inr s'" by simp
    show ?thesis using Cons.IH [OF 1 Cons.prems(2)] Cons.prems(3) by simp
  next
    case False
    with Cons.prems(1) a obtain s1 where s1: "take_resolved f (pv_resolve p slugs) s = Inr s1" "take_providers ps s1 = Inr s'"
      by (auto split: sum.splits)
    have 1: "found_ok answers s1 \<and> (\<exists>more. rs_found s1 = rs_found s @ more)"
      using take_resolved_ok [OF s1(1) Cons.prems(2)] Cons.prems(3) a by simp
    then have "found_ok answers s' \<and> (\<exists>more. rs_found s' = rs_found s1 @ more)"
      using Cons.IH [OF s1(2)] Cons.prems(3) by simp
    with 1 show ?thesis by auto
  qed
qed auto

lemma claim_order_found:
  "distinct (map fst (claim_order found claimed rs)) \<and> set claimed \<inter> fst ` set (claim_order found claimed rs) = {} \<and>
   set (claim_order found claimed rs) \<subseteq> set found"
proof (induction rs arbitrary: claimed)
  case (Cons r rs)
  show ?case
    using Cons.IH [of claimed] Cons.IH [of "normaliseTool r # claimed"]
    by (auto simp: Let_def split: option.splits dest: map_of_SomeD)
qed simp

lemma in_order_found:
  assumes "distinct (map fst found)" shows "distinct (map fst (in_order found rs))" "set (in_order found rs) \<subseteq> set found"
proof -
  define os where "os = claim_order found [] rs"
  have os: "distinct (map fst os)" "set os \<subseteq> set found" using claim_order_found [of found "[]" rs] by (simp_all add: os_def)
  have "k \<notin> fst ` set os" if "k \<in> fst ` set (filter (\<lambda>p. fst p \<notin> fst ` set os) found)" for k using that by auto
  then have "fst ` set os \<inter> fst ` set (filter (\<lambda>p. fst p \<notin> fst ` set os) found) = {}" by blast
  then show "distinct (map fst (in_order found rs))" using os(1) assms by (simp add: in_order_def os_def [symmetric] Let_def distinct_map_filter)
  show "set (in_order found rs) \<subseteq> set found" using os(2) by (auto simp: in_order_def os_def [symmetric] Let_def)
qed

lemma subseq_distinct_map: "subseq xs ys \<Longrightarrow> distinct (map f ys) \<Longrightarrow> distinct (map f xs) \<and> set xs \<subseteq> set ys"
  by (induction rule: list_emb.induct) auto

definition budget_of :: "reg_options \<Rightarrow> tool_budget" where
  "budget_of opts = (case ro_budget opts of None \<Rightarrow> DEFAULT_TOOL_BUDGET | Some b \<Rightarrow> b)"

text \<open>Where a tool of the catalogue may come from, and with which default trust.\<close>

definition answers_of :: "provider \<Rightarrow> reg_options \<Rightarrow> (tool \<times> trust) set" where
  "answers_of loc opts = {(r, Trusted) | r. r \<in> set (pv_resolve loc (ro_local opts @ ro_pinned opts))} \<union>
     {(r, Untrusted) | r. \<exists>p \<in> set (ro_providers opts). r \<in> set (pv_resolve p (ro_pinned opts))}"

lemma create_found:
  assumes "create_registry loc opts = Inr rg"
  obtains "rg = empty_registry"
  | s where "found_ok (answers_of loc opts) s" "rg = finish_registry opts (ro_local opts @ ro_pinned opts) (budget_of opts) s"
      "\<forall>r \<in> set (pv_resolve loc (ro_local opts @ ro_pinned opts)). \<exists>r' \<in> set (pv_resolve loc (ro_local opts @ ro_pinned opts)).
         map_of (rs_found s) (tool_key r) = Some (settle_trust Trusted r')"
proof (cases "ro_local opts @ ro_pinned opts = []")
  case True
  with assms that(1) show ?thesis by (simp add: create_registry_def Let_def)
next
  case False
  let ?q = "ro_local opts @ ro_pinned opts"
  let ?s0 = "\<lparr>rs_found = [], rs_overrides = [], rs_builtins = []\<rparr>"
  let ?ps = "map (\<lambda>p. (p, ro_pinned opts, Untrusted)) (ro_providers opts)"
  from assms False obtain s where s: "take_providers ((loc, ?q, Trusted) # ?ps) ?s0 = Inr s"
      and rg: "rg = finish_registry opts ?q (budget_of opts) s"
    by (auto simp: create_registry_def budget_of_def Let_def split: if_splits sum.splits simp del: take_providers.simps)
  then obtain s1 where s1: "take_resolved Trusted (pv_resolve loc ?q) ?s0 = Inr s1" "take_providers ?ps s1 = Inr s"
    using False by (auto split: sum.splits)
  have ok0: "found_ok answers ?s0" for answers by (simp add: found_ok_def)
  let ?L = "{(r, Trusted) | r. r \<in> set (pv_resolve loc ?q)}"
  have L: "found_ok ?L s1" "\<forall>t \<in> set (pv_resolve loc ?q). map_of (rs_found s1) (tool_key t) \<noteq> None"
    using take_resolved_ok [OF s1(1) ok0, of ?L] by (auto simp: map_of_eq_None_iff)
  have ok1: "found_ok (answers_of loc opts) s1"
    using take_resolved_ok [OF s1(1) ok0, of "answers_of loc opts"] by (auto simp: answers_of_def)
  have ok: "found_ok (answers_of loc opts) s \<and> (\<exists>more. rs_found s = rs_found s1 @ more)"
    by (rule take_providers_ok [OF s1(2) ok1]) (auto simp: answers_of_def)
  have "\<exists>r' \<in> set (pv_resolve loc ?q). map_of (rs_found s) (tool_key r) = Some (settle_trust Trusted r')"
    if "r \<in> set (pv_resolve loc ?q)" for r
  proof -
    from L(2) that obtain t where t: "map_of (rs_found s1) (tool_key r) = Some t" by blast
    with L(1) obtain r' where "r' \<in> set (pv_resolve loc ?q)" "t = settle_trust Trusted r'"
      using map_of_SomeD [OF t] by (auto simp: found_ok_def)
    moreover have "map_of (rs_found s) (tool_key r) = Some t" using ok t by (auto simp: map_add_Some_iff map_of_append)
    ultimately show ?thesis by blast
  qed
  then show ?thesis using that(2) ok rg by blast
qed

lemma finish_tools:
  assumes "found_ok answers s" shows
    "length (rg_tools (finish_registry opts q b s)) \<le> bu_max b" "distinct (map tool_key (rg_tools (finish_registry opts q b s)))"
    "\<forall>t \<in> set (rg_tools (finish_registry opts q b s)). (tool_key t, t) \<in> set (rs_found s)"
proof -
  define ps where "ps = filter (\<lambda>p. \<not> is_shadowed (rs_builtins s) (in_order (rs_found s) q) p) (in_order (rs_found s) q)"
  have rt: "rg_tools (finish_registry opts q b s) = fst (applyBudget (map snd ps) b)"
    by (simp add: finish_registry_def ps_def Let_def split: prod.splits)
  have d: "distinct (map fst (rs_found s))" using assms by (simp add: found_ok_def)
  have dp: "distinct (map fst ps)" using in_order_found(1) [OF d] by (simp add: ps_def distinct_map_filter)
  have sp: "set ps \<subseteq> set (rs_found s)" using in_order_found(2) [OF d] by (auto simp: ps_def)
  have fk: "fst p = tool_key (snd p)" if "p \<in> set ps" for p
  proof -
    from that sp assms obtain r f where "p = (tool_key r, settle_trust f r)" unfolding found_ok_def by blast
    then show ?thesis by simp
  qed
  then have keys: "map tool_key (map snd ps) = map fst ps" by auto
  note spec = applyBudget_facts [of "map snd ps" b]
  show "length (rg_tools (finish_registry opts q b s)) \<le> bu_max b" using spec by (simp add: rt)
  have "subseq (rg_tools (finish_registry opts q b s)) (map snd ps)" using spec by (simp add: rt)
  moreover have "distinct (map tool_key (map snd ps))" unfolding keys by (rule dp)
  ultimately have sd: "distinct (map tool_key (rg_tools (finish_registry opts q b s))) \<and> set (rg_tools (finish_registry opts q b s)) \<subseteq> set (map snd ps)"
    by (rule subseq_distinct_map)
  then show "distinct (map tool_key (rg_tools (finish_registry opts q b s)))" by simp
  show "\<forall>t \<in> set (rg_tools (finish_registry opts q b s)). (tool_key t, t) \<in> set (rs_found s)"
  proof
    fix t assume "t \<in> set (rg_tools (finish_registry opts q b s))"
    with sd obtain p where "p \<in> set ps" "t = snd p" by auto
    then have "p = (tool_key t, t)" "p \<in> set (rs_found s)" using fk sp by (auto simp: prod_eq_iff)
    then show "(tool_key t, t) \<in> set (rs_found s)" by simp
  qed
qed

text \<open>C16. A catalogue that is created holds at most the budget's tools, no two of one name, and every tool as some provider
  answered it, with a trust that is settled: trusted by default for the built-in provider alone.\<close>

theorem create_sound:
  assumes "create_registry loc opts = Inr rg"
  shows "length (rg_tools rg) \<le> bu_max (budget_of opts) \<and> distinct (map tool_key (rg_tools rg)) \<and>
    (\<forall>t \<in> set (rg_tools rg). \<exists>r fallback. (r, fallback) \<in> answers_of loc opts \<and> t = settle_trust fallback r)"
  using assms
proof (cases rule: create_found)
  case 1
  then show ?thesis by (simp add: empty_registry_def)
next
  case (2 s)
  note f = finish_tools [OF 2(1), of opts "ro_local opts @ ro_pinned opts" "budget_of opts", folded 2(2)]
  have "\<exists>r fallback. (r, fallback) \<in> answers_of loc opts \<and> t = settle_trust fallback r" if "t \<in> set (rg_tools rg)" for t
  proof -
    from f(3) that have "(tool_key t, t) \<in> set (rs_found s)" by blast
    with 2(1) obtain r fb where "(r, fb) \<in> answers_of loc opts" "(tool_key t, t) = (tool_key r, settle_trust fb r)"
      unfolding found_ok_def by blast
    then show ?thesis by blast
  qed
  with f(1,2) show ?thesis by blast
qed

text \<open>Where the built-in provider answers a name, no other provider's tool carries it.\<close>

theorem builtin_not_replaced:
  assumes "create_registry loc opts = Inr rg" "r \<in> set (pv_resolve loc (ro_local opts @ ro_pinned opts))"
    and "t \<in> set (rg_tools rg)" "tool_key t = tool_key r"
  shows "\<exists>r' \<in> set (pv_resolve loc (ro_local opts @ ro_pinned opts)). t = settle_trust Trusted r'"
  using assms(1)
proof (cases rule: create_found)
  case 1
  with assms(3) show ?thesis by (simp add: empty_registry_def)
next
  case (2 s)
  note f = finish_tools [OF 2(1), of opts "ro_local opts @ ro_pinned opts" "budget_of opts", folded 2(2)]
  from f(3) assms(3) have "(tool_key t, t) \<in> set (rs_found s)" by blast
  then have "map_of (rs_found s) (tool_key t) = Some t" using 2(1) by (simp add: found_ok_def)
  with 2(3) assms(2,4) show ?thesis by (metis option.inject)
qed

section \<open>Examples\<close>

definition demo_tool :: "string \<Rightarrow> string \<Rightarrow> bool \<Rightarrow> nat \<Rightarrow> tool" where
  "demo_tool slug provider mutating handler =
     \<lparr>tl_slug = slug, tl_provider = provider, tl_mutating = mutating, tl_alone = False, tl_trust = None, tl_reason = None,
      tl_policyArg = None, tl_argIsPath = False, tl_tags = [], tl_notWhen = None,
      tl_parameters = \<lparr>tp_properties = [], tp_required = []\<rparr>, tl_trustOf = None, tl_handler = handler\<rparr>"

definition demo_provider :: "string \<Rightarrow> tool list \<Rightarrow> provider" where
  "demo_provider name tools =
     \<lparr>pv_id = name, pv_resolve = (\<lambda>slugs. filter (\<lambda>t. tl_slug t \<in> set slugs) tools), pv_refused = [],
      pv_explain = (\<lambda>_. None), pv_available = []\<rparr>"

definition demo_options :: "string list \<Rightarrow> string list \<Rightarrow> tool list \<Rightarrow> reg_options" where
  "demo_options loc pinned tools =
     \<lparr>ro_pinned = pinned, ro_local = loc, ro_budget = None, ro_providers = [demo_provider ''remote'' tools]\<rparr>"

definition demo_loc :: provider where
  "demo_loc = demo_provider ''local'' [demo_tool ''now'' ''local'' False 0]"

definition demo_created :: "registry_error + registry" where
  "demo_created = create_registry demo_loc (demo_options [''now''] [''mail''] [demo_tool ''mail'' ''remote'' True 1])"

lemma demo_created_tools:
  "(case demo_created of Inl _ \<Rightarrow> False
    | Inr rg \<Rightarrow> map (\<lambda>t. (tl_slug t, tl_trust t)) (rg_tools rg) = [(''now'', Some Trusted), (''mail'', Some Untrusted)])"
  by code_simp

theorem create_sound_witness:
  "\<exists>rg. demo_created = Inr rg \<and> map tl_slug (rg_tools rg) = [''now'', ''mail''] \<and> distinct (map tool_key (rg_tools rg))"
proof -
  obtain rg where rg: "demo_created = Inr rg" "map (\<lambda>t. (tl_slug t, tl_trust t)) (rg_tools rg) = [(''now'', Some Trusted), (''mail'', Some Untrusted)]"
    using demo_created_tools by (auto split: sum.splits)
  from rg(2) have "map fst (map (\<lambda>t. (tl_slug t, tl_trust t)) (rg_tools rg)) = [''now'', ''mail'']" by simp
  then have "map tl_slug (rg_tools rg) = [''now'', ''mail'']" by (simp add: o_def)
  moreover have "distinct (map tool_key (rg_tools rg))" using create_sound [OF rg(1) [unfolded demo_created_def]] by (elim conjE)
  ultimately show ?thesis using rg(1) by (intro exI [of _ rg] conjI)
qed

theorem builtin_not_replaced_witness:
  "\<exists>rg t. demo_created = Inr rg \<and> t \<in> set (rg_tools rg) \<and> tl_slug t = ''now'' \<and>
     (\<exists>r \<in> set (pv_resolve demo_loc [''now'', ''mail'']). t = settle_trust Trusted r)"
proof -
  let ?o = "demo_options [''now''] [''mail''] [demo_tool ''mail'' ''remote'' True 1]"
  have q: "ro_local ?o @ ro_pinned ?o = [''now'', ''mail'']" by (simp add: demo_options_def)
  obtain rg where rg: "demo_created = Inr rg" "map (\<lambda>t. (tl_slug t, tl_trust t)) (rg_tools rg) = [(''now'', Some Trusted), (''mail'', Some Untrusted)]"
    using demo_created_tools by (auto split: sum.splits)
  then obtain t where t: "t \<in> set (rg_tools rg)" "tl_slug t = ''now''" by (fastforce simp: map_eq_Cons_conv)
  have r: "demo_tool ''now'' ''local'' False 0 \<in> set (pv_resolve demo_loc (ro_local ?o @ ro_pinned ?o))"
    by (simp only: q) (simp add: demo_loc_def demo_provider_def demo_tool_def)
  have "tool_key t = tool_key (demo_tool ''now'' ''local'' False 0)" using t(2) by (simp add: tool_key_def demo_tool_def)
  from builtin_not_replaced [OF rg(1) [unfolded demo_created_def] r t(1) this] t rg(1) show ?thesis unfolding q by blast
qed

section \<open>Findings\<close>

text \<open>Two pinned tools of one provider whose names differ only in a separator: the second is neither offered nor reported.\<close>

theorem same_provider_clash_silent:
  "(case create_registry demo_loc (demo_options [] [''get_mail'', ''getmail'']
       [demo_tool ''get_mail'' ''remote'' False 1, demo_tool ''getmail'' ''remote'' True 2]) of Inl _ \<Rightarrow> False
    | Inr rg \<Rightarrow> map tl_slug (rg_tools rg) = [''get_mail''] \<and> rg_dropped rg = [] \<and>
        map fst (rg_warnings rg) = [''tool_missing_negative_guidance''])"
  by code_simp

text \<open>A provider whose tool says it is local takes a name of a built-in without the collision being raised.\<close>

theorem collision_trusts_label:
  "\<not> isl (create_registry demo_loc (demo_options [''now''] [''now''] [demo_tool ''now'' ''local'' False 1])) \<and>
   isl (create_registry demo_loc (demo_options [''now''] [''now''] [demo_tool ''now'' ''remote'' False 1]))"
  by code_simp

end
