(* ===== verification/Execute.thy ===== *)
theory Execute
  imports Registry Policy Compaction
begin

text \<open>
  \<open>packages/core/src/tools/execute.ts\<close>: one step of tool calls, from the intents of the model to the results it is
  answered with. What runs outside the program is given by one \<open>attempt\<close> for every time a call is authorised: how the
  handler ends, what the approver does, what queueing it answers and whether a cut observation could be stored. Plugin
  middleware is a tree of its calls of \<open>next\<close>. The result of a step comes with its log: for every group the events of
  each call, in order; the calls of a group run concurrently, so \<open>step_logs\<close> is every interleaving of them.
  Latencies, byte counts, the hash of the arguments and the redacted details of events are not modelled.
\<close>

section \<open>Paths and observations\<close>

text \<open>\<open>posix.normalize\<close>.\<close>

definition path_step :: "bool \<Rightarrow> string list \<Rightarrow> string \<Rightarrow> string list" where
  "path_step absolute acc s =
     (if s = [] \<or> s = ''.'' then acc
      else if s = ''..'' then (if acc \<noteq> [] \<and> last acc \<noteq> ''..'' then butlast acc else if absolute then acc else acc @ [''..''])
      else acc @ [s])"

definition posix_normalize :: "string \<Rightarrow> string" where
  "posix_normalize path =
     (if path = [] then ''.''
      else let absolute = (hd path = CHR ''/''); trailing = (last path = CHR ''/'');
               segs = foldl (path_step absolute) [] (split_on (CHR ''/'') path)
           in if segs = [] then (if absolute then ''/'' else if trailing then ''./'' else ''.'')
              else (if absolute then ''/'' else []) @ join_with ''/'' segs @ (if trailing then ''/'' else []))"

definition policyPath :: "string \<Rightarrow> string" where
  "policyPath value =
     (let normalised = posix_normalize (map (\<lambda>c. if c = char_of (92 :: nat) then CHR ''/'' else c) value)
      in if starts_with ''./'' normalised then drop 2 normalised else normalised)"

text \<open>A cut observation: the head, the number its marker states, the artifact it names and the tail.\<close>

datatype shown = Whole string | Cut string int "string option" string

definition slice_tail :: "int \<Rightarrow> string \<Rightarrow> string" where
  "slice_tail n s = (if n = 0 then s else drop (length s - nat n) s)"

definition cut_budget :: "int \<Rightarrow> int" where
  "cut_budget maxTokens = max 200 \<lfloor>round64 (of_int maxTokens * CHARS_PER_TOKEN)\<rfloor>"

definition head_chars :: "int \<Rightarrow> int" where "head_chars budget = \<lfloor>round64 (of_int budget * round64 (6 / 10))\<rfloor>"
definition tail_chars :: "int \<Rightarrow> int" where "tail_chars budget = \<lfloor>round64 (of_int budget * round64 (4 / 10))\<rfloor>"

definition truncate_output :: "string \<Rightarrow> int \<Rightarrow> string option \<Rightarrow> shown \<times> bool" where
  "truncate_output output maxTokens artifact =
     (if maxTokens \<le> 0 \<or> estimateTokens output \<le> maxTokens then (Whole output, False)
      else let budget = cut_budget maxTokens;
               head = take (nat (head_chars budget)) output;
               tail = slice_tail (tail_chars budget) output
           in (Cut head (int (length output) - int (length head) - int (length tail)) artifact tail, True))"

section \<open>Data\<close>

record tool_intent =
  ti_callId :: string
  ti_slug :: string
  ti_args :: "(string \<times> json) list"

record planned_call =
  pc_intent :: tool_intent
  pc_tool :: tool
  pc_args :: "string \<rightharpoonup> json"

datatype repair_error = Not_a_tool | Bad_field field_problem

datatype cause = Plain_error string | Harness_error string string

datatype handler_end = H_output string | H_failed cause | H_timed_out | H_cancelled

text \<open>The approver's promise settles, the turn is abandoned first, or the call of the approver itself throws.\<close>

datatype approval_end = A_granted | A_declined | A_crashed | A_abandoned | A_threw

datatype x_output =
    Observed shown
  | Failed_with cause shown
  | Cancelled shown
  | Deferred string
  | Gated_after string on_mutate
  | Refused reason
  | Unapproved approval_end
  | Beside "string list"
  | Personal

record exec_result =
  er_callId :: string
  er_slug :: string
  er_ok :: bool
  er_gated :: bool
  er_truncated :: bool
  er_trust :: trust
  er_output :: x_output

record attempt =
  at_defer :: "string option"
  at_approval :: approval_end
  at_handler :: handler_end
  at_keep :: bool

text \<open>\<open>X_run\<close> is the start of the handler, with whether the tool is mutating; \<open>X_queued\<close> and \<open>X_kept\<close> are calls of
  \<open>defer\<close> and \<open>keepFull\<close>; the others are events of the bus.\<close>

datatype x_event =
    X_repair "string list"
  | X_asked string "string option"
  | X_answered string approval_end
  | X_queued string
  | X_call string
  | X_run string bool
  | X_kept string string
  | X_warning string
  | X_result string bool trust
  | X_gated string

fun x_id :: "x_event \<Rightarrow> string option" where
  "x_id (X_repair ss) = None"
| "x_id (X_asked c m) = Some c"
| "x_id (X_answered c a) = Some c"
| "x_id (X_queued c) = Some c"
| "x_id (X_call c) = Some c"
| "x_id (X_run c m) = Some c"
| "x_id (X_kept c a) = Some c"
| "x_id (X_warning c) = Some c"
| "x_id (X_result c ok t) = Some c"
| "x_id (X_gated c) = Some c"

text \<open>What a middleware does: answer, throw, or await \<open>next\<close> and go on with its outcome; \<open>None\<close> is no result.\<close>

datatype mw = Mw_return "exec_result option" | Mw_throw | Mw_next "exec_result option \<Rightarrow> mw"

type_synonym middleware = "(planned_call \<Rightarrow> bool \<Rightarrow> mw) option"

record exec_input =
  xi_registry :: registry
  xi_withheld :: "string list option"
  xi_maxParallel :: int
  xi_timeoutMs :: nat
  xi_timeoutFor :: "string \<rightharpoonup> nat"
  xi_observationMax :: int
  xi_keepFull :: bool
  xi_tainted :: bool
  xi_onMutate :: on_mutate
  xi_source :: "string option"
  xi_policy :: policy_config
  xi_approve :: bool
  xi_defer :: bool
  xi_middleware :: "middleware list"
  xi_jparse :: "string \<Rightarrow> json option"
  xi_attempts :: "string \<Rightarrow> nat \<Rightarrow> attempt"

section \<open>Planning\<close>

fun planIntents :: "(string \<Rightarrow> json option) \<Rightarrow> registry \<Rightarrow> tool_intent list \<Rightarrow> planned_call list \<times> (string \<times> repair_error) list" where
  "planIntents jparse rg [] = ([], [])"
| "planIntents jparse rg (i # is) =
     (case planIntents jparse rg is of (planned, repair) \<Rightarrow>
        (if \<not> has rg (ti_slug i) then (planned, (ti_slug i, Not_a_tool) # repair)
         else (case resolve_tool rg (ti_slug i) of
             Inl e \<Rightarrow> (planned, repair)
           | Inr t \<Rightarrow> (case coerceArgs jparse (tl_parameters t) (ti_args i) of
               Inr args \<Rightarrow> (\<lparr>pc_intent = i, pc_tool = t, pc_args = args\<rparr> # planned, repair)
             | Inl errors \<Rightarrow> (planned, map (\<lambda>(f, p). (ti_slug i @ ''.'' @ f, Bad_field p)) errors @ repair)))))"

section \<open>One call\<close>

definition call_id :: "planned_call \<Rightarrow> string" where "call_id e = ti_callId (pc_intent e)"
definition call_slug :: "planned_call \<Rightarrow> string" where "call_slug e = tl_slug (pc_tool e)"
definition mutates :: "planned_call \<Rightarrow> bool" where "mutates e = tl_mutating (pc_tool e)"

definition match_text :: "planned_call \<Rightarrow> string option" where
  "match_text e =
     (let raw = (case tl_policyArg (pc_tool e) of None \<Rightarrow> None
                 | Some f \<Rightarrow> (case pc_args e f of Some (J_str s) \<Rightarrow> Some s | _ \<Rightarrow> None))
      in if tl_argIsPath (pc_tool e) then map_option policyPath raw else raw)"

definition call_query :: "exec_input \<Rightarrow> planned_call \<Rightarrow> bool \<Rightarrow> bool \<Rightarrow> authorize_input" where
  "call_query inp e tainted approver =
     \<lparr>a_policy = xi_policy inp, a_query = \<lparr>q_slug = call_slug e, q_match = match_text e\<rparr>, a_mutating = mutates e,
      a_tainted = tainted, a_onMutate = xi_onMutate inp, a_approver = approver\<rparr>"

definition call_answer :: "planned_call \<Rightarrow> bool \<Rightarrow> bool \<Rightarrow> trust \<Rightarrow> x_output \<Rightarrow> exec_result" where
  "call_answer e ok gated t out =
     \<lparr>er_callId = call_id e, er_slug = call_slug e, er_ok = ok, er_gated = gated, er_truncated = False, er_trust = t, er_output = out\<rparr>"

definition result_trust :: "planned_call \<Rightarrow> trust" where
  "result_trust e =
     (if tl_trust (pc_tool e) = Some Untrusted then Untrusted
      else (case tl_trustOf (pc_tool e) of Some f \<Rightarrow> f (pc_args e)
            | None \<Rightarrow> (case tl_trust (pc_tool e) of Some t \<Rightarrow> t | None \<Rightarrow> Trusted)))"

definition capObservation :: "exec_input \<Rightarrow> planned_call \<Rightarrow> trust \<Rightarrow> string \<Rightarrow> bool \<Rightarrow> (shown \<times> bool) \<times> x_event list" where
  "capObservation inp e t output keeps =
     (let plain = truncate_output output (xi_observationMax inp) None in
      if \<not> snd plain \<or> \<not> xi_keepFull inp \<or> \<not> has (xi_registry inp) ''artifact_read'' then (plain, [])
      else let i = artifactId output t in
           if keeps then (truncate_output output (xi_observationMax inp) (Some i), [X_kept (call_id e) i])
           else (plain, [X_kept (call_id e) i, X_warning (call_id e)]))"

text \<open>The observation of a failed call: the message of \<open>toolFailed\<close> and its hint.\<close>

definition failed_text :: "string \<Rightarrow> cause \<Rightarrow> string" where
  "failed_text slug c =
     ''The tool '' @ [CHR 0x22] @ slug @ [CHR 0x22] @ '' failed: '' @
     (case c of
        Plain_error m \<Rightarrow> m @ [NL] @ ''This is the tool'' @ [CHR 0x27] @
          ''s own failure, passed through. The observation the model sees carries this same text, so it can explain or retry with different arguments.''
      | Harness_error m hint \<Rightarrow> m @ [NL] @ hint)"

definition toolTimedOut :: "string \<Rightarrow> nat \<Rightarrow> cause" where
  "toolTimedOut slug ms =
     Harness_error (''The tool '' @ [CHR 0x22] @ slug @ [CHR 0x22] @ '' did not finish within limits.toolTimeoutMs ('' @ nat_str ms @ '' ms).'')
       ''Raise limits.toolTimeoutMs if the tool is genuinely slow. Note that the call is abandoned rather than killed: a handler that ignores its abort signal keeps running, and any side effect it goes on to have still happens.''"

definition settle_call :: "exec_input \<Rightarrow> planned_call \<Rightarrow> bool \<Rightarrow> bool \<Rightarrow> (shown \<Rightarrow> x_output) \<Rightarrow> string \<Rightarrow> exec_result \<times> x_event list" where
  "settle_call inp e keeps ok out text =
     (let t = result_trust e in
      case capObservation inp e t text keeps of
        ((text', was_cut), evs) \<Rightarrow> ((call_answer e ok False t (out text'))\<lparr>er_truncated := was_cut\<rparr>, evs @ [X_result (call_id e) ok t]))"

definition runOne :: "exec_input \<Rightarrow> planned_call \<Rightarrow> attempt \<Rightarrow> exec_result \<times> x_event list" where
  "runOne inp e a =
     (let timeoutMs = (case xi_timeoutFor inp (call_slug e) of None \<Rightarrow> xi_timeoutMs inp | Some ms \<Rightarrow> ms);
          failed = (\<lambda>c. settle_call inp e (at_keep a) False (Failed_with c) (failed_text (call_slug e) c));
          settled = (case at_handler a of
            H_output s \<Rightarrow> settle_call inp e (at_keep a) True Observed s
          | H_failed c \<Rightarrow> failed c
          | H_timed_out \<Rightarrow> failed (toolTimedOut (call_slug e) timeoutMs)
          | H_cancelled \<Rightarrow> settle_call inp e (at_keep a) False Cancelled ''The call was cancelled before it finished.'')
      in (fst settled, [X_call (call_id e), X_run (call_id e) (mutates e)] @ snd settled))"

text \<open>Authorise one call, then run or refuse it; \<open>None\<close> where it rejects.\<close>

definition decideAndRun :: "exec_input \<Rightarrow> planned_call \<Rightarrow> bool \<Rightarrow> string \<Rightarrow> attempt \<Rightarrow> exec_result option \<times> x_event list" where
  "decideAndRun inp e tainted source a =
     (if mutates e \<and> xi_defer inp \<and> p_effect (authorize (call_query inp e False True)) \<noteq> Deny
      then (map_option (\<lambda>out. call_answer e True False Trusted (Deferred out)) (at_defer a), [X_queued (call_id e)])
      else let d = authorize (call_query inp e tainted (xi_approve inp)) in
        if p_effect d = Ask \<and> xi_approve inp
        then (let asked = X_asked (call_id e) (map_option stripControl (match_text e)) in
          case at_approval a of
            A_granted \<Rightarrow> (case runOne inp e a of (r, es) \<Rightarrow> (Some r, [asked, X_answered (call_id e) A_granted] @ es))
          | A_threw \<Rightarrow> (None, [asked])
          | w \<Rightarrow> (Some (call_answer e False True Trusted (Unapproved w)), [asked, X_answered (call_id e) w, X_gated (call_id e)]))
        else if p_effect d = Allow then (case runOne inp e a of (r, es) \<Rightarrow> (Some r, es))
        else (Some (call_answer e False True Trusted
                (if p_gated d then Gated_after source (xi_onMutate inp) else Refused (p_reason d))), [X_gated (call_id e)]))"

section \<open>Middleware\<close>

text \<open>The number counts the attempts so far, one for every call of the core.\<close>

type_synonym 'e runner = "nat \<Rightarrow> exec_result option \<times> 'e list \<times> nat"

primrec mw_run :: "mw \<Rightarrow> 'e runner \<Rightarrow> 'e runner" where
  "mw_run (Mw_return r) = (\<lambda>next k. (r, [], k))"
| "mw_run Mw_throw = (\<lambda>next k. (None, [], k))"
| "mw_run (Mw_next cont) = (\<lambda>next k.
     case next k of (r, es, k') \<Rightarrow> case mw_run (cont r) next k' of (r', es', k'') \<Rightarrow> (r', es @ es', k''))"

definition compose_mw :: "mw list \<Rightarrow> 'e runner \<Rightarrow> 'e runner" where
  "compose_mw ms core = foldr mw_run ms core"

definition core_run :: "exec_input \<Rightarrow> planned_call \<Rightarrow> bool \<Rightarrow> string \<Rightarrow> x_event runner" where
  "core_run inp e tainted source k =
     (case decideAndRun inp e tainted source (xi_attempts inp (call_id e) k) of (r, es) \<Rightarrow> (r, es, Suc k))"

definition wrapped :: "exec_input \<Rightarrow> planned_call \<Rightarrow> bool \<Rightarrow> string \<Rightarrow> exec_result option \<times> x_event list" where
  "wrapped inp e tainted source =
     (case compose_mw (concat (map (\<lambda>m. case m of None \<Rightarrow> [] | Some f \<Rightarrow> [f e tainted]) (xi_middleware inp)))
             (core_run inp e tainted source) 0 of (r, es, k) \<Rightarrow> (r, es))"

section \<open>The step\<close>

definition batch_step :: "nat \<Rightarrow> planned_call list list \<Rightarrow> planned_call \<Rightarrow> planned_call list list" where
  "batch_step cap groups e =
     (if groups \<noteq> [] \<and> length (last groups) < cap \<and> \<not> mutates e \<and> list_all (\<lambda>m. \<not> mutates m) (last groups)
      then butlast groups @ [last groups @ [e]] else groups @ [[e]])"

definition batch :: "planned_call list \<Rightarrow> int \<Rightarrow> planned_call list list" where
  "batch planned maxParallel = foldl (batch_step (nat (max 1 maxParallel))) [] planned"

definition notAlone :: "planned_call \<Rightarrow> planned_call list \<Rightarrow> exec_result option \<times> x_event list" where
  "notAlone e planned =
     (Some (call_answer e False True Trusted
        (Beside (remdups (map call_slug (filter (\<lambda>o'. call_id o' \<noteq> call_id e) planned))))), [X_gated (call_id e)])"

definition run_entry :: "exec_input \<Rightarrow> planned_call list \<Rightarrow> bool \<Rightarrow> string \<Rightarrow> planned_call \<Rightarrow> exec_result option \<times> x_event list" where
  "run_entry inp planned tainted source e =
     (if length planned > 1 \<and> tl_alone (pc_tool e) then notAlone e planned else wrapped inp e tainted source)"

definition taint_after :: "bool \<times> string \<Rightarrow> exec_result list \<Rightarrow> bool \<times> string" where
  "taint_after ts settled =
     (if fst ts then ts else (case find (\<lambda>r. er_trust r = Untrusted) settled of Some r \<Rightarrow> (True, er_slug r) | None \<Rightarrow> ts))"

text \<open>A group whose \<open>Promise.all\<close> rejects ends the step; the other calls of the group still run.\<close>

fun run_groups ::
  "exec_input \<Rightarrow> planned_call list \<Rightarrow> bool \<times> string \<Rightarrow> planned_call list list \<Rightarrow> exec_result list option \<times> x_event list list list" where
  "run_groups inp planned ts [] = (Some [], [])"
| "run_groups inp planned ts (g # gs) =
     (let settled = map (run_entry inp planned (fst ts) (snd ts)) g; lg = map snd settled in
      if list_ex (\<lambda>p. fst p = None) settled then (None, [lg])
      else let rs = map (the \<circ> fst) settled in
        (case run_groups inp planned (taint_after ts rs) gs of (rest, logs) \<Rightarrow> (map_option (\<lambda>more. rs @ more) rest, lg # logs)))"

datatype exec_outcome = O_threw | O_repair "(string \<times> repair_error) list" | O_ran "exec_result list"

definition execute_present :: "exec_input \<Rightarrow> tool_intent list \<Rightarrow> exec_outcome \<times> x_event list list list" where
  "execute_present inp is =
     (case planIntents (xi_jparse inp) (xi_registry inp) is of (planned, repair) \<Rightarrow>
        (if repair \<noteq> [] then (O_repair repair, [[[X_repair (remdups (map ti_slug is))]]])
         else (case run_groups inp planned (xi_tainted inp, case xi_source inp of None \<Rightarrow> ''an earlier tool call'' | Some s \<Rightarrow> s)
                      (batch planned (xi_maxParallel inp)) of
             (None, logs) \<Rightarrow> (O_threw, logs)
           | (Some rs, logs) \<Rightarrow> (O_ran rs, logs))))"

definition personalResult :: "tool_intent \<Rightarrow> exec_result" where
  "personalResult i =
     \<lparr>er_callId = ti_callId i, er_slug = ti_slug i, er_ok = False, er_gated = True, er_truncated = False, er_trust = Trusted,
      er_output = Personal\<rparr>"

definition executeIntents :: "exec_input \<Rightarrow> tool_intent list \<Rightarrow> exec_outcome \<times> x_event list list list" where
  "executeIntents inp is =
     (let held = (\<lambda>i. case xi_withheld inp of None \<Rightarrow> False | Some ws \<Rightarrow> ti_slug i \<in> set ws) in
      if list_ex held is
      then (case execute_present inp (filter (\<lambda>i. \<not> held i) is) of
          (O_ran rs, logs) \<Rightarrow>
            (let ran = foldl (\<lambda>m r. m(er_callId r \<mapsto> r)) Map.empty rs in
             (O_ran (concat (map (\<lambda>i. if held i then [personalResult i]
                  else (case ran (ti_callId i) of None \<Rightarrow> [] | Some r \<Rightarrow> [r])) is)),
              logs @ [[map (\<lambda>i. X_gated (ti_callId i)) (filter held is)]]))
        | other \<Rightarrow> other)
      else execute_present inp is)"

section \<open>The logs of a step\<close>

fun merges :: "'a list list \<Rightarrow> 'a list set" where
  "merges [] = {[]}"
| "merges (xs # xss) = (\<Union>ys \<in> merges xss. shuffles xs ys)"

fun step_logs :: "'a list list list \<Rightarrow> 'a list set" where
  "step_logs [] = {[]}"
| "step_logs (g # gs) = {l @ r | l r. l \<in> merges g \<and> r \<in> step_logs gs}"

section \<open>Groups\<close>

lemma batch_snoc: "batch (planned @ [e]) n = batch_step (nat (max 1 n)) (batch planned n) e"
  by (simp add: batch_def)

lemma butlast_last: "gs \<noteq> [] \<Longrightarrow> concat (butlast gs) @ last gs = concat gs"
  by (metis append_butlast_last_id append_Nil2 concat.simps concat_append)

definition group_ok :: "int \<Rightarrow> planned_call list \<Rightarrow> bool" where
  "group_ok n g \<longleftrightarrow> g \<noteq> [] \<and> length g \<le> nat (max 1 n) \<and> (length g > 1 \<longrightarrow> list_all (\<lambda>m. \<not> mutates m) g)"

lemma batch_facts:
  "concat (batch planned n) = planned \<and> list_all (group_ok n) (batch planned n)"
proof (induction planned rule: rev_induct)
  case Nil
  show ?case by (simp add: batch_def)
next
  case (snoc e planned)
  let ?gs = "batch planned n"
  show ?case
  proof (cases "?gs \<noteq> [] \<and> length (last ?gs) < nat (max 1 n) \<and> \<not> mutates e \<and> list_all (\<lambda>m. \<not> mutates m) (last ?gs)")
    case True
    then have "batch (planned @ [e]) n = butlast ?gs @ [last ?gs @ [e]]" by (simp add: batch_snoc batch_step_def)
    moreover have "list_all (group_ok n) (butlast ?gs)" using snoc by (auto simp: list_all_iff dest: in_set_butlastD)
    moreover have "group_ok n (last ?gs @ [e])" using True by (auto simp: group_ok_def)
    moreover have "concat (butlast ?gs) @ last ?gs = planned" using snoc True by (simp add: butlast_last)
    ultimately show ?thesis by simp
  next
    case False
    then have "batch (planned @ [e]) n = ?gs @ [[e]]" by (auto simp: batch_snoc batch_step_def)
    with snoc show ?thesis by (simp add: group_ok_def)
  qed
qed

text \<open>The groups hold the calls in the order they were written, at most the limit in each, and a mutating call is alone
  in its group.\<close>

theorem batch_spec:
  "concat (batch planned n) = planned \<and> list_all (group_ok n) (batch planned n)"
  by (rule batch_facts)

section \<open>What one call logs\<close>

text \<open>A middleware logs nothing of its own: its log is the logs of the calls of the core it made.\<close>

lemma mw_run_log:
  assumes "\<And>k. P (fst (snd (next k)))" shows "\<exists>bs. fst (snd (mw_run m next k)) = concat bs \<and> (\<forall>b \<in> set bs. P b)"
proof (induction m arbitrary: k)
  case (Mw_return r)
  show ?case by (auto intro: exI [of _ "[]"])
next
  case Mw_throw
  show ?case by (auto intro: exI [of _ "[]"])
next
  case (Mw_next cont)
  obtain r es k' where n: "next k = (r, es, k')" by (cases "next k")
  obtain r' es' k'' where n': "mw_run (cont r) next k' = (r', es', k'')" by (cases "mw_run (cont r) next k'")
  from Mw_next [of "cont r" k'] n' obtain bs where "es' = concat bs" "\<forall>b \<in> set bs. P b" by auto
  then have "es @ es' = concat (es # bs)" "\<forall>b \<in> set (es # bs). P b" using assms [of k] n by auto
  with n n' show ?case by (metis fst_conv mw_run.simps(3) case_prod_conv snd_conv)
qed

lemma compose_log:
  assumes "\<And>k. P (fst (snd (core k)))" shows "\<exists>bs. fst (snd (compose_mw ms core k)) = concat bs \<and> (\<forall>b \<in> set bs. P b)"
proof (induction ms arbitrary: k)
  case Nil
  show ?case using assms [of k] by (auto simp: compose_mw_def intro!: exI [of _ "[fst (snd (core k))]"])
next
  case (Cons m ms)
  let ?Q = "\<lambda>l. \<exists>bs. l = concat bs \<and> (\<forall>b \<in> set bs. P b)"
  have q: "?Q (fst (snd (foldr mw_run ms core j)))" for j using Cons by (simp add: compose_mw_def)
  have "\<exists>bs. fst (snd (mw_run m (foldr mw_run ms core) k)) = concat bs \<and> (\<forall>b \<in> set bs. ?Q b)" by (rule mw_run_log) (rule q)
  then obtain bss where bss: "fst (snd (mw_run m (foldr mw_run ms core) k)) = concat bss" "\<forall>b \<in> set bss. ?Q b" by blast
  then obtain f where f: "\<forall>b \<in> set bss. b = concat (f b) \<and> (\<forall>c \<in> set (f b). P c)" by metis
  then have "concat bss = concat (concat (map f bss))" using bss(2) by (induction bss) auto
  moreover have "\<forall>c \<in> set (concat (map f bss)). P c" using f by auto
  ultimately show ?case using bss(1) by (metis compose_mw_def foldr.simps(2) o_apply)
qed

lemma wrapped_log:
  "\<exists>ks. snd (wrapped inp e t src) = concat (map (\<lambda>k. snd (decideAndRun inp e t src (xi_attempts inp (call_id e) k))) ks)"
proof -
  let ?core = "core_run inp e t src"
  let ?P = "\<lambda>l. \<exists>k. l = snd (decideAndRun inp e t src (xi_attempts inp (call_id e) k))"
  have p: "?P (fst (snd (?core j)))" for j
  proof -
    have "fst (snd (?core j)) = snd (decideAndRun inp e t src (xi_attempts inp (call_id e) j))" by (simp add: core_run_def split: prod.split)
    then show ?thesis by blast
  qed
  define ms where "ms = concat (map (\<lambda>m. case m of None \<Rightarrow> [] | Some f \<Rightarrow> [f e t]) (xi_middleware inp))"
  have "\<exists>bs. fst (snd (compose_mw ms ?core 0)) = concat bs \<and> (\<forall>b \<in> set bs. ?P b)" by (rule compose_log) (rule p)
  moreover have "snd (wrapped inp e t src) = fst (snd (compose_mw ms ?core 0))" by (simp add: wrapped_def ms_def split: prod.split)
  ultimately obtain bs where "snd (wrapped inp e t src) = concat bs" "\<forall>b \<in> set bs. ?P b" by auto
  moreover from this(2) obtain f where "\<forall>b \<in> set bs. b = snd (decideAndRun inp e t src (xi_attempts inp (call_id e) (f b)))" by metis
  then have "bs = map (\<lambda>k. snd (decideAndRun inp e t src (xi_attempts inp (call_id e) k))) (map f bs)" by (induction bs) auto
  ultimately show ?thesis by metis
qed

lemma concat_split:
  assumes "concat bs = l1 @ x # l2"
  shows "\<exists>bs1 b bs2 p q. bs = bs1 @ b # bs2 \<and> b = p @ x # q \<and> l1 = concat bs1 @ p \<and> l2 = q @ concat bs2"
  using assms
proof (induction bs arbitrary: l1)
  case (Cons b bs)
  then have "b @ concat bs = l1 @ x # l2" by simp
  then consider r where "b = l1 @ x # r" "l2 = r @ concat bs" | r where "l1 = b @ r" "concat bs = r @ x # l2"
  proof -
    obtain us where us: "b = l1 @ us \<and> us @ concat bs = x # l2 \<or> l1 = b @ us \<and> concat bs = us @ x # l2"
      using \<open>b @ concat bs = l1 @ x # l2\<close> by (auto simp: append_eq_append_conv2)
    show thesis
    proof (cases us)
      case Nil
      with us that(2) [of "[]"] show ?thesis by auto
    next
      case (Cons y ys)
      with us that show ?thesis by auto
    qed
  qed
  then show ?case
  proof cases
    case (1 r)
    then show ?thesis by (intro exI [of _ "[]"] exI [of _ b] exI [of _ bs] exI [of _ l1] exI [of _ r]) simp
  next
    case (2 r)
    from Cons.IH [OF 2(2)] obtain bs1 b' bs2 p q where "bs = bs1 @ b' # bs2 \<and> b' = p @ x # q \<and> r = concat bs1 @ p \<and> l2 = q @ concat bs2" by blast
    with 2(1) show ?thesis by (intro exI [of _ "b # bs1"] exI [of _ b'] exI [of _ bs2] exI [of _ p] exI [of _ q]) simp
  qed
qed simp

definition runs_in :: "x_event list \<Rightarrow> (string \<times> bool) set" where
  "runs_in l = {(c, m). X_run c m \<in> set l}"

lemma runs_in_simps [simp]:
  "runs_in [] = {}" "runs_in (l @ r) = runs_in l \<union> runs_in r"
  "runs_in (x # l) = (case x of X_run c m \<Rightarrow> insert (c, m) (runs_in l) | _ \<Rightarrow> runs_in l)"
  by (auto simp: runs_in_def split: x_event.splits)

lemma runs_in_concat: "runs_in (concat ls) = (\<Union>l \<in> set ls. runs_in l)"
  by (auto simp: runs_in_def)

lemma cap_shape: "runs_in (snd (capObservation inp e t s k)) = {} \<and> x_id ` set (snd (capObservation inp e t s k)) \<subseteq> {Some (call_id e)} \<and>
   (\<forall>i ok tr. X_result i ok tr \<notin> set (snd (capObservation inp e t s k)))"
  by (simp add: capObservation_def Let_def)

lemma settle_shape:
  "runs_in (snd (settle_call inp e k ok out s)) = {}" "x_id ` set (snd (settle_call inp e k ok out s)) \<subseteq> {Some (call_id e)}"
  "X_result i ok' tr \<in> set (snd (settle_call inp e k ok out s)) \<Longrightarrow> er_trust (fst (settle_call inp e k ok out s)) = tr"
  "er_callId (fst (settle_call inp e k ok out s)) = call_id e"
  using cap_shape [of inp e "result_trust e" s k]
  by (auto simp: settle_call_def call_answer_def Let_def image_subset_iff split: prod.splits)

lemma runOne_shape:
  "\<exists>es. snd (runOne inp e a) = X_call (call_id e) # X_run (call_id e) (mutates e) # es \<and> runs_in es = {}"
  "x_id ` set (snd (runOne inp e a)) \<subseteq> {Some (call_id e)}"
  "X_result i ok tr \<in> set (snd (runOne inp e a)) \<Longrightarrow> er_trust (fst (runOne inp e a)) = tr"
  "er_callId (fst (runOne inp e a)) = call_id e"
  using settle_shape by (auto simp: runOne_def Let_def split: handler_end.splits)

text \<open>A ruling of the policy that denies does so whatever the taint and the approver.\<close>

lemma ruled_deny:
  assumes "p_effect (authorize (call_query inp e False True)) = Deny" shows "p_effect (authorize (call_query inp e t ap)) = Deny"
  using assms by (auto simp: authorize_def call_query_def needs_authorization_def Let_def decision_def split: if_splits)

lemma decide_runs:
  assumes "snd (decideAndRun inp e t src a) = l1 @ X_run c m # l2"
  shows "c = call_id e \<and> m = mutates e \<and> \<not> (mutates e \<and> xi_defer inp) \<and>
    (l1 = [X_call c] \<and> p_effect (authorize (call_query inp e t (xi_approve inp))) = Allow \<or>
     (\<exists>q. l1 = [X_asked c q, X_answered c A_granted, X_call c]))"
proof -
  obtain es where es: "snd (runOne inp e a) = X_call (call_id e) # X_run (call_id e) (mutates e) # es" "\<forall>c m. X_run c m \<notin> set es"
    using runOne_shape(1) [of inp e a] by (auto simp: runs_in_def)
  have first: "l = [X_call (call_id e)] \<and> c = call_id e \<and> m = mutates e" if "X_call (call_id e) # X_run (call_id e) (mutates e) # es = l @ X_run c m # l2" for l
  proof -
    have "es \<noteq> r @ X_run c m # l2" for r
    proof
      assume "es = r @ X_run c m # l2"
      then have "X_run c m \<in> set es" by simp
      with es(2) show False by blast
    qed
    with that show ?thesis by (auto simp: Cons_eq_append_conv)
  qed
  note ruled_deny [of inp e t "xi_approve inp"]
  then show ?thesis using assms first es(1)
    by (auto simp: decideAndRun_def Let_def Cons_eq_append_conv split: if_splits approval_end.splits prod.splits)
qed

lemma decide_ids: "x_id ` set (snd (decideAndRun inp e t src a)) \<subseteq> {Some (call_id e)}"
  using runOne_shape(2) [of inp e a] by (auto simp: decideAndRun_def Let_def image_subset_iff split: approval_end.splits prod.splits)

lemma decide_result: "X_result i ok tr \<in> set (snd (decideAndRun inp e t src a)) \<Longrightarrow>
   \<exists>r. fst (decideAndRun inp e t src a) = Some r \<and> er_trust r = tr"
  using runOne_shape(3) [of i ok tr inp e a] by (auto simp: decideAndRun_def Let_def split: if_splits approval_end.splits prod.splits)


lemma wrapped_parts:
  "x \<in> set (snd (wrapped inp e t src)) \<Longrightarrow> \<exists>a. x \<in> set (snd (decideAndRun inp e t src a))"
  using wrapped_log [of inp e t src] by auto

lemma entry_ids: "x_id ` set (snd (run_entry inp planned t src e)) \<subseteq> {Some (call_id e)}"
proof -
  have "x_id x = Some (call_id e)" if x: "x \<in> set (snd (wrapped inp e t src))" for x
  proof -
    obtain a where "x \<in> set (snd (decideAndRun inp e t src a))" using wrapped_parts [OF x] by blast
    with decide_ids [of inp e t src a] show ?thesis by (auto simp: image_subset_iff)
  qed
  then show ?thesis by (auto simp: run_entry_def notAlone_def)
qed

lemma entry_id: "x \<in> set (snd (run_entry inp planned t src e)) \<Longrightarrow> x_id x = Some (call_id e)"
  using entry_ids [of inp planned t src e] by (auto simp: image_subset_iff)

section \<open>What runs was authorised\<close>

lemma runs_in_wrapped:
  assumes "snd (wrapped inp e tainted source) = l1 @ X_run c m # l2"
  shows "c = call_id e \<and> m = mutates e \<and> \<not> (mutates e \<and> xi_defer inp) \<and>
    (p_effect (authorize (call_query inp e tainted (xi_approve inp))) = Allow \<or>
     (\<exists>l0 q. l1 = l0 @ [X_asked c q, X_answered c A_granted, X_call c]))"
proof -
  obtain ks where "concat (map (\<lambda>k. snd (decideAndRun inp e tainted source (xi_attempts inp (call_id e) k))) ks) = l1 @ X_run c m # l2"
    using wrapped_log [of inp e tainted source] assms by metis
  from concat_split [OF this] obtain bs1 b bs2 p q where
      b: "map (\<lambda>k. snd (decideAndRun inp e tainted source (xi_attempts inp (call_id e) k))) ks = bs1 @ b # bs2"
      "b = p @ X_run c m # q" and l1: "l1 = concat bs1 @ p" by blast
  have "b \<in> set (map (\<lambda>k. snd (decideAndRun inp e tainted source (xi_attempts inp (call_id e) k))) ks)" unfolding b(1) by simp
  with b(2) obtain a where "snd (decideAndRun inp e tainted source a) = p @ X_run c m # q" by auto
  from decide_runs [OF this] l1 show ?thesis by fastforce
qed

text \<open>C12. Whatever the middleware around a call does, its handler starts only when the policy allows the call outright, or
  right after a person has granted that very run; and where calls are queued for someone else, a mutating one never runs.\<close>

theorem runs_authorised:
  assumes "snd (wrapped inp e tainted source) = l1 @ X_run c m # l2"
  shows "c = call_id e \<and> m = mutates e \<and> \<not> (mutates e \<and> xi_defer inp) \<and>
    (p_effect (authorize (call_query inp e tainted (xi_approve inp))) = Allow \<or>
     (\<exists>l0 q. l1 = l0 @ [X_asked c q, X_answered c A_granted, X_call c]))"
  using assms by (rule runs_in_wrapped)

section \<open>The step\<close>

lemma merges_set: "l \<in> merges ls \<Longrightarrow> set l = (\<Union>l \<in> set ls. set l)"
  by (induction ls arbitrary: l) (auto simp: set_shuffles)

lemma step_logs_set: "l \<in> step_logs gs \<Longrightarrow> set l = (\<Union>g \<in> set gs. \<Union>l \<in> set g. set l)"
  by (induction gs arbitrary: l) (auto simp: merges_set)

lemma run_groups_log:
  "g \<in> set (snd (run_groups inp planned ts gs)) \<Longrightarrow> lg \<in> set g \<Longrightarrow> \<exists>e t src. e \<in> set (concat gs) \<and> lg = snd (run_entry inp planned t src e)"
proof (induction gs arbitrary: ts)
  case (Cons g' gs)
  show ?case
  proof (cases "g \<in> set (snd (run_groups inp planned (taint_after ts (map (the \<circ> fst) (map (run_entry inp planned (fst ts) (snd ts)) g'))) gs))")
    case True
    with Cons.IH [OF this Cons.prems(2)] show ?thesis by auto
  next
    case False
    with Cons.prems have "lg \<in> snd ` run_entry inp planned (fst ts) (snd ts) ` set g'"
      by (auto simp: Let_def split: if_splits prod.splits)
    then obtain e where "e \<in> set g'" "lg = snd (run_entry inp planned (fst ts) (snd ts) e)" by blast
    then show ?thesis by (intro exI [of _ e] exI [of _ "fst ts"] exI [of _ "snd ts"]) simp
  qed
qed simp

text \<open>The calls an event may belong to.\<close>

definition ids_of :: "planned_call list \<Rightarrow> string option set" where "ids_of es = (Some \<circ> call_id) ` set es"

lemma ids_of_simps [simp]: "ids_of (xs @ ys) = ids_of xs \<union> ids_of ys" "ids_of [] = {}" "ids_of (e # es) = insert (Some (call_id e)) (ids_of es)"
  by (auto simp: ids_of_def)

lemma run_groups_ids:
  assumes "l \<in> step_logs (snd (run_groups inp planned ts gs))" shows "x_id ` set l \<subseteq> ids_of (concat gs)"
proof
  fix i assume "i \<in> x_id ` set l"
  then obtain x where x: "i = x_id x" "x \<in> set l" by blast
  then obtain g lg where g: "g \<in> set (snd (run_groups inp planned ts gs))" "lg \<in> set g" "x \<in> set lg"
    using step_logs_set [OF assms] by auto
  from run_groups_log [OF g(1,2)] obtain e t src where e: "e \<in> set (concat gs)" "lg = snd (run_entry inp planned t src e)" by blast
  with g(3) x(1) entry_id [of x inp planned t src e] show "i \<in> ids_of (concat gs)" by (auto simp: ids_of_def)
qed

lemma run_groups_append:
  assumes "l \<in> step_logs (snd (run_groups inp planned ts (gs1 @ gs2)))"
  shows "\<exists>la lb ts'. l = la @ lb \<and> x_id ` set la \<subseteq> ids_of (concat gs1) \<and> (lb = [] \<or> lb \<in> step_logs (snd (run_groups inp planned ts' gs2)))"
  using assms
proof (induction gs1 arbitrary: ts l)
  case Nil
  then show ?case by (metis append_Nil append_Nil2 concat.simps(1) empty_subsetI image_empty list.set(1))
next
  case (Cons g gs1)
  let ?settled = "map (run_entry inp planned (fst ts) (snd ts)) g"
  have here: "x_id ` set r \<subseteq> ids_of g" if "r \<in> merges (map snd ?settled)" for r
    using merges_set [OF that] entry_id by (auto simp: ids_of_def)
  show ?case
  proof (cases "list_ex (\<lambda>p. fst p = None) ?settled")
    case True
    with Cons.prems have "l \<in> merges (map snd ?settled)" by (auto simp: Let_def)
    from here [OF this] show ?thesis by (intro exI [of _ l] exI [of _ "[]"] exI [of _ ts]) auto
  next
    case False
    let ?ts = "taint_after ts (map (the \<circ> fst) ?settled)"
    from Cons.prems False obtain a r where l: "l = a @ r" "a \<in> merges (map snd ?settled)"
        and r: "r \<in> step_logs (snd (run_groups inp planned ?ts (gs1 @ gs2)))"
      by (auto simp: Let_def split: prod.splits)
    from Cons.IH [OF r] obtain la lb ts' where "r = la @ lb" "x_id ` set la \<subseteq> ids_of (concat gs1)"
        "lb = [] \<or> lb \<in> step_logs (snd (run_groups inp planned ts' gs2))" by blast
    with l here [OF l(2)] show ?thesis
      by (intro exI [of _ "a @ la"] exI [of _ lb] exI [of _ ts']) (auto simp: image_subset_iff)
  qed
qed

abbreviation planned_of :: "exec_input \<Rightarrow> tool_intent list \<Rightarrow> planned_call list" where
  "planned_of inp is \<equiv> fst (planIntents (xi_jparse inp) (xi_registry inp) is)"

lemma execute_present_shape:
  assumes "execute_present inp is = (out, logs)"
  obtains errs where "out = O_repair errs" "errs \<noteq> []" "logs = [[[X_repair (remdups (map ti_slug is))]]]"
  | src where "snd (planIntents (xi_jparse inp) (xi_registry inp) is) = []"
      "logs = snd (run_groups inp (planned_of inp is) (xi_tainted inp, src) (batch (planned_of inp is) (xi_maxParallel inp)))"
      "out = (case fst (run_groups inp (planned_of inp is) (xi_tainted inp, src) (batch (planned_of inp is) (xi_maxParallel inp))) of
                None \<Rightarrow> O_threw | Some rs \<Rightarrow> O_ran rs)"
proof (cases "snd (planIntents (xi_jparse inp) (xi_registry inp) is) = []")
  case True
  with assms that(2) [of "case xi_source inp of None \<Rightarrow> ''an earlier tool call'' | Some s \<Rightarrow> s"] show ?thesis
    by (auto simp: execute_present_def split: prod.splits option.splits)
next
  case False
  with assms that(1) show ?thesis by (auto simp: execute_present_def split: prod.splits)
qed

lemma planIntents_filter: "set (planned_of inp (filter Q is)) \<subseteq> set (planned_of inp is)"
proof (induction "is")
  case (Cons i "is")
  then show ?case by (auto split: prod.splits sum.splits if_splits)
qed simp

lemma step_logs_append: "l \<in> step_logs (gs @ hs) \<longleftrightarrow> (\<exists>a b. l = a @ b \<and> a \<in> step_logs gs \<and> b \<in> step_logs hs)"
proof (induction gs arbitrary: l)
  case (Cons g gs)
  show ?case by (auto simp: Cons) (metis append.assoc)+
qed simp

text \<open>A step with withheld calls is the step without them, followed by their refusals.\<close>

lemma executeIntents_present:
  assumes "executeIntents inp is = (out, logs)"
  obtains Q out' logs' where "execute_present inp (filter Q is) = (out', logs')"
    "\<And>l. l \<in> step_logs logs \<Longrightarrow> \<exists>a b. l = a @ b \<and> a \<in> step_logs logs' \<and> (\<forall>x \<in> set b. \<exists>c. x = X_gated c)"
proof -
  let ?held = "\<lambda>i. case xi_withheld inp of None \<Rightarrow> False | Some ws \<Rightarrow> ti_slug i \<in> set ws"
  show thesis
  proof (cases "list_ex ?held is")
    case False
    with assms have "execute_present inp (filter (\<lambda>_. True) is) = (out, logs)" by (simp add: executeIntents_def)
    then show thesis by (rule that) (metis append_Nil2 empty_iff list.set(1))
  next
    case True
    obtain out' logs' where e: "execute_present inp (filter (\<lambda>i. \<not> ?held i) is) = (out', logs')" by fastforce
    have "\<exists>a b. l = a @ b \<and> a \<in> step_logs logs' \<and> (\<forall>x \<in> set b. \<exists>c. x = X_gated c)" if l: "l \<in> step_logs logs" for l
    proof (cases out')
      case (O_ran rs)
      with True e assms have logs: "logs = logs' @ [[map (\<lambda>i. X_gated (ti_callId i)) (filter ?held is)]]"
        by (auto simp: executeIntents_def Let_def)
      obtain a b where "l = a @ b" "a \<in> step_logs logs'" "b \<in> step_logs [[map (\<lambda>i. X_gated (ti_callId i)) (filter ?held is)]]"
        using step_logs_append [THEN iffD1, OF l [unfolded logs]] by (elim exE conjE)
      moreover have "\<forall>x \<in> set b. \<exists>c. x = X_gated c"
      proof -
        have "set b = (\<lambda>i. X_gated (ti_callId i)) ` set (filter ?held is)" using step_logs_set [OF \<open>b \<in> _\<close>] by (simp only: list.set UN_insert UN_empty Un_empty_right set_map)
        then show ?thesis by blast
      qed
      ultimately show ?thesis by blast
    next
      case (O_repair errs)
      with True e assms have "logs = logs'" by (simp add: executeIntents_def Let_def)
      with l show ?thesis by (intro exI [of _ l] exI [of _ "[]"]) simp
    next
      case O_threw
      with True e assms have "logs = logs'" by (simp add: executeIntents_def Let_def)
      with l show ?thesis by (intro exI [of _ l] exI [of _ "[]"]) simp
    qed
    with e show thesis by (rule that)
  qed
qed

text \<open>C11. Where mutating calls are queued for someone else, a step never runs one, whatever the policy, the approver and the
  middleware answer.\<close>

theorem deferred_never_runs:
  assumes "executeIntents inp is = (out, logs)" "l \<in> step_logs logs" "xi_defer inp"
  shows "X_run c True \<notin> set l"
proof
  assume run: "X_run c True \<in> set l"
  from executeIntents_present [OF assms(1)] obtain Q out' logs' where e: "execute_present inp (filter Q is) = (out', logs')"
    and "\<exists>a b. l = a @ b \<and> a \<in> step_logs logs' \<and> (\<forall>x \<in> set b. \<exists>c. x = X_gated c)" using assms(2) by metis
  then obtain a where a: "a \<in> step_logs logs'" "X_run c True \<in> set a" using run by auto
  from e show False
  proof (cases rule: execute_present_shape)
    case (1 errs)
    with step_logs_set [OF a(1)] a(2) show False by auto
  next
    case (2 src)
    from step_logs_set [OF a(1)] a(2) obtain g lg where g: "g \<in> set logs'" "lg \<in> set g" "X_run c True \<in> set lg" by auto
    from run_groups_log [OF g(1) [unfolded 2(2)] g(2)] obtain e' t s where
      "lg = snd (run_entry inp (planned_of inp (filter Q is)) t s e')" by blast
    with g(3) have "X_run c True \<in> set (snd (wrapped inp e' t s))" by (auto simp: run_entry_def notAlone_def split: if_splits)
    then obtain l1 l2 where "snd (wrapped inp e' t s) = l1 @ X_run c True # l2" by (meson split_list)
    from runs_in_wrapped [OF this] assms(3) show False by auto
  qed
qed

text \<open>C13. In every interleaving of a step a mutating call is a barrier: what the calls written before it do comes before it,
  and what the calls written after it do comes after it, with nothing of another call in between.\<close>

theorem mutating_serial:
  assumes "execute_present inp is = (out, logs)" "l \<in> step_logs logs" "planned_of inp is = as @ [w] @ bs" "mutates w"
    and "snd (planIntents (xi_jparse inp) (xi_registry inp) is) = []"
  shows "\<exists>l1 l2 l3. l = l1 @ l2 @ l3 \<and> x_id ` set l1 \<subseteq> ids_of as \<and> x_id ` set l2 \<subseteq> ids_of [w] \<and> x_id ` set l3 \<subseteq> ids_of bs"
proof -
  let ?gs = "batch (planned_of inp is) (xi_maxParallel inp)"
  note b = batch_facts [of "planned_of inp is" "xi_maxParallel inp"]
  have "concat ?gs = as @ w # bs" using b assms(3) by simp
  from concat_split [OF this] obtain gs1 g gs2 p q where g: "?gs = gs1 @ g # gs2" "g = p @ w # q" "as = concat gs1 @ p" "bs = q @ concat gs2"
    by blast
  have "group_ok (xi_maxParallel inp) g" using b g(1) by simp
  with g(2) assms(4) have pq: "p = []" "q = []" by (auto simp: group_ok_def)
  from assms(1) obtain src where l: "l \<in> step_logs (snd (run_groups inp (planned_of inp is) (xi_tainted inp, src) (gs1 @ [g] @ gs2)))"
  proof (cases rule: execute_present_shape)
    case (1 errs)
    with assms(1,5) show ?thesis by (auto simp: execute_present_def split: prod.splits option.splits)
  next
    case (2 src)
    with assms(2) g(1) that show ?thesis by simp
  qed
  from run_groups_append [OF this] obtain l1 r ts where 1: "l = l1 @ r" "x_id ` set l1 \<subseteq> ids_of (concat gs1)"
    "r = [] \<or> r \<in> step_logs (snd (run_groups inp (planned_of inp is) ts ([g] @ gs2)))" by blast
  show ?thesis
  proof (cases "r = []")
    case True
    with 1 g(3) pq show ?thesis by (intro exI [of _ l1] exI [of _ "[]"]) simp
  next
    case False
    with 1(3) have "r \<in> step_logs (snd (run_groups inp (planned_of inp is) ts ([g] @ gs2)))" by simp
    from run_groups_append [OF this] obtain l2 l3 ts' where 2: "r = l2 @ l3" "x_id ` set l2 \<subseteq> ids_of (concat [g])"
      "l3 = [] \<or> l3 \<in> step_logs (snd (run_groups inp (planned_of inp is) ts' gs2))" by blast
    have "x_id ` set l3 \<subseteq> ids_of bs" using 2(3) run_groups_ids [of l3 inp "planned_of inp is" ts' gs2] g(4) pq by auto
    with 1 2 g(2,3) pq show ?thesis by (intro exI [of _ l1] exI [of _ l2] exI [of _ l3]) simp
  qed
qed

section \<open>The write gate\<close>

definition covered :: "exec_input \<Rightarrow> planned_call \<Rightarrow> bool" where
  "covered inp e \<longleftrightarrow>
     (let d = decidePolicy (xi_policy inp) \<lparr>q_slug = call_slug e, q_match = match_text e\<rparr> in p_effect d = Allow \<and> p_rule d \<noteq> None)"

lemma tainted_allow:
  assumes "p_effect (authorize (call_query inp e True ap)) = Allow" "mutates e" "xi_onMutate inp \<noteq> On_allow"
  shows "covered inp e"
  using authorize_allow [OF assms(1)] assms(2,3) by (simp add: call_query_def needs_authorization_def covered_def)

lemma no_middleware:
  assumes "list_all (\<lambda>m. m = None) (xi_middleware inp)"
  shows "wrapped inp e t src = decideAndRun inp e t src (xi_attempts inp (call_id e) 0)"
proof -
  have "concat (map (\<lambda>m. case m of None \<Rightarrow> [] | Some f \<Rightarrow> [f e t]) ms) = []" if "list_all (\<lambda>m. m = None) ms" for ms :: "middleware list"
    using that by (induction ms) auto
  from this [OF assms] show ?thesis by (simp add: wrapped_def compose_mw_def core_run_def del: concat_eq_Nil_conv split: prod.split)
qed

lemma mutating_alone: "group_ok n g \<Longrightarrow> e \<in> set g \<Longrightarrow> mutates e \<Longrightarrow> g = [e]"
  by (cases g rule: remdups_adj.cases) (auto simp: group_ok_def list_all_iff)

lemma gate_groups:
  assumes "list_all (\<lambda>m. m = None) (xi_middleware inp)" "xi_onMutate inp \<noteq> On_allow"
    and "list_all (group_ok n) gs" "l \<in> step_logs (snd (run_groups inp planned ts gs))" "l = l1 @ X_run c True # l2"
    and "fst ts \<or> (\<exists>i ok. X_result i ok Untrusted \<in> set l1)"
  shows "\<exists>e \<in> set (concat gs). call_id e = c \<and> mutates e \<and> (covered inp e \<or> X_answered c A_granted \<in> set l1)"
  using assms(3-)
proof (induction gs arbitrary: ts l l1)
  case (Cons g gs)
  let ?entry = "run_entry inp planned (fst ts) (snd ts)"
  let ?settled = "map ?entry g"
  let ?ts = "taint_after ts (map (the \<circ> fst) ?settled)"
  obtain a r where l: "l = a @ r" "a \<in> merges (map snd ?settled)"
      and r: "r = [] \<or> \<not> list_ex (\<lambda>p. fst p = None) ?settled \<and> r \<in> step_logs (snd (run_groups inp planned ?ts gs))"
    using Cons.prems(2) by (auto simp: Let_def split: if_splits prod.splits)
  from l(1) Cons.prems(3) consider a2 where "a = l1 @ X_run c True # a2" | b where "l1 = a @ b" "r = b @ X_run c True # l2"
    by (auto simp: append_eq_append_conv2 Cons_eq_append_conv append_eq_Cons_conv)
  then show ?case
  proof cases
    case (1 a2)
    then have "X_run c True \<in> (\<Union>lg \<in> set (map snd ?settled). set lg)" using merges_set [OF l(2)] by auto
    then obtain e where e: "e \<in> set g" "X_run c True \<in> set (snd (?entry e))" by auto
    then have entry: "?entry e = decideAndRun inp e (fst ts) (snd ts) (xi_attempts inp (call_id e) 0)"
      using no_middleware [OF assms(1)] by (auto simp: run_entry_def notAlone_def split: if_splits)
    with e(2) obtain p q where pq: "snd (decideAndRun inp e (fst ts) (snd ts) (xi_attempts inp (call_id e) 0)) = p @ X_run c True # q"
      by (metis split_list)
    note runs = decide_runs [OF pq]
    have "g = [e]" by (rule mutating_alone) (use runs Cons.prems(1) e(1) in auto)
    with l(2) entry have "a = snd (decideAndRun inp e (fst ts) (snd ts) (xi_attempts inp (call_id e) 0))" by simp
    with 1 have whole: "snd (decideAndRun inp e (fst ts) (snd ts) (xi_attempts inp (call_id e) 0)) = l1 @ X_run c True # a2" by simp
    note here = decide_runs [OF this]
    then have "\<nexists>i ok. X_result i ok Untrusted \<in> set l1" by auto
    with Cons.prems(4) have t: "fst ts" by blast
    from here t have "covered inp e \<or> X_answered c A_granted \<in> set l1"
      using tainted_allow [of inp e "xi_approve inp"] assms(2) by auto
    with here e(1) show ?thesis by auto
  next
    case (2 b)
    then have r': "r \<in> step_logs (snd (run_groups inp planned ?ts gs))" "\<not> list_ex (\<lambda>p. fst p = None) ?settled" using r by auto
    have "fst ?ts \<or> (\<exists>i ok. X_result i ok Untrusted \<in> set b)"
    proof (cases "fst ts \<or> (\<exists>i ok. X_result i ok Untrusted \<in> set b)")
      case True
      then show ?thesis by (auto simp: taint_after_def)
    next
      case False
      with Cons.prems(4) 2(1) obtain i ok where "X_result i ok Untrusted \<in> set a" by auto
      then obtain e where e: "e \<in> set g" "X_result i ok Untrusted \<in> set (snd (?entry e))" using merges_set [OF l(2)] by auto
      then have "?entry e = decideAndRun inp e (fst ts) (snd ts) (xi_attempts inp (call_id e) 0)"
        using no_middleware [OF assms(1)] by (auto simp: run_entry_def notAlone_def split: if_splits)
      with decide_result [of i ok Untrusted] e(2) obtain res where "fst (?entry e) = Some res" "er_trust res = Untrusted" by metis
      moreover from this e(1) have "res \<in> set (map (the \<circ> fst) ?settled)" by (force simp: image_iff)
      ultimately have "find (\<lambda>r. er_trust r = Untrusted) (map (the \<circ> fst) ?settled) \<noteq> None" unfolding find_None_iff by blast
      then show ?thesis by (auto simp: taint_after_def)
    qed
    from Cons.IH [OF _ r'(1) 2(2) this] Cons.prems(1) 2(1) show ?thesis by auto
  qed
qed simp

lemma gate_facts:
  assumes "executeIntents inp is = (out, logs)" "l \<in> step_logs logs" "l = l1 @ X_run c True # l2"
    and "list_all (\<lambda>m. m = None) (xi_middleware inp)" "xi_onMutate inp \<noteq> On_allow"
    and "xi_tainted inp \<or> (\<exists>i ok. X_result i ok Untrusted \<in> set l1)"
  shows "\<exists>e \<in> set (planned_of inp is). call_id e = c \<and> mutates e \<and> (covered inp e \<or> X_answered c A_granted \<in> set l1)"
proof -
  from executeIntents_present [OF assms(1)] obtain Q out' logs' where e: "execute_present inp (filter Q is) = (out', logs')"
    and "\<exists>a b. l = a @ b \<and> a \<in> step_logs logs' \<and> (\<forall>x \<in> set b. \<exists>c. x = X_gated c)" using assms(2) by metis
  then obtain a b where ab: "l = a @ b" "a \<in> step_logs logs'" "\<forall>x \<in> set b. \<exists>c. x = X_gated c" by blast
  have "\<exists>a2. a = l1 @ X_run c True # a2"
    using ab(1,3) assms(3) by (auto simp: append_eq_append_conv2 Cons_eq_append_conv append_eq_Cons_conv)
  then obtain a2 where a2: "a = l1 @ X_run c True # a2" by blast
  from e show ?thesis
  proof (cases rule: execute_present_shape)
    case (1 errs)
    with step_logs_set [OF ab(2)] a2 show ?thesis by auto
  next
    case (2 src)
    note b = batch_facts [of "planned_of inp (filter Q is)" "xi_maxParallel inp"]
    from gate_groups [OF assms(4,5) conjunct2 [OF b] ab(2) [unfolded 2(2)] a2] assms(6) b
    show ?thesis using planIntents_filter [of inp Q "is"] by auto
  qed
qed

text \<open>C10. Without middleware, and unless the manifest sets \<open>onMutate: allow\<close>, once an untrusted result has come in during a
  turn, earlier in the same step included, a mutating call starts only if an allow rule covers it or a person has just
  granted it.\<close>

theorem write_gate:
  assumes "executeIntents inp is = (out, logs)" "l \<in> step_logs logs" "l = l1 @ X_run c True # l2"
    and "list_all (\<lambda>m. m = None) (xi_middleware inp)" "xi_onMutate inp \<noteq> On_allow"
    and "xi_tainted inp \<or> (\<exists>i ok. X_result i ok Untrusted \<in> set l1)"
  shows "\<exists>e \<in> set (planned_of inp is). call_id e = c \<and> mutates e \<and> (covered inp e \<or> X_answered c A_granted \<in> set l1)"
  using assms by (rule gate_facts)

section \<open>All or nothing, and every call answered\<close>

lemma coerce_fails: "coerceArgs jparse spec raw = Inl errs \<Longrightarrow> errs \<noteq> []"
  by (auto simp: coerceArgs_def Let_def split: if_splits)

definition malformed :: "exec_input \<Rightarrow> tool_intent \<Rightarrow> bool" where
  "malformed inp i \<longleftrightarrow>
     (case resolve_tool (xi_registry inp) (ti_slug i) of Inl _ \<Rightarrow> True
      | Inr t \<Rightarrow> isl (coerceArgs (xi_jparse inp) (tl_parameters t) (ti_args i)))"

lemma has_resolve: "has rg s \<longleftrightarrow> (\<exists>t. resolve_tool rg s = Inr t)"
  by (auto simp: has_def resolve_tool_def split: option.splits)

lemma planIntents_repair: "snd (planIntents (xi_jparse inp) (xi_registry inp) is) = [] \<longleftrightarrow> list_all (\<lambda>i. \<not> malformed inp i) is"
  by (induction "is") (auto simp: malformed_def has_resolve coerce_fails split: prod.splits sum.splits)


definition withheld_call :: "exec_input \<Rightarrow> tool_intent \<Rightarrow> bool" where
  "withheld_call inp i = (case xi_withheld inp of None \<Rightarrow> False | Some ws \<Rightarrow> ti_slug i \<in> set ws)"

text \<open>A repair error says which call it is about: by its name alone, or by its name, a dot and a field.\<close>

definition names_call :: "tool_intent \<Rightarrow> string \<times> repair_error \<Rightarrow> bool" where
  "names_call i x = (case x of
     (fld, Not_a_tool) \<Rightarrow> fld = ti_slug i
   | (fld, Bad_field p) \<Rightarrow> starts_with (ti_slug i @ ''.'') fld)"

lemma repair_names:
  "i \<in> set is \<Longrightarrow> malformed inp i \<Longrightarrow> \<exists>x \<in> set (snd (planIntents (xi_jparse inp) (xi_registry inp) is)). names_call i x"
  "x \<in> set (snd (planIntents (xi_jparse inp) (xi_registry inp) is)) \<Longrightarrow> \<exists>j \<in> set is. malformed inp j \<and> names_call j x"
proof -
  show "\<exists>x \<in> set (snd (planIntents (xi_jparse inp) (xi_registry inp) is)). names_call i x" if "i \<in> set is" "malformed inp i" for "is"
    using that
  proof (induction "is")
    case (Cons j "is")
    show ?case
    proof (cases "j = i")
      case False
      with Cons show ?thesis by (force split: prod.splits sum.splits)
    next
      case True
      show ?thesis
      proof (cases "resolve_tool (xi_registry inp) (ti_slug i)")
        case (Inl e)
        with True show ?thesis by (auto simp: has_resolve names_call_def split: prod.splits)
      next
        case (Inr t)
        with Cons.prems(2) obtain errs where c: "coerceArgs (xi_jparse inp) (tl_parameters t) (ti_args i) = Inl errs"
          by (auto simp: malformed_def isl_def)
        with coerce_fails obtain f p rest where "errs = (f, p) # rest" by (metis neq_Nil_conv surj_pair)
        with c Inr True show ?thesis by (auto simp: has_resolve names_call_def starts_with_iff split: prod.splits)
      qed
    qed
  qed simp
  show "\<exists>j \<in> set is. malformed inp j \<and> names_call j x"
    if "x \<in> set (snd (planIntents (xi_jparse inp) (xi_registry inp) is))" for x "is"
    using that
  proof (induction "is")
    case (Cons j "is")
    show ?case
    proof (cases "x \<in> set (snd (planIntents (xi_jparse inp) (xi_registry inp) is))")
      case True
      with Cons.IH show ?thesis by auto
    next
      case False
      have "malformed inp j \<and> names_call j x"
      proof (cases "resolve_tool (xi_registry inp) (ti_slug j)")
        case (Inl e)
        with Cons.prems False show ?thesis by (auto simp: has_resolve malformed_def names_call_def split: prod.splits)
      next
        case (Inr t)
        with Cons.prems False show ?thesis
          by (auto simp: has_resolve malformed_def names_call_def starts_with_iff split: prod.splits sum.splits)
      qed
      then show ?thesis by simp
    qed
  qed simp
qed

text \<open>C15. When a call that is not withheld names no tool or has arguments that cannot be used, none of the step's calls runs, and
  the step answers what to repair: every such call is named by an error, and every error names such a call.\<close>

theorem malformed_step_runs_nothing:
  assumes "i \<in> set is" "malformed inp i" "\<not> withheld_call inp i"
  shows "\<exists>errs logs. executeIntents inp is = (O_repair errs, logs) \<and> (\<forall>l \<in> step_logs logs. runs_in l = {}) \<and>
    (\<forall>j \<in> set is. malformed inp j \<and> \<not> withheld_call inp j \<longrightarrow> (\<exists>x \<in> set errs. names_call j x)) \<and>
    (\<forall>x \<in> set errs. \<exists>j \<in> set is. malformed inp j \<and> \<not> withheld_call inp j \<and> names_call j x)"
proof -
  define js where "js = filter (\<lambda>j. \<not> withheld_call inp j) is"
  let ?errs = "snd (planIntents (xi_jparse inp) (xi_registry inp) js)"
  have "i \<in> set js" using assms(1,3) by (simp add: js_def)
  then have no: "?errs \<noteq> []" using assms(2) by (auto simp: planIntents_repair list_all_iff)
  then have p: "execute_present inp js = (O_repair ?errs, [[[X_repair (remdups (map ti_slug js))]]])"
    by (cases "planIntents (xi_jparse inp) (xi_registry inp) js") (simp add: execute_present_def)
  have e: "executeIntents inp is = (O_repair ?errs, [[[X_repair (remdups (map ti_slug js))]]])"
  proof (cases "list_ex (withheld_call inp) is")
    case True
    with p show ?thesis unfolding js_def by (simp add: executeIntents_def withheld_call_def [abs_def] Let_def)
  next
    case False
    then have "js = is" by (auto simp: js_def list_ex_iff filter_id_conv)
    with p False show ?thesis by (simp add: executeIntents_def withheld_call_def [abs_def])
  qed
  show ?thesis
  proof (intro exI conjI ballI impI)
    show "executeIntents inp is = (O_repair ?errs, [[[X_repair (remdups (map ti_slug js))]]])" by (rule e)
    show "runs_in l = {}" if "l \<in> step_logs [[[X_repair (remdups (map ti_slug js))]]]" for l using that by auto
    show "\<exists>x \<in> set ?errs. names_call j x" if "j \<in> set is" "malformed inp j \<and> \<not> withheld_call inp j" for j
      by (rule repair_names(1)) (use that in \<open>simp_all add: js_def\<close>)
    show "\<exists>j \<in> set is. malformed inp j \<and> \<not> withheld_call inp j \<and> names_call j x" if "x \<in> set ?errs" for x
      using repair_names(2) [OF that] unfolding js_def by auto
  qed
qed







section \<open>Examples and findings\<close>

definition demo_attempt :: attempt where
  "demo_attempt = \<lparr>at_defer = Some ''queued'', at_approval = A_declined, at_handler = H_output ''ok'', at_keep = True\<rparr>"

definition demo_step :: exec_input where
  "demo_step =
     \<lparr>xi_registry = empty_registry\<lparr>rg_tools := [(demo_tool ''web'' ''remote'' False 1)\<lparr>tl_trust := Some Untrusted\<rparr>, demo_tool ''mail'' ''remote'' True 2]\<rparr>,
      xi_withheld = None, xi_maxParallel = 4, xi_timeoutMs = 1000, xi_timeoutFor = Map.empty, xi_observationMax = 0, xi_keepFull = False,
      xi_tainted = False, xi_onMutate = On_refuse, xi_source = None, xi_policy = DEFAULT_POLICY, xi_approve = False,
      xi_defer = False, xi_middleware = [], xi_jparse = (\<lambda>_. None), xi_attempts = (\<lambda>_ _. demo_attempt)\<rparr>"

definition demo_intent :: "string \<Rightarrow> string \<Rightarrow> tool_intent" where
  "demo_intent c slug = \<lparr>ti_callId = c, ti_slug = slug, ti_args = []\<rparr>"

definition demo_gated :: "exec_outcome \<times> x_event list list list" where
  "demo_gated = executeIntents demo_step [demo_intent ''a'' ''web'', demo_intent ''b'' ''mail'']"

lemma demo_gated_log: "snd demo_gated = [[[X_call ''a'', X_run ''a'' False, X_result ''a'' True Untrusted]], [[X_gated ''b'']]]"
  by code_simp

definition web_call :: planned_call where
  "web_call = hd (planned_of demo_step [demo_intent ''a'' ''web''])"

theorem runs_authorised_witness:
  "snd (wrapped demo_step web_call False ''x'') = [X_call ''a'', X_run ''a'' False, X_result ''a'' True Untrusted] \<and>
   \<not> mutates web_call \<and> p_effect (authorize (call_query demo_step web_call False (xi_approve demo_step))) = Allow"
proof -
  have l: "snd (wrapped demo_step web_call False ''x'') = [X_call ''a''] @ X_run ''a'' False # [X_result ''a'' True Untrusted]" by code_simp
  from runs_authorised [OF l] l show ?thesis by (auto simp: Cons_eq_append_conv)
qed

theorem deferred_never_runs_witness:
  "snd (executeIntents (demo_step\<lparr>xi_defer := True\<rparr>) [demo_intent ''b'' ''mail'']) = [[[X_queued ''b'']]] \<and>
   [X_queued ''b''] \<in> step_logs [[[X_queued ''b'']]] \<and> X_run ''b'' True \<notin> set [X_queued ''b'']"
proof -
  let ?r = "executeIntents (demo_step\<lparr>xi_defer := True\<rparr>) [demo_intent ''b'' ''mail'']"
  have s: "snd ?r = [[[X_queued ''b'']]]" by code_simp
  then have e: "?r = (fst ?r, [[[X_queued ''b'']]])" by (metis prod.collapse)
  have l: "[X_queued ''b''] \<in> step_logs [[[X_queued ''b'']]]" by simp
  from deferred_never_runs [OF e l, of "''b''"] s l show ?thesis by simp
qed

definition demo_allowed :: exec_input where
  "demo_allowed = demo_step\<lparr>xi_policy := DEFAULT_POLICY\<lparr>pallow := [''mail'']\<rparr>\<rparr>"

definition demo_log :: "x_event list" where
  "demo_log = [X_call ''a'', X_run ''a'' False, X_result ''a'' True Untrusted, X_call ''b'', X_run ''b'' True, X_result ''b'' True Trusted]"

lemma demo_allowed_logs:
  "snd (execute_present demo_allowed [demo_intent ''a'' ''web'', demo_intent ''b'' ''mail'']) =
     [[[X_call ''a'', X_run ''a'' False, X_result ''a'' True Untrusted]], [[X_call ''b'', X_run ''b'' True, X_result ''b'' True Trusted]]]"
  "executeIntents demo_allowed is = execute_present demo_allowed is"
  by code_simp (simp add: executeIntents_def demo_allowed_def demo_step_def list_ex_iff)

lemma demo_log_in:
  "demo_log \<in> step_logs [[[X_call ''a'', X_run ''a'' False, X_result ''a'' True Untrusted]], [[X_call ''b'', X_run ''b'' True, X_result ''b'' True Trusted]]]"
  by (simp add: demo_log_def)

theorem mutating_serial_witness:
  "\<exists>l1 l2 l3. demo_log = l1 @ l2 @ l3 \<and> x_id ` set l1 \<subseteq> {Some ''a''} \<and> x_id ` set l2 \<subseteq> {Some ''b''} \<and> l3 = []"
proof -
  let ?is = "[demo_intent ''a'' ''web'', demo_intent ''b'' ''mail'']"
  let ?r = "execute_present demo_allowed ?is"
  let ?p = "planned_of demo_allowed ?is"
  have e: "?r = (fst ?r, [[[X_call ''a'', X_run ''a'' False, X_result ''a'' True Untrusted]], [[X_call ''b'', X_run ''b'' True, X_result ''b'' True Trusted]]])"
    by (metis demo_allowed_logs(1) prod.collapse)
  have n: "length ?p = 2" by code_simp
  then have p: "?p = [?p ! 0] @ [?p ! 1] @ []" by (cases ?p; cases "tl ?p") (auto simp: numeral_2_eq_2)
  have ids: "call_id (?p ! 0) = ''a''" "call_id (?p ! 1) = ''b''" "mutates (?p ! 1)" by code_simp+
  have "snd (planIntents (xi_jparse demo_allowed) (xi_registry demo_allowed) ?is) = []" by code_simp
  from mutating_serial [OF e demo_log_in p ids(3) this] ids show ?thesis by (auto simp: ids_of_def)
qed

theorem write_gate_witness:
  "\<exists>e \<in> set (planned_of demo_allowed [demo_intent ''a'' ''web'', demo_intent ''b'' ''mail'']). call_id e = ''b'' \<and> covered demo_allowed e"
proof -
  let ?is = "[demo_intent ''a'' ''web'', demo_intent ''b'' ''mail'']"
  let ?r = "executeIntents demo_allowed ?is"
  have e: "?r = (fst ?r, [[[X_call ''a'', X_run ''a'' False, X_result ''a'' True Untrusted]], [[X_call ''b'', X_run ''b'' True, X_result ''b'' True Trusted]]])"
    by (metis demo_allowed_logs prod.collapse)
  let ?before = "[X_call ''a'', X_run ''a'' False, X_result ''a'' True Untrusted, X_call ''b'']"
  have l: "demo_log = ?before @ X_run ''b'' True # [X_result ''b'' True Trusted]" by (simp add: demo_log_def)
  have "list_all (\<lambda>m. m = None) (xi_middleware demo_allowed)" "xi_onMutate demo_allowed \<noteq> On_allow"
    by (simp_all add: demo_allowed_def demo_step_def)
  moreover have "xi_tainted demo_allowed \<or> (\<exists>i ok. X_result i ok Untrusted \<in> set ?before)"
    by (intro disjI2 exI [of _ "''a''"] exI [of _ True]) simp
  moreover have "X_answered ''b'' A_granted \<notin> set ?before" by simp
  ultimately show ?thesis using write_gate [OF e demo_log_in l] by blast
qed

theorem malformed_step_runs_nothing_witness:
  "\<exists>errs logs x. executeIntents (demo_step\<lparr>xi_withheld := Some [''crm_send'']\<rparr>)
       [demo_intent ''a'' ''mail'', demo_intent ''b'' ''nope'', demo_intent ''c'' ''crm_send''] = (O_repair errs, logs) \<and>
     x \<in> set errs \<and> names_call (demo_intent ''b'' ''nope'') x"
proof -
  let ?inp = "demo_step\<lparr>xi_withheld := Some [''crm_send'']\<rparr>" and ?i = "demo_intent ''b'' ''nope''"
  have m: "malformed ?inp ?i" "\<not> withheld_call ?inp ?i" by code_simp+
  have "?i \<in> set [demo_intent ''a'' ''mail'', ?i, demo_intent ''c'' ''crm_send'']" by simp
  from malformed_step_runs_nothing [OF this m] m show ?thesis by auto
qed


text \<open>A cut observation of many short lines is longer than what it was cut from: the head and the tail overlap, and the marker
  counts a negative number of characters.\<close>

theorem cut_overlaps:
  "truncate_output (replicate 300 NL) 100 None = (Cut (replicate 228 NL) (-80) None (replicate 152 NL), True)"
  by code_simp

text \<open>A middleware that answers the untrusted read with a trusted result of its own lets a later write run that the gate refuses
  without it: see \<open>demo_gated_log\<close>.\<close>

definition relabel :: middleware where
  "relabel = Some (\<lambda>e tainted. Mw_next (\<lambda>r. Mw_return (map_option (\<lambda>x. x\<lparr>er_trust := Trusted\<rparr>) r)))"

theorem middleware_widens:
  "snd (executeIntents (demo_step\<lparr>xi_middleware := [relabel]\<rparr>) [demo_intent ''a'' ''web'', demo_intent ''b'' ''mail'']) =
     [[[X_call ''a'', X_run ''a'' False, X_result ''a'' True Untrusted]], [[X_call ''b'', X_run ''b'' True, X_result ''b'' True Trusted]]] \<and>
   snd demo_gated = [[[X_call ''a'', X_run ''a'' False, X_result ''a'' True Untrusted]], [[X_gated ''b'']]]"
  by code_simp

text \<open>An approver that throws before it returns a promise is not a denial: the whole step throws, its question unanswered.\<close>

theorem approver_throw_ends_step:
  "executeIntents (demo_step\<lparr>xi_policy := DEFAULT_POLICY\<lparr>pmode := M_ask\<rparr>, xi_approve := True,
     xi_attempts := (\<lambda>_ _. demo_attempt\<lparr>at_approval := A_threw\<rparr>)\<rparr>) [demo_intent ''b'' ''mail''] = (O_threw, [[[X_asked ''b'' None]]])"
  by code_simp

text \<open>A withheld tool is recognised in its exact spelling only; in another it is answered as a tool that does not exist.\<close>

theorem withheld_by_spelling:
  "fst (executeIntents (demo_step\<lparr>xi_withheld := Some [''crm_send'']\<rparr>) [demo_intent ''a'' ''crm-send'']) = O_repair [(''crm-send'', Not_a_tool)] \<and>
   (case fst (executeIntents (demo_step\<lparr>xi_withheld := Some [''crm_send'']\<rparr>) [demo_intent ''a'' ''crm_send'']) of
      O_ran [r] \<Rightarrow> er_output r = Personal | _ \<Rightarrow> False)"
  by code_simp

end
