(* ===== verification/Principal.thy ===== *)
theory Principal
  imports Session
begin

text \<open>
  Who calls the server and how far they reach: \<open>packages/server/src/principal.ts\<close>, the operator keys of
  \<open>auth/keys.ts\<close> and of the table \<open>operator_keys\<close>, the one-time claim of \<open>packages/server/src/keys.ts\<close> and
  the route that mints a key. Times are milliseconds since the epoch (the columns hold them as ISO texts of one
  width, which compare alike). SHA-256 and the random bytes are arguments.
\<close>

section \<open>Principals and scopes\<close>

datatype capability = Cap_read | Cap_chat | Cap_write | Cap_admin | Cap_peer

record key_scope =
  ks_agents :: "string list option"
  ks_sessions :: "string option"
  ks_can :: "capability list option"
  ks_participant :: "string option"

datatype principal =
    P_open
  | P_token
  | P_key (key_id: string) (key_label: "string option") (key_scope: "key_scope option")
  | P_claim

text \<open>\<open>principal.scope?.field\<close>.\<close>

definition scoped :: "(key_scope \<Rightarrow> 'a option) \<Rightarrow> key_scope option \<Rightarrow> 'a option" where
  "scoped f sc = (case sc of None \<Rightarrow> None | Some s \<Rightarrow> f s)"

definition can :: "principal \<Rightarrow> capability \<Rightarrow> bool" where
  "can who c = (case who of
     P_key _ _ sc \<Rightarrow> (case scoped ks_can sc of None \<Rightarrow> True | Some cs \<Rightarrow> c \<in> set cs)
   | P_claim \<Rightarrow> False | _ \<Rightarrow> True)"

definition reachesAgent :: "principal \<Rightarrow> string \<Rightarrow> bool" where
  "reachesAgent who agent = (case who of
     P_key _ _ sc \<Rightarrow> (case scoped ks_agents sc of None \<Rightarrow> True | Some as \<Rightarrow> agent \<in> set as)
   | P_claim \<Rightarrow> False | _ \<Rightarrow> True)"

text \<open>A prefix with or without its trailing star.\<close>

definition bare_prefix :: "string \<Rightarrow> string" where
  "bare_prefix p = (if ends_with ''*'' p then take (length p - 1) p else p)"

definition reachesSession :: "principal \<Rightarrow> string \<Rightarrow> bool" where
  "reachesSession who session = (case who of
     P_key _ _ sc \<Rightarrow>
       (case scoped ks_sessions sc of
          None \<Rightarrow> True
        | Some p \<Rightarrow>
            if starts_with (bare_prefix p) session then True
            else (case scoped ks_participant sc of
                    None \<Rightarrow> False
                  | Some b \<Rightarrow> isConversationOf session (''owner:'' @ b) \<or> isConversationOf session (''peer:'' @ b)))
   | P_claim \<Rightarrow> False | _ \<Rightarrow> True)"

definition reachesEventSession :: "principal \<Rightarrow> string option \<Rightarrow> string option \<Rightarrow> bool" where
  "reachesEventSession who session parent =
     (if (case session of None \<Rightarrow> True | Some s \<Rightarrow> reachesSession who s) then True
      else (case parent of None \<Rightarrow> False | Some p \<Rightarrow> reachesSession who p))"

record scope_filter =
  sf_agents :: "string list option"
  sf_prefix :: "string option"

definition scopeFilter :: "principal \<Rightarrow> scope_filter" where
  "scopeFilter who = (case who of
     P_claim \<Rightarrow> \<lparr>sf_agents = Some [], sf_prefix = None\<rparr>
   | P_key _ _ sc \<Rightarrow> \<lparr>sf_agents = scoped ks_agents sc, sf_prefix = map_option bare_prefix (scoped ks_sessions sc)\<rparr>
   | _ \<Rightarrow> \<lparr>sf_agents = None, sf_prefix = None\<rparr>)"

definition isScoped :: "principal \<Rightarrow> bool" where
  "isScoped who = (case who of
     P_key _ _ (Some s) \<Rightarrow> ks_agents s \<noteq> None \<or> ks_sessions s \<noteq> None \<or> ks_can s \<noteq> None
   | _ \<Rightarrow> False)"

definition capability_name :: "capability \<Rightarrow> string" where
  "capability_name c = (case c of Cap_read \<Rightarrow> ''read'' | Cap_chat \<Rightarrow> ''chat'' | Cap_write \<Rightarrow> ''write''
     | Cap_admin \<Rightarrow> ''admin'' | Cap_peer \<Rightarrow> ''peer'')"

definition CAPABILITIES :: "capability list" where
  "CAPABILITIES = [Cap_read, Cap_chat, Cap_write, Cap_admin, Cap_peer]"

definition capabilityOf :: "string \<Rightarrow> capability option" where
  "capabilityOf v = find (\<lambda>c. capability_name c = v) CAPABILITIES"

text \<open>The sender a turn starts with: \<open>Inl\<close> is the refusal \<open>sender_not_bound_participant\<close>.\<close>

definition senderFor :: "principal \<Rightarrow> turn_sender option \<Rightarrow> turn_sender option result" where
  "senderFor who claimed =
     (case (case who of P_key _ _ sc \<Rightarrow> scoped ks_participant sc | _ \<Rightarrow> None) of
        None \<Rightarrow> Inr claimed
      | Some b \<Rightarrow> (case claimed of
          None \<Rightarrow> Inr (Some \<lparr>snd_id = b, snd_name = None, snd_kind = Sender_user, snd_room = None\<rparr>)
        | Some s \<Rightarrow> if snd_id s = b \<and> snd_kind s = Sender_user then Inr (Some s)
                    else Inl ''sender_not_bound_participant''))"

text \<open>\<open>resolved\<close> is what \<open>agent.resolveSessionKey\<close> answered.\<close>

definition sessionFor :: "principal \<Rightarrow> string \<Rightarrow> string \<Rightarrow> string" where
  "sessionFor who requested resolved = (if reachesSession who resolved then resolved else requested)"

definition visibleAgents :: "principal \<Rightarrow> string list \<Rightarrow> string list" where
  "visibleAgents who agents = (if isScoped who then filter (reachesAgent who) agents else agents)"

definition visibleSessions :: "principal \<Rightarrow> string list \<Rightarrow> string list" where
  "visibleSessions who sessions = (if isScoped who then filter (reachesSession who) sessions else sessions)"

text \<open>\<open>withAgent\<close>: the agent the work runs on, \<open>None\<close> for the one 404 of absent and unreachable agents.\<close>

definition withAgent :: "string list \<Rightarrow> principal \<Rightarrow> string \<Rightarrow> string option" where
  "withAgent hosted who i = (if i \<notin> set hosted then None else if \<not> reachesAgent who i then None else Some i)"

section \<open>Operator keys\<close>

definition SECRET_ALPHABET :: string where
  "SECRET_ALPHABET = ''0123456789abcdefghjkmnpqrstvwxyz''"

definition OPERATOR_KEY_PREFIX :: string where
  "OPERATOR_KEY_PREFIX = ''dispach_''"

definition newKeySecret :: "8 word list \<Rightarrow> string" where
  "newKeySecret bytes = OPERATOR_KEY_PREFIX @ map (\<lambda>b. SECRET_ALPHABET ! unat (take_bit 5 b)) bytes"

definition MAX_KEY_LABEL :: nat where
  "MAX_KEY_LABEL = 64"

definition keyLabelProblem :: "string \<Rightarrow> bool" where
  "keyLabelProblem label \<longleftrightarrow>
     trim label = [] \<or> MAX_KEY_LABEL < length label \<or> list_ex (\<lambda>c. char_code c \<le> 31 \<or> char_code c = 127) label"

record key_row =
  k_id :: string
  k_label :: string
  k_print :: string
  k_created :: int
  k_used :: "int option"
  k_revoked :: "int option"
  k_scope :: "key_scope option"
  k_expires :: "int option"

text \<open>\<open>toKeyScope\<close> of the stored JSON: a scope without a field reads back as no scope.\<close>

definition toKeyScope :: "key_scope option \<Rightarrow> key_scope option" where
  "toKeyScope sc = (case sc of None \<Rightarrow> None
     | Some s \<Rightarrow> if ks_agents s = None \<and> ks_sessions s = None \<and> ks_can s = None \<and> ks_participant s = None
                 then None else Some s)"

text \<open>\<open>INSERT\<close> under the primary key and the unique fingerprint, \<open>None\<close> where SQLite throws.\<close>

definition key_issue :: "key_row list \<Rightarrow> string \<Rightarrow> string \<Rightarrow> string \<Rightarrow> int \<Rightarrow> key_scope option \<Rightarrow> int option \<Rightarrow> key_row list option" where
  "key_issue rows i label print at sc ex =
     (if i \<in> k_id ` set rows \<or> print \<in> k_print ` set rows then None
      else Some (rows @ [\<lparr>k_id = i, k_label = label, k_print = print, k_created = at, k_used = None,
                          k_revoked = None, k_scope = sc, k_expires = ex\<rparr>]))"

definition key_findLive :: "key_row list \<Rightarrow> string \<Rightarrow> int \<Rightarrow> key_row option" where
  "key_findLive rows print at =
     find (\<lambda>r. k_print r = print \<and> k_revoked r = None \<and> (case k_expires r of None \<Rightarrow> True | Some e \<Rightarrow> at < e)) rows"

definition DEFAULT_KEY_TOUCH_MS :: int where
  "DEFAULT_KEY_TOUCH_MS = 60000"

definition key_touch :: "key_row list \<Rightarrow> string \<Rightarrow> int \<Rightarrow> key_row list" where
  "key_touch rows i at =
     map (\<lambda>r. if k_id r = i \<and> (case k_used r of None \<Rightarrow> True | Some u \<Rightarrow> u < at - DEFAULT_KEY_TOUCH_MS)
              then r\<lparr>k_used := Some at\<rparr> else r) rows"

definition key_revoke :: "key_row list \<Rightarrow> string \<Rightarrow> int \<Rightarrow> key_row list \<times> key_row option" where
  "key_revoke rows i at =
     (let rows' = map (\<lambda>r. if k_id r = i \<and> k_revoked r = None then r\<lparr>k_revoked := Some at\<rparr> else r) rows
      in (rows', find (\<lambda>r. k_id r = i) rows'))"

text \<open>\<open>ORDER BY created_at DESC, rowid DESC\<close>.\<close>

definition key_list :: "key_row list \<Rightarrow> key_row list" where
  "key_list rows = rev (sort_key k_created rows)"

definition key_liveCount :: "key_row list \<Rightarrow> nat" where
  "key_liveCount rows = length (filter (\<lambda>r. k_revoked r = None) rows)"

section \<open>The claim\<close>

record claim_ticket =
  ct_token :: string
  ct_spent :: bool

definition createClaimTicket :: "8 word list \<Rightarrow> claim_ticket" where
  "createClaimTicket bytes = \<lparr>ct_token = newKeySecret bytes, ct_spent = False\<rparr>"

definition ticket_live :: "claim_ticket \<Rightarrow> bool" where
  "ticket_live t \<longleftrightarrow> \<not> ct_spent t"

definition ticket_spend :: "claim_ticket \<Rightarrow> bool \<times> claim_ticket" where
  "ticket_spend t = (if ct_spent t then (False, t) else (True, t\<lparr>ct_spent := True\<rparr>))"

section \<open>Minting a key\<close>

record key_body =
  kb_label :: string
  kb_scope :: "key_scope option"
  kb_expiresIn :: "int option"

record key_state =
  key_rows :: "key_row list"
  ticket :: "claim_ticket option"

datatype mint_answer = Mint_refused string | Minted key_row string

text \<open>\<open>presentedClaim\<close>: the bearer of the \<open>authorization\<close> header, absent when empty.\<close>

definition presentedClaim :: "string option \<Rightarrow> string option" where
  "presentedClaim header =
     (let h = (case header of None \<Rightarrow> [] | Some x \<Rightarrow> x)
      in if starts_with ''Bearer '' h then (if drop 7 h = [] then None else Some (drop 7 h)) else None)"

definition usedClaim :: "key_state \<Rightarrow> string option \<Rightarrow> bool" where
  "usedClaim st header = (case ticket st of None \<Rightarrow> False | Some t \<Rightarrow> presentedClaim header = Some (ct_token t))"

definition spend_claim :: "key_state \<Rightarrow> bool \<times> key_state" where
  "spend_claim st = (case ticket st of None \<Rightarrow> (False, st)
     | Some t \<Rightarrow> (let (ok, t') = ticket_spend t in (ok, st\<lparr>ticket := Some t'\<rparr>)))"

text \<open>\<open>POST /v1/keys\<close> on a body that parsed: \<open>known\<close> are the agents hosted or stopped here, \<open>i\<close> the fresh id.\<close>

definition mintKey ::
  "(string \<Rightarrow> string) \<Rightarrow> key_state \<Rightarrow> string option \<Rightarrow> string list \<Rightarrow> int \<Rightarrow> string \<Rightarrow> 8 word list \<Rightarrow> key_body
   \<Rightarrow> mint_answer \<times> key_state" where
  "mintKey sha st header known at i bytes body =
     (if keyLabelProblem (kb_label body) then (Mint_refused ''key_label_invalid'', st)
      else (let claimed = usedClaim st header; (ok, st1) = (if claimed then spend_claim st else (True, st))
        in if \<not> ok then (Mint_refused ''claim_spent'', st1)
           else if (case scoped ks_agents (kb_scope body) of None \<Rightarrow> False | Some as \<Rightarrow> \<not> set as \<subseteq> set known)
           then (Mint_refused ''key_scope_agent_unknown'', st1)
           else (let secret = newKeySecret bytes;
                     ex = map_option (\<lambda>s. at + s * 1000) (kb_expiresIn body);
                     sc = toKeyScope (kb_scope body)
                 in case key_issue (key_rows st1) i (trim (kb_label body)) (sha secret) at sc ex of
                      None \<Rightarrow> (Mint_refused ''internal_error'', st1)
                    | Some rows \<Rightarrow> (Minted (last rows) secret, st1\<lparr>key_rows := rows\<rparr>))))"

section \<open>Sequences of operations\<close>

datatype key_op =
    Op_issue string string string int "key_scope option" "int option"
  | Op_touch string int
  | Op_revoke string int

definition key_step :: "key_row list \<Rightarrow> key_op \<Rightarrow> key_row list" where
  "key_step rows k = (case k of
     Op_issue i label print at sc ex \<Rightarrow> (case key_issue rows i label print at sc ex of None \<Rightarrow> rows | Some rows' \<Rightarrow> rows')
   | Op_touch i at \<Rightarrow> key_touch rows i at
   | Op_revoke i at \<Rightarrow> fst (key_revoke rows i at))"

record mint_request =
  mr_header :: "string option"
  mr_known :: "string list"
  mr_at :: int
  mr_id :: string
  mr_bytes :: "8 word list"
  mr_body :: key_body

text \<open>Requests in their order: whether each presented the claim, and its answer.\<close>

fun mint_all :: "(string \<Rightarrow> string) \<Rightarrow> key_state \<Rightarrow> mint_request list \<Rightarrow> (bool \<times> mint_answer) list" where
  "mint_all sha st [] = []"
| "mint_all sha st (q # qs) =
     (let (a, st') = mintKey sha st (mr_header q) (mr_known q) (mr_at q) (mr_id q) (mr_bytes q) (mr_body q)
      in (usedClaim st (mr_header q), a) # mint_all sha st' qs)"

definition minted_by_claim :: "bool \<times> mint_answer \<Rightarrow> bool" where
  "minted_by_claim x = (case x of (c, a) \<Rightarrow> c \<and> (case a of Minted _ _ \<Rightarrow> True | _ \<Rightarrow> False))"

section \<open>A revoked key is dead\<close>

definition dead_key :: "string \<Rightarrow> key_row list \<Rightarrow> bool" where
  "dead_key i rows \<longleftrightarrow> i \<in> k_id ` set rows \<and> (\<forall>r \<in> set rows. k_id r = i \<longrightarrow> k_revoked r \<noteq> None)"

lemma find_id: "find P rows = Some r \<Longrightarrow> r \<in> set rows \<and> P r"
  by (induction rows) (auto split: if_splits)

lemma dead_map:
  assumes "dead_key i rows" and "\<And>r. k_id (f r) = k_id r" and "\<And>r. k_revoked r \<noteq> None \<Longrightarrow> k_revoked (f r) \<noteq> None"
  shows "dead_key i (map f rows)"
  using assms by (simp add: dead_key_def image_iff)

lemma dead_revoke: assumes "key_revoke rows i at = (rows', Some r)" shows "dead_key i rows'"
proof -
  let ?f = "\<lambda>r. if k_id r = i \<and> k_revoked r = None then r\<lparr>k_revoked := Some at\<rparr> else r"
  have rows': "rows' = map ?f rows" and f: "find (\<lambda>r. k_id r = i) rows' = Some r"
    using assms by (auto simp: key_revoke_def Let_def)
  have "r \<in> set rows'" "k_id r = i" using find_id [OF f] by simp_all
  moreover have "k_revoked x \<noteq> None" if "x \<in> set rows'" "k_id x = i" for x
  proof -
    obtain y where y: "x = ?f y" using \<open>x \<in> set rows'\<close> unfolding rows' set_map by (rule imageE)
    show ?thesis using \<open>k_id x = i\<close> unfolding y by (cases "k_id y = i \<and> k_revoked y = None") auto
  qed
  ultimately show ?thesis unfolding dead_key_def by blast
qed

lemma dead_step: assumes "dead_key i rows" shows "dead_key i (key_step rows k)"
proof (cases k)
  case (Op_issue j label print at sc ex)
  with assms show ?thesis by (auto simp: dead_key_def key_step_def key_issue_def)
next
  case (Op_touch j at)
  show ?thesis unfolding Op_touch key_step_def key_touch_def by (simp, rule dead_map [OF assms]) simp_all
next
  case (Op_revoke j at)
  show ?thesis unfolding Op_revoke key_step_def key_revoke_def Let_def by (simp, rule dead_map [OF assms]) simp_all
qed

lemma findLive_row: "key_findLive rows print at = Some r \<Longrightarrow>
    r \<in> set rows \<and> k_print r = print \<and> k_revoked r = None \<and> (case k_expires r of None \<Rightarrow> True | Some e \<Rightarrow> at < e)"
  by (auto simp: key_findLive_def dest!: find_id)

lemma dead_not_live: "dead_key i rows \<Longrightarrow> key_findLive rows print at = Some r \<Longrightarrow> k_id r \<noteq> i"
  by (auto simp: dead_key_def dest!: findLive_row)

text \<open>What the server relies on: a key once revoked stays dead whatever else happens to the table, and a dead key is
  not found.\<close>

locale credential_store =
  fixes find_live :: "'s \<Rightarrow> string \<Rightarrow> int \<Rightarrow> key_row option"
    and revoke :: "'s \<Rightarrow> string \<Rightarrow> int \<Rightarrow> 's \<times> key_row option"
    and step :: "'s \<Rightarrow> 'op \<Rightarrow> 's"
    and dead :: "string \<Rightarrow> 's \<Rightarrow> bool"
  assumes revoke_dead: "revoke s i at = (s', Some r) \<Longrightarrow> dead i s'"
    and step_dead: "dead i s \<Longrightarrow> dead i (step s x)"
    and dead_not_found: "dead i s \<Longrightarrow> find_live s print at = Some r \<Longrightarrow> k_id r \<noteq> i"
begin

lemma steps_dead: "dead i s \<Longrightarrow> dead i (foldl step s xs)"
  by (induction xs arbitrary: s) (auto intro: step_dead)

lemma never_found:
  "revoke s i at = (s', Some r) \<Longrightarrow> find_live (foldl step s' xs) print later = Some found \<Longrightarrow> k_id found \<noteq> i"
  using steps_dead [OF revoke_dead] dead_not_found by blast

end

interpretation sqlite_keys: credential_store key_findLive key_revoke key_step dead_key
  by unfold_locales (auto intro: dead_revoke dead_step dest: dead_not_live)

text \<open>C32. Once revoking a key answered with its record, no lookup finds that key again, whatever is issued, touched
  or revoked in between, whatever secret is presented and at whatever time.\<close>

theorem revoked_stays_dead:
  assumes "key_revoke rows i at = (rows', Some r)"
    and "key_findLive (foldl key_step rows' ks) print later = Some found"
  shows "k_id found \<noteq> i"
  using sqlite_keys.never_found [OF assms] .

definition sample_key :: "string \<Rightarrow> string \<Rightarrow> key_row" where
  "sample_key i p = \<lparr>k_id = i, k_label = ''browser'', k_print = p, k_created = 0, k_used = None,
     k_revoked = None, k_scope = None, k_expires = None\<rparr>"

theorem revoked_stays_dead_witness:
  "key_findLive (foldl key_step (fst (key_revoke [sample_key ''k1'' ''f1'', sample_key ''k2'' ''f2''] ''k1'' 5))
     [Op_issue ''k1'' ''again'' ''f3'' 6 None None, Op_touch ''k2'' 7]) ''f2'' 8 = Some (sample_key ''k2'' ''f2'' \<lparr>k_used := Some 7\<rparr>) \<and>
   k_id (sample_key ''k2'' ''f2'' \<lparr>k_used := Some 7\<rparr>) \<noteq> ''k1''"
proof -
  have e: "key_revoke [sample_key ''k1'' ''f1'', sample_key ''k2'' ''f2''] ''k1'' 5 =
      ([sample_key ''k1'' ''f1'' \<lparr>k_revoked := Some 5\<rparr>, sample_key ''k2'' ''f2''], Some (sample_key ''k1'' ''f1'' \<lparr>k_revoked := Some 5\<rparr>))"
    by (simp add: key_revoke_def sample_key_def)
  have f: "key_findLive (foldl key_step [sample_key ''k1'' ''f1'' \<lparr>k_revoked := Some 5\<rparr>, sample_key ''k2'' ''f2'']
     [Op_issue ''k1'' ''again'' ''f3'' 6 None None, Op_touch ''k2'' 7]) ''f2'' 8 = Some (sample_key ''k2'' ''f2'' \<lparr>k_used := Some 7\<rparr>)"
    by (simp add: key_step_def key_issue_def key_touch_def key_findLive_def sample_key_def)
  show ?thesis using revoked_stays_dead [OF e f] f by (simp add: e)
qed

section \<open>The claim mints one key\<close>

lemma spend_spent: "ticket st = Some t \<Longrightarrow> ct_spent t \<Longrightarrow> spend_claim st = (False, st)"
  by (cases st) (simp add: spend_claim_def ticket_spend_def)

lemma spend_fresh: "ticket st = Some t \<Longrightarrow> \<not> ct_spent t \<Longrightarrow> spend_claim st = (True, st\<lparr>ticket := Some (t\<lparr>ct_spent := True\<rparr>)\<rparr>)"
  by (simp add: spend_claim_def ticket_spend_def)

lemma mint_ticket:
  assumes "mintKey sha st h known at i bytes body = (a, st')"
  shows "ticket st' = ticket st \<or>
         usedClaim st h \<and> (\<exists>t. ticket st = Some t \<and> \<not> ct_spent t \<and> ticket st' = Some (t\<lparr>ct_spent := True\<rparr>))"
  using assms
  by (auto simp: mintKey_def Let_def usedClaim_def spend_claim_def ticket_spend_def
        split: if_splits option.splits prod.splits)

lemma mint_spent:
  assumes "ticket st = Some t" "ct_spent t" "usedClaim st h" "mintKey sha st h known at i bytes body = (a, st')"
  shows "\<exists>e. a = Mint_refused e"
  using assms spend_spent [OF assms(1,2)] by (auto simp: mintKey_def Let_def split: if_splits)

lemma mint_claimed:
  assumes "ticket st = Some t" "\<not> ct_spent t" "usedClaim st h" "mintKey sha st h known at i bytes body = (Minted r s, st')"
  shows "ticket st' = Some (t\<lparr>ct_spent := True\<rparr>)"
  using assms spend_fresh [OF assms(1,2)] by (auto simp: mintKey_def Let_def split: if_splits option.splits)

lemma spent_mints_none:
  "ticket st = Some t \<Longrightarrow> ct_spent t \<Longrightarrow> filter minted_by_claim (mint_all sha st qs) = []"
proof (induction qs arbitrary: st)
  case Nil
  then show ?case by simp
next
  case (Cons q qs)
  obtain a st' where m: "mintKey sha st (mr_header q) (mr_known q) (mr_at q) (mr_id q) (mr_bytes q) (mr_body q) = (a, st')"
    by fastforce
  have "ticket st' = Some t" using mint_ticket [OF m] Cons.prems by auto
  moreover have "\<not> minted_by_claim (usedClaim st (mr_header q), a)"
    using mint_spent [OF Cons.prems _ m] by (auto simp: minted_by_claim_def)
  ultimately show ?case using Cons.IH [of st'] Cons.prems(2) by (simp add: m)
qed

text \<open>C33. However many requests present the claim, in whatever order and mixed with other requests, at most one of
  them mints a key.\<close>

theorem claim_mints_once: "length (filter minted_by_claim (mint_all sha st qs)) \<le> 1"
proof (induction qs arbitrary: st)
  case Nil
  then show ?case by simp
next
  case (Cons q qs)
  obtain a st' where m: "mintKey sha st (mr_header q) (mr_known q) (mr_at q) (mr_id q) (mr_bytes q) (mr_body q) = (a, st')"
    by fastforce
  show ?case
  proof (cases "minted_by_claim (usedClaim st (mr_header q), a)")
    case True
    then obtain r s where u: "usedClaim st (mr_header q)" "a = Minted r s"
      by (auto simp: minted_by_claim_def split: mint_answer.splits)
    then obtain t where t: "ticket st = Some t" by (auto simp: usedClaim_def split: option.splits)
    have "\<not> ct_spent t" using mint_spent [OF t _ u(1) m] u(2) by auto
    from mint_claimed [OF t this u(1)] m u(2) have "ticket st' = Some (t\<lparr>ct_spent := True\<rparr>)" by blast
    then show ?thesis using spent_mints_none [of st'] by (simp add: m)
  next
    case False
    with Cons.IH [of st'] show ?thesis by (simp add: m)
  qed
qed

text \<open>A request that names an agent the server does not hold is refused after the claim was spent: no key is minted
  and the claim is gone.\<close>

definition demo_ticket :: claim_ticket where
  "demo_ticket = \<lparr>ct_token = ''c'', ct_spent = False\<rparr>"

definition typo_body :: key_body where
  "typo_body = \<lparr>kb_label = ''me'', kb_scope = Some \<lparr>ks_agents = Some [''mlio''], ks_sessions = None, ks_can = None,
     ks_participant = None\<rparr>, kb_expiresIn = None\<rparr>"

theorem claim_burned_by_typo:
  "mintKey sha \<lparr>key_rows = [], ticket = Some demo_ticket\<rparr> (Some ''Bearer c'') [''milo''] at i bytes typo_body =
     (Mint_refused ''key_scope_agent_unknown'', \<lparr>key_rows = [], ticket = Some (demo_ticket\<lparr>ct_spent := True\<rparr>)\<rparr>)"
  by (simp add: mintKey_def typo_body_def demo_ticket_def usedClaim_def presentedClaim_def spend_claim_def ticket_spend_def
        keyLabelProblem_def MAX_KEY_LABEL_def trim_def trim_start_def trim_end_def is_space_def scoped_def)

text \<open>An expired key is counted among the live ones, though no lookup finds it.\<close>

theorem expired_key_counts:
  "key_liveCount [sample_key ''k1'' ''f1'' \<lparr>k_expires := Some 10\<rparr>] = 1 \<and>
   key_findLive [sample_key ''k1'' ''f1'' \<lparr>k_expires := Some 10\<rparr>] print 10 = None"
  by (simp add: key_liveCount_def key_findLive_def sample_key_def)

section \<open>How far a key reaches\<close>

text \<open>The part of a session key before its rotation.\<close>

definition stem :: "string \<Rightarrow> string" where
  "stem s = takeWhile (\<lambda>c. c \<noteq> CHR ''~'') s"

lemma stem_conversation:
  assumes "isConversationOf s base" and "CHR ''~'' \<notin> set base" shows "stem s = base"
proof -
  have b: "takeWhile (\<lambda>c. c \<noteq> CHR ''~'') base = base"
    using assms(2) by (induction base) auto
  from assms(1) consider "s = base" | r where "s = base @ ''~'' @ r"
    by (auto simp: isConversationOf_def starts_with_iff)
  then show ?thesis
    using assms(2) b by cases (auto simp: stem_def takeWhile_append)
qed

text \<open>A key bound to one person does not reach the conversation of another, nor its rotations, unless the prefix it
  was minted with covers it. (The ids hold no tilde, which is what marks a rotation.)\<close>

theorem person_isolation:
  assumes "scoped ks_sessions sc = Some p" "scoped ks_participant sc = Some b"
    and "isConversationOf s (kind @ other)" "kind = ''owner:'' \<or> kind = ''peer:''" "other \<noteq> b"
    and "CHR ''~'' \<notin> set b" "CHR ''~'' \<notin> set other"
  shows "reachesSession (P_key i l sc) s = starts_with (bare_prefix p) s"
proof -
  have "stem s = kind @ other" using stem_conversation [OF assms(3)] assms(4,7) by auto
  then have "stem s \<noteq> ''owner:'' @ b" "stem s \<noteq> ''peer:'' @ b" using assms(4,5) by auto
  then have "\<not> isConversationOf s (''owner:'' @ b)" "\<not> isConversationOf s (''peer:'' @ b)"
    using stem_conversation [of s "''owner:'' @ b"] stem_conversation [of s "''peer:'' @ b"] assms(6) by auto
  with assms(1,2) show ?thesis by (simp add: reachesSession_def)
qed

definition team_scope :: "key_scope option" where
  "team_scope = Some \<lparr>ks_agents = None, ks_sessions = Some ''team_42:*'', ks_can = Some [Cap_read, Cap_chat], ks_participant = Some ''ann''\<rparr>"

theorem person_isolation_witness:
  "reachesSession (P_key ''k'' None team_scope) ''owner:anna'' = starts_with (bare_prefix ''team_42:*'') ''owner:anna'' \<and>
   \<not> starts_with (bare_prefix ''team_42:*'') ''owner:anna''"
proof -
  have c: "isConversationOf ''owner:anna'' (''owner:'' @ ''anna'')" by (simp add: isConversationOf_def)
  have "reachesSession (P_key ''k'' None team_scope) ''owner:anna'' = starts_with (bare_prefix ''team_42:*'') ''owner:anna''"
    by (rule person_isolation [OF _ _ c, where b = "''ann''"]) (simp_all add: team_scope_def scoped_def)
  then show ?thesis by (simp add: bare_prefix_def ends_with_def)
qed

text \<open>With a tilde in an id, the conversation of one person can read as a rotation of another's.\<close>

theorem tilde_id_reaches:
  "reachesSession (P_key ''k'' None team_scope) (''owner:'' @ ''ann~abc123'')"
  by (simp add: reachesSession_def team_scope_def scoped_def bare_prefix_def ends_with_def isConversationOf_def
        is_rotation_def rotation_char_def is_digit_def is_lower_def)

text \<open>The scope of a usage total, in \<open>usageReport\<close> of \<open>store/sqlite/store.ts\<close>. \<open>LIKE ... ESCAPE '\'\<close> is SQLite's: a percent
  sign is any text, an underscore any character, an escaped character itself, and letters match in either case.\<close>

definition BACKSLASH :: char where "BACKSLASH = CHR 0x5C"

fun sql_like :: "string \<Rightarrow> string \<Rightarrow> bool" where
  "sql_like [] s = (s = [])"
| "sql_like (c # p) s =
     (if c = CHR ''%'' then list_ex (\<lambda>n. sql_like p (drop n s)) [0..<length s + 1]
      else if c = BACKSLASH then
        (case (p, s) of (d # p', x # t) \<Rightarrow> lower_char x = lower_char d \<and> sql_like p' t | _ \<Rightarrow> False)
      else (case s of [] \<Rightarrow> False
            | x # t \<Rightarrow> (c = CHR ''_'' \<or> lower_char x = lower_char c) \<and> sql_like p t))"

definition likePrefix :: "string \<Rightarrow> string" where
  "likePrefix prefix = concat (map (\<lambda>c. if c \<in> {BACKSLASH, CHR ''%'', CHR ''_''} then [BACKSLASH, c] else [c]) prefix)"

definition usage_scope :: "scope_filter \<Rightarrow> string \<Rightarrow> string option \<Rightarrow> bool" where
  "usage_scope f agent session \<longleftrightarrow>
     (case sf_agents f of None \<Rightarrow> True | Some as \<Rightarrow> agent \<in> set as) \<and>
     (case sf_prefix f of None \<Rightarrow> True
      | Some p \<Rightarrow> (case session of None \<Rightarrow> False | Some s \<Rightarrow> sql_like (likePrefix p @ ''%'') s))"

text \<open>The escaping makes the prefix match literally, but in any case.\<close>

lemma like_prefix: "sql_like (likePrefix p @ ''%'') s \<longleftrightarrow> starts_with (to_lower p) (to_lower s)"
proof (induction p arbitrary: s)
  case Nil
  have "list_ex (\<lambda>n. drop n s = []) [0..<length s + 1]" by (auto simp: list_ex_iff)
  then show ?case by (simp add: likePrefix_def to_lower_def del: upt_Suc)
next
  case (Cons c p)
  have step: "sql_like (likePrefix (c # p) @ ''%'') s =
      (case s of [] \<Rightarrow> False | x # t \<Rightarrow> lower_char x = lower_char c \<and> sql_like (likePrefix p @ ''%'') t)"
  proof (cases "c \<in> {BACKSLASH, CHR ''%'', CHR ''_''}")
    case True
    then have "likePrefix (c # p) = BACKSLASH # c # likePrefix p" by (simp add: likePrefix_def)
    then show ?thesis by (cases s) (simp_all add: BACKSLASH_def del: upt_Suc)
  next
    case False
    then have "likePrefix (c # p) = c # likePrefix p" by (simp add: likePrefix_def)
    with False show ?thesis by (cases s) (simp_all del: upt_Suc)
  qed
  show ?case unfolding step using Cons by (cases s) (auto simp: to_lower_def)
qed

lemma starts_with_lower:
  "starts_with (to_lower p) (to_lower s) \<Longrightarrow> \<exists>t. to_lower t = to_lower s \<and> starts_with p t"
proof -
  assume "starts_with (to_lower p) (to_lower s)"
  then obtain u where "map lower_char s = map lower_char p @ u" by (auto simp: starts_with_iff to_lower_def)
  then obtain s1 s2 where "s = s1 @ s2" "map lower_char s1 = map lower_char p" by (metis map_eq_append_conv)
  then show ?thesis by (intro exI [of _ "p @ s2"]) (simp add: to_lower_def)
qed

text \<open>C34. What an aggregate counts for a caller is, but for the case of letters, what the caller reaches turn by turn: a row
  that passes its scope is of an agent the caller reaches and of a session that the caller reaches in some
  spelling of upper and lower case, and for a caller bound to no participant every row it reaches passes.\<close>

theorem aggregate_in_scope:
  "(usage_scope (scopeFilter who) agent (Some session) \<longrightarrow>
      reachesAgent who agent \<and> (\<exists>s. to_lower s = to_lower session \<and> reachesSession who s)) \<and>
   (scoped ks_participant (case who of P_key _ _ sc \<Rightarrow> sc | _ \<Rightarrow> None) = None \<longrightarrow>
      reachesAgent who agent \<and> reachesSession who session \<longrightarrow> usage_scope (scopeFilter who) agent (Some session))"
proof (cases who)
  case (P_key i l sc)
  have lower: "starts_with p session \<Longrightarrow> starts_with (to_lower p) (to_lower session)" for p
    by (auto simp: starts_with_iff to_lower_def)
  show ?thesis
  proof (cases "scoped ks_sessions sc")
    case None
    then have "reachesSession who s" for s using P_key by (simp add: reachesSession_def)
    moreover have "usage_scope (scopeFilter who) agent (Some session) = reachesAgent who agent"
      using None P_key by (auto simp: usage_scope_def scopeFilter_def reachesAgent_def split: option.splits)
    ultimately show ?thesis by blast
  next
    case (Some p)
    let ?pre = "bare_prefix p"
    have usage: "usage_scope (scopeFilter who) agent (Some session) \<longleftrightarrow>
        reachesAgent who agent \<and> starts_with (to_lower ?pre) (to_lower session)"
      using Some P_key by (auto simp: usage_scope_def scopeFilter_def reachesAgent_def like_prefix split: option.splits)
    have "starts_with ?pre s \<Longrightarrow> reachesSession who s" for s using Some P_key by (simp add: reachesSession_def)
    then have "starts_with (to_lower ?pre) (to_lower session) \<Longrightarrow>
        \<exists>s. to_lower s = to_lower session \<and> reachesSession who s"
      using starts_with_lower by blast
    moreover have "scoped ks_participant sc = None \<Longrightarrow> reachesSession who session \<Longrightarrow> starts_with ?pre session"
      using Some P_key by (simp add: reachesSession_def split: if_splits)
    ultimately show ?thesis using usage lower P_key by auto
  qed
qed (auto simp: usage_scope_def scopeFilter_def reachesAgent_def reachesSession_def)

theorem aggregate_in_scope_witness:
  "usage_scope (scopeFilter (P_key ''k'' None team_scope)) ''milo'' (Some ''team_42:x'') \<and>
   (\<exists>s. to_lower s = to_lower ''team_42:x'' \<and> reachesSession (P_key ''k'' None team_scope) s) \<and>
   usage_scope (scopeFilter P_token) ''milo'' (Some ''api:x'')"
proof -
  have "usage_scope (scopeFilter (P_key ''k'' None team_scope)) ''milo'' (Some ''team_42:x'')" by code_simp
  with aggregate_in_scope [of "P_key ''k'' None team_scope" "''milo''" "''team_42:x''"]
    aggregate_in_scope [of P_token "''milo''" "''api:x''"]
  show ?thesis by (simp add: scoped_def reachesAgent_def reachesSession_def)
qed

text \<open>So a key scoped to \<open>team_42:\<close> reads, in its totals, what another tenant \<open>TEAM_42:\<close> used, whose sessions it does not reach.\<close>

theorem aggregate_leaks_other_case:
  "usage_scope (scopeFilter (P_key ''k'' None team_scope)) ''milo'' (Some ''TEAM_42:x'') \<and>
   \<not> reachesSession (P_key ''k'' None team_scope) ''TEAM_42:x''"
  by code_simp

text \<open>A bound key reaches its person's conversation, which no aggregate it asks for includes.\<close>

theorem aggregate_misses_own_conversation:
  "reachesSession (P_key ''k'' None team_scope) ''owner:ann'' \<and>
   \<not> usage_scope (scopeFilter (P_key ''k'' None team_scope)) ''milo'' (Some ''owner:ann'')"
  by code_simp

text \<open>Whatever sender a message names, a key bound to a participant starts turns only as that participant and
  never as an agent; a caller that is not bound keeps the sender it named.\<close>

theorem bound_key_speaks_for_itself:
  "case (senderFor who claimed, scoped ks_participant (case who of P_key _ _ sc \<Rightarrow> sc | _ \<Rightarrow> None)) of
     (Inr (Some s), Some b) \<Rightarrow> snd_id s = b \<and> snd_kind s = Sender_user
   | (Inr None, Some b) \<Rightarrow> False
   | (Inl e, bound) \<Rightarrow> bound \<noteq> None \<and> claimed \<noteq> None
   | (Inr s, None) \<Rightarrow> s = claimed"
  by (cases who) (auto simp: senderFor_def scoped_def split: option.splits)

end
