(* ===== verification/Router.thy ===== *)
theory Router
  imports Principal Percent
begin

text \<open>
  \<open>packages/server/src/router.ts\<close>: the segment-wise path router and the paths \<open>packages/client/src/index.ts\<close> builds. A request method is an HTTP token, so its
  upper-casing is the ASCII one. Decoded parameters are lists of UTF-16 code units.
\<close>

section \<open>Routes\<close>

definition upper_char :: "char \<Rightarrow> char" where
  "upper_char c = (if is_lower c then char_of (char_code c - 32) else c)"

definition to_upper :: "string \<Rightarrow> string" where
  "to_upper s = map upper_char s"

definition path_segments :: "string \<Rightarrow> string list" where
  "path_segments path = filter (\<lambda>w. w \<noteq> []) (split_on (CHR ''/'') path)"

type_synonym path_params = "string \<rightharpoonup> nat list"

fun match_from :: "path_params \<Rightarrow> string list \<Rightarrow> string list \<Rightarrow> path_params option" where
  "match_from ps [] [] = Some ps"
| "match_from ps (e # es) (a # as) =
     (if starts_with '':'' e
      then (case decodeURIComponent a of None \<Rightarrow> None | Some v \<Rightarrow> match_from (ps(tl e \<mapsto> v)) es as)
      else if e \<noteq> a then None else match_from ps es as)"
| "match_from ps _ _ = None"

definition matchSegments :: "string list \<Rightarrow> string list \<Rightarrow> path_params option" where
  "matchSegments pattern parts = (if length pattern \<noteq> length parts then None else match_from Map.empty pattern parts)"

record 'h route =
  r_method :: string
  r_pattern :: string
  r_handler :: 'h
  r_streaming :: bool
  r_capability :: "capability option"
  r_segments :: "string list"

definition add_route :: "'h route list \<Rightarrow> string \<Rightarrow> string \<Rightarrow> 'h \<Rightarrow> capability option \<Rightarrow> bool option \<Rightarrow> 'h route list" where
  "add_route rs meth pattern h cap streaming =
     rs @ [\<lparr>r_method = to_upper meth, r_pattern = pattern, r_handler = h, r_streaming = (streaming = Some True),
            r_capability = cap, r_segments = path_segments pattern\<rparr>]"

datatype 'h matched = Found 'h path_params bool "capability option" | Other_method "string list" | No_route

text \<open>\<open>[...new Set(xs)]\<close>.\<close>

definition unique :: "'a list \<Rightarrow> 'a list" where
  "unique xs = rev (remdups (rev xs))"

fun match_scan :: "'h route list \<Rightarrow> string \<Rightarrow> string list \<Rightarrow> string list \<Rightarrow> 'h matched" where
  "match_scan [] meth parts other = (if other \<noteq> [] then Other_method (unique other) else No_route)"
| "match_scan (r # rs) meth parts other =
     (case matchSegments (r_segments r) parts of
        None \<Rightarrow> match_scan rs meth parts other
      | Some ps \<Rightarrow> if r_method r = to_upper meth then Found (r_handler r) ps (r_streaming r) (r_capability r)
                   else match_scan rs meth parts (other @ [r_method r]))"

definition route_match :: "'h route list \<Rightarrow> string \<Rightarrow> string \<Rightarrow> 'h matched" where
  "route_match rs meth pathname = match_scan rs meth (path_segments pathname) []"

section \<open>Paths of the client\<close>

text \<open>\<open>at\<close> of the client's \<open>agent\<close>, and what its \<open>messages\<close> asks for without paging.\<close>

definition agent_path :: "string \<Rightarrow> string \<Rightarrow> string" where
  "agent_path agent suffix = ''/v1/agents/'' @ encodeURIComponent agent @ suffix"

definition messages_path :: "string \<Rightarrow> string \<Rightarrow> string" where
  "messages_path agent session = agent_path agent (''/sessions/'' @ encodeURIComponent session @ ''/messages'')"

section \<open>What matching answers\<close>

lemma set_unique: "set (unique xs) = set xs" and distinct_unique: "distinct (unique xs)"
  by (simp_all add: unique_def)

text \<open>The routes whose pattern the path matches, in registration order.\<close>

definition path_routes :: "'h route list \<Rightarrow> string list \<Rightarrow> 'h route list" where
  "path_routes rs parts = filter (\<lambda>r. matchSegments (r_segments r) parts \<noteq> None) rs"

text \<open>What a match answers: the first registered route of the method whose pattern matches, else the methods of the
  routes whose pattern does.\<close>

definition match_spec :: "'h route list \<Rightarrow> string \<Rightarrow> string list \<Rightarrow> 'h matched" where
  "match_spec rs meth parts =
     (case filter (\<lambda>r. r_method r = to_upper meth) (path_routes rs parts) of
        r # _ \<Rightarrow> Found (r_handler r) (the (matchSegments (r_segments r) parts)) (r_streaming r) (r_capability r)
      | [] \<Rightarrow> if path_routes rs parts = [] then No_route else Other_method (unique (map r_method (path_routes rs parts))))"

lemma path_routes_simps [simp]:
  "path_routes [] parts = []"
  "path_routes (r # rs) parts = (case matchSegments (r_segments r) parts of None \<Rightarrow> path_routes rs parts | Some _ \<Rightarrow> r # path_routes rs parts)"
  by (auto simp: path_routes_def split: option.split)

lemma match_scan_spec:
  "match_scan rs meth parts other =
     (case filter (\<lambda>r. r_method r = to_upper meth) (path_routes rs parts) of
        r # _ \<Rightarrow> Found (r_handler r) (the (matchSegments (r_segments r) parts)) (r_streaming r) (r_capability r)
      | [] \<Rightarrow> if other @ map r_method (path_routes rs parts) = [] then No_route
              else Other_method (unique (other @ map r_method (path_routes rs parts))))"
proof (induction rs arbitrary: other)
  case Nil
  then show ?case by simp
next
  case (Cons r rs)
  then show ?case by (cases "matchSegments (r_segments r) parts") (simp_all split: list.split)
qed

text \<open>Matching answers the first registered route of the method whose pattern matches the path; where only other
  methods match, it lists each of their methods once; and it finds nothing exactly when no pattern matches.\<close>

theorem router_decides:
  "route_match rs meth path = match_spec rs meth (path_segments path) \<and>
   (case route_match rs meth path of
      Found h ps st cap \<Rightarrow> \<exists>r \<in> set rs. r_method r = to_upper meth \<and> r_handler r = h \<and> r_streaming r = st \<and>
        r_capability r = cap \<and> matchSegments (r_segments r) (path_segments path) = Some ps
    | Other_method ms \<Rightarrow> ms \<noteq> [] \<and> distinct ms \<and> to_upper meth \<notin> set ms \<and>
        set ms = r_method ` set (path_routes rs (path_segments path))
    | No_route \<Rightarrow> path_routes rs (path_segments path) = [])"
proof -
  let ?p = "path_routes rs (path_segments path)"
  have eq: "route_match rs meth path = match_spec rs meth (path_segments path)"
    using match_scan_spec [of rs meth "path_segments path" "[]"]
    by (simp add: route_match_def match_spec_def split: list.split)
  show ?thesis
  proof (cases "filter (\<lambda>r. r_method r = to_upper meth) ?p")
    case Nil
    then have "to_upper meth \<notin> r_method ` set ?p" by (auto simp: filter_empty_conv)
    moreover have "unique (map r_method ?p) \<noteq> []" if "?p \<noteq> []"
      using that set_unique [of "map r_method ?p"] by (metis list.map_disc_iff set_empty)
    ultimately show ?thesis using Nil by (simp add: eq match_spec_def set_unique distinct_unique)
  next
    case (Cons r q)
    then have "r \<in> set ?p" "r_method r = to_upper meth"
      using filter_eq_ConsD [OF Cons] by auto
    then show ?thesis using Cons by (auto simp: eq match_spec_def path_routes_def)
  qed
qed

theorem router_decides_witness:
  "route_match (add_route (add_route [] ''GET'' ''/v1/agents'' (1::nat) (Some Cap_read) None) ''POST'' ''/v1/agents'' 2 (Some Cap_admin) None)
     ''DELETE'' ''/v1/agents/'' = Other_method [''GET'', ''POST''] \<and>
   [''GET'', ''POST''] \<noteq> []"
  using router_decides [of "add_route (add_route [] ''GET'' ''/v1/agents'' (1::nat) (Some Cap_read) None) ''POST'' ''/v1/agents'' 2 (Some Cap_admin) None"
     "''DELETE''" "''/v1/agents/''"]
  by (simp add: route_match_def add_route_def path_segments_def matchSegments_def to_upper_def upper_char_def is_lower_def unique_def)

lemma split_on_Cons_sep: "split_on c (c # xs) = [] # split_on c xs"
  by simp

lemma segments_slash: "path_segments (CHR ''/'' # s) = path_segments s"
  by (simp add: path_segments_def)

lemma segments_append: "CHR ''/'' \<notin> set w \<Longrightarrow> path_segments (w @ CHR ''/'' # s) = (if w = [] then path_segments s else w # path_segments s)"
  by (simp add: path_segments_def split_on_append)

lemma segments_word: "CHR ''/'' \<notin> set w \<Longrightarrow> path_segments w = (if w = [] then [] else [w])"
  by (simp add: path_segments_def split_on_no_sep)

text \<open>C37. Every agent id and every session key that is not empty, whatever characters they hold, comes back from the
  router as it went into the path the client builds.\<close>

theorem path_round_trip:
  assumes "agent \<noteq> []" "session \<noteq> []"
  shows "matchSegments (path_segments ''/v1/agents/:id/sessions/:key/messages'') (path_segments (messages_path agent session)) =
     Some [''id'' \<mapsto> map char_code agent, ''key'' \<mapsto> map char_code session]"
proof -
  have p: "path_segments ''/v1/agents/:id/sessions/:key/messages'' = [''v1'', ''agents'', '':id'', ''sessions'', '':key'', ''messages'']"
    by (simp add: path_segments_def)
  have n: "CHR ''/'' \<notin> set ''v1''" "CHR ''/'' \<notin> set ''agents''" "CHR ''/'' \<notin> set ''sessions''" "CHR ''/'' \<notin> set ''messages''"
    by simp_all
  have m: "messages_path agent session =
      CHR ''/'' # (''v1'' @ CHR ''/'' # (''agents'' @ CHR ''/'' # (encodeURIComponent agent @ CHR ''/'' #
        (''sessions'' @ CHR ''/'' # (encodeURIComponent session @ CHR ''/'' # ''messages'')))))"
    by (simp add: messages_path_def agent_path_def)
  have "path_segments (messages_path agent session) =
      [''v1'', ''agents'', encodeURIComponent agent, ''sessions'', encodeURIComponent session, ''messages'']"
    unfolding m segments_slash segments_append [OF n(1)] segments_append [OF n(2)] segments_append [OF n(3)]
      segments_append [OF encode_no_slash] segments_word [OF n(4)]
    using assms by (simp add: encode_empty)
  then show ?thesis by (simp add: p matchSegments_def decode_encode)
qed

theorem path_round_trip_witness:
  "matchSegments (path_segments ''/v1/agents/:id/sessions/:key/messages'') (path_segments (messages_path ''milo'' ''tg:-100/7'')) =
     Some [''id'' \<mapsto> map char_code ''milo'', ''key'' \<mapsto> map char_code ''tg:-100/7'']"
  by (rule path_round_trip) simp_all

end
