(* ===== verification/Guard.thy ===== *)
theory Guard
  imports Router
begin

text \<open>
  The guard of the server: \<open>packages/server/src/origin.ts\<close> (which hosts and origins are answered), \<open>auth.ts\<close>
  (which credential a request carries) and the dispatcher of \<open>handler.ts\<close> up to the call of a handler.
  \<open>new URL(text).hostname\<close> and SHA-256 are arguments; what a handler does is not part of this theory. The
  path of a request is \<open>None\<close> where its URL does not parse.
\<close>

section \<open>Hosts and origins\<close>

definition isLoopback :: "string \<Rightarrow> bool" where
  "isLoopback host \<longleftrightarrow> to_lower host \<in> {''127.0.0.1'', ''::1'', ''localhost'', ''[::1]''}"

record origin_policy =
  op_host :: string
  op_origins :: "string list"
  op_hosts :: "string list"

record request =
  q_method :: string
  q_path :: "string option"
  q_auth :: "string option"
  q_host :: "string option"
  q_origin :: "string option"

definition unbracket :: "string \<Rightarrow> string" where
  "unbracket s = (let t = (if starts_with ''['' s then tl s else s)
     in if ends_with '']'' t then take (length t - 1) t else t)"

definition hostOf :: "(string \<Rightarrow> string option) \<Rightarrow> string \<Rightarrow> string option" where
  "hostOf hostname value =
     (let t = trim value
      in if t = [] \<or> to_lower t = ''null'' then None
         else map_option (\<lambda>h. unbracket (to_lower h))
                (hostname (if includes_str ''://'' t then t else ''http://'' @ t)))"

definition short_digits :: "string \<Rightarrow> bool" where
  "short_digits s \<longleftrightarrow> all_digits s \<and> length s \<le> 3"

definition loopbackName :: "string \<Rightarrow> bool" where
  "loopbackName host \<longleftrightarrow> isLoopback host \<or>
     (case split_on (CHR ''.'') host of
        [a, b, c, d] \<Rightarrow> a = ''127'' \<and> short_digits b \<and> short_digits c \<and> short_digits d | _ \<Rightarrow> False)"

text \<open>\<open>named.some((entry) => hostOf(entry) === host)\<close>.\<close>

definition names_host :: "(string \<Rightarrow> string option) \<Rightarrow> string list \<Rightarrow> string \<Rightarrow> bool" where
  "names_host hostname entries host = list_ex (\<lambda>e. hostOf hostname e = Some host) entries"

definition host_ok :: "(string \<Rightarrow> string option) \<Rightarrow> request \<Rightarrow> origin_policy \<Rightarrow> bool" where
  "host_ok hostname q p =
     (case q_host q of None \<Rightarrow> False
      | Some raw \<Rightarrow> (case hostOf hostname raw of None \<Rightarrow> False
          | Some h \<Rightarrow> loopbackName h \<or> names_host hostname (op_hosts p) h))"

definition origin_ok :: "(string \<Rightarrow> string option) \<Rightarrow> request \<Rightarrow> origin_policy \<Rightarrow> string \<Rightarrow> bool" where
  "origin_ok hostname q p raw =
     (case hostOf hostname raw of None \<Rightarrow> False
      | Some origin \<Rightarrow>
          if loopbackName origin then True
          else if names_host hostname (op_origins p) origin then True
          else \<not> isLoopback (op_host p) \<and>
               (case q_host q of None \<Rightarrow> False | Some h \<Rightarrow> hostOf hostname h = Some origin))"

text \<open>\<open>None\<close> is the ordinary case, \<open>Some code\<close> the refusal.\<close>

definition originProblem :: "(string \<Rightarrow> string option) \<Rightarrow> request \<Rightarrow> origin_policy \<Rightarrow> string option" where
  "originProblem hostname q p =
     (if isLoopback (op_host p) \<and> \<not> host_ok hostname q p then Some ''host_not_allowed''
      else (case q_origin q of
              None \<Rightarrow> None
            | Some raw \<Rightarrow> if origin_ok hostname q p raw then None else Some ''origin_not_allowed''))"

text \<open>The value of \<open>access-control-allow-origin\<close>, with which goes \<open>vary: Origin\<close>.\<close>

definition corsHeaders :: "(string \<Rightarrow> string option) \<Rightarrow> request \<Rightarrow> origin_policy \<Rightarrow> string option" where
  "corsHeaders hostname q p =
     (case q_origin q of None \<Rightarrow> None
      | Some raw \<Rightarrow> if originProblem hostname q p \<noteq> None then None else Some raw)"

section \<open>Credentials\<close>

text \<open>The comparison in time independent of where the texts differ.\<close>

definition timingSafe :: "string \<Rightarrow> string \<Rightarrow> bool" where
  "timingSafe a b =
     (if length a \<noteq> length b then False
      else foldl (\<lambda>diff (x, y). diff OR (char_code x XOR char_code y)) (0 :: nat) (zip a b) = 0)"

definition presentedToken :: "request \<Rightarrow> string" where
  "presentedToken q =
     (let h = (case q_auth q of None \<Rightarrow> [] | Some x \<Rightarrow> x) in if starts_with ''Bearer '' h then drop 7 h else [])"

datatype refusal = Unauthorized | Claim_spent | Forbidden capability

definition claim_presented :: "key_state \<Rightarrow> string \<Rightarrow> bool" where
  "claim_presented st presented = (case ticket st of None \<Rightarrow> False | Some t \<Rightarrow> timingSafe presented (ct_token t))"

definition authorise ::
  "(string \<Rightarrow> string) \<Rightarrow> string option \<Rightarrow> key_state \<Rightarrow> request \<Rightarrow> string \<Rightarrow> int \<Rightarrow> (refusal + principal) \<times> key_state" where
  "authorise sha expected st q path at =
     (let presented = presentedToken q
      in if (case expected of None \<Rightarrow> False | Some e \<Rightarrow> timingSafe presented e) then (Inr P_token, st)
         else if presented = [] then (Inl Unauthorized, st)
         else (case key_findLive (key_rows st) (sha presented) at of
             Some r \<Rightarrow> (Inr (P_key (k_id r) (Some (k_label r)) (toKeyScope (k_scope r))),
                        st\<lparr>key_rows := key_touch (key_rows st) (k_id r) at\<rparr>)
           | None \<Rightarrow>
               if claim_presented st presented
               then (if q_method q \<noteq> ''POST'' \<or> path \<noteq> ''/v1/keys'' then (Inl Unauthorized, st)
                     else if (case ticket st of None \<Rightarrow> False | Some t \<Rightarrow> \<not> ticket_live t) then (Inl Claim_spent, st)
                     else (Inr P_claim, st))
               else (Inl Unauthorized, st)))"

section \<open>The gate of a route\<close>

definition WEB_PATHS :: "string list" where
  "WEB_PATHS = [''/'', ''/assets/app.js'', ''/assets/app.css'']"

definition isOpenPath :: "string \<Rightarrow> bool" where
  "isOpenPath path \<longleftrightarrow> path = ''/v1/health'' \<or> path = ''/v1/ready'' \<or> starts_with ''/v1/channels/'' path \<or>
     path \<in> set WEB_PATHS \<or> path = ''/docs'' \<or> path = ''/v1/openapi.json''"

record server =
  sv_keys :: key_state
  sv_closed :: bool

definition authRequired :: "string option \<Rightarrow> server \<Rightarrow> bool \<times> server" where
  "authRequired token sv =
     (if token \<noteq> None \<or> sv_closed sv then (True, sv)
      else (let c = 0 < key_liveCount (key_rows (sv_keys sv)) in (c, sv\<lparr>sv_closed := c\<rparr>)))"

definition resolve_caller ::
  "(string \<Rightarrow> string) \<Rightarrow> string option \<Rightarrow> server \<Rightarrow> request \<Rightarrow> string \<Rightarrow> capability option \<Rightarrow> int \<Rightarrow> (refusal + principal) \<times> server" where
  "resolve_caller sha token sv q path cap at =
     (if isOpenPath path then (Inr P_open, sv)
      else (let (req, sv1) = authRequired token sv
        in if \<not> req then (Inr P_open, sv1)
           else (let (who, ks) = authorise sha token (sv_keys sv1) q path at; sv2 = sv1\<lparr>sv_keys := ks\<rparr>
             in case who of
                  Inl e \<Rightarrow> (Inl e, sv2)
                | Inr P_claim \<Rightarrow> (Inr P_claim, sv2)
                | Inr p \<Rightarrow> (case cap of None \<Rightarrow> (Inr p, sv2)
                     | Some c \<Rightarrow> if can p c then (Inr p, sv2) else (Inl (Forbidden c), sv2)))))"

section \<open>Routes of plugins\<close>

record 'h plugin_route =
  pr_plugin :: string
  pr_method :: string
  pr_path :: string
  pr_capability :: "capability option"
  pr_root :: "string option"
  pr_handler :: 'h

definition plugin_slug :: "string \<Rightarrow> bool" where
  "plugin_slug s = (case s of [] \<Rightarrow> False | c # r \<Rightarrow> (is_lower c \<or> is_digit c) \<and>
     list_all (\<lambda>d. is_lower d \<or> is_digit d \<or> d = CHR ''-'') r)"

definition checkedRoute :: "string \<Rightarrow> 'h plugin_route \<Rightarrow> 'h plugin_route list \<Rightarrow> 'h plugin_route option" where
  "checkedRoute plugin r already =
     (if \<not> plugin_slug plugin then None
      else if \<not> starts_with ''/'' (pr_path r) \<or> includes_str ''..'' (pr_path r) \<or> includes_str ''//'' (pr_path r) then None
      else if list_ex (\<lambda>o'. pr_method o' = pr_method r \<and> pr_path o' = pr_path r) already then None
      else Some (r\<lparr>pr_plugin := plugin\<rparr>))"

type_synonym 'h hosted = "(string \<times> 'h plugin_route list) list"

text \<open>\<open>/^\/v1\/agents\/([^/]+)\/plugins\/([^/]+)(\/.*)?$/\<close> on a path without line ends.\<close>

definition plugin_prefix :: "string \<Rightarrow> (string \<times> string \<times> string) option" where
  "plugin_prefix path =
     (case split_on (CHR ''/'') path of
        e # v # a # i # p # n # rest \<Rightarrow>
          if e = [] \<and> v = ''v1'' \<and> a = ''agents'' \<and> i \<noteq> [] \<and> p = ''plugins'' \<and> n \<noteq> []
          then Some (i, n, (if rest = [] then ''/'' else CHR ''/'' # join_with ''/'' rest)) else None
      | _ \<Rightarrow> None)"

text \<open>\<open>Inl ()\<close> where \<open>decodeURIComponent\<close> throws; \<open>Inr None\<close> where no plugin answers.\<close>

definition pluginRouteFor :: "'h hosted \<Rightarrow> string \<Rightarrow> string \<Rightarrow> unit + (string \<times> 'h plugin_route) option" where
  "pluginRouteFor agents meth path =
     (case plugin_prefix path of
        Some (i, n, rest) \<Rightarrow>
          (if agents = [] then Inr None
           else (case decodeURIComponent i of
             None \<Rightarrow> Inl ()
           | Some us \<Rightarrow> Inr (case find (\<lambda>(a, rs). map char_code a = us) agents of
                 None \<Rightarrow> None
               | Some (a, rs) \<Rightarrow> map_option (\<lambda>r. (a, r))
                   (find (\<lambda>r. pr_plugin r = n \<and> pr_method r = meth \<and> pr_path r = rest) rs))))
      | None \<Rightarrow>
          (case concat (map (\<lambda>(a, rs). map (\<lambda>r. (a, r)) (filter (\<lambda>r. pr_root r = Some path \<and> pr_method r = meth) rs)) agents) of
             [c] \<Rightarrow> Inr (Some c) | _ \<Rightarrow> Inr None))"

datatype plugin_caller = Caller_operator | Caller_key string string | Caller_anonymous

section \<open>Dispatch\<close>

datatype 'h reply =
    Ran 'h path_params principal
  | Ran_plugin 'h string plugin_caller
  | Preflight "string list"
  | Refused nat
  | Threw

record 'h config =
  cf_routes :: "'h route list"
  cf_agents :: "'h hosted"
  cf_token :: "string option"
  cf_origin :: "origin_policy option"

definition refusal_status :: "refusal \<Rightarrow> nat" where
  "refusal_status e = (case e of Forbidden _ \<Rightarrow> 403 | _ \<Rightarrow> 401)"

definition refuseOrigin :: "(string \<Rightarrow> string option) \<Rightarrow> request \<Rightarrow> 'h config \<Rightarrow> bool" where
  "refuseOrigin hostname q cf = (case cf_origin cf of None \<Rightarrow> False | Some p \<Rightarrow> originProblem hostname q p \<noteq> None)"

definition withCors :: "(string \<Rightarrow> string option) \<Rightarrow> request \<Rightarrow> 'h config \<Rightarrow> string option" where
  "withCors hostname q cf = (case cf_origin cf of None \<Rightarrow> None | Some p \<Rightarrow> corsHeaders hostname q p)"

definition streamingAt :: "'h route list \<Rightarrow> string \<Rightarrow> bool" where
  "streamingAt rs path = (case route_match rs ''GET'' path of Found _ _ st _ \<Rightarrow> st | _ \<Rightarrow> False)"

text \<open>Origin, credential, handler: the last steps of both first-party branches.\<close>

definition run_route ::
  "(string \<Rightarrow> string option) \<Rightarrow> (string \<Rightarrow> string) \<Rightarrow> 'h config \<Rightarrow> server \<Rightarrow> request \<Rightarrow> string \<Rightarrow> int \<Rightarrow> 'h \<Rightarrow> path_params
   \<Rightarrow> capability option \<Rightarrow> 'h reply \<times> string option \<times> server" where
  "run_route hostname sha cf sv q path at h ps cap =
     (if refuseOrigin hostname q cf then (Refused 403, None, sv)
      else (let (who, sv') = resolve_caller sha (cf_token cf) sv q path cap at
        in case who of Inl e \<Rightarrow> (Refused (refusal_status e), None, sv')
                     | Inr p \<Rightarrow> (Ran h ps p, withCors hostname q cf, sv')))"

definition dispatchPlugin ::
  "(string \<Rightarrow> string option) \<Rightarrow> (string \<Rightarrow> string) \<Rightarrow> 'h config \<Rightarrow> server \<Rightarrow> request \<Rightarrow> string \<Rightarrow> int \<Rightarrow> string \<Rightarrow> 'h plugin_route
   \<Rightarrow> 'h reply \<times> string option \<times> server" where
  "dispatchPlugin hostname sha cf sv q path at agent r =
     (let (who, sv') = (case pr_capability r of None \<Rightarrow> (Inr P_open, sv)
                        | Some c \<Rightarrow> resolve_caller sha (cf_token cf) sv q path (Some c) at)
      in case who of
           Inl e \<Rightarrow> (Refused (refusal_status e), withCors hostname q cf, sv')
         | Inr p \<Rightarrow>
             if p = P_claim \<or> \<not> reachesAgent p agent then (Refused 404, withCors hostname q cf, sv')
             else (Ran_plugin (pr_handler r) agent
                     (case p of P_key i l _ \<Rightarrow> Caller_key i (case l of None \<Rightarrow> [] | Some x \<Rightarrow> x)
                      | _ \<Rightarrow> if pr_capability r = None then Caller_anonymous else Caller_operator),
                   withCors hostname q cf, sv'))"

text \<open>The common tail: plugins, then the route table.\<close>

definition dispatch_tail ::
  "(string \<Rightarrow> string option) \<Rightarrow> (string \<Rightarrow> string) \<Rightarrow> 'h config \<Rightarrow> server \<Rightarrow> request \<Rightarrow> string \<Rightarrow> int \<Rightarrow> string
   \<Rightarrow> 'h reply \<times> string option \<times> server" where
  "dispatch_tail hostname sha cf sv q path at meth =
     (case pluginRouteFor (cf_agents cf) meth path of
        Inl _ \<Rightarrow> (Threw, None, sv)
      | Inr (Some (agent, r)) \<Rightarrow>
          if refuseOrigin hostname q cf then (Refused 403, None, sv)
          else dispatchPlugin hostname sha cf sv q path at agent r
      | Inr None \<Rightarrow>
          (case route_match (cf_routes cf) meth path of
             Other_method _ \<Rightarrow> (Refused 405, None, sv)
           | No_route \<Rightarrow> (Refused 404, None, sv)
           | Found h ps st cap \<Rightarrow> run_route hostname sha cf sv q path at h ps cap))"

definition dispatch_request ::
  "(string \<Rightarrow> string option) \<Rightarrow> (string \<Rightarrow> string) \<Rightarrow> 'h config \<Rightarrow> server \<Rightarrow> request \<Rightarrow> int \<Rightarrow> 'h reply \<times> string option \<times> server" where
  "dispatch_request hostname sha cf sv q at =
     (case q_path q of
        None \<Rightarrow> (Refused 400, None, sv)
      | Some path \<Rightarrow>
          (let meth = to_upper (q_method q); tail = dispatch_tail hostname sha cf sv q path at meth
           in if meth = ''OPTIONS'' then
                (case route_match (cf_routes cf) ''OPTIONS'' path of
                   Other_method allowed \<Rightarrow>
                     (let streams = (case route_match (cf_routes cf) ''HEAD'' path of Other_method _ \<Rightarrow> streamingAt (cf_routes cf) path | _ \<Rightarrow> False)
                      in (Preflight (allowed @ (if ''GET'' \<in> set allowed \<and> \<not> streams then [''HEAD''] else []) @ [''OPTIONS'']),
                          withCors hostname q cf, sv))
                 | _ \<Rightarrow> tail)
              else if meth = ''HEAD'' then
                (case route_match (cf_routes cf) ''GET'' path of
                   Found h ps st cap \<Rightarrow>
                     if st then (Refused 405, None, sv) else run_route hostname sha cf sv q path at h ps cap
                 | _ \<Rightarrow> tail)
              else tail))"

section \<open>The constant-time comparison\<close>

lemma or_zero: "(x OR y = (0 :: nat)) \<longleftrightarrow> x = 0 \<and> y = 0"
  by (metis or_eq_0_iff)

lemma xor_zero: "(x XOR y = (0 :: nat)) \<longleftrightarrow> x = y"
  by (metis xor_self_eq xor.right_neutral xor.assoc xor.commute)

lemma timingSafe_fold:
  "foldl (\<lambda>diff (x, y). diff OR (char_code x XOR char_code y)) d (zip a b) = (0 :: nat) \<longleftrightarrow>
   d = 0 \<and> (\<forall>(x, y) \<in> set (zip a b). x = y)"
proof (induction a arbitrary: b d)
  case Nil
  then show ?case by simp
next
  case (Cons x a)
  then show ?case by (cases b) (auto simp: or_zero xor_zero of_char_eq_iff)
qed

lemma timingSafe_eq: "timingSafe a b \<longleftrightarrow> a = b"
proof (cases "length a = length b")
  case True
  then have "a = b \<longleftrightarrow> (\<forall>(x, y) \<in> set (zip a b). x = y)"
    by (induction a b rule: list_induct2) auto
  with True show ?thesis by (simp add: timingSafe_def timingSafe_fold)
qed (auto simp: timingSafe_def)

section \<open>What admits a request\<close>

definition live_row :: "key_row \<Rightarrow> int \<Rightarrow> bool" where
  "live_row r at \<longleftrightarrow> k_revoked r = None \<and> (case k_expires r of None \<Rightarrow> True | Some e \<Rightarrow> at < e)"

text \<open>No credential is asked for: the server has neither token nor key and never saw one.\<close>

definition asks_nothing :: "string option \<Rightarrow> server \<Rightarrow> bool" where
  "asks_nothing token sv \<longleftrightarrow> token = None \<and> \<not> sv_closed sv \<and> list_all (\<lambda>r. k_revoked r \<noteq> None) (key_rows (sv_keys sv))"

definition admitted ::
  "(string \<Rightarrow> string) \<Rightarrow> string option \<Rightarrow> server \<Rightarrow> request \<Rightarrow> string \<Rightarrow> capability option \<Rightarrow> int \<Rightarrow> principal \<Rightarrow> bool" where
  "admitted sha token sv q path cap at who =
     (case who of
        P_open \<Rightarrow> isOpenPath path \<or> asks_nothing token sv
      | P_token \<Rightarrow> token = Some (presentedToken q)
      | P_claim \<Rightarrow> q_method q = ''POST'' \<and> path = ''/v1/keys'' \<and>
          ticket (sv_keys sv) = Some \<lparr>ct_token = presentedToken q, ct_spent = False\<rparr>
      | P_key i l sc \<Rightarrow> (case cap of None \<Rightarrow> True | Some c \<Rightarrow> can who c) \<and>
          list_ex (\<lambda>r. k_id r = i \<and> l = Some (k_label r) \<and> k_print r = sha (presentedToken q) \<and> live_row r at \<and>
                       sc = toKeyScope (k_scope r)) (key_rows (sv_keys sv)))"

lemma authRequired_cases:
  "authRequired token sv = (req, sv1) \<Longrightarrow> sv_keys sv1 = sv_keys sv \<and> (req \<or> asks_nothing token sv)"
  by (auto simp: authRequired_def asks_nothing_def key_liveCount_def list_all_iff Let_def filter_empty_conv split: if_splits)

lemma authorise_admits:
  assumes "authorise sha token (sv_keys sv) q path at = (Inr who, ks)" "who \<noteq> P_claim \<longrightarrow> (case cap of None \<Rightarrow> True | Some c \<Rightarrow> can who c)"
  shows "admitted sha token sv q path cap at who"
proof (cases "token = Some (presentedToken q)")
  case True
  with assms show ?thesis by (auto simp: authorise_def admitted_def timingSafe_eq)
next
  case nt: False
  then have t: "\<not> (case token of None \<Rightarrow> False | Some e \<Rightarrow> timingSafe (presentedToken q) e)"
    by (auto simp: timingSafe_eq split: option.splits)
  show ?thesis
  proof (cases "key_findLive (key_rows (sv_keys sv)) (sha (presentedToken q)) at")
    case (Some r)
    have live: "r \<in> set (key_rows (sv_keys sv))" "k_print r = sha (presentedToken q)" "live_row r at"
      using findLive_row [OF Some] by (simp_all add: live_row_def)
    have "who = P_key (k_id r) (Some (k_label r)) (toKeyScope (k_scope r))"
      using assms(1) t Some by (auto simp: authorise_def Let_def split: if_splits)
    with assms(2) live show ?thesis by (auto simp: admitted_def list_ex_iff)
  next
    case None
    with assms(1) t show ?thesis
      by (auto simp: authorise_def admitted_def timingSafe_eq claim_presented_def ticket_live_def Let_def
            split: if_splits option.splits)
  qed
qed

lemma resolve_admits:
  assumes "resolve_caller sha token sv q path cap at = (Inr who, sv')"
  shows "admitted sha token sv q path cap at who"
proof (cases "isOpenPath path")
  case True
  with assms show ?thesis by (simp add: resolve_caller_def admitted_def)
next
  case False
  obtain req sv1 where a: "authRequired token sv = (req, sv1)" by fastforce
  show ?thesis
  proof (cases req)
    case False
    with assms a \<open>\<not> isOpenPath path\<close> authRequired_cases [OF a] show ?thesis by (simp add: resolve_caller_def admitted_def)
  next
    case True
    obtain w ks where w: "authorise sha token (sv_keys sv1) q path at = (w, ks)" by fastforce
    have k: "sv_keys sv1 = sv_keys sv" using authRequired_cases [OF a] by simp
    have "w = Inr who" "who \<noteq> P_claim \<longrightarrow> (case cap of None \<Rightarrow> True | Some c \<Rightarrow> can who c)"
      using assms a w True False
      by (auto simp: resolve_caller_def Let_def split: sum.splits principal.splits option.splits if_splits)
    with w k show ?thesis by (metis authorise_admits)
  qed
qed

section \<open>Nothing runs unguarded\<close>

definition answered_safely :: "(string \<Rightarrow> string option) \<Rightarrow> (string \<Rightarrow> string) \<Rightarrow> 'h config \<Rightarrow> server \<Rightarrow> request \<Rightarrow> int \<Rightarrow> 'h reply \<Rightarrow> bool" where
  "answered_safely hostname sha cf sv q at ans =
     (case (ans, q_path q) of
        (Ran h ps who, Some path) \<Rightarrow> \<not> refuseOrigin hostname q cf \<and>
          list_ex (\<lambda>r. r_handler r = h \<and> matchSegments (r_segments r) (path_segments path) = Some ps \<and>
                       admitted sha (cf_token cf) sv q path (r_capability r) at who) (cf_routes cf)
      | (Ran_plugin h agent caller, Some path) \<Rightarrow> \<not> refuseOrigin hostname q cf \<and>
          list_ex (\<lambda>(a, rs). a = agent \<and> list_ex (\<lambda>r. pr_handler r = h \<and>
              (case pr_capability r of
                 None \<Rightarrow> caller = Caller_anonymous
               | Some c \<Rightarrow> (case caller of
                   Caller_key i l \<Rightarrow> \<exists>sc. admitted sha (cf_token cf) sv q path (Some c) at (P_key i (Some l) sc) \<and>
                                          reachesAgent (P_key i (Some l) sc) agent
                 | Caller_operator \<Rightarrow> admitted sha (cf_token cf) sv q path (Some c) at P_open \<or>
                                      admitted sha (cf_token cf) sv q path (Some c) at P_token
                 | Caller_anonymous \<Rightarrow> False))) rs) (cf_agents cf)
      | (Ran _ _ _, None) \<Rightarrow> False
      | (Ran_plugin _ _ _, None) \<Rightarrow> False
      | _ \<Rightarrow> True)"

lemma cors_allowed: "withCors hostname q cf = Some origin \<Longrightarrow> q_origin q = Some origin \<and> \<not> refuseOrigin hostname q cf"
  by (auto simp: withCors_def refuseOrigin_def corsHeaders_def split: option.splits if_splits)

lemma run_route_safe:
  assumes "route_match (cf_routes cf) meth path = Found h ps st cap" "q_path q = Some path"
    and "run_route hostname sha cf sv q path at h ps cap = (ans, cors, sv')"
  shows "answered_safely hostname sha cf sv q at ans \<and> (cors = None \<or> cors = withCors hostname q cf)"
proof -
  obtain r where r: "r \<in> set (cf_routes cf)" "r_handler r = h" "r_capability r = cap"
      "matchSegments (r_segments r) (path_segments path) = Some ps"
    using router_decides [of "cf_routes cf" meth path] assms(1) by auto
  obtain who g where g: "resolve_caller sha (cf_token cf) sv q path cap at = (who, g)" by fastforce
  show ?thesis
  proof (cases "refuseOrigin hostname q cf")
    case True
    with assms show ?thesis by (auto simp: run_route_def answered_safely_def)
  next
    case False
    show ?thesis
    proof (cases who)
      case (Inl e)
      with assms g False show ?thesis by (auto simp: run_route_def answered_safely_def)
    next
      case (Inr p)
      with assms g False resolve_admits [of sha "cf_token cf" sv q path cap at p g] r show ?thesis
        by (auto simp: run_route_def answered_safely_def list_ex_iff)
    qed
  qed
qed

lemma plugin_route_hosted:
  assumes "pluginRouteFor agents meth path = Inr (Some (agent, r))"
  shows "list_ex (\<lambda>(a, rs). a = agent \<and> r \<in> set rs) agents"
proof (cases "plugin_prefix path")
  case (Some x)
  obtain i n rest where x: "x = (i, n, rest)" by (cases x)
  with assms Some obtain us a rs where
    f: "find (\<lambda>(a, rs). map char_code a = us) agents = Some (a, rs)"
    and g: "find (\<lambda>r. pr_plugin r = n \<and> pr_method r = meth \<and> pr_path r = rest) rs = Some r" and "a = agent"
    by (auto simp: pluginRouteFor_def split: if_splits option.splits)
  with find_id [OF f] find_id [OF g] show ?thesis by (auto simp: list_ex_iff)
next
  case None
  let ?c = "concat (map (\<lambda>(a, rs). map (\<lambda>r. (a, r)) (filter (\<lambda>r. pr_root r = Some path \<and> pr_method r = meth) rs)) agents)"
  have "?c = [(agent, r)]" using assms None by (auto simp: pluginRouteFor_def split: list.splits)
  then have "(agent, r) \<in> set ?c" by simp
  then show ?thesis by (auto simp: list_ex_iff)
qed

lemma dispatchPlugin_safe:
  assumes "pluginRouteFor (cf_agents cf) meth path = Inr (Some (agent, r))" "q_path q = Some path" "\<not> refuseOrigin hostname q cf"
    and "dispatchPlugin hostname sha cf sv q path at agent r = (ans, cors, sv')"
  shows "answered_safely hostname sha cf sv q at ans \<and> (cors = None \<or> cors = withCors hostname q cf)"
proof -
  obtain rs where rs: "(agent, rs) \<in> set (cf_agents cf)" "r \<in> set rs"
    using plugin_route_hosted [OF assms(1)] by (auto simp: list_ex_iff)
  show ?thesis
  proof (cases "pr_capability r")
    case None
    with assms rs show ?thesis
      by (auto simp: dispatchPlugin_def answered_safely_def list_ex_iff reachesAgent_def intro!: bexI [of _ "(agent, rs)"] bexI [of _ r])
  next
    case (Some c)
    obtain who g where g: "resolve_caller sha (cf_token cf) sv q path (Some c) at = (who, g)" by fastforce
    show ?thesis
    proof (cases who)
      case (Inl e)
      with assms Some g show ?thesis by (auto simp: dispatchPlugin_def answered_safely_def)
    next
      case (Inr p)
      have adm: "admitted sha (cf_token cf) sv q path (Some c) at p" using resolve_admits g Inr by metis
      have lab: "l \<noteq> None" if "p = P_key i l sc" for i l sc using adm that by (auto simp: admitted_def list_ex_iff)
      have ok: "answered_safely hostname sha cf sv q at (Ran_plugin (pr_handler r) agent caller)"
        if "p \<noteq> P_claim" "reachesAgent p agent" "caller = (case p of P_key i l _ \<Rightarrow> Caller_key i (case l of None \<Rightarrow> [] | Some x \<Rightarrow> x) | _ \<Rightarrow> Caller_operator)"
        for caller
      proof -
        have "case caller of
             Caller_key i l \<Rightarrow> \<exists>sc. admitted sha (cf_token cf) sv q path (Some c) at (P_key i (Some l) sc) \<and> reachesAgent (P_key i (Some l) sc) agent
           | Caller_operator \<Rightarrow> admitted sha (cf_token cf) sv q path (Some c) at P_open \<or> admitted sha (cf_token cf) sv q path (Some c) at P_token
           | Caller_anonymous \<Rightarrow> False"
          using that adm lab by (cases p) auto
        then show ?thesis using rs assms(2,3) Some
          by (auto simp: answered_safely_def list_ex_iff intro!: bexI [of _ "(agent, rs)"] bexI [of _ r])
      qed
      show ?thesis
      proof (cases "p = P_claim \<or> \<not> reachesAgent p agent")
        case True
        with assms(4) Some g Inr show ?thesis by (auto simp: dispatchPlugin_def answered_safely_def)
      next
        case False
        then have "ans = Ran_plugin (pr_handler r) agent (case p of P_key i l _ \<Rightarrow> Caller_key i (case l of None \<Rightarrow> [] | Some x \<Rightarrow> x) | _ \<Rightarrow> Caller_operator)"
          "cors = withCors hostname q cf"
          using assms(4) Some g Inr by (cases p; simp add: dispatchPlugin_def)+
        with ok False show ?thesis by blast
      qed
    qed
  qed
qed

lemma tail_safe:
  assumes "q_path q = Some path" "dispatch_tail hostname sha cf sv q path at meth = (ans, cors, sv')"
  shows "answered_safely hostname sha cf sv q at ans \<and> (cors = None \<or> cors = withCors hostname q cf)"
proof (cases "pluginRouteFor (cf_agents cf) meth path")
  case (Inl u)
  with assms show ?thesis by (auto simp: dispatch_tail_def answered_safely_def)
next
  case (Inr x)
  show ?thesis
  proof (cases x)
    case None
    show ?thesis
    proof (cases "route_match (cf_routes cf) meth path")
      case (Found h ps st cap)
      have "run_route hostname sha cf sv q path at h ps cap = (ans, cors, sv')"
        using assms(2) Inr None Found by (simp add: dispatch_tail_def)
      from run_route_safe [OF Found assms(1) this] show ?thesis .
    qed (use assms Inr None in \<open>auto simp: dispatch_tail_def answered_safely_def\<close>)
  next
    case (Some ar)
    obtain agent r where ar: "ar = (agent, r)" by (cases ar)
    show ?thesis
    proof (cases "refuseOrigin hostname q cf")
      case True
      with assms Inr Some ar show ?thesis by (auto simp: dispatch_tail_def answered_safely_def)
    next
      case False
      have p: "pluginRouteFor (cf_agents cf) meth path = Inr (Some (agent, r))" using Inr Some ar by simp
      moreover have "dispatchPlugin hostname sha cf sv q path at agent r = (ans, cors, sv')"
        using assms(2) p False by (simp add: dispatch_tail_def)
      ultimately show ?thesis using dispatchPlugin_safe [OF p assms(1) False] by blast
    qed
  qed
qed

lemma dispatch_safe:
  assumes "dispatch_request hostname sha cf sv q at = (ans, cors, sv')"
  shows "answered_safely hostname sha cf sv q at ans \<and> (cors = None \<or> cors = withCors hostname q cf)"
proof (cases "q_path q")
  case None
  with assms show ?thesis by (auto simp: dispatch_request_def answered_safely_def)
next
  case (Some path)
  let ?m = "to_upper (q_method q)"
  let ?tail = "dispatch_tail hostname sha cf sv q path at ?m"
  from Some have d: "dispatch_request hostname sha cf sv q at = ?tail \<or>
      (\<exists>ms. dispatch_request hostname sha cf sv q at = (Preflight ms, withCors hostname q cf, sv)) \<or>
      dispatch_request hostname sha cf sv q at = (Refused 405, None, sv) \<or>
      (\<exists>h ps st cap. route_match (cf_routes cf) ''GET'' path = Found h ps st cap \<and>
         dispatch_request hostname sha cf sv q at = run_route hostname sha cf sv q path at h ps cap)"
    by (auto simp: dispatch_request_def Let_def split: matched.split)
  then consider (tail) "?tail = (ans, cors, sv')" | (flat) "(\<exists>ms. ans = Preflight ms) \<or> ans = Refused 405" "cors = None \<or> cors = withCors hostname q cf"
    | (head) h ps st cap where "route_match (cf_routes cf) ''GET'' path = Found h ps st cap"
        "run_route hostname sha cf sv q path at h ps cap = (ans, cors, sv')"
    using assms by auto
  then show ?thesis
  proof cases
    case tail
    then show ?thesis by (rule tail_safe [OF Some])
  next
    case flat
    then show ?thesis by (auto simp: answered_safely_def)
  next
    case head
    then show ?thesis by (rule run_route_safe [OF _ Some])
  qed
qed

text \<open>C8. Whatever request arrives, a handler runs only after the origin check passed and for a caller the route admits:
  anybody on an open path or while the server asks for no credential, the bearer of the server's token, the bearer of an
  unspent claim on the one route that mints a key, or the bearer of an operator key that is neither revoked nor expired
  and has the capability of the route; a plugin moreover only for an agent the key reaches. And a response lets a page
  read it only where the origin check passed, naming exactly the origin of the request.\<close>

theorem dispatch_guarded:
  "case dispatch_request hostname sha cf sv q at of (ans, cors, sv') \<Rightarrow>
     answered_safely hostname sha cf sv q at ans \<and>
     (case cors of None \<Rightarrow> True | Some origin \<Rightarrow> q_origin q = Some origin \<and> \<not> refuseOrigin hostname q cf)"
proof -
  obtain ans cors sv' where d: "dispatch_request hostname sha cf sv q at = (ans, cors, sv')" by (cases "dispatch_request hostname sha cf sv q at")
  have "case cors of None \<Rightarrow> True | Some origin \<Rightarrow> q_origin q = Some origin \<and> \<not> refuseOrigin hostname q cf"
    using dispatch_safe [OF d] cors_allowed [of hostname q cf] by (cases "withCors hostname q cf") auto
  with dispatch_safe [OF d] show ?thesis by (simp add: d)
qed

section \<open>Anonymous callers\<close>

lemma match_from_literal: "match_from m (e # es) (a # as) = Some ps \<Longrightarrow> \<not> starts_with '':'' e \<Longrightarrow> a = e"
  by (auto split: if_splits)

text \<open>A route below \<open>/v1\<close> whose second segment is a word none of the open paths has.\<close>

definition protected_route :: "'h route \<Rightarrow> bool" where
  "protected_route r = (case r_segments r of
     v # w # _ \<Rightarrow> v = ''v1'' \<and> \<not> starts_with '':'' w \<and> w \<notin> {''health'', ''ready'', ''channels'', ''openapi.json''}
   | _ \<Rightarrow> False)"

lemma open_path_segments:
  assumes "isOpenPath path"
  shows "(\<exists>w. path_segments path = [''v1'', w] \<and> w \<in> {''health'', ''ready'', ''openapi.json''}) \<or>
         (\<exists>r. path_segments path = ''v1'' # ''channels'' # r) \<or> (\<forall>w r. path_segments path \<noteq> ''v1'' # w # r)"
proof (cases "starts_with ''/v1/channels/'' path")
  case True
  then obtain r where "path = ''/v1/channels/'' @ r" by (auto simp: starts_with_iff)
  then show ?thesis by (simp add: path_segments_def split: list.split)
next
  case False
  with assms have "path \<in> {''/v1/health'', ''/v1/ready'', ''/'', ''/assets/app.js'', ''/assets/app.css'', ''/docs'', ''/v1/openapi.json''}"
    by (auto simp: isOpenPath_def WEB_PATHS_def)
  then show ?thesis by (auto simp: path_segments_def)
qed

lemma open_path_unprotected:
  assumes "isOpenPath path" "protected_route r" shows "matchSegments (r_segments r) (path_segments path) = None"
proof -
  obtain w ws where r: "r_segments r = ''v1'' # w # ws" "\<not> starts_with '':'' w" "w \<notin> {''health'', ''ready'', ''channels'', ''openapi.json''}"
    using assms(2) by (auto simp: protected_route_def split: list.splits)
  show ?thesis
  proof (cases "matchSegments (r_segments r) (path_segments path)")
    case (Some ps)
    then have "length (path_segments path) = Suc (Suc (length ws))"
      by (simp add: matchSegments_def r(1) split: if_splits)
    then obtain a b rest where p: "path_segments path = a # b # rest" by (metis length_Suc_conv)
    then have m: "match_from Map.empty (''v1'' # w # ws) (a # b # rest) = Some ps"
      using Some unfolding matchSegments_def r(1) p by (metis option.distinct(1))
    have "a = ''v1''" using match_from_literal [OF m] by simp
    moreover from m have "match_from Map.empty (w # ws) (b # rest) = Some ps"
      by (subst (asm) match_from.simps(2)) (simp del: match_from.simps split: if_splits)
    then have "b = w" using match_from_literal r(2) by blast
    ultimately show ?thesis using open_path_segments [OF assms(1)] p r(3) by auto
  qed simp
qed

text \<open>A request without a bearer token, on a server whose own token is not empty, is nobody's: it is let past
  the gate of a path only where the path is open or no credential is asked for.\<close>

lemma resolve_nobody:
  assumes "presentedToken q = []" "token \<noteq> Some []" "resolve_caller sha token sv q path cap at = (Inr who, sv')"
  shows "who = P_open \<and> (isOpenPath path \<or> asks_nothing token sv)"
proof (cases "isOpenPath path")
  case False
  obtain req sv1 where a: "authRequired token sv = (req, sv1)" by fastforce
  have "authorise sha token (sv_keys sv1) q path at = (Inl Unauthorized, sv_keys sv1)"
    using assms(1,2) by (auto simp: authorise_def timingSafe_eq split: option.splits)
  with assms(3) a False authRequired_cases [OF a] show ?thesis by (cases req) (auto simp: resolve_caller_def)
qed (use assms(3) in \<open>simp add: resolve_caller_def\<close>)

definition served_to_nobody :: "'h config \<Rightarrow> server \<Rightarrow> string \<Rightarrow> 'h reply \<Rightarrow> bool" where
  "served_to_nobody cf sv path ans =
     (case ans of
        Ran h ps who \<Rightarrow> who = P_open \<and>
          (asks_nothing (cf_token cf) sv \<or>
           isOpenPath path \<and> list_ex (\<lambda>r. r_handler r = h \<and> \<not> protected_route r) (cf_routes cf))
      | Ran_plugin h agent caller \<Rightarrow>
          asks_nothing (cf_token cf) sv \<or> isOpenPath path \<or>
          caller = Caller_anonymous \<and>
          list_ex (\<lambda>(a, rs). a = agent \<and> list_ex (\<lambda>r. pr_handler r = h \<and> pr_capability r = None) rs) (cf_agents cf)
      | _ \<Rightarrow> True)"

lemma run_route_nobody:
  assumes "presentedToken q = []" "cf_token cf \<noteq> Some []" "route_match (cf_routes cf) meth path = Found h ps st cap"
    and "run_route hostname sha cf sv q path at h ps cap = (ans, cors, sv')"
  shows "served_to_nobody cf sv path ans"
proof -
  obtain r where r: "r \<in> set (cf_routes cf)" "r_handler r = h" "matchSegments (r_segments r) (path_segments path) = Some ps"
    using router_decides [of "cf_routes cf" meth path] assms(3) by auto
  have open_route: "list_ex (\<lambda>r. r_handler r = h \<and> \<not> protected_route r) (cf_routes cf)" if "isOpenPath path"
    using r open_path_unprotected [OF that, of r] by (auto simp: list_ex_iff)
  obtain who g where g: "resolve_caller sha (cf_token cf) sv q path cap at = (who, g)" by fastforce
  show ?thesis
  proof (cases who)
    case (Inl e)
    with g assms(4) show ?thesis by (auto simp: run_route_def served_to_nobody_def split: if_splits)
  next
    case (Inr p)
    from resolve_nobody [OF assms(1,2)] g Inr have "p = P_open \<and> (isOpenPath path \<or> asks_nothing (cf_token cf) sv)" by blast
    with g Inr assms(4) open_route show ?thesis by (auto simp: run_route_def served_to_nobody_def split: if_splits)
  qed
qed

lemma dispatchPlugin_nobody:
  assumes "presentedToken q = []" "cf_token cf \<noteq> Some []" "pluginRouteFor (cf_agents cf) meth path = Inr (Some (agent, r))"
    and "dispatchPlugin hostname sha cf sv q path at agent r = (ans, cors, sv')"
  shows "served_to_nobody cf sv path ans"
proof -
  obtain rs where rs: "(agent, rs) \<in> set (cf_agents cf)" "r \<in> set rs"
    using plugin_route_hosted [OF assms(3)] by (auto simp: list_ex_iff)
  show ?thesis
  proof (cases "pr_capability r")
    case None
    have "list_ex (\<lambda>(a, rs). a = agent \<and> list_ex (\<lambda>r'. pr_handler r' = pr_handler r \<and> pr_capability r' = None) rs) (cf_agents cf)"
      unfolding list_ex_iff by (rule bexI [OF _ rs(1)]) (use rs(2) None in \<open>auto simp: list_ex_iff\<close>)
    moreover have "ans = Ran_plugin (pr_handler r) agent Caller_anonymous"
      using None assms(4) by (simp add: dispatchPlugin_def reachesAgent_def)
    ultimately show ?thesis by (simp add: served_to_nobody_def)
  next
    case (Some c)
    obtain who g where g: "resolve_caller sha (cf_token cf) sv q path (Some c) at = (who, g)" by fastforce
    show ?thesis
    proof (cases who)
      case (Inl e)
      with g Some assms(4) show ?thesis by (auto simp: dispatchPlugin_def served_to_nobody_def)
    next
      case (Inr p)
      from resolve_nobody [OF assms(1,2)] g Inr have "isOpenPath path \<or> asks_nothing (cf_token cf) sv" by blast
      with g Inr Some assms(4) show ?thesis
        by (auto simp: dispatchPlugin_def served_to_nobody_def split: if_splits)
    qed
  qed
qed

lemma tail_nobody:
  assumes "presentedToken q = []" "cf_token cf \<noteq> Some []" "dispatch_tail hostname sha cf sv q path at meth = (ans, cors, sv')"
  shows "served_to_nobody cf sv path ans"
proof (cases "pluginRouteFor (cf_agents cf) meth path")
  case (Inl u)
  with assms(3) show ?thesis by (auto simp: dispatch_tail_def served_to_nobody_def)
next
  case (Inr x)
  show ?thesis
  proof (cases x)
    case None
    show ?thesis
    proof (cases "route_match (cf_routes cf) meth path")
      case (Found h ps st cap)
      have "run_route hostname sha cf sv q path at h ps cap = (ans, cors, sv')"
        using assms(3) Inr None Found by (simp add: dispatch_tail_def)
      from run_route_nobody [OF assms(1,2) Found this] show ?thesis .
    qed (use assms(3) Inr None in \<open>auto simp: dispatch_tail_def served_to_nobody_def\<close>)
  next
    case (Some ar)
    obtain agent r where ar: "ar = (agent, r)" by (cases ar)
    have p: "pluginRouteFor (cf_agents cf) meth path = Inr (Some (agent, r))" using Inr Some ar by simp
    then consider "ans = Refused 403" | "dispatchPlugin hostname sha cf sv q path at agent r = (ans, cors, sv')"
      using assms(3) by (auto simp: dispatch_tail_def split: if_splits)
    then show ?thesis
    proof cases
      case 2
      then show ?thesis by (rule dispatchPlugin_nobody [OF assms(1,2) p])
    qed (simp add: served_to_nobody_def)
  qed
qed

lemma dispatch_cases:
  assumes "q_path q = Some path" "dispatch_request hostname sha cf sv q at = (ans, cors, sv')"
  obtains (tail) "dispatch_tail hostname sha cf sv q path at (to_upper (q_method q)) = (ans, cors, sv')"
    | (flat) "(\<exists>ms. ans = Preflight ms) \<or> ans = Refused 405"
    | (head) h ps st cap where "route_match (cf_routes cf) ''GET'' path = Found h ps st cap"
        "run_route hostname sha cf sv q path at h ps cap = (ans, cors, sv')"
  using assms by (auto simp: dispatch_request_def Let_def split: matched.splits if_splits)

text \<open>C9. A request that carries no credential reaches a handler only while the server asks for none (it has
  no token, holds no key and has not held one since it started), on one of the open paths, by a route below
  one of their words, or on a route that a plugin declares open. The server's own token is not the empty text.\<close>

theorem no_anonymous_access:
  assumes "dispatch_request hostname sha cf sv q at = (ans, cors, sv')" "q_path q = Some path"
    and "presentedToken q = []" "cf_token cf \<noteq> Some []"
  shows "served_to_nobody cf sv path ans"
  using assms(2,1)
proof (cases rule: dispatch_cases)
  case tail
  then show ?thesis by (rule tail_nobody [OF assms(3,4)])
next
  case head
  then show ?thesis by (rule run_route_nobody [OF assms(3,4)])
qed (auto simp: served_to_nobody_def)

definition demo_config :: "nat config" where
  "demo_config = \<lparr>cf_routes = add_route [] ''GET'' ''/v1/agents'' 1 (Some Cap_read) None, cf_agents = [], cf_token = None, cf_origin = None\<rparr>"

definition demo_request :: "string \<Rightarrow> string \<Rightarrow> request" where
  "demo_request meth path = \<lparr>q_method = meth, q_path = Some path, q_auth = None, q_host = None, q_origin = None\<rparr>"

definition fresh_server :: server where
  "fresh_server = \<lparr>sv_keys = \<lparr>key_rows = [], ticket = None\<rparr>, sv_closed = False\<rparr>"

lemmas run_simps = dispatch_request_def dispatch_tail_def run_route_def resolve_caller_def authRequired_def refuseOrigin_def
  withCors_def pluginRouteFor_def plugin_prefix_def route_match_def matchSegments_def path_segments_def add_route_def
  to_upper_def upper_char_def is_lower_def isOpenPath_def WEB_PATHS_def key_liveCount_def Let_def

theorem no_anonymous_access_witness:
  "dispatch_request (\<lambda>_. None) (\<lambda>x. x) demo_config fresh_server (demo_request ''GET'' ''/v1/agents'') 0 =
     (Ran 1 Map.empty P_open, None, fresh_server) \<and> asks_nothing (cf_token demo_config) fresh_server"
proof -
  have e: "dispatch_request (\<lambda>_. None) (\<lambda>x. x) demo_config fresh_server (demo_request ''GET'' ''/v1/agents'') 0 =
     (Ran 1 Map.empty P_open, None, fresh_server)"
    by (simp add: demo_config_def demo_request_def fresh_server_def run_simps)
  have "served_to_nobody demo_config fresh_server ''/v1/agents'' (Ran 1 Map.empty P_open)"
    by (rule no_anonymous_access [OF e]) (simp_all add: demo_config_def demo_request_def presentedToken_def)
  with e show ?thesis by (simp add: served_to_nobody_def isOpenPath_def WEB_PATHS_def)
qed

section \<open>Findings\<close>

text \<open>A path parameter the router would not match makes the dispatcher itself throw.\<close>

theorem malformed_escape_throws:
  "fst (dispatch_request hostname sha (demo_config\<lparr>cf_agents := [(''milo'', [])]\<rparr>) fresh_server
     (demo_request ''GET'' ''/v1/agents/%zz/plugins/a2a'') at) = Threw \<and>
   route_match (cf_routes demo_config) ''GET'' ''/v1/agents/%zz/plugins/a2a'' = No_route"
  by (simp add: demo_config_def demo_request_def run_simps decodeURIComponent_def is_hex_def is_digit_def)

text \<open>A root path a plugin claims is looked up before the route table, and registration accepts any: an open one on a
  path of the server answers there instead of the server, to callers without a credential.\<close>

definition shadow :: "nat plugin_route" where
  "shadow = \<lparr>pr_plugin = ''x'', pr_method = ''GET'', pr_path = ''/'', pr_capability = None, pr_root = Some ''/v1/agents'', pr_handler = 7\<rparr>"

theorem plugin_root_shadows:
  "checkedRoute ''x'' shadow [] = Some shadow \<and>
   fst (dispatch_request hostname sha (demo_config\<lparr>cf_agents := [(''milo'', [shadow])], cf_token := Some ''secret''\<rparr>) fresh_server
     (demo_request ''GET'' ''/v1/agents'') at) = Ran_plugin 7 ''milo'' Caller_anonymous"
  by (simp add: demo_config_def demo_request_def run_simps shadow_def checkedRoute_def plugin_slug_def dispatchPlugin_def reachesAgent_def)

text \<open>An allowed origin is compared by its host alone: any scheme and port of that host passes.\<close>

theorem allowed_origin_any_port:
  assumes "hostname ''https://app.example'' = Some ''app.example''" "hostname ''http://app.example:9999'' = Some ''app.example''"
  shows "origin_ok hostname q \<lparr>op_host = ''0.0.0.0'', op_origins = [''https://app.example''], op_hosts = []\<rparr> ''http://app.example:9999''"
proof -
  have t: "trim ''https://app.example'' = ''https://app.example''" "trim ''http://app.example:9999'' = ''http://app.example:9999''"
    by (simp_all add: trim_def trim_start_def trim_end_def is_space_def)
  show ?thesis
    by (simp add: origin_ok_def names_host_def hostOf_def t assms to_lower_def lower_char_def is_upper_def Let_def)
qed

end
