(* ===== verification/Spec2Isabelle.thy ===== *)
theory Spec2Isabelle
  imports Scheduler_Runs Session Outbox_Delivery Policy Semver Lease Webhooks Turn_Streams Phases Text_Tools Sse Ladder Assemble Execute Guard
begin

text \<open>
  \<^bold>\<open>Dispach: a runtime for agents, and what is verified of it.\<close>

  The repository is a TypeScript monorepo. Its core, \<open>src/packages/core/src\<close>, runs agents: a message comes in over
  a channel, becomes a turn of a session, calls tools under a policy, and its reply goes out through a durable
  outbox; schedules start turns on their own; webhooks and attached clients are told what happens. This library
  models the parts of the core that decide something: pure functions as HOL functions, the tables of the store as
  lists of records, the long-running components as state records with step relations. All paths below are relative
  to \<open>src/packages/core/src\<close>.

  \<^bold>\<open>Foundations.\<close>
  \<^item> \<open>Prelude\<close>: the JavaScript strings and numbers the sources use, as lists of UTF-16 code units below 256 and
    unbounded integers; collections of rewrite rules; error codes and results.
  \<^item> \<open>Regex\<close>: the regular expressions of the sources, run by a backtracking matcher over positions.
  \<^item> \<open>Number64\<close>: the rounding of binary64 arithmetic on rationals, for the sources that compute with fractions.
  \<^item> \<open>Calendar\<close>, \<open>Zone\<close>: civil time and \<open>schedule/zone.ts\<close>. A time zone is its offset function.

  \<^bold>\<open>Schedules\<close> (\<open>schedule/\<close>).
  \<^item> \<open>Cron\<close>, \<open>Cron_Search\<close>: the parser and the next-occurrence search of \<open>cron.ts\<close>. The search takes fuel, one unit
    per visited month or day: 1464 for the 1462 days of the horizon, shown to be enough in every zone
    (\<open>nextCron_terminates\<close>), so the result is that of the loop.
  \<^item> \<open>Schedule\<close>: \<open>duration.ts\<close> and \<open>kinds.ts\<close>, with the 32-bit hash of the jitter as a word.
  \<^item> \<open>Schedule_Store\<close>: the \<open>schedules\<close> methods of \<open>store/sqlite/store.ts\<close>. The locale \<open>schedule_store\<close> states the laws the
    scheduler relies on; \<open>sqlite_schedules\<close> interprets it on the model of the table.
  \<^item> \<open>Scheduler\<close>, \<open>Scheduler_Runs\<close>: \<open>scheduler.ts\<close> as a step relation over wakes, runs, boots, crashes and store
    writes, its invariant by rule induction, and what follows from it.

  \<^bold>\<open>Messages in and out.\<close>
  \<^item> \<open>Trust\<close>: \<open>tools/sanitise.ts\<close> and the untrusted fence of \<open>tools/trust.ts\<close>.
  \<^item> \<open>Session\<close>: session keys (\<open>store/session-key.ts\<close>), senders (\<open>loop/sender.ts\<close>) and the inbox (\<open>channels/inbox.ts\<close>).
  \<^item> \<open>Split\<close>: \<open>channels/split.ts\<close>; the segmenter of graphemes is a parameter. Its loop takes fuel, one unit per code
    unit, shown to be enough above twelve units per message, and never enough for a fenced reply at twelve
    (\<open>split_hangs\<close>).
  \<^item> \<open>Outbox_Store\<close>, \<open>Outbox\<close>, \<open>Outbox_Delivery\<close>: the outbox table with its locale \<open>outbox_store\<close> and the
    interpretation \<open>sqlite_outbox\<close>; enqueueing and attempts of \<open>channels/outbox.ts\<close>, an attempt being three steps (claim
    and hand over, the transport's answer, its record in the table) between which the process may die; and what
    holds over every interleaving of enqueues, drains, crashes and recoveries. A recovery is a step at any time, as
    the reload of an agent in a running process makes it while sends are out.

  \<^bold>\<open>Context\<close> (\<open>context/\<close>).
  \<^item> \<open>Tokens\<close>: the estimator of \<open>tokens.ts\<close>, exact although it divides in binary64; its calibration and the pressure of
    \<open>budget.ts\<close>; the walk of \<open>activate.ts\<close>. \<open>Ids\<close>: the content-derived ids of \<open>ids.ts\<close>.
  \<^item> \<open>Compaction\<close>: the five stages of \<open>compaction/stages.ts\<close>. The locale \<open>compaction_stage\<close> is the contract the ladder relies
    on (costs add up, the person's messages and the protected tail survive), interpreted for each stage.
  \<^item> \<open>Ladder\<close>: \<open>compaction/ladder.ts\<close>, the check of its thresholds in \<open>manifest/validate.ts\<close> and the tail \<open>loop/turn.ts\<close>
    protects. The compactor, a model call, is a parameter that may be absent, fail or answer nothing.
  \<^item> \<open>Assemble\<close>: \<open>assemble.ts\<close> over the slots of \<open>blocks.ts\<close>: which blocks and messages a prompt holds, in which order, and
    that its cached prefix and its steps are stable. \<open>Scopes\<close>: \<open>memory/scopes.ts\<close>, which memory a turn may read.

  \<^bold>\<open>Guards.\<close>
  \<^item> \<open>Address\<close>: \<open>net/address.ts\<close>, IP literals against the table of special networks.
  \<^item> \<open>Policy\<close>: \<open>tools/policy.ts\<close>, from the rule language to the decision of a call. The pattern of a rule is rewritten to
    the text of a regular expression as the source does, and that text is parsed and run.
  \<^item> \<open>Coerce\<close>: \<open>tools/coerce.ts\<close>, from what a model wrote to typed arguments or the list of all its problems, with the
    texts of numbers as ECMAScript writes and reads them.
  \<^item> \<open>Registry\<close>: \<open>tools/registry.ts\<close>, the catalogue as it is created from what providers answer, its lookups and budget.
  \<^item> \<open>Execute\<close>: \<open>tools/execute.ts\<close> and the composition of \<open>plugins/middleware.ts\<close>: a step of calls from intents to results.
    What a handler, an approver, a queue and a middleware do is an argument; the calls of a group run concurrently, and
    \<open>step_logs\<close> is the set of all interleavings of their events. A middleware awaits the \<open>next\<close> it calls before it goes
    on; calling it twice at once, or without awaiting it, is not modelled. \<open>write_gate\<close> joins it with \<open>Policy\<close>.
  \<^item> \<open>Semver\<close>: \<open>plugins/semver.ts\<close>.
  \<^item> \<open>Lease\<close>: the lease table and \<open>runtime/lease.ts\<close>; the probe of a process is a parameter.
  \<^item> \<open>Phases\<close>: \<open>loop/phases.ts\<close>.

  \<^bold>\<open>The server\<close> (\<open>src/packages/server/src\<close>).
  \<^item> \<open>Principal\<close>: who calls and how far a scoped key reaches (\<open>principal.ts\<close>), the table of operator keys with its locale
    \<open>credential_store\<close> and the interpretation \<open>sqlite_keys\<close>, the one-time claim and the route that mints a key; and the
    scope of a usage total, SQLite's \<open>LIKE\<close> included, against what the caller reaches turn by turn.
  \<^item> \<open>Percent\<close>, \<open>Router\<close>: percent coding, and \<open>router.ts\<close> against its specification \<open>match_spec\<close>.
  \<^item> \<open>Guard\<close>: \<open>origin.ts\<close>, \<open>auth.ts\<close> and the dispatcher of \<open>handler.ts\<close> with the routes of plugins, up to the call of a
    handler: \<open>dispatch_guarded\<close> composes them. The URL parser and SHA-256 are parameters.

  \<^bold>\<open>Observers.\<close>
  \<^item> \<open>Webhook_Target\<close>, \<open>Webhooks\<close>: \<open>webhooks/webhooks.ts\<close> and its tables. Hash, signature, URL parser, name lookup and the
    endpoint's answers are parameters.
  \<^item> \<open>Event_Bus\<close>: \<open>events/bus.ts\<close>. The locale \<open>bus_handlers\<close> states what dispatch needs of a handler; it is interpreted
    for scripted handlers (\<open>scripted_bus\<close>) and, in \<open>Turn_Streams\<close>, for the turn streams themselves (\<open>streams_bus\<close>).
  \<^item> \<open>Turn_Streams\<close>: \<open>store/buffer.ts\<close> on that bus: the replay buffers, their listeners, the counted interest in
    tokens, and the gapless handover of an attachment.
  \<^item> \<open>Sse\<close>: server-sent events from both ends, \<open>model/sse.ts\<close> and the server's \<open>packages/server/src/sse.ts\<close>: what one
    frames the other reads, whatever the chunks, and the teardown of a response stream.

  \<^bold>\<open>Helpers.\<close> \<open>Text_Tools\<close>: \<open>nearest.ts\<close>, whose distance is the least number of edits, and \<open>text.ts\<close>.

  \<^bold>\<open>What the lemmas show.\<close> Each theory first proves how its operations behave on every branch, then an invariant of its
  state, then its properties. The invariants are \<open>sched_inv\<close> (no two runs of a schedule), \<open>ob_inv\<close> (the outbox table
  against the log of sends, answers and recoveries), \<open>wf_wstore\<close>, \<open>bus_inv\<close>, and \<open>plugged\<close> with \<open>streams_ok\<close> (the closures of the streams on the bus, the count of
  interest). The optimised routines are compared with reference definitions: the cron search with the set of named
  instants, the address tests with networks of numbers, the policy's regular expressions with globs. Where the code
  breaks a promise of its own comments, a theorem exhibits the input.

  \<^bold>\<open>Bounds of the model.\<close> Text is restricted to code units below 256. Timestamps, ISO texts in the tables, are
  milliseconds. Integers are exact, which agrees with the program below \<open>2^53\<close>; fractions are rounded
  as binary64 rounds them, without overflow and subnormal numbers. An \<open>await\<close> on the store ends in the same
  step, as the SQLite driver is synchronous; other awaits separate steps. Messages and hints of errors are reduced to
  their codes, except where a property is about them.

  \<^bold>\<open>Not modelled.\<close> The turn loop and the model clients, which order calls of services outside the program; the memory
  and ranking, which are full-text search of SQLite; manifest schemas and YAML editing, which are
  declarations of libraries; the wiring of \<open>runtime/\<close>; the other tables of the store; the bodies of the server's routes,
  the command line, the web interface and the channel packages.
\<close>

end
